(* ===== verification/Prelude.thy ===== *)
theory Prelude
  imports Main "HOL-Library.Word"
begin

text \<open>
  Shared vocabulary of the development: the machine integers of the C sources, the
  fact collections the component proofs draw on, the loop combinators that stand for
  the bounded \<open>for\<close> loops of the server, and generic lemmas on lists and words.
\<close>

unbundle bit_operations_syntax

section \<open>Machine integers and constants\<close>

type_synonym u8 = "8 word"
type_synonym u16 = "16 word"
type_synonym u64 = "64 word"
type_synonym bytes = "u8 list"

abbreviation (input) MAX_PLAYERS :: nat where "MAX_PLAYERS \<equiv> 4"
abbreviation (input) MAX_DEPARTING :: nat where "MAX_DEPARTING \<equiv> 4"

section \<open>Fact collections\<close>

named_theorems wf_intros \<open>well-formedness rules, one per operation\<close>
named_theorems frame_simps \<open>fields an operation does not touch\<close>

section \<open>Loop combinators\<close>

text \<open>
  \<open>for_slots f\<close> is \<open>for (int i = 0; i < MAX_PLAYERS; i++)\<close> with a body that always runs
  to its end; \<open>for_until\<close> is a loop whose body may \<open>return\<close> or \<open>break\<close>: the body
  answers whether to stop.
\<close>

definition for_slots :: "(nat \<Rightarrow> 's \<Rightarrow> 's) \<Rightarrow> 's \<Rightarrow> 's" where
  "for_slots f s = fold f [0..<MAX_PLAYERS] s"

fun for_until :: "('a \<Rightarrow> 's \<Rightarrow> bool \<times> 's) \<Rightarrow> 'a list \<Rightarrow> 's \<Rightarrow> bool \<times> 's" where
  "for_until f [] s = (False, s)"
| "for_until f (x # xs) s =
     (case f x s of (stop, s') \<Rightarrow> if stop then (True, s') else for_until f xs s')"

lemma fold_invariant_on:
  assumes "\<And>x s. x \<in> set xs \<Longrightarrow> P s \<Longrightarrow> P (f x s)" and "P s"
  shows "P (fold f xs s)"
  using assms
proof (induction xs arbitrary: s)
  case Nil
  then show ?case by simp
next
  case (Cons x xs)
  have "P (f x s)" using Cons.prems by simp
  moreover have "\<And>z t. z \<in> set xs \<Longrightarrow> P t \<Longrightarrow> P (f z t)" using Cons.prems(1) by simp
  ultimately have "P (fold f xs (f x s))" by (rule Cons.IH [rotated])
  then show ?case by simp
qed

lemma for_slots_invariant:
  assumes "\<And>i s. i < MAX_PLAYERS \<Longrightarrow> P s \<Longrightarrow> P (f i s)" and "P s"
  shows "P (for_slots f s)"
  unfolding for_slots_def by (rule fold_invariant_on) (simp_all add: assms)

lemma for_until_invariant:
  assumes "\<And>x s. x \<in> set xs \<Longrightarrow> P s \<Longrightarrow> P (snd (f x s))" and "P s"
  shows "P (snd (for_until f xs s))"
  using assms
proof (induction xs arbitrary: s)
  case Nil
  then show ?case by simp
next
  case (Cons x xs)
  have head: "P (snd (f x s))" using Cons.prems by simp
  have tail: "\<And>z t. z \<in> set xs \<Longrightarrow> P t \<Longrightarrow> P (snd (f z t))" using Cons.prems(1) by simp
  have rest: "P (snd (for_until f xs (snd (f x s))))" using tail head by (rule Cons.IH)
  show ?case using head rest by (cases "f x s") simp
qed

lemma fold_preserves:
  assumes "\<And>x s. x \<in> set xs \<Longrightarrow> g (f x s) = g s"
  shows "g (fold f xs s) = g s"
  using assms by (induction xs arbitrary: s) simp_all

lemma for_slots_preserves:
  assumes "\<And>i s. i < MAX_PLAYERS \<Longrightarrow> g (f i s) = g s"
  shows "g (for_slots f s) = g s"
  unfolding for_slots_def by (rule fold_preserves) (simp add: assms)

text \<open>A loop invariant that knows the index.\<close>

lemma for_slots_index:
  assumes "P 0 s" "\<And>i s. i < MAX_PLAYERS \<Longrightarrow> P i s \<Longrightarrow> P (Suc i) (f i s)"
  shows "P MAX_PLAYERS (for_slots f s)"
proof -
  have "P n (fold f [0..<n] s)" if "n \<le> MAX_PLAYERS" for n
    using that
  proof (induction n)
    case 0
    then show ?case using assms(1) by simp
  next
    case (Suc n)
    then have "P n (fold f [0..<n] s)" by simp
    then have "P (Suc n) (f n (fold f [0..<n] s))" using Suc.prems by (intro assms(2)) simp_all
    then show ?case by simp
  qed
  from this [of MAX_PLAYERS] show ?thesis by (simp add: for_slots_def)
qed

lemma for_slots_unfold: "for_slots f s = f 3 (f 2 (f 1 (f 0 s)))"
  by (simp add: for_slots_def upt_conv_Cons numeral_3_eq_3 numeral_2_eq_2)

section \<open>Lists\<close>

lemma list_all_update:
  assumes "list_all P xs" and "P x"
  shows "list_all P (xs[i := x])"
  using assms by (auto simp: list_all_iff dest: set_update_subset_insert [THEN subsetD])

lemma list_all_tl: "list_all P xs \<Longrightarrow> list_all P (tl xs)"
  by (cases xs) simp_all

lemma list_all_hd: "list_all P xs \<Longrightarrow> xs \<noteq> [] \<Longrightarrow> P (hd xs)"
  by (cases xs) simp_all

lemma list_all_last: "list_all P xs \<Longrightarrow> xs \<noteq> [] \<Longrightarrow> P (last xs)"
  by (cases xs rule: rev_cases) simp_all

lemma list_all_butlast: "list_all P xs \<Longrightarrow> list_all P (butlast xs)"
  by (cases xs rule: rev_cases) simp_all

lemma list_all_nthD: "list_all P xs \<Longrightarrow> i < length xs \<Longrightarrow> P (xs ! i)"
  by (simp add: list_all_length)

definition modify :: "nat \<Rightarrow> ('a \<Rightarrow> 'a) \<Rightarrow> 'a list \<Rightarrow> 'a list" where
  "modify i f xs = xs[i := f (xs ! i)]"

lemma length_modify [simp]: "length (modify i f xs) = length xs"
  by (simp add: modify_def)

lemma nth_modify: "j < length xs \<Longrightarrow> modify i f xs ! j = (if i = j then f (xs ! j) else xs ! j)"
  by (auto simp: modify_def)

lemma nth_modify_other [simp]: "i \<noteq> j \<Longrightarrow> modify i f xs ! j = xs ! j"
  by (simp add: modify_def)

lemma map_modify: "(\<And>x. g (f x) = g x) \<Longrightarrow> map g (modify i f xs) = map g xs"
  by (rule nth_equalityI) (auto simp: nth_modify)

lemma list_all_modify:
  assumes "list_all P xs" and "i < length xs \<Longrightarrow> P (xs ! i) \<Longrightarrow> P (f (xs ! i))"
  shows "list_all P (modify i f xs)"
  using assms by (auto simp: list_all_length nth_modify)

lemma list_update_append_last: "(xs @ [y])[length xs := z] = xs @ [z]"
  by (simp add: list_update_append)

lemma list_update_last: "xs \<noteq> [] \<Longrightarrow> xs[length xs - 1 := y] = butlast xs @ [y]"
  by (cases xs rule: rev_cases) simp_all

lemma slot_cases: "i < MAX_PLAYERS \<Longrightarrow> i = 0 \<or> i = 1 \<or> i = 2 \<or> i = (3::nat)"
  by auto

section \<open>Words\<close>

lemma unat_less_pow: "unat (w :: 'a::len word) < 2 ^ LENGTH('a)"
  by (rule unsigned_less)

lemma u8_less_256 [simp]: "unat (w :: u8) < 256"
  using unsigned_less [of w] by simp

lemma u8_le_255: "unat (w :: u8) \<le> 255"
  using u8_less_256 [of w] by linarith

lemma of_nat_eq_u8: "n < 256 \<Longrightarrow> unat (of_nat n :: u8) = n"
  by (simp add: unat_of_nat)

lemma xor_right_cancel: "a XOR c = b XOR c \<longleftrightarrow> a = b" for a b c :: "'a::len word"
proof
  assume "a XOR c = b XOR c"
  then have "(a XOR c) XOR c = (b XOR c) XOR c" by simp
  then show "a = b" by (simp add: xor.assoc)
qed simp

lemma xor_left_cancel: "c XOR a = c XOR b \<longleftrightarrow> a = b" for a b c :: "'a::len word"
  using xor_right_cancel [of a c b] by (simp add: xor.commute)

lemma xor_eq_0: "a XOR b = 0 \<longleftrightarrow> a = b" for a b :: "'a::len word"
  using xor_right_cancel [of a b b] by simp

lemma mod_zero_between:
  assumes "m mod n = 0" "0 < m" "m < 2 * n"
  shows "m = (n :: nat)"
proof -
  obtain k where "m = n * k" using assms(1) by (auto simp: mod_eq_0_iff_dvd)
  moreover from this have "k < 2" "k \<noteq> 0" using assms(2,3) by auto
  ultimately show ?thesis by (cases k) auto
qed

lemma and_bit_mask: "w AND push_bit n 1 = (if bit w n then push_bit n 1 else (0 :: 'a::len word))"
  by (rule bit_word_eqI) (auto simp: bit_and_iff bit_exp_iff)

end
