(* ===== verification/Interfaces.thy ===== *)
theory Interfaces
  imports Prelude "HOL-Library.Sublist"
begin

text \<open>
  The contracts between the components, as locales: sequence numbers compared modulo the
  width (\<open>serial_window\<close>), bounded first-in first-out rings (\<open>bounded_fifo\<close>), framed byte
  streams (\<open>stream_codec\<close>) and machines with an invariant (\<open>invariant_machine\<close>). Each is
  interpreted by the theory of the component that provides it.
\<close>

section \<open>Serial numbers\<close>

text \<open>
  \<open>newer a b\<close> is the code's modular comparison: \<open>a\<close> is ahead of \<open>b\<close> by less than half
  the number space.
\<close>

locale serial_window =
  fixes newer :: "'a::len word \<Rightarrow> 'a word \<Rightarrow> bool" and half :: nat
  assumes newer_iff: "newer a b \<longleftrightarrow> a \<noteq> b \<and> unat (a - b) < half"
    and half_pos: "0 < half"
    and half_space: "2 * half = 2 ^ LENGTH('a)"
begin

lemma newer_irrefl: "\<not> newer a a"
  by (simp add: newer_iff)

lemma unat_diff_swap:
  fixes a b :: "'a word"
  assumes "a \<noteq> b"
  shows "unat (a - b) + unat (b - a) = 2 * half"
proof -
  let ?n = "2 ^ LENGTH('a) :: nat"
  have "unat ((a - b) + (b - a)) = (unat (a - b) + unat (b - a)) mod ?n"
    by (simp only: unat_word_ariths)
  then have dvd: "(unat (a - b) + unat (b - a)) mod ?n = 0" by simp
  have "unat (a - b) \<noteq> 0" using assms by (simp add: unat_eq_0)
  moreover have "unat (a - b) < ?n" "unat (b - a) < ?n" by (rule unsigned_less)+
  ultimately have "0 < unat (a - b) + unat (b - a)" "unat (a - b) + unat (b - a) < 2 * ?n"
    by linarith+
  then have "unat (a - b) + unat (b - a) = ?n"
    by (rule mod_zero_between [OF dvd])
  then show ?thesis using half_space by simp
qed

lemma newer_asym: "newer a b \<Longrightarrow> \<not> newer b a"
  using unat_diff_swap [of a b] by (auto simp: newer_iff)

lemma newer_shift: "newer (a + c) (b + c) \<longleftrightarrow> newer a b"
  by (simp add: newer_iff)

lemma newer_trans:
  assumes "newer a b" "newer b c" "unat (a - b) + unat (b - c) < half"
  shows "newer a c"
proof -
  have "unat ((a - b) + (b - c)) = (unat (a - b) + unat (b - c)) mod 2 ^ LENGTH('a)"
    by (simp only: unat_word_ariths)
  moreover have "unat (a - b) + unat (b - c) < 2 ^ LENGTH('a)" using assms(3) half_space by simp
  ultimately have u: "unat (a - c) = unat (a - b) + unat (b - c)" by simp
  moreover have "unat (a - b) \<noteq> 0" using assms(1) by (auto simp: newer_iff unat_eq_0)
  ultimately show ?thesis using assms(3) by (auto simp: newer_iff)
qed

text \<open>The next \<open>half - 1\<close> values are newer; the last \<open>half\<close> values and the value itself are not.\<close>

lemma newer_add:
  assumes "k < 2 * half"
  shows "newer (b + of_nat k) b \<longleftrightarrow> 0 < k \<and> k < half"
proof -
  have u: "unat (of_nat k :: 'a word) = k" using assms half_space by (simp add: unat_of_nat)
  have "of_nat k = (0 :: 'a word) \<longleftrightarrow> k = 0" using u by auto
  then show ?thesis using u by (auto simp: newer_iff)
qed

lemma not_newer_sub:
  assumes "k \<le> half"
  shows "\<not> newer (b - of_nat k) b"
proof
  assume new: "newer (b - of_nat k) b"
  then have ne: "b - of_nat k \<noteq> b" by (simp add: newer_iff)
  have "k < 2 * half" using assms half_pos by simp
  then have "unat (of_nat k :: 'a word) = k" using half_space by (simp add: unat_of_nat)
  moreover have "unat ((b - of_nat k) - b) + unat (b - (b - of_nat k)) = 2 * half"
    using ne by (rule unat_diff_swap)
  ultimately show False using new assms by (simp add: newer_iff)
qed

end

section \<open>Bounded rings\<close>

text \<open>
  A fixed-size array used as a queue through a head index and a count. \<open>items\<close> is the
  queue it stands for, oldest first.
\<close>

locale bounded_fifo =
  fixes invar :: "'q \<Rightarrow> bool" and items :: "'q \<Rightarrow> 'e list" and cap :: nat
    and enq :: "'e \<Rightarrow> 'q \<Rightarrow> 'q" and deq :: "'q \<Rightarrow> 'q"
  assumes items_bound: "invar q \<Longrightarrow> length (items q) \<le> cap"
    and items_enq: "invar q \<Longrightarrow> length (items q) < cap \<Longrightarrow> items (enq e q) = items q @ [e]"
    and invar_enq: "invar q \<Longrightarrow> length (items q) < cap \<Longrightarrow> invar (enq e q)"
    and items_deq: "invar q \<Longrightarrow> items q \<noteq> [] \<Longrightarrow> items (deq q) = tl (items q)"
    and invar_deq: "invar q \<Longrightarrow> items q \<noteq> [] \<Longrightarrow> invar (deq q)"
begin

lemma enq_all:
  "invar q \<Longrightarrow> length (items q) + length es \<le> cap \<Longrightarrow>
   items (fold enq es q) = items q @ es \<and> invar (fold enq es q)"
proof (induction es arbitrary: q)
  case Nil
  then show ?case by simp
next
  case (Cons e es)
  then have "invar (enq e q)" "items (enq e q) = items q @ [e]"
    by (simp_all add: invar_enq items_enq)
  then show ?case using Cons.IH [of "enq e q"] Cons.prems by simp
qed

lemma deq_all:
  "invar q \<Longrightarrow> n \<le> length (items q) \<Longrightarrow>
   items ((deq ^^ n) q) = drop n (items q) \<and> invar ((deq ^^ n) q)"
proof (induction n)
  case 0
  then show ?case by simp
next
  case (Suc n)
  then have IH: "items ((deq ^^ n) q) = drop n (items q)" "invar ((deq ^^ n) q)" by auto
  have ne: "items ((deq ^^ n) q) \<noteq> []" using IH(1) Suc.prems(2) by simp
  show ?case
    using items_deq [OF IH(2) ne] invar_deq [OF IH(2) ne] IH(1) by (simp add: drop_Suc tl_drop)
qed

text \<open>What went in comes out, in order.\<close>

lemma fifo_order:
  assumes "invar q" "length (items q) + length es \<le> cap"
  shows "items ((deq ^^ length (items q)) (fold enq es q)) = es"
  using enq_all [OF assms] deq_all [of "fold enq es q" "length (items q)"] by simp

end

text \<open>The queue a ring array stands for.\<close>

definition ring_items :: "'a list \<Rightarrow> nat \<Rightarrow> nat \<Rightarrow> 'a list" where
  "ring_items q head count = map (\<lambda>k. q ! ((head + k) mod length q)) [0..<count]"

lemma length_ring_items [simp]: "length (ring_items q h n) = n"
  by (simp add: ring_items_def)

lemma nth_ring_items: "k < n \<Longrightarrow> ring_items q h n ! k = q ! ((h + k) mod length q)"
  by (simp add: ring_items_def)

lemma ring_items_0 [simp]: "ring_items q h 0 = []"
  by (simp add: ring_items_def)

lemma ring_items_Nil_iff [simp]: "ring_items q h n = [] \<longleftrightarrow> n = 0"
  by (simp add: ring_items_def)

lemma ring_index_inj:
  assumes "i < m" "j < m" "(h + i) mod m = (h + j) mod m"
  shows "i = (j :: nat)"
proof -
  have le: "b - a = 0" if "a \<le> b" "b < m" "(h + a) mod m = (h + b) mod m" for a b :: nat
  proof -
    have "m dvd (h + b) - (h + a)" using that by (intro mod_eq_dvd_iff_nat [THEN iffD1]) auto
    then show ?thesis using that(2) by (auto dest!: dvd_imp_le)
  qed
  show ?thesis
  proof (cases "i \<le> j")
    case True
    then have "j - i = 0" using assms(2,3) by (rule le)
    then show ?thesis using True by simp
  next
    case False
    then have "j \<le> i" by simp
    then have "i - j = 0" using assms(1) assms(3) [symmetric] by (rule le)
    then show ?thesis using False by simp
  qed
qed

lemma ring_items_update:
  assumes "k < length q" "n \<le> length q"
  shows "ring_items (q[(h + k) mod length q := x]) h n = (ring_items q h n)[k := x]"
proof (rule nth_equalityI)
  fix j assume "j < length (ring_items (q[(h + k) mod length q := x]) h n)"
  then have j: "j < n" by simp
  have "0 < length q" using assms(1) by (cases q) auto
  moreover have "(h + j) mod length q = (h + k) mod length q \<longleftrightarrow> j = k"
    using ring_index_inj [of j "length q" k h] j assms by auto
  ultimately show "ring_items (q[(h + k) mod length q := x]) h n ! j = (ring_items q h n)[k := x] ! j"
    using j by (auto simp: nth_ring_items nth_list_update)
qed simp

lemma ring_items_push:
  assumes "n < length q"
  shows "ring_items (q[(h + n) mod length q := x]) h (Suc n) = ring_items q h n @ [x]"
proof -
  have "ring_items (q[(h + n) mod length q := x]) h (Suc n) = (ring_items q h (Suc n))[n := x]"
    using assms by (intro ring_items_update) auto
  also have "ring_items q h (Suc n) = ring_items q h n @ [q ! ((h + n) mod length q)]"
    by (simp add: ring_items_def)
  also have "(ring_items q h n @ [q ! ((h + n) mod length q)])[n := x] = ring_items q h n @ [x]"
    by (simp add: list_update_append)
  finally show ?thesis .
qed

lemma ring_items_pop:
  assumes "0 < n"
  shows "ring_items q (Suc h mod length q) (n - 1) = tl (ring_items q h n)"
proof (rule nth_equalityI)
  fix k assume "k < length (ring_items q (Suc h mod length q) (n - 1))"
  then have k: "k < n - 1" by simp
  have "(Suc h mod length q + k) mod length q = (h + Suc k) mod length q"
    by (simp add: mod_simps)
  then show "ring_items q (Suc h mod length q) (n - 1) ! k = tl (ring_items q h n) ! k"
    using k by (simp add: nth_ring_items nth_tl)
qed simp

lemma hd_ring_items: "0 < n \<Longrightarrow> h < length q \<Longrightarrow> hd (ring_items q h n) = q ! h"
  by (simp add: hd_conv_nth nth_ring_items)

section \<open>Framed byte streams\<close>

locale stream_codec =
  fixes enc :: "'m \<Rightarrow> 'b list" and feed :: "'s \<Rightarrow> 'b list \<Rightarrow> 'r list \<times> 's"
    and clean :: "'s \<Rightarrow> bool" and valid :: "'m \<Rightarrow> bool" and ev :: "'m \<Rightarrow> 'r"
  assumes feed_append: "feed s (xs @ ys) =
      (fst (feed s xs) @ fst (feed (snd (feed s xs)) ys), snd (feed (snd (feed s xs)) ys))"
    and feed_enc: "clean s \<Longrightarrow> valid m \<Longrightarrow> feed s (enc m) = ([ev m], s)"
begin

lemma feed_Nil: "clean s \<Longrightarrow> valid m \<Longrightarrow> fst (feed s []) = []"
proof -
  assume "clean s" "valid m"
  then have e: "feed s (enc m) = ([ev m], s)" by (rule feed_enc)
  have "feed s (enc m @ []) = ([ev m] @ fst (feed s []), snd (feed s []))"
    by (subst feed_append) (simp add: e)
  then show "fst (feed s []) = []" using e by simp
qed

lemma feed_encs:
  "clean s \<Longrightarrow> list_all valid ms \<Longrightarrow> ms \<noteq> [] \<Longrightarrow>
   feed s (concat (map enc ms)) = (map ev ms, s)"
proof (induction ms)
  case (Cons m ms)
  have e: "feed s (enc m) = ([ev m], s)" using Cons.prems by (simp add: feed_enc)
  show ?case
  proof (cases "ms = []")
    case True
    then show ?thesis using e by simp
  next
    case False
    then have "feed s (concat (map enc ms)) = (map ev ms, s)" using Cons by simp
    then show ?thesis using e feed_append [of s "enc m" "concat (map enc ms)"] by simp
  qed
qed simp

text \<open>A receiver that has read part of a stream has decoded a prefix of its messages.\<close>

lemma feed_prefix:
  assumes "clean s" "list_all valid ms" "ms \<noteq> []" "prefix bs (concat (map enc ms))"
  shows "prefix (fst (feed s bs)) (map ev ms)"
proof -
  obtain rest where rest: "concat (map enc ms) = bs @ rest" using assms(4) by (auto simp: prefix_def)
  have "map ev ms = fst (feed s (bs @ rest))" using feed_encs [OF assms(1-3)] rest by simp
  also have "\<dots> = fst (feed s bs) @ fst (feed (snd (feed s bs)) rest)"
    by (simp add: feed_append [of s bs rest])
  finally show ?thesis by (simp add: prefix_def)
qed

end

section \<open>Machines with an invariant\<close>

text \<open>A transition function with an event; \<open>reach\<close> is the least set of states it can get to.\<close>

inductive reach :: "('s \<Rightarrow> bool) \<Rightarrow> ('e \<Rightarrow> 's \<Rightarrow> 's) \<Rightarrow> 's \<Rightarrow> bool" for init step where
  reach_init: "init s \<Longrightarrow> reach init step s"
| reach_step: "reach init step s \<Longrightarrow> reach init step (step e s)"

locale invariant_machine =
  fixes init :: "'s \<Rightarrow> bool" and step :: "'e \<Rightarrow> 's \<Rightarrow> 's" and inv :: "'s \<Rightarrow> bool"
  assumes inv_init: "init s \<Longrightarrow> inv s"
    and inv_step: "inv s \<Longrightarrow> inv (step e s)"
begin

lemma inv_reach: "reach init step s \<Longrightarrow> inv s"
  by (induction rule: reach.induct) (simp_all add: inv_init inv_step)

lemma inv_run: "inv s \<Longrightarrow> inv (fold step es s)"
  by (induction es arbitrary: s) (simp_all add: inv_step)

lemma run_reach: "reach init step s \<Longrightarrow> reach init step (fold step es s)"
  by (induction es arbitrary: s) (simp_all add: reach_step)

end

end
