(* ===== verification/Wire.thy ===== *)
theory Wire
  imports Interfaces
begin

text \<open>
  Framing of \<^verbatim>\<open>net/tcp_stream.h\<close> and of \<^verbatim>\<open>cobs_encode\<close> in \<^verbatim>\<open>server/main.c\<close>:
  the CRC-16/CCITT-FALSE trailer, the COBS encoder, the in-place COBS decoder, and the
  byte-at-a-time frame receiver of the server. Lemmas: COBS round trip and absence of
  zero bytes, agreement of the in-place decoder with a list decoder, detection of every
  corruption that is confined to two adjacent bytes, and the framing laws.
\<close>

section \<open>CRC-16/CCITT-FALSE\<close>

definition crc_bit :: "u16 \<Rightarrow> u16" where
  "crc_bit crc = (if crc AND 0x8000 \<noteq> 0 then push_bit 1 crc XOR 0x1021 else push_bit 1 crc)"

definition crc_byte :: "u16 \<Rightarrow> u8 \<Rightarrow> u16" where
  "crc_byte crc b = (crc_bit ^^ 8) (crc XOR push_bit 8 (ucast b))"

definition crc16_ccitt_false :: "bytes \<Rightarrow> u16" where
  "crc16_ccitt_false data = foldl crc_byte 0xffff data"

text \<open>The two trailer bytes, low byte first.\<close>

definition crc_trailer :: "bytes \<Rightarrow> bytes" where
  "crc_trailer data =
     (let crc = crc16_ccitt_false data in [ucast crc, ucast (drop_bit 8 crc)])"

section \<open>COBS encoder\<close>

text \<open>
  The C loop writes \<open>out[wr++]\<close> and back-patches \<open>out[code_i]\<close>; \<open>wr\<close> is the length of
  the output so far and an unwritten code cell holds 0 until it is patched.
\<close>

fun cobs_loop :: "bytes \<Rightarrow> bytes \<Rightarrow> nat \<Rightarrow> u8 \<Rightarrow> bytes" where
  "cobs_loop [] out code_i code = out[code_i := code]"
| "cobs_loop (b # rest) out code_i code =
     (if b = 0 then cobs_loop rest (out[code_i := code] @ [0]) (length out) 1
      else let out1 = out @ [b]; code1 = code + 1 in
        if code1 = 0xFF then cobs_loop rest (out1[code_i := code1] @ [0]) (length out1) 1
        else cobs_loop rest out1 code_i code1)"

definition cobs_encode :: "bytes \<Rightarrow> bytes" where
  "cobs_encode data = cobs_loop data [0] 0 1"

section \<open>COBS decoder, in place\<close>

text \<open>The inner copy loop \<open>buf[wr++] = buf[rd++]\<close>, \<open>n\<close> times.\<close>

fun copy_down :: "bytes \<Rightarrow> nat \<Rightarrow> nat \<Rightarrow> nat \<Rightarrow> bytes" where
  "copy_down buf wr rd 0 = buf"
| "copy_down buf wr rd (Suc n) = copy_down (buf[wr := buf ! rd]) (Suc wr) (Suc rd) n"

function unstuff :: "bytes \<Rightarrow> nat \<Rightarrow> nat \<Rightarrow> nat \<Rightarrow> (bytes \<times> nat) option" where
  "unstuff buf len rd wr =
     (if rd < len then
        (let code = buf ! rd; rd1 = Suc rd; n = unat code - 1 in
         if code = 0 \<or> n > len - rd1 then None
         else let buf1 = copy_down buf wr rd1 n; wr1 = wr + n; rd2 = rd1 + n in
           if code \<noteq> 0xff \<and> rd2 < len then unstuff (buf1[wr1 := 0]) len rd2 (Suc wr1)
           else unstuff buf1 len rd2 wr1)
      else Some (buf, wr))"
  by pat_completeness auto
termination by (relation "measure (\<lambda>(buf, len, rd, wr). len - rd)") auto

declare unstuff.simps [simp del]

section \<open>The byte-at-a-time frame receiver\<close>

abbreviation (input) FRAME_CAP :: nat where "FRAME_CAP \<equiv> 66"

record tcp_frame_rx =
  fr_encoded :: bytes   \<comment> \<open>\<open>encoded[0..used)\<close>; \<open>used\<close> is its length\<close>
  fr_discarding :: bool

definition frame_rx_zero :: tcp_frame_rx where
  "frame_rx_zero = \<lparr>fr_encoded = [], fr_discarding = False\<rparr>"

text \<open>The three kinds of return value: 0, -1 and a positive payload length.\<close>

datatype frame_result = FrameIncomplete | FrameInvalid | FramePayload bytes

text \<open>The check of a complete unstuffed frame: length and CRC trailer.\<close>

definition check_frame :: "bytes \<Rightarrow> nat \<Rightarrow> nat \<Rightarrow> bytes option" where
  "check_frame buf wr cap =
     (if wr < 3 \<or> wr - 2 > cap then None
      else let crc = crc16_ccitt_false (take (wr - 2) buf) in
        if buf ! (wr - 2) \<noteq> ucast crc \<or> buf ! (wr - 1) \<noteq> ucast (drop_bit 8 crc) then None
        else Some (take (wr - 2) buf))"

definition tcp_frame_push_byte ::
  "tcp_frame_rx \<Rightarrow> u8 \<Rightarrow> nat \<Rightarrow> frame_result \<times> tcp_frame_rx" where
  "tcp_frame_push_byte st byte cap =
     (if byte \<noteq> 0 then
        (FrameIncomplete,
         if \<not> fr_discarding st then
           (if length (fr_encoded st) = FRAME_CAP then st\<lparr>fr_discarding := True\<rparr>
            else st\<lparr>fr_encoded := fr_encoded st @ [byte]\<rparr>)
         else st)
      else
        (let enc = fr_encoded st; len = length enc;
             invalid = fr_discarding st \<or> len = 0;
             st1 = st\<lparr>fr_encoded := [], fr_discarding := False\<rparr> in
         if invalid then (FrameInvalid, st1)
         else case unstuff enc len 0 0 of
             None \<Rightarrow> (FrameInvalid, st1)
           | Some (buf, wr) \<Rightarrow>
               (case check_frame buf wr cap of
                  None \<Rightarrow> (FrameInvalid, st1)
                | Some payload \<Rightarrow> (FramePayload payload, st1))))"

text \<open>Feeding a run of bytes collects the results that are not \<open>FrameIncomplete\<close>.\<close>

fun push_bytes :: "tcp_frame_rx \<Rightarrow> bytes \<Rightarrow> nat \<Rightarrow> frame_result list \<times> tcp_frame_rx" where
  "push_bytes st [] cap = ([], st)"
| "push_bytes st (b # bs) cap =
     (let (r, st1) = tcp_frame_push_byte st b cap; (rs, st2) = push_bytes st1 bs cap in
      (if r = FrameIncomplete then rs else r # rs, st2))"

text \<open>The bytes on the wire for a payload: trailer, COBS, delimiter.\<close>

definition encode_frame :: "bytes \<Rightarrow> bytes" where
  "encode_frame payload = cobs_encode (payload @ crc_trailer payload) @ [0]"

section \<open>Lemmas: the COBS codec\<close>

text \<open>A list decoder, the reference for the in-place one.\<close>

function cobs_decode :: "bytes \<Rightarrow> bytes option" where
  "cobs_decode [] = Some []"
| "cobs_decode (c # bs) =
     (if c = 0 \<or> length bs < unat c - 1 then None
      else let blk = take (unat c - 1) bs; rest = drop (unat c - 1) bs in
        map_option (\<lambda>r. blk @ (if c \<noteq> 0xff \<and> rest \<noteq> [] then [0] else []) @ r)
          (cobs_decode rest))"
  by pat_completeness auto
termination by (relation "measure length") auto

text \<open>The code byte of a block with \<open>n\<close> data bytes.\<close>

definition block_code :: "nat \<Rightarrow> u8" where
  "block_code n = of_nat (Suc n)"

text \<open>The encoder as a function of blocks, without back-patching.\<close>

fun cobs_blocks :: "bytes \<Rightarrow> bytes \<Rightarrow> bytes" where
  "cobs_blocks [] blk = block_code (length blk) # blk"
| "cobs_blocks (b # rest) blk =
     (if b = 0 then block_code (length blk) # blk @ cobs_blocks rest []
      else if length blk = 253 then 0xFF # blk @ [b] @ cobs_blocks rest []
      else cobs_blocks rest (blk @ [b]))"

lemma unat_block_code: "n < 255 \<Longrightarrow> unat (block_code n) = Suc n"
  unfolding block_code_def by (rule of_nat_eq_u8) simp

lemma block_code_0 [simp]: "block_code 0 = 1"
  by (simp add: block_code_def)

lemma block_code_plus_1 [simp]: "block_code n + 1 = block_code (Suc n)"
  by (simp add: block_code_def)

lemma block_code_nonzero: "n < 255 \<Longrightarrow> block_code n \<noteq> 0"
  using unat_block_code [of n] by auto

lemma block_code_full: "n < 255 \<Longrightarrow> block_code n = 0xFF \<longleftrightarrow> n = 254"
proof
  assume "n < 255" "block_code n = 0xFF"
  then have "unat (0xFF :: u8) = Suc n" using unat_block_code [of n] by simp
  then show "n = 254" by simp
qed (simp add: block_code_def)

lemma cobs_loop_blocks:
  "length blk \<le> 253 \<Longrightarrow>
   cobs_loop p (pre @ 0 # blk) (length pre) (block_code (length blk)) = pre @ cobs_blocks p blk"
proof (induction p blk arbitrary: pre rule: cobs_blocks.induct)
  case (1 blk)
  then show ?case by (simp add: list_update_append)
next
  case (2 b rest blk)
  have full: "block_code (Suc (length blk)) = 0xFF \<longleftrightarrow> length blk = 253"
    using "2.prems" by (simp add: block_code_full)
  consider "b = 0" | "b \<noteq> 0" "length blk = 253" | "b \<noteq> 0" "length blk \<noteq> 253" by blast
  then show ?case
  proof cases
    case 1
    then show ?thesis
      using "2.IH"(1) [of "pre @ block_code (length blk) # blk"]
      by (simp add: list_update_append)
  next
    case 2
    then show ?thesis
      using "2.IH"(2) [of "pre @ 0xFF # blk @ [b]"] full
      by (simp add: list_update_append Let_def)
  next
    case 3
    then show ?thesis
      using "2.IH"(3) [of pre] full "2.prems" by (simp add: Let_def)
  qed
qed

lemma cobs_encode_blocks: "cobs_encode p = cobs_blocks p []"
  using cobs_loop_blocks [of "[]" p "[]"] by (simp add: cobs_encode_def)

lemma cobs_blocks_nonempty [simp]: "cobs_blocks p blk \<noteq> []"
  by (induction p blk rule: cobs_blocks.induct) simp_all

lemma cobs_decode_blocks:
  "length blk \<le> 253 \<Longrightarrow> cobs_decode (cobs_blocks p blk) = Some (blk @ p)"
proof (induction p blk rule: cobs_blocks.induct)
  case (1 blk)
  then show ?case
    using unat_block_code [of "length blk"] block_code_nonzero [of "length blk"] by simp
next
  case (2 b rest blk)
  have code: "unat (block_code (length blk)) = Suc (length blk)" "block_code (length blk) \<noteq> 0"
    "block_code (length blk) \<noteq> 0xFF"
    using "2.prems" unat_block_code block_code_nonzero block_code_full [of "length blk"] by simp_all
  consider "b = 0" | "b \<noteq> 0" "length blk = 253" | "b \<noteq> 0" "length blk \<noteq> 253" by blast
  then show ?case
  proof cases
    case 1
    then show ?thesis using "2.IH"(1) code by (simp add: Let_def)
  next
    case 2
    then show ?thesis using "2.IH"(2) by (simp add: Let_def)
  next
    case 3
    then show ?thesis using "2.IH"(3) "2.prems" by simp
  qed
qed

lemma cobs_blocks_no_zero:
  "length blk \<le> 253 \<Longrightarrow> 0 \<notin> set blk \<Longrightarrow> 0 \<notin> set (cobs_blocks p blk)"
proof (induction p blk rule: cobs_blocks.induct)
  case (1 blk)
  then show ?case using block_code_nonzero [of "length blk"] by auto
next
  case (2 b rest blk)
  then show ?case using block_code_nonzero [of "length blk"] by auto
qed

lemma cobs_blocks_length:
  "length p + length blk \<le> 253 \<Longrightarrow> length (cobs_blocks p blk) = length p + length blk + 1"
  by (induction p blk rule: cobs_blocks.induct) auto

lemma cobs_encode_no_zero: "0 \<notin> set (cobs_encode p)"
  by (simp add: cobs_encode_blocks cobs_blocks_no_zero)

lemma cobs_encode_nonempty [simp]: "cobs_encode p \<noteq> []"
  by (simp add: cobs_encode_blocks)

lemma cobs_encode_length: "length p \<le> 253 \<Longrightarrow> length (cobs_encode p) = length p + 1"
  by (simp add: cobs_encode_blocks cobs_blocks_length)

section \<open>Lemmas: the in-place decoder\<close>

lemma copy_down_spec:
  "wr \<le> rd \<Longrightarrow> rd + n \<le> length buf \<Longrightarrow>
   copy_down buf wr rd n = take wr buf @ take n (drop rd buf) @ drop (wr + n) buf"
proof (induction n arbitrary: buf wr rd)
  case 0
  then show ?case by simp
next
  case (Suc n)
  have rd: "rd < length buf" using Suc.prems by simp
  have "copy_down buf wr rd (Suc n) = copy_down (buf[wr := buf ! rd]) (Suc wr) (Suc rd) n"
    by simp
  also have "\<dots> = take (Suc wr) (buf[wr := buf ! rd]) @ take n (drop (Suc rd) (buf[wr := buf ! rd]))
      @ drop (Suc wr + n) (buf[wr := buf ! rd])"
    using Suc.prems by (intro Suc.IH) auto
  also have "\<dots> = (take wr buf @ [buf ! rd]) @ take n (drop (Suc rd) buf) @ drop (Suc wr + n) buf"
    using Suc.prems by (simp add: take_Suc_conv_app_nth take_update_cancel drop_update_cancel)
  also have "\<dots> = take wr buf @ take (Suc n) (drop rd buf) @ drop (wr + Suc n) buf"
    using rd by (simp add: Cons_nth_drop_Suc [symmetric])
  finally show ?case .
qed

lemma unstuff_step:
  assumes "rd < len" and "n = unat (buf ! rd) - 1"
  shows "unstuff buf len rd wr =
    (if buf ! rd = 0 \<or> n > len - Suc rd then None
     else if buf ! rd \<noteq> 0xff \<and> Suc rd + n < len
       then unstuff ((copy_down buf wr (Suc rd) n)[wr + n := 0]) len (Suc rd + n) (Suc (wr + n))
       else unstuff (copy_down buf wr (Suc rd) n) len (Suc rd + n) (wr + n))"
  using assms(1) unfolding assms(2)
  by (subst unstuff.simps) (simp only: Let_def if_True)

lemma unstuff_spec:
  "wr \<le> rd \<Longrightarrow> rd \<le> length buf \<Longrightarrow>
   (case cobs_decode (drop rd buf) of
      None \<Rightarrow> unstuff buf (length buf) rd wr = None
    | Some d \<Rightarrow> \<exists>buf'. unstuff buf (length buf) rd wr = Some (buf', wr + length d) \<and>
                length buf' = length buf \<and> take (wr + length d) buf' = take wr buf @ d)"
proof (induction "length buf - rd" arbitrary: buf rd wr rule: less_induct)
  case less
  show ?case
  proof (cases "rd < length buf")
    case False
    then show ?thesis using less.prems by (simp add: unstuff.simps)
  next
    case rd: True
    define code n where "code = buf ! rd" and "n = unat code - 1"
    have n: "n = unat (buf ! rd) - 1" by (simp add: n_def code_def)
    have dropped: "drop rd buf = code # drop (Suc rd) buf"
      using rd by (simp add: code_def Cons_nth_drop_Suc)
    show ?thesis
    proof (cases "code = 0 \<or> n > length buf - Suc rd")
      case bad: True
      then have "cobs_decode (drop rd buf) = None"
        by (auto simp: dropped n_def)
      moreover have "unstuff buf (length buf) rd wr = None"
        using bad unfolding unstuff_step [OF rd n] code_def by (simp only: if_True)
      ultimately show ?thesis by simp
    next
      case ok: False
      then have fits: "Suc rd + n \<le> length buf" using rd by auto
      define buf1 where "buf1 = copy_down buf wr (Suc rd) n"
      define rd2 where "rd2 = Suc rd + n"
      have buf1: "buf1 = take wr buf @ take n (drop (Suc rd) buf) @ drop (wr + n) buf"
        unfolding buf1_def using less.prems fits by (intro copy_down_spec) auto
      have len1: "length buf1 = length buf" using buf1 less.prems fits by simp
      have take1: "take (wr + n) buf1 = take wr buf @ take n (drop (Suc rd) buf)"
        using buf1 less.prems fits by simp
      have drop1: "drop rd2 buf1 = drop rd2 buf"
        using buf1 less.prems fits by (simp add: drop_append rd2_def)
      have rest: "drop n (drop (Suc rd) buf) = drop rd2 buf" by (simp add: rd2_def add.commute)
      have dec: "cobs_decode (drop rd buf) =
          map_option (\<lambda>r. take n (drop (Suc rd) buf) @ (if code \<noteq> 0xff \<and> drop rd2 buf \<noteq> [] then [0] else []) @ r)
            (cobs_decode (drop rd2 buf))"
      proof -
        have "\<not> (code = 0 \<or> length (drop (Suc rd) buf) < unat code - 1)"
          using ok by (simp add: n_def)
        then show ?thesis
          by (simp only: dropped cobs_decode.simps(2) if_False Let_def n_def [symmetric] rest)
      qed
      have lenblk: "min n (length buf - Suc rd) = n" "min (length buf - Suc rd) n = n"
        using fits by simp_all
      have smaller: "length b - rd2 < length buf - rd" if "length b = length buf" for b :: bytes
        using that rd by (simp add: rd2_def)
      show ?thesis
      proof (cases "code \<noteq> 0xff \<and> rd2 < length buf")
        case more: True
        define buf2 where "buf2 = buf1[wr + n := 0]"
        have step: "unstuff buf (length buf) rd wr = unstuff buf2 (length buf2) rd2 (Suc (wr + n))"
          using ok more unfolding unstuff_step [OF rd n] code_def rd2_def buf2_def
          by (simp add: buf1_def [symmetric] len1)
        have same: "drop rd2 buf2 = drop rd2 buf"
          using drop1 less.prems by (simp add: rd2_def buf2_def drop_update_cancel)
        have pre: "take (Suc (wr + n)) buf2 = take wr buf @ take n (drop (Suc rd) buf) @ [0]"
          using take1 len1 fits less.prems rd
          by (simp add: buf2_def take_Suc_conv_app_nth take_update_cancel)
        have "length buf2 = length buf" by (simp add: buf2_def len1)
        with less.hyps [OF smaller, of buf2 "Suc (wr + n)"] more less.prems
        have IH: "case cobs_decode (drop rd2 buf) of
            None \<Rightarrow> unstuff buf2 (length buf2) rd2 (Suc (wr + n)) = None
          | Some d \<Rightarrow> \<exists>buf'. unstuff buf2 (length buf2) rd2 (Suc (wr + n)) =
                Some (buf', Suc (wr + n) + length d) \<and> length buf' = length buf \<and>
                take (Suc (wr + n) + length d) buf' = take wr buf @ take n (drop (Suc rd) buf) @ [0] @ d"
          unfolding same pre by (simp add: rd2_def split: option.splits)
        then show ?thesis
          using more by (cases "cobs_decode (drop rd2 buf)") (auto simp: dec step lenblk ac_simps)
      next
        case stop: False
        have step: "unstuff buf (length buf) rd wr = unstuff buf1 (length buf1) rd2 (wr + n)"
        proof -
          have cond: "\<not> (buf ! rd \<noteq> 0xff \<and> Suc rd + n < length buf)"
            using stop by (simp add: code_def rd2_def)
          show ?thesis
            unfolding unstuff_step [OF rd n] rd2_def len1
            by (simp only: ok [unfolded code_def] cond if_False buf1_def)
        qed
        have noz: "(if code \<noteq> 0xff \<and> drop rd2 buf \<noteq> [] then [0] else []) = ([] :: bytes)"
          using stop by auto
        have IH: "case cobs_decode (drop rd2 buf) of
            None \<Rightarrow> unstuff buf1 (length buf1) rd2 (wr + n) = None
          | Some d \<Rightarrow> \<exists>buf'. unstuff buf1 (length buf1) rd2 (wr + n) =
                Some (buf', (wr + n) + length d) \<and> length buf' = length buf \<and>
                take ((wr + n) + length d) buf' = (take wr buf @ take n (drop (Suc rd) buf)) @ d"
          using less.hyps [OF smaller, of buf1 "wr + n"] less.prems fits
          unfolding drop1 take1 len1 by (simp add: rd2_def)
        then show ?thesis
          by (cases "cobs_decode (drop rd2 buf)") (auto simp: dec [unfolded noz] step lenblk ac_simps)
      qed
    qed
  qed
qed

lemma unstuff_Some:
  assumes "cobs_decode enc = Some d"
  obtains buf where "unstuff enc (length enc) 0 0 = Some (buf, length d)"
    and "take (length d) buf = d" and "length d \<le> length enc"
proof -
  obtain buf where "unstuff enc (length enc) 0 0 = Some (buf, length d)"
    "length buf = length enc" "take (length d) buf = d"
    using unstuff_spec [of 0 0 enc] assms by auto
  moreover from this have "min (length buf) (length d) = length d" by (metis length_take)
  ultimately show ?thesis using that by simp
qed

lemma unstuff_None: "cobs_decode enc = None \<Longrightarrow> unstuff enc (length enc) 0 0 = None"
  using unstuff_spec [of 0 0 enc] by simp

section \<open>Lemmas: what the CRC detects\<close>

text \<open>
  One CRC step is linear over exclusive or and injective, so the register after a run of
  bytes determines the register before it, and a corruption of at most 16 adjacent bits
  inside the data always changes it.
\<close>

lemma crc_bit_alt: "crc_bit c = push_bit 1 c XOR (if bit c 15 then 0x1021 else 0)"
proof -
  have "c AND 0x8000 \<noteq> 0 \<longleftrightarrow> bit c 15"
  proof -
    have "(0x8000 :: u16) = push_bit 15 1" by simp
    then show ?thesis by (metis bit_iff_and_push_bit_not_eq_0)
  qed
  then show ?thesis by (simp add: crc_bit_def)
qed

lemma crc_bit_linear: "crc_bit (a XOR b) = crc_bit a XOR crc_bit b"
  by (simp add: crc_bit_alt push_bit_xor bit_xor_iff ac_simps)

lemma crc_bit_zero: "crc_bit c = 0 \<Longrightarrow> c = 0"
proof -
  assume 0: "crc_bit c = 0"
  have low: "bit (crc_bit c) 0 = bit c 15"
    unfolding crc_bit_alt bit_xor_iff bit_push_bit_iff by simp
  with 0 have top: "\<not> bit c 15" by simp
  then have shift: "push_bit 1 c = 0" using 0 by (simp add: crc_bit_alt)
  show "c = 0"
  proof (rule bit_word_eqI)
    fix n assume n: "n < LENGTH(16)"
    show "bit c n \<longleftrightarrow> bit (0 :: u16) n"
    proof (cases "n = 15")
      case True
      then show ?thesis using top by simp
    next
      case False
      have "bit (push_bit 1 c) (Suc n) = bit c n"
        unfolding bit_push_bit_iff using n False by simp
      then show ?thesis using shift by simp
    qed
  qed
qed

lemma crc_pow_linear: "(crc_bit ^^ n) (a XOR b) = (crc_bit ^^ n) a XOR (crc_bit ^^ n) b"
  by (induction n) (simp_all add: crc_bit_linear)

lemma crc_pow_zero: "(crc_bit ^^ n) c = 0 \<Longrightarrow> c = 0"
  by (induction n) (auto dest: crc_bit_zero)

lemma crc_pow_inj: "(crc_bit ^^ n) a = (crc_bit ^^ n) b \<longleftrightarrow> a = b"
proof
  assume "(crc_bit ^^ n) a = (crc_bit ^^ n) b"
  then have "(crc_bit ^^ n) (a XOR b) = 0" by (simp add: crc_pow_linear)
  then have "a XOR b = 0" by (rule crc_pow_zero)
  then show "a = b" by (simp add: xor_eq_0)
qed simp

lemma crc_byte_reg_inj: "crc_byte c b = crc_byte d b \<longleftrightarrow> c = d"
proof -
  have "crc_byte c b = crc_byte d b \<longleftrightarrow> c XOR push_bit 8 (ucast b) = d XOR push_bit 8 (ucast b)"
    unfolding crc_byte_def by (rule crc_pow_inj)
  also have "\<dots> \<longleftrightarrow> c = d" by (rule xor_right_cancel)
  finally show ?thesis .
qed

lemma crc_fold_reg_inj: "foldl crc_byte c xs = foldl crc_byte d xs \<longleftrightarrow> c = d"
  by (induction xs arbitrary: c d) (simp_all add: crc_byte_reg_inj)

lemma crc_pow_low: "n \<le> 8 \<Longrightarrow> (crc_bit ^^ n) (ucast (b :: u8)) = push_bit n (ucast b)"
proof (induction n)
  case 0
  then show ?case by simp
next
  case (Suc n)
  have "\<not> bit (push_bit n (ucast b) :: u16) 15"
    using Suc.prems bit_imp_le_length [of b "15 - n"]
    by (auto simp: bit_push_bit_iff bit_ucast_iff)
  then have "crc_bit (push_bit n (ucast b)) = push_bit (Suc n) (ucast b)"
    by (simp add: crc_bit_alt)
  then show ?case using Suc by simp
qed

text \<open>Two bytes at once: sixteen steps on the register with both bytes mixed in.\<close>

lemma crc_two_bytes:
  "crc_byte (crc_byte c b1) b2 = (crc_bit ^^ 16) (c XOR push_bit 8 (ucast b1) XOR ucast b2)"
proof -
  have "crc_byte (crc_byte c b1) b2 =
      (crc_bit ^^ 8) ((crc_bit ^^ 8) (c XOR push_bit 8 (ucast b1)) XOR (crc_bit ^^ 8) (ucast b2))"
    by (simp only: crc_byte_def crc_pow_low [of 8 b2, simplified])
  also have "\<dots> = (crc_bit ^^ 8) ((crc_bit ^^ 8) (c XOR push_bit 8 (ucast b1) XOR ucast b2))"
    by (simp only: crc_pow_linear xor.assoc)
  also have "\<dots> = (crc_bit ^^ (8 + 8)) (c XOR push_bit 8 (ucast b1) XOR ucast b2)"
    by (simp only: funpow_add o_apply)
  finally show ?thesis by simp
qed

lemma two_bytes_inj:
  "push_bit 8 (ucast (a1 :: u8)) XOR ucast (a2 :: u8) =
   (push_bit 8 (ucast (b1 :: u8)) XOR ucast (b2 :: u8) :: u16) \<longleftrightarrow> a1 = b1 \<and> a2 = b2"
proof
  assume eq: "push_bit 8 (ucast a1) XOR ucast a2 = (push_bit 8 (ucast b1) XOR ucast b2 :: u16)"
  have high: "bit (push_bit 8 (ucast x) XOR ucast y :: u16) (n + 8) = bit x n" if "n < 8" for x y :: u8 and n
    using that bit_imp_le_length [of y "n + 8"] by (auto simp: bit_xor_iff bit_push_bit_iff bit_ucast_iff)
  have low: "bit (push_bit 8 (ucast x) XOR ucast y :: u16) n = bit y n" if "n < 8" for x y :: u8 and n
    using that by (auto simp: bit_xor_iff bit_push_bit_iff bit_ucast_iff)
  have len8: "n < LENGTH(8) \<Longrightarrow> n < 8" for n by simp
  have "a1 = b1" by (rule bit_word_eqI) (metis eq high len8)
  moreover have "a2 = b2" by (rule bit_word_eqI) (metis eq low len8)
  ultimately show "a1 = b1 \<and> a2 = b2" ..
qed simp

lemma crc_two_bytes_inj:
  "crc_byte (crc_byte c a1) a2 = crc_byte (crc_byte c b1) b2 \<longleftrightarrow> a1 = b1 \<and> a2 = b2"
proof -
  have "crc_byte (crc_byte c a1) a2 = crc_byte (crc_byte c b1) b2 \<longleftrightarrow>
      c XOR (push_bit 8 (ucast a1) XOR ucast a2) = c XOR (push_bit 8 (ucast b1) XOR ucast b2)"
    unfolding crc_two_bytes crc_pow_inj by (simp only: xor.assoc)
  also have "\<dots> \<longleftrightarrow> push_bit 8 (ucast a1) XOR ucast a2 = (push_bit 8 (ucast b1) XOR ucast b2 :: u16)"
    by (rule xor_left_cancel)
  finally show ?thesis unfolding two_bytes_inj .
qed

lemma crc_single_byte_inj: "crc_byte c a = crc_byte c b \<longleftrightarrow> a = b"
proof -
  have "crc_byte c a = crc_byte c b \<longleftrightarrow> crc_byte (crc_byte c a) 0 = crc_byte (crc_byte c b) 0"
    by (simp add: crc_byte_reg_inj)
  then show ?thesis by (simp add: crc_two_bytes_inj)
qed

lemma crc_append: "crc16_ccitt_false (xs @ ys) = foldl crc_byte (crc16_ccitt_false xs) ys"
  by (simp add: crc16_ccitt_false_def)

lemma crc16_burst:
  assumes "(a1, a2) \<noteq> (b1, b2)"
  shows "crc16_ccitt_false (xs @ [a1, a2] @ ys) \<noteq> crc16_ccitt_false (xs @ [b1, b2] @ ys)"
  using assms by (simp add: crc_append crc_fold_reg_inj crc_two_bytes_inj)

lemma crc16_single:
  assumes "a \<noteq> b"
  shows "crc16_ccitt_false (xs @ [a] @ ys) \<noteq> crc16_ccitt_false (xs @ [b] @ ys)"
  using assms by (simp add: crc_append crc_fold_reg_inj crc_single_byte_inj)

text \<open>The trailer determines the CRC.\<close>

lemma trailer_bytes_inj:
  "[ucast c, ucast (drop_bit 8 c)] = ([ucast d, ucast (drop_bit 8 d)] :: u8 list) \<longleftrightarrow> c = (d :: u16)"
proof
  assume eq: "[ucast c, ucast (drop_bit 8 c)] = ([ucast d, ucast (drop_bit 8 d)] :: u8 list)"
  show "c = d"
  proof (rule bit_word_eqI)
    fix n assume n: "n < LENGTH(16)"
    have low: "bit (ucast x :: u8) m = bit x m" if "m < 8" for x :: u16 and m
      using that by (simp add: bit_ucast_iff)
    show "bit c n \<longleftrightarrow> bit d n"
    proof (cases "n < 8")
      case True
      then show ?thesis using eq low [of n c] low [of n d] by simp
    next
      case False
      then have "bit x n = bit (ucast (drop_bit 8 x) :: u8) (n - 8)" for x :: u16
        using n by (simp add: low bit_drop_bit_eq)
      then show ?thesis using eq by simp
    qed
  qed
qed simp

lemma crc_trailer_eq_iff:
  "crc_trailer p = crc_trailer q \<longleftrightarrow> crc16_ccitt_false p = crc16_ccitt_false q"
  unfolding crc_trailer_def Let_def by (rule trailer_bytes_inj)

lemma length_crc_trailer [simp]: "length (crc_trailer p) = 2"
  by (simp add: crc_trailer_def Let_def)

lemma check_frame_iff:
  assumes "wr \<le> length buf"
  shows "check_frame buf wr cap = Some p \<longleftrightarrow>
    1 \<le> length p \<and> length p \<le> cap \<and> take wr buf = p @ crc_trailer p \<and> wr = length p + 2"
    (is "?l \<longleftrightarrow> ?r")
proof
  assume ?l
  then have wr: "3 \<le> wr" "wr - 2 \<le> cap" and p: "p = take (wr - 2) buf"
    and tr: "buf ! (wr - 2) = ucast (crc16_ccitt_false p)"
      "buf ! (wr - 1) = ucast (drop_bit 8 (crc16_ccitt_false p))"
    by (auto simp: check_frame_def Let_def split: if_splits)
  have tk: "take wr buf = p @ [buf ! (wr - 2), buf ! (wr - 1)]"
  proof -
    have e: "wr = Suc (Suc (wr - 2))" "wr - 1 = Suc (wr - 2)" using wr by simp_all
    have "take (Suc (Suc (wr - 2))) buf = take (wr - 2) buf @ [buf ! (wr - 2), buf ! Suc (wr - 2)]"
      using wr assms by (simp add: take_Suc_conv_app_nth)
    then show ?thesis using e p by simp
  qed
  have "take wr buf = p @ crc_trailer p"
    by (simp only: tk tr crc_trailer_def Let_def)
  moreover have "1 \<le> length p \<and> length p \<le> cap \<and> wr = length p + 2"
    using wr p assms by auto
  ultimately show ?r by simp
next
  assume r: ?r
  have "buf = p @ crc_trailer p @ drop wr buf" using r by (metis append.assoc append_take_drop_id)
  moreover have "check_frame (p @ crc_trailer p @ z) (length p + 2) cap = Some p" for z
    using r by (cases p) (simp_all add: check_frame_def Let_def crc_trailer_def nth_append)
  ultimately show ?l using r by metis
qed

lemma check_frame_take: "wr \<le> length buf \<Longrightarrow> check_frame (take wr buf) wr cap = check_frame buf wr cap"
  by (simp add: check_frame_def Let_def)

section \<open>Lemmas: framing\<close>

definition frame_clean :: "tcp_frame_rx \<Rightarrow> bool" where
  "frame_clean st \<longleftrightarrow> fr_encoded st = [] \<and> \<not> fr_discarding st"

lemma frame_rx_zero_clean [simp]: "frame_clean frame_rx_zero"
  by (simp add: frame_clean_def frame_rx_zero_def)

lemma push_bytes_append:
  "push_bytes st (xs @ ys) cap =
     (let (r1, st1) = push_bytes st xs cap; (r2, st2) = push_bytes st1 ys cap in (r1 @ r2, st2))"
  by (induction xs arbitrary: st) (auto simp: Let_def split: prod.splits)

lemma push_nonzero:
  assumes "0 \<notin> set xs" "\<not> fr_discarding st" "length (fr_encoded st) + length xs \<le> FRAME_CAP"
  shows "push_bytes st xs cap = ([], st\<lparr>fr_encoded := fr_encoded st @ xs\<rparr>)"
  using assms
proof (induction xs arbitrary: st)
  case Nil
  then show ?case by simp
next
  case (Cons b bs)
  define st1 where "st1 = st\<lparr>fr_encoded := fr_encoded st @ [b]\<rparr>"
  have "tcp_frame_push_byte st b cap = (FrameIncomplete, st1)"
    using Cons.prems by (auto simp: tcp_frame_push_byte_def st1_def)
  moreover have "push_bytes st1 bs cap = ([], st1\<lparr>fr_encoded := fr_encoded st1 @ bs\<rparr>)"
    using Cons.prems by (intro Cons.IH) (auto simp: st1_def)
  ultimately show ?case by (simp add: st1_def)
qed

text \<open>The receiver answers a delimiter with the list decoder's verdict.\<close>

lemma push_delimiter:
  "tcp_frame_push_byte st 0 cap =
     ((if fr_discarding st \<or> fr_encoded st = [] then FrameInvalid
       else case cobs_decode (fr_encoded st) of None \<Rightarrow> FrameInvalid
         | Some d \<Rightarrow> (case check_frame d (length d) cap of None \<Rightarrow> FrameInvalid
             | Some p \<Rightarrow> FramePayload p)),
      st\<lparr>fr_encoded := [], fr_discarding := False\<rparr>)"
proof (cases "fr_discarding st \<or> fr_encoded st = []")
  case True
  then show ?thesis by (auto simp: tcp_frame_push_byte_def Let_def)
next
  case False
  show ?thesis
  proof (cases "cobs_decode (fr_encoded st)")
    case None
    then show ?thesis using False unstuff_None [OF None]
      by (simp add: tcp_frame_push_byte_def Let_def)
  next
    case (Some d)
    then obtain buf where buf: "unstuff (fr_encoded st) (length (fr_encoded st)) 0 0 = Some (buf, length d)"
      "take (length d) buf = d" by (elim unstuff_Some)
    have "min (length buf) (length d) = length d" using buf(2) by (metis length_take)
    then have "length d \<le> length buf" by simp
    then have "check_frame buf (length d) cap = check_frame d (length d) cap"
      using check_frame_take [of "length d" buf cap] buf(2) by simp
    then show ?thesis using False buf Some
      by (simp add: tcp_frame_push_byte_def Let_def split: option.splits)
  qed
qed

lemma push_delimiter_clean: "frame_clean (snd (tcp_frame_push_byte st 0 cap))"
  by (simp add: push_delimiter frame_clean_def)

lemma push_encode_frame:
  assumes "frame_clean st" "1 \<le> length p" "length p \<le> cap" "length p \<le> 63"
  shows "push_bytes st (encode_frame p) cap = ([FramePayload p], st)"
proof -
  define raw where "raw = p @ crc_trailer p"
  have enc: "length (cobs_encode raw) = length p + 3"
    using assms(4) by (simp add: raw_def cobs_encode_length)
  have st: "fr_encoded st = []" "\<not> fr_discarding st" using assms(1) by (simp_all add: frame_clean_def)
  define st1 where "st1 = st\<lparr>fr_encoded := cobs_encode raw\<rparr>"
  have run: "push_bytes st (cobs_encode raw) cap = ([], st1)"
    using push_nonzero [OF cobs_encode_no_zero, of st raw cap] st enc assms(4) by (simp add: st1_def)
  have dec: "cobs_decode (cobs_encode raw) = Some raw"
    using cobs_decode_blocks [of "[]" raw] by (simp add: cobs_encode_blocks)
  have chk: "check_frame raw (length raw) cap = Some p"
    using assms(2,3) by (subst check_frame_iff) (simp_all add: raw_def)
  have "tcp_frame_push_byte st1 0 cap = (FramePayload p, st)"
    using st dec chk by (simp add: push_delimiter st1_def)
  then show ?thesis
    using run by (simp add: encode_frame_def raw_def [symmetric] push_bytes_append)
qed

lemma frame_clean_iff: "frame_clean st \<longleftrightarrow> st = frame_rx_zero"
  by (cases st) (auto simp: frame_clean_def frame_rx_zero_def)

definition framable :: "nat \<Rightarrow> bytes \<Rightarrow> bool" where
  "framable cap p \<longleftrightarrow> 1 \<le> length p \<and> length p \<le> cap \<and> length p \<le> 63"

text \<open>The receiver as a framed byte stream.\<close>

interpretation server_rx: stream_codec encode_frame "\<lambda>s bs. push_bytes s bs cap"
    frame_clean "framable cap" FramePayload
  for cap
  by unfold_locales
    (auto simp: push_bytes_append Let_def framable_def push_encode_frame split: prod.splits)

lemma push_encode_frames:
  "frame_clean st \<Longrightarrow> list_all (framable cap) ps \<Longrightarrow>
   push_bytes st (concat (map encode_frame ps)) cap = (map FramePayload ps, st)"
  by (cases "ps = []") (simp_all add: server_rx.feed_encs)

lemma push_bytes_delimited_clean: "frame_clean (snd (push_bytes st (xs @ [0]) cap))"
  using push_delimiter_clean
  by (simp add: push_bytes_append Let_def split: prod.splits) (metis snd_conv)

lemma push_bad_frame:
  assumes "frame_clean st" "length d \<le> 63" "length t = 2" "t \<noteq> crc_trailer d"
  shows "push_bytes st (cobs_encode (d @ t) @ [0]) cap = ([FrameInvalid], st)"
proof -
  have st: "fr_encoded st = []" "\<not> fr_discarding st" using assms(1) by (simp_all add: frame_clean_def)
  define st1 where "st1 = st\<lparr>fr_encoded := cobs_encode (d @ t)\<rparr>"
  have run: "push_bytes st (cobs_encode (d @ t)) cap = ([], st1)"
    using push_nonzero [OF cobs_encode_no_zero, of st "d @ t" cap] st assms(2,3)
    by (simp add: st1_def cobs_encode_length)
  have dec: "cobs_decode (cobs_encode (d @ t)) = Some (d @ t)"
    using cobs_decode_blocks [of "[]" "d @ t"] by (simp add: cobs_encode_blocks)
  have "check_frame (d @ t) (length (d @ t)) cap = None"
  proof (rule ccontr)
    assume "check_frame (d @ t) (length (d @ t)) cap \<noteq> None"
    then obtain q where "check_frame (d @ t) (length (d @ t)) cap = Some q" by auto
    then have "d @ t = q @ crc_trailer q" "length d = length q"
      using assms(3) by (simp_all add: check_frame_iff)
    then show False using assms(4) by simp
  qed
  then have "tcp_frame_push_byte st1 0 cap = (FrameInvalid, st)"
    using st dec by (simp add: push_delimiter st1_def)
  then show ?thesis using run by (simp add: push_bytes_append)
qed

section \<open>Properties\<close>

text \<open>
  C38: COBS round trip. The in-place decoder applied to the output of the back-patching encoder
  returns exactly the original bytes, for every input of any length, and the encoder's output
  holds no zero byte, so a zero on the wire is always a frame delimiter.
\<close>

theorem cobs_round_trip:
  "0 \<notin> set (cobs_encode data) \<and>
   (\<exists>buf. unstuff (cobs_encode data) (length (cobs_encode data)) 0 0 = Some (buf, length data) \<and>
          take (length data) buf = data)"
proof -
  have "cobs_decode (cobs_encode data) = Some data"
    using cobs_decode_blocks [of "[]" data] by (simp add: cobs_encode_blocks)
  then obtain buf where "unstuff (cobs_encode data) (length (cobs_encode data)) 0 0 = Some (buf, length data)"
    "take (length data) buf = data" by (rule unstuff_Some)
  then show ?thesis using cobs_encode_no_zero by blast
qed

text \<open>
  C36: Self-synchronisation. Whatever state the receiver is in and whatever garbage it is fed, the
  next delimiter realigns it: the frames sent after that delimiter are all delivered, in order,
  each exactly once, and the receiver ends in its initial state.
\<close>

theorem frame_stream_resync:
  assumes "list_all (framable cap) ps"
  shows "push_bytes st (garbage @ [0] @ concat (map encode_frame ps)) cap =
    (fst (push_bytes st (garbage @ [0]) cap) @ map FramePayload ps, frame_rx_zero)"
proof -
  obtain rs st1 where first: "push_bytes st (garbage @ [0]) cap = (rs, st1)" by force
  then have clean: "frame_clean st1" using push_bytes_delimited_clean [of st garbage cap] by simp
  have "push_bytes st (garbage @ [0] @ concat (map encode_frame ps)) cap =
      push_bytes st ((garbage @ [0]) @ concat (map encode_frame ps)) cap" by simp
  also have "\<dots> = (rs @ map FramePayload ps, st1)"
    by (subst push_bytes_append) (simp only: first Let_def prod.case push_encode_frames [OF clean assms])
  finally show ?thesis using first clean by (simp add: frame_clean_iff)
qed

theorem frame_stream_resync_witness:
  "push_bytes \<lparr>fr_encoded = [7], fr_discarding = True\<rparr>
     ([9, 9] @ [0] @ concat (map encode_frame [[0x46, 1], [0x56, 0]])) 16 =
   (fst (push_bytes \<lparr>fr_encoded = [7], fr_discarding = True\<rparr> ([9, 9] @ [0]) 16) @
      map FramePayload [[0x46, 1], [0x56, 0]], frame_rx_zero)"
  by (rule frame_stream_resync) (simp add: framable_def)

text \<open>
  C37: Damage detection. A frame whose payload was changed in one or two adjacent bytes after the
  trailer was computed, and a frame whose trailer was changed in any way, is reported invalid as
  a whole; the receiver stays aligned for the next frame.
\<close>

theorem damaged_frame_rejected:
  assumes "(a1, a2) \<noteq> (b1, b2)" and "length xs + length ys \<le> 61"
    and "length t = 2" and "t \<noteq> crc_trailer d" and "length d \<le> 63"
  shows "push_bytes frame_rx_zero
      (cobs_encode ((xs @ [b1, b2] @ ys) @ crc_trailer (xs @ [a1, a2] @ ys)) @ [0]) cap =
        ([FrameInvalid], frame_rx_zero) \<and>
    push_bytes frame_rx_zero (cobs_encode (d @ t) @ [0]) cap = ([FrameInvalid], frame_rx_zero)"
proof
  have "crc_trailer (xs @ [a1, a2] @ ys) \<noteq> crc_trailer (xs @ [b1, b2] @ ys)"
    using crc16_burst [OF assms(1)] by (simp add: crc_trailer_eq_iff)
  then show "push_bytes frame_rx_zero
      (cobs_encode ((xs @ [b1, b2] @ ys) @ crc_trailer (xs @ [a1, a2] @ ys)) @ [0]) cap =
        ([FrameInvalid], frame_rx_zero)"
    using assms(2) by (intro push_bad_frame) auto
  show "push_bytes frame_rx_zero (cobs_encode (d @ t) @ [0]) cap = ([FrameInvalid], frame_rx_zero)"
    using assms(3,4,5) by (intro push_bad_frame) auto
qed

theorem damaged_frame_rejected_witness:
  "push_bytes frame_rx_zero
      (cobs_encode (([0x41] @ [1, 0] @ [7]) @ crc_trailer ([0x41] @ [0, 0] @ [7])) @ [0]) 16 =
        ([FrameInvalid], frame_rx_zero) \<and>
    push_bytes frame_rx_zero (cobs_encode ([] @ [0, 0]) @ [0]) 16 = ([FrameInvalid], frame_rx_zero)"
  by (rule damaged_frame_rejected) (simp_all add: crc_trailer_def crc16_ccitt_false_def Let_def)

end
