(* ===== verification/Transmit.thy ===== *)
theory Transmit
  imports Wire
begin

text \<open>
  The transmit side of \<^verbatim>\<open>net/tcp_stream.h\<close> (\<^verbatim>\<open>tcp_tx\<close>, flush, queue, frame) and
  \<^verbatim>\<open>send_frame\<close> of \<^verbatim>\<open>server/main.c\<close>, over an explicit environment: the outcomes of
  \<open>send\<close>, \<open>rand\<close> and the monotonic clock are scripts, the bytes the kernel took and the
  descriptors closed are recorded. Lemmas: byte conservation, the capacity bound, the
  failure latch, and what a peer can decode from the wire at any moment.
\<close>

section \<open>The environment\<close>

text \<open>
  One outcome of \<open>send(2)\<close>: some bytes taken (never more than offered), \<open>EINTR\<close>,
  \<open>EAGAIN\<close>/\<open>EWOULDBLOCK\<close>, or another error. The outcomes of a run are a list; once it is
  exhausted the socket would block, so every finite run of the program is one of these.
\<close>

datatype send_outcome = SendTook nat | SendEINTR | SendEAGAIN | SendError

record env =
  e_sends :: "send_outcome list"
  e_wire :: "int \<Rightarrow> bytes"       \<comment> \<open>bytes the kernel accepted, per descriptor\<close>
  e_closed :: "int list"          \<comment> \<open>descriptors passed to \<open>close\<close>, latest first\<close>
  e_rands :: "nat list"           \<comment> \<open>coming results of \<open>rand()\<close>; 0 when exhausted\<close>
  e_clock :: u64
  e_ticks :: "u64 list"           \<comment> \<open>how far the clock has moved at each coming reading\<close>

definition now_ms :: "env \<Rightarrow> u64 \<times> env" where
  "now_ms e = (case e_ticks e of
      [] \<Rightarrow> (e_clock e, e)
    | d # ds \<Rightarrow> (e_clock e + d, e\<lparr>e_clock := e_clock e + d, e_ticks := ds\<rparr>))"

definition c_rand :: "env \<Rightarrow> nat \<times> env" where
  "c_rand e = (case e_rands e of [] \<Rightarrow> (0, e) | r # rs \<Rightarrow> (r, e\<lparr>e_rands := rs\<rparr>))"

definition c_close :: "int \<Rightarrow> env \<Rightarrow> env" where
  "c_close fd e = e\<lparr>e_closed := fd # e_closed e\<rparr>"

section \<open>The transmit queue\<close>

abbreviation (input) TCP_TX_CAP :: nat where "TCP_TX_CAP \<equiv> 4096"

record tcp_tx =
  tx_data :: bytes       \<comment> \<open>\<open>data[0..len)\<close>; \<open>len\<close> is its length\<close>
  tx_failed :: bool

definition tcp_tx_zero :: tcp_tx where
  "tcp_tx_zero = \<lparr>tx_data = [], tx_failed = False\<rparr>"

datatype flush_status = FlushDone | FlushBlocked | FlushBroken

text \<open>The send loop: what is left, what the kernel took, and the outcomes not yet used.\<close>

fun send_loop ::
  "send_outcome list \<Rightarrow> bytes \<Rightarrow> bytes \<Rightarrow> flush_status \<times> bytes \<times> bytes \<times> send_outcome list" where
  "send_loop script [] out = (FlushDone, [], out, script)"
| "send_loop [] (b # bs) out = (FlushBlocked, b # bs, out, [])"
| "send_loop (SendEINTR # script) (b # bs) out = send_loop script (b # bs) out"
| "send_loop (SendEAGAIN # script) (b # bs) out = (FlushBlocked, b # bs, out, script)"
| "send_loop (SendError # script) (b # bs) out = (FlushBroken, b # bs, out, script)"
| "send_loop (SendTook n # script) (b # bs) out =
     (if n = 0 then (FlushBroken, b # bs, out, script)
      else send_loop script (drop n (b # bs)) (out @ take n (b # bs)))"

text \<open>\<open>True\<close> is the return value 0, \<open>False\<close> is -1.\<close>

definition tcp_tx_flush :: "int \<Rightarrow> tcp_tx \<Rightarrow> env \<Rightarrow> bool \<times> tcp_tx \<times> env" where
  "tcp_tx_flush fd tx e =
     (if tx_failed tx then (False, tx, e)
      else if tx_data tx = [] then (True, tx, e)
      else case send_loop (e_sends e) (tx_data tx) [] of (st, rest, out, script) \<Rightarrow>
        let e1 = e\<lparr>e_sends := script, e_wire := (e_wire e)(fd := e_wire e fd @ out)\<rparr> in
        case st of
          FlushDone \<Rightarrow> (True, tx\<lparr>tx_data := []\<rparr>, e1)
        | FlushBlocked \<Rightarrow> (True, tx\<lparr>tx_data := rest\<rparr>, e1)
        | FlushBroken \<Rightarrow> (False, tx\<lparr>tx_failed := True\<rparr>, e1))"

definition tcp_tx_queue :: "int \<Rightarrow> tcp_tx \<Rightarrow> bytes \<Rightarrow> env \<Rightarrow> bool \<times> tcp_tx \<times> env" where
  "tcp_tx_queue fd tx data e =
     (if tx_failed tx then (False, tx, e)
      else case tcp_tx_flush fd tx e of (ok, tx1, e1) \<Rightarrow>
        if \<not> ok then (False, tx1, e1)
        else if length data > TCP_TX_CAP - length (tx_data tx1)
          then (False, tx1\<lparr>tx_failed := True\<rparr>, e1)
        else case tcp_tx_flush fd (tx1\<lparr>tx_data := tx_data tx1 @ data\<rparr>) e1 of (ok2, tx2, e2) \<Rightarrow>
          (ok2, tx2, e2))"

text \<open>The clients' framing: the CRC and COBS loops are written out inline in the C.\<close>

definition tcp_tx_queue_frame :: "int \<Rightarrow> tcp_tx \<Rightarrow> bytes \<Rightarrow> env \<Rightarrow> bool \<times> tcp_tx \<times> env" where
  "tcp_tx_queue_frame fd tx payload e =
     (if length payload > 66 - 2 then (False, tx, e)
      else tcp_tx_queue fd tx (encode_frame payload) e)"

abbreviation (input) PKT_CKSUM_MAX :: nat where "PKT_CKSUM_MAX \<equiv> 64"

text \<open>The server's framing; \<open>None\<close> is -1, otherwise the payload length.\<close>

definition send_frame :: "int \<Rightarrow> tcp_tx \<Rightarrow> bytes \<Rightarrow> env \<Rightarrow> nat option \<times> tcp_tx \<times> env" where
  "send_frame fd tx pkt e =
     (if length pkt + 2 > PKT_CKSUM_MAX then (None, tx, e)
      else case tcp_tx_queue fd tx (encode_frame pkt) e of (ok, tx1, e1) \<Rightarrow>
        (if ok then Some (length pkt) else None, tx1, e1))"

section \<open>Lemmas\<close>

definition tx_ok :: "tcp_tx \<Rightarrow> bool" where
  "tx_ok tx \<longleftrightarrow> length (tx_data tx) \<le> TCP_TX_CAP"

lemma send_loop_split:
  "send_loop script data out = (st, rest, out', script') \<Longrightarrow>
   out' @ rest = out @ data \<and> (st = FlushDone \<longrightarrow> rest = [])"
  by (induction script data out rule: send_loop.induct) (auto split: if_splits)

lemma send_loop_length:
  "send_loop script data out = (st, rest, out', script') \<Longrightarrow> length rest \<le> length data"
  by (induction script data out rule: send_loop.induct) (auto split: if_splits)

text \<open>The environment fields a transmission leaves alone.\<close>

definition same_outside :: "int \<Rightarrow> env \<Rightarrow> env \<Rightarrow> bool" where
  "same_outside fd e e' \<longleftrightarrow> e_closed e' = e_closed e \<and> e_rands e' = e_rands e \<and>
     e_clock e' = e_clock e \<and> e_ticks e' = e_ticks e \<and>
     (\<forall>g. g \<noteq> fd \<longrightarrow> e_wire e' g = e_wire e g)"

lemma same_outside_refl [simp]: "same_outside fd e e"
  by (simp add: same_outside_def)

lemma same_outside_trans: "same_outside fd e1 e2 \<Longrightarrow> same_outside fd e2 e3 \<Longrightarrow> same_outside fd e1 e3"
  by (auto simp: same_outside_def)

lemma tcp_tx_flush_spec:
  assumes "tcp_tx_flush fd tx e = (ok, tx', e')"
  shows "same_outside fd e e'"
    and "tx_ok tx \<Longrightarrow> tx_ok tx'"
    and "ok \<Longrightarrow> \<not> tx_failed tx \<and> \<not> tx_failed tx' \<and> e_wire e' fd @ tx_data tx' = e_wire e fd @ tx_data tx"
    and "\<not> ok \<Longrightarrow> tx_failed tx' \<and> (\<exists>rest. e_wire e' fd @ rest = e_wire e fd @ tx_data tx)"
    and "\<not> ok \<Longrightarrow> tx_failed tx \<Longrightarrow> e' = e \<and> tx' = tx"
proof -
  obtain st rest out script where l: "send_loop (e_sends e) (tx_data tx) [] = (st, rest, out, script)"
    by (metis prod_cases4)
  from send_loop_split [OF l] have split: "out @ rest = tx_data tx" "st = FlushDone \<Longrightarrow> rest = []"
    by auto
  have short: "length rest \<le> length (tx_data tx)" using split(1) by (metis length_append le_add2)
  note defs = assms [unfolded tcp_tx_flush_def l, simplified, unfolded Let_def]
  show "same_outside fd e e'"
    using defs by (auto simp: same_outside_def split: if_splits flush_status.splits)
  show "tx_ok tx \<Longrightarrow> tx_ok tx'"
    using defs short by (auto simp: tx_ok_def split: if_splits flush_status.splits)
  show "ok \<Longrightarrow> \<not> tx_failed tx \<and> \<not> tx_failed tx' \<and> e_wire e' fd @ tx_data tx' = e_wire e fd @ tx_data tx"
    using defs split by (auto split: if_splits flush_status.splits)
  show "\<not> ok \<Longrightarrow> tx_failed tx' \<and> (\<exists>rest. e_wire e' fd @ rest = e_wire e fd @ tx_data tx)"
    using defs split(1) by (auto split: if_splits flush_status.splits)
  show "\<not> ok \<Longrightarrow> tx_failed tx \<Longrightarrow> e' = e \<and> tx' = tx"
    using defs by (auto split: if_splits flush_status.splits)
qed

text \<open>
  \<open>tx_stream fd tx e s\<close>: \<open>s\<close> is everything queued on this connection so far. While the queue
  has not failed the wire and the pending bytes make up exactly \<open>s\<close>; in any case the wire
  holds a prefix of it.
\<close>

definition tx_stream :: "int \<Rightarrow> tcp_tx \<Rightarrow> env \<Rightarrow> bytes \<Rightarrow> bool" where
  "tx_stream fd tx e s \<longleftrightarrow> prefix (e_wire e fd) s \<and>
     (\<not> tx_failed tx \<longrightarrow> e_wire e fd @ tx_data tx = s)"

lemma tx_streamI:
  "\<not> tx_failed tx \<Longrightarrow> e_wire e fd @ tx_data tx = s \<Longrightarrow> tx_stream fd tx e s"
  by (auto simp: tx_stream_def prefix_def)

lemma tcp_tx_queue_spec:
  assumes "tcp_tx_queue fd tx d e = (ok, tx', e')"
  shows "same_outside fd e e'"
    and "tx_ok tx \<Longrightarrow> tx_ok tx'"
    and "ok \<longleftrightarrow> \<not> tx_failed tx'"
    and "tx_failed tx \<Longrightarrow> tx' = tx \<and> e' = e"
    and "tx_stream fd tx e s \<Longrightarrow> tx_stream fd tx' e' (s @ d)"
proof -
  obtain ok1 tx1 e1 where f1: "tcp_tx_flush fd tx e = (ok1, tx1, e1)" by (metis prod_cases3)
  obtain ok2 tx2 e2 where f2: "tcp_tx_flush fd (tx1\<lparr>tx_data := tx_data tx1 @ d\<rparr>) e1 = (ok2, tx2, e2)"
    by (metis prod_cases3)
  note s1 = tcp_tx_flush_spec [OF f1] and s2 = tcp_tx_flush_spec [OF f2]
  note defs = assms [unfolded tcp_tx_queue_def f1, simplified] f2
  show "same_outside fd e e'"
    using defs s1(1) same_outside_trans [OF s1(1) s2(1)] by (auto split: if_splits)
  show "tx_ok tx \<Longrightarrow> tx_ok tx'"
    using defs s1(2) s2(2) by (auto simp: tx_ok_def split: if_splits)
  show "ok \<longleftrightarrow> \<not> tx_failed tx'"
    using defs s1(4) s2(3,4) by (auto split: if_splits)
  show "tx_failed tx \<Longrightarrow> tx' = tx \<and> e' = e"
    using defs by simp
  show "tx_stream fd tx' e' (s @ d)" if str: "tx_stream fd tx e s"
  proof -
    have pre: "prefix (e_wire e fd) s" and all: "\<not> tx_failed tx \<Longrightarrow> e_wire e fd @ tx_data tx = s"
      using str by (auto simp: tx_stream_def)
    consider (already) "tx_failed tx" | (broken) "\<not> tx_failed tx" "\<not> ok1"
      | (full) "\<not> tx_failed tx" "ok1" "length d > TCP_TX_CAP - length (tx_data tx1)"
      | (ok) "\<not> tx_failed tx" "ok1" "\<not> length d > TCP_TX_CAP - length (tx_data tx1)" by blast
    then show ?thesis
    proof cases
      case already
      then show ?thesis using defs pre by (auto simp: tx_stream_def intro: prefix_prefix)
    next
      case broken
      then obtain rest where "e_wire e1 fd @ rest = s" using s1(4) all by auto
      then show ?thesis using defs broken s1(4) by (auto simp: tx_stream_def prefix_def)
    next
      case full
      then have "e_wire e1 fd @ tx_data tx1 = s" using s1(3) all by auto
      then show ?thesis using defs full by (auto simp: tx_stream_def prefix_def)
    next
      case ok
      then have "e_wire e1 fd @ tx_data tx1 = s" using s1(3) all by auto
      then have whole: "e_wire e1 fd @ tx_data tx1 @ d = s @ d" by (metis append.assoc)
      show ?thesis
      proof (cases ok2)
        case True
        then show ?thesis using defs ok s2(3) whole by (auto intro: tx_streamI)
      next
        case False
        then obtain rest where "e_wire e2 fd @ rest = s @ d" using s2(4) whole by auto
        then have "prefix (e_wire e2 fd) (s @ d)" by (metis prefixI)
        then show ?thesis using defs ok False s2(4) by (auto simp: tx_stream_def)
      qed
    qed
  qed
qed

lemma send_frame_spec:
  assumes "send_frame fd tx p e = (r, tx', e')"
  shows "same_outside fd e e'"
    and "tx_ok tx \<Longrightarrow> tx_ok tx'"
    and "r = Some n \<Longrightarrow> n = length p \<and> \<not> tx_failed tx'"
    and "tx_failed tx \<Longrightarrow> tx' = tx \<and> e' = e"
    and "length p + 2 \<le> PKT_CKSUM_MAX \<Longrightarrow> tx_stream fd tx e s \<Longrightarrow> tx_stream fd tx' e' (s @ encode_frame p)"
  using assms tcp_tx_queue_spec [of fd tx "encode_frame p" e]
  by (auto simp: send_frame_def split: if_splits prod.splits)

fun send_frames :: "int \<Rightarrow> bytes list \<Rightarrow> tcp_tx \<Rightarrow> env \<Rightarrow> tcp_tx \<times> env" where
  "send_frames fd [] tx e = (tx, e)"
| "send_frames fd (p # ps) tx e =
     (case send_frame fd tx p e of (r, tx1, e1) \<Rightarrow> send_frames fd ps tx1 e1)"

lemma send_frames_stream:
  "list_all (\<lambda>p. length p + 2 \<le> PKT_CKSUM_MAX) ps \<Longrightarrow> tx_stream fd tx e s \<Longrightarrow> tx_ok tx \<Longrightarrow>
   send_frames fd ps tx e = (tx', e') \<Longrightarrow>
   tx_stream fd tx' e' (s @ concat (map encode_frame ps)) \<and> tx_ok tx'"
proof (induction ps arbitrary: tx e s)
  case Nil
  then show ?case by simp
next
  case (Cons p ps)
  obtain r tx1 e1 where one: "send_frame fd tx p e = (r, tx1, e1)" by (metis prod_cases3)
  have "tx_stream fd tx1 e1 (s @ encode_frame p)" "tx_ok tx1"
    using send_frame_spec [OF one] Cons.prems by auto
  moreover have "send_frames fd ps tx1 e1 = (tx', e')" using Cons.prems(4) one by simp
  ultimately show ?case using Cons.IH [of tx1 e1 "s @ encode_frame p"] Cons.prems(1) by simp
qed

section \<open>Properties\<close>

text \<open>
  End-to-end framing over TCP. Whatever \<open>send\<close> does (short writes, interrupts, a full socket,
  errors), a peer that has read what reached the wire has decoded a prefix of the packets sent,
  in order and unmodified; as long as the connection has not failed, the wire and the bytes
  still queued decode to exactly all of them; and the queue never exceeds its 4096 bytes.
\<close>

theorem send_frames_delivers:
  assumes "list_all (\<lambda>p. framable cap p \<and> length p + 2 \<le> PKT_CKSUM_MAX) ps"
    and "e_wire e fd = []" and "send_frames fd ps tcp_tx_zero e = (tx', e')"
  shows "prefix (fst (push_bytes frame_rx_zero (e_wire e' fd) cap)) (map FramePayload ps) \<and>
    (\<not> tx_failed tx' \<longrightarrow>
      fst (push_bytes frame_rx_zero (e_wire e' fd @ tx_data tx') cap) = map FramePayload ps) \<and>
    length (tx_data tx') \<le> TCP_TX_CAP"
proof -
  have valid: "list_all (framable cap) ps" and short: "list_all (\<lambda>p. length p + 2 \<le> PKT_CKSUM_MAX) ps"
    using assms(1) by (simp_all add: list_all_iff)
  have "tx_stream fd tcp_tx_zero e []" "tx_ok tcp_tx_zero"
    using assms(2) by (simp_all add: tx_stream_def tcp_tx_zero_def tx_ok_def)
  from send_frames_stream [OF short this assms(3)]
  have str: "tx_stream fd tx' e' (concat (map encode_frame ps))" and ok: "tx_ok tx'" by simp_all
  have "prefix (fst (push_bytes frame_rx_zero (e_wire e' fd) cap)) (map FramePayload ps)"
  proof (cases "ps = []")
    case True
    then show ?thesis using str by (simp add: tx_stream_def)
  next
    case False
    then show ?thesis
      using str valid by (intro server_rx.feed_prefix) (simp_all add: tx_stream_def)
  qed
  moreover have "\<not> tx_failed tx' \<longrightarrow>
      fst (push_bytes frame_rx_zero (e_wire e' fd @ tx_data tx') cap) = map FramePayload ps"
    using str valid by (simp add: tx_stream_def push_encode_frames)
  ultimately show ?thesis using ok by (simp add: tx_ok_def)
qed

definition demo_env :: env where
  "demo_env = \<lparr>e_sends = [SendTook 3, SendEINTR, SendEAGAIN], e_wire = (\<lambda>_. []), e_closed = [],
    e_rands = [], e_clock = 0, e_ticks = []\<rparr>"

theorem send_frames_delivers_witness:
  "prefix (fst (push_bytes frame_rx_zero
      (e_wire (snd (send_frames 5 [[0x57, 1], [0x44, 0, 3]] tcp_tx_zero demo_env)) 5) 16))
    (map FramePayload [[0x57, 1], [0x44, 0, 3]])"
  using send_frames_delivers [of 16 "[[0x57, 1], [0x44, 0, 3]]" demo_env 5
      "fst (send_frames 5 [[0x57, 1], [0x44, 0, 3]] tcp_tx_zero demo_env)"
      "snd (send_frames 5 [[0x57, 1], [0x44, 0, 3]] tcp_tx_zero demo_env)"]
  by (simp add: framable_def demo_env_def)

end
