(* ===== verification/Transport.thy ===== *)
theory Transport
  imports Prelude
begin

text \<open>
  \<^verbatim>\<open>server/transport_normalize.c\<close> and \<^verbatim>\<open>server/transport_stats.c\<close>: the legacy raw
  byte scanner, the normalisation of the three DELTA layouts, and the counters. Lemmas:
  the scanner's invariant, what an accepted DELTA guarantees, and that every layout a
  client may use decodes to the same sequence number and joystick.
\<close>

section \<open>Packet types and joystick bytes\<close>

abbreviation (input) PKT_SNAPSHOT :: u8 where "PKT_SNAPSHOT \<equiv> 0x40"
abbreviation (input) PKT_DELTA :: u8 where "PKT_DELTA \<equiv> 0x41"
abbreviation (input) PKT_SHOT :: u8 where "PKT_SHOT \<equiv> 0x42"
abbreviation (input) PKT_NAME :: u8 where "PKT_NAME \<equiv> 0x43"
abbreviation (input) PKT_SEATS :: u8 where "PKT_SEATS \<equiv> 0x44"
abbreviation (input) PKT_RELIABLE_ACK :: u8 where "PKT_RELIABLE_ACK \<equiv> 0x45"
abbreviation (input) PKT_HELLO :: u8 where "PKT_HELLO \<equiv> 0x46"
abbreviation (input) PKT_WELCOME :: u8 where "PKT_WELCOME \<equiv> 0x47"
abbreviation (input) PKT_REJECT :: u8 where "PKT_REJECT \<equiv> 0x48"
abbreviation (input) PKT_BRICK_FULL :: u8 where "PKT_BRICK_FULL \<equiv> 0x50"
abbreviation (input) PKT_BRICK_DELTA :: u8 where "PKT_BRICK_DELTA \<equiv> 0x51"
abbreviation (input) PKT_RESPAWN :: u8 where "PKT_RESPAWN \<equiv> 0x52"
abbreviation (input) PKT_RELIABLE_EVENT :: u8 where "PKT_RELIABLE_EVENT \<equiv> 0x53"
abbreviation (input) PKT_MATCH_END :: u8 where "PKT_MATCH_END \<equiv> 0x54"
abbreviation (input) PKT_ROUND_START :: u8 where "PKT_ROUND_START \<equiv> 0x55"
abbreviation (input) PKT_LEAVE_ROOM :: u8 where "PKT_LEAVE_ROOM \<equiv> 0x56"
abbreviation (input) PKT_LEAVE_ACK :: u8 where "PKT_LEAVE_ACK \<equiv> 0x57"
abbreviation (input) PKT_NAME_LEN :: nat where "PKT_NAME_LEN \<equiv> 11"

definition is_valid_stick_nibble :: "u8 \<Rightarrow> bool" where
  "is_valid_stick_nibble stick \<longleftrightarrow> stick \<in> {0x0F, 0x07, 0x0D, 0x0B, 0x0E}"

definition sanitize_client_joy :: "u8 \<Rightarrow> u8 option" where
  "sanitize_client_joy raw =
     (if raw AND 0xE0 \<noteq> 0 then None
      else if \<not> is_valid_stick_nibble (raw AND 0x0F) then None
      else Some (raw AND 0x1F))"

section \<open>The raw byte scanner\<close>

record transport_rx_state =
  rx_need :: nat
  rx_idx :: nat
  rx_resync_count :: u8
  rx_buf :: bytes   \<comment> \<open>16 bytes\<close>

definition transport_rx_zero :: transport_rx_state where
  "transport_rx_zero = \<lparr>rx_need = 0, rx_idx = 0, rx_resync_count = 0, rx_buf = replicate 16 0\<rparr>"

datatype transport_rx_result = TRANSPORT_RX_NONE | TRANSPORT_RX_PACKET

text \<open>How many bytes a packet with this first byte needs; \<open>None\<close>: not a packet type.\<close>

definition rx_need_of :: "u8 \<Rightarrow> nat option" where
  "rx_need_of byte =
     (if byte = PKT_DELTA \<or> byte = PKT_BRICK_DELTA then Some 4
      else if byte = PKT_RESPAWN then Some 6
      else if byte = PKT_NAME then Some PKT_NAME_LEN
      else None)"

text \<open>The part of the C function after a type byte has been recognised.\<close>

definition rx_accept_byte ::
  "transport_rx_state \<Rightarrow> u8 \<Rightarrow> u8 \<Rightarrow> nat \<Rightarrow> transport_rx_result \<times> bytes \<times> transport_rx_state" where
  "rx_accept_byte st slot byte cap =
     (let buf = (if rx_idx st < 16 then (rx_buf st)[rx_idx st := byte] else rx_buf st);
          idx = rx_idx st + 1; need = rx_need st in
      if need = 4 \<and> idx = 4 \<and> buf ! 0 = PKT_DELTA \<and> buf ! 1 = PKT_DELTA \<and> buf ! 3 < 4
      then (TRANSPORT_RX_NONE, [], st\<lparr>rx_need := 5, rx_idx := idx, rx_buf := buf\<rparr>)
      else if need \<noteq> 0 \<and> idx \<ge> need then
        (if need = 4 \<and> buf ! 0 = PKT_DELTA \<and> buf ! 2 \<noteq> slot \<and> buf ! 1 \<noteq> slot then
           (TRANSPORT_RX_NONE, [],
            st\<lparr>rx_need := 4, rx_idx := idx - 1, rx_resync_count := rx_resync_count st + 1,
               rx_buf := take (idx - 1) (drop 1 buf) @ drop (idx - 1) buf\<rparr>)
         else
           (TRANSPORT_RX_PACKET, if need \<le> cap then take need buf else [],
            st\<lparr>rx_need := 0, rx_idx := 0, rx_buf := buf\<rparr>))
      else (TRANSPORT_RX_NONE, [], st\<lparr>rx_idx := idx, rx_buf := buf\<rparr>))"

definition transport_rx_push_byte ::
  "transport_rx_state \<Rightarrow> u8 \<Rightarrow> u8 \<Rightarrow> nat \<Rightarrow> transport_rx_result \<times> bytes \<times> transport_rx_state" where
  "transport_rx_push_byte st slot byte cap =
     (if rx_need st = 0 then
        (case rx_need_of byte of
           None \<Rightarrow> (TRANSPORT_RX_NONE, [], st)
         | Some n \<Rightarrow> rx_accept_byte (st\<lparr>rx_need := n, rx_idx := 0\<rparr>) slot byte cap)
      else rx_accept_byte st slot byte cap)"

definition transport_rx_take_resync_count ::
  "transport_rx_state \<Rightarrow> u8 \<times> transport_rx_state" where
  "transport_rx_take_resync_count st = (rx_resync_count st, st\<lparr>rx_resync_count := 0\<rparr>)"

section \<open>DELTA normalisation\<close>

datatype transport_delta_format =
  TRANSPORT_DELTA_PRIMARY | TRANSPORT_DELTA_SWAPPED | TRANSPORT_DELTA_EXTRA_41

record transport_delta_packet =
  d_seq :: u8
  d_pid :: u8
  d_joy :: u8
  d_format :: transport_delta_format

text \<open>\<open>pkt\<close> is the receive buffer, \<open>len\<close> the length argument, as in the C signature.\<close>

definition transport_decode_delta_for_slot ::
  "bytes \<Rightarrow> nat \<Rightarrow> u8 \<Rightarrow> transport_delta_packet option" where
  "transport_decode_delta_for_slot pkt len slot =
     (if pkt ! 0 \<noteq> PKT_DELTA then None
      else if len = 4 \<and> pkt ! 2 = slot \<and> sanitize_client_joy (pkt ! 3) \<noteq> None then
        Some \<lparr>d_seq = pkt ! 1, d_pid = pkt ! 2, d_joy = the (sanitize_client_joy (pkt ! 3)),
              d_format = TRANSPORT_DELTA_PRIMARY\<rparr>
      else if len = 4 \<and> pkt ! 1 = slot \<and> sanitize_client_joy (pkt ! 3) \<noteq> None then
        Some \<lparr>d_seq = pkt ! 2, d_pid = pkt ! 1, d_joy = the (sanitize_client_joy (pkt ! 3)),
              d_format = TRANSPORT_DELTA_SWAPPED\<rparr>
      else if len = 5 \<and> pkt ! 0 = PKT_DELTA \<and> pkt ! 1 = PKT_DELTA \<and> pkt ! 3 = slot \<and>
              sanitize_client_joy (pkt ! 4) \<noteq> None then
        Some \<lparr>d_seq = pkt ! 2, d_pid = pkt ! 3, d_joy = the (sanitize_client_joy (pkt ! 4)),
              d_format = TRANSPORT_DELTA_EXTRA_41\<rparr>
      else None)"

section \<open>Counters\<close>

record transport_counters =
  tc_raw_datagrams :: u64
  tc_raw_bytes :: u64
  tc_delta_primary :: u64
  tc_delta_swapped :: u64
  tc_delta_extra_41 :: u64
  tc_delta_resync :: u64
  tc_drop_bad_joy :: u64
  tc_drop_stale_seq :: u64
  tc_accepted_delta :: u64

definition counters_zero :: transport_counters where
  "counters_zero = \<lparr>tc_raw_datagrams = 0, tc_raw_bytes = 0, tc_delta_primary = 0,
     tc_delta_swapped = 0, tc_delta_extra_41 = 0, tc_delta_resync = 0, tc_drop_bad_joy = 0,
     tc_drop_stale_seq = 0, tc_accepted_delta = 0\<rparr>"

definition transport_stats_note_raw_bytes :: "nat \<Rightarrow> transport_counters \<Rightarrow> transport_counters" where
  "transport_stats_note_raw_bytes n c =
     c\<lparr>tc_raw_datagrams := tc_raw_datagrams c + 1, tc_raw_bytes := tc_raw_bytes c + of_nat n\<rparr>"

fun transport_stats_note_delta ::
  "transport_delta_format \<Rightarrow> transport_counters \<Rightarrow> transport_counters" where
  "transport_stats_note_delta TRANSPORT_DELTA_PRIMARY c =
     c\<lparr>tc_delta_primary := tc_delta_primary c + 1\<rparr>"
| "transport_stats_note_delta TRANSPORT_DELTA_SWAPPED c =
     c\<lparr>tc_delta_swapped := tc_delta_swapped c + 1\<rparr>"
| "transport_stats_note_delta TRANSPORT_DELTA_EXTRA_41 c =
     c\<lparr>tc_delta_extra_41 := tc_delta_extra_41 c + 1\<rparr>"

section \<open>Lemmas: joystick bytes\<close>

lemma joy_split:
  assumes "raw AND 0xE0 = (0 :: u8)"
  shows "raw = (raw AND 0x0F) OR (if bit raw 4 then 0x10 else 0)"
proof -
  have parts: "(- 1 :: u8) = 0xE0 OR (0x0F OR push_bit 4 1)" by simp
  have "raw = raw AND (- 1)" by simp
  also have "\<dots> = (raw AND 0xE0) OR ((raw AND 0x0F) OR (raw AND push_bit 4 1))"
    unfolding parts bit.conj_disj_distrib ..
  finally have "raw = (raw AND 0x0F) OR (raw AND push_bit 4 1)" using assms by simp
  then show ?thesis unfolding and_bit_mask by (cases "bit raw 4") simp_all
qed

definition joy_bytes :: "u8 set" where
  "joy_bytes = {0x07, 0x0B, 0x0D, 0x0E, 0x0F, 0x17, 0x1B, 0x1D, 0x1E, 0x1F}"

text \<open>Exactly the ten legal joystick bytes pass, and they pass unchanged.\<close>

lemma sanitize_client_joy_iff:
  "sanitize_client_joy raw = Some joy \<longleftrightarrow> joy = raw \<and> raw \<in> joy_bytes"
proof
  assume "joy = raw \<and> raw \<in> joy_bytes"
  then show "sanitize_client_joy raw = Some joy"
    by (auto simp: joy_bytes_def sanitize_client_joy_def is_valid_stick_nibble_def)
next
  assume s: "sanitize_client_joy raw = Some joy"
  then have top: "raw AND 0xE0 = 0" and stick: "is_valid_stick_nibble (raw AND 0x0F)"
    and joy: "joy = raw AND 0x1F"
    by (auto simp: sanitize_client_joy_def split: if_splits)
  have "raw \<in> joy_bytes"
    using stick joy_split [OF top]
    by (cases "bit raw 4") (auto simp: is_valid_stick_nibble_def joy_bytes_def)
  moreover from this have "joy = raw" using joy by (auto simp: joy_bytes_def)
  ultimately show "joy = raw \<and> raw \<in> joy_bytes" by simp
qed

lemma sanitize_client_joy_eq:
  "sanitize_client_joy raw = (if raw \<in> joy_bytes then Some raw else None)"
  using sanitize_client_joy_iff [of raw] by (cases "sanitize_client_joy raw") auto

section \<open>Lemmas: the scanner\<close>

definition rx_ok :: "transport_rx_state \<Rightarrow> bool" where
  "rx_ok st \<longleftrightarrow> length (rx_buf st) = 16 \<and> rx_need st \<in> {0, 4, 5, 6, 11} \<and>
     (rx_need st = 0 \<or> rx_idx st < rx_need st)"

lemma rx_zero_ok: "rx_ok transport_rx_zero"
  by (simp add: rx_ok_def transport_rx_zero_def)

lemma rx_accept_ok:
  assumes "rx_ok st" "rx_need st \<noteq> 0" "rx_accept_byte st slot byte cap = (r, out, st')"
  shows "rx_ok st' \<and> (r = TRANSPORT_RX_NONE \<longrightarrow> out = []) \<and>
    (r = TRANSPORT_RX_PACKET \<longrightarrow> cap \<ge> 11 \<longrightarrow> length out \<in> {4, 5, 6, 11} \<and> rx_need st' = 0)"
proof -
  have len: "length (rx_buf st) = 16" and need: "rx_need st \<in> {4, 5, 6, 11}" and idx: "rx_idx st < rx_need st"
    using assms(1,2) by (auto simp: rx_ok_def)
  note run = assms(3) [unfolded rx_accept_byte_def Let_def]
  have "rx_ok st'"
    using run len need idx by (auto simp: rx_ok_def split: if_splits)
  moreover have "r = TRANSPORT_RX_NONE \<longrightarrow> out = []"
    using run by (auto split: if_splits)
  moreover have "r = TRANSPORT_RX_PACKET \<longrightarrow> cap \<ge> 11 \<longrightarrow> length out \<in> {4, 5, 6, 11} \<and> rx_need st' = 0"
    using run len need by (auto split: if_splits)
  ultimately show ?thesis by blast
qed

lemma rx_push_ok:
  assumes "rx_ok st" "transport_rx_push_byte st slot byte cap = (r, out, st')"
  shows "rx_ok st' \<and> (r = TRANSPORT_RX_NONE \<longrightarrow> out = []) \<and>
    (r = TRANSPORT_RX_PACKET \<longrightarrow> cap \<ge> 11 \<longrightarrow> length out \<in> {4, 5, 6, 11} \<and> rx_need st' = 0)"
proof -
  consider (idle) "rx_need st = 0" "rx_need_of byte = None"
    | (type) n where "rx_need st = 0" "rx_need_of byte = Some n" | (busy) "rx_need st \<noteq> 0"
    by (cases "rx_need_of byte") auto
  then show ?thesis
  proof cases
    case idle
    then show ?thesis using assms by (simp add: transport_rx_push_byte_def)
  next
    case (type n)
    let ?st = "st\<lparr>rx_need := n, rx_idx := 0\<rparr>"
    have "rx_ok ?st" "rx_need ?st \<noteq> 0"
      using assms(1) type by (auto simp: rx_ok_def rx_need_of_def split: if_splits)
    moreover have "rx_accept_byte ?st slot byte cap = (r, out, st')"
      using assms(2) type by (simp add: transport_rx_push_byte_def)
    ultimately show ?thesis by (rule rx_accept_ok)
  next
    case busy
    have "rx_accept_byte st slot byte cap = (r, out, st')"
      using assms(2) busy by (simp add: transport_rx_push_byte_def)
    then show ?thesis by (rule rx_accept_ok [OF assms(1) busy])
  qed
qed

fun rx_push_all :: "transport_rx_state \<Rightarrow> u8 \<Rightarrow> bytes \<Rightarrow> nat \<Rightarrow> bytes list \<times> transport_rx_state" where
  "rx_push_all st slot [] cap = ([], st)"
| "rx_push_all st slot (b # bs) cap =
     (case transport_rx_push_byte st slot b cap of (r, out, st1) \<Rightarrow>
        case rx_push_all st1 slot bs cap of (ps, st2) \<Rightarrow>
          (if r = TRANSPORT_RX_PACKET then out # ps else ps, st2))"

section \<open>Properties\<close>

text \<open>
  The DELTA normaliser accepts a buffer exactly when it is one of the three layouts carrying the
  receiver's own slot and a legal joystick byte; the packet it returns always names that slot,
  carries the joystick byte unchanged and never has reserved bits set.
\<close>

theorem decode_delta_sound:
  assumes "transport_decode_delta_for_slot pkt len slot = Some d"
  shows "pkt ! 0 = PKT_DELTA \<and> d_pid d = slot \<and> d_joy d \<in> joy_bytes \<and>
    (case d_format d of
       TRANSPORT_DELTA_PRIMARY \<Rightarrow> len = 4 \<and> pkt ! 2 = slot \<and> d_seq d = pkt ! 1 \<and> d_joy d = pkt ! 3
     | TRANSPORT_DELTA_SWAPPED \<Rightarrow> len = 4 \<and> pkt ! 2 \<noteq> slot \<and> pkt ! 1 = slot \<and> d_seq d = pkt ! 2 \<and> d_joy d = pkt ! 3
     | TRANSPORT_DELTA_EXTRA_41 \<Rightarrow> len = 5 \<and> pkt ! 1 = PKT_DELTA \<and> pkt ! 3 = slot \<and> d_seq d = pkt ! 2 \<and> d_joy d = pkt ! 4)"
  using assms
  by (auto simp: transport_decode_delta_for_slot_def sanitize_client_joy_eq split: if_splits)

theorem decode_delta_sound_witness:
  "transport_decode_delta_for_slot [0x41, 2, 9, 0x17] 4 2 =
      Some \<lparr>d_seq = 9, d_pid = 2, d_joy = 0x17, d_format = TRANSPORT_DELTA_SWAPPED\<rparr> \<and>
    (0x17 :: u8) \<in> joy_bytes"
proof -
  have ok: "transport_decode_delta_for_slot [0x41, 2, 9, 0x17] 4 2 =
      Some \<lparr>d_seq = 9, d_pid = 2, d_joy = 0x17, d_format = TRANSPORT_DELTA_SWAPPED\<rparr>"
    by (simp add: transport_decode_delta_for_slot_def sanitize_client_joy_def is_valid_stick_nibble_def)
  from decode_delta_sound [OF ok] show ?thesis using ok by simp
qed

text \<open>
  A client's DELTA survives the raw scanner: from an idle scanner the four bytes
  \<open>41 seq slot joy\<close> with a legal joystick byte yield exactly that packet and leave the scanner
  idle, and the packet decodes to the same sequence number and joystick byte. This includes the
  ambiguous case in which the sequence number itself is \<open>41\<close>.
\<close>

theorem scanner_delivers_delta:
  assumes "rx_ok st" "rx_need st = 0" "joy \<in> joy_bytes" "11 \<le> cap"
  shows "(\<exists>st'. rx_push_all st slot [PKT_DELTA, sq, slot, joy] cap =
            ([[PKT_DELTA, sq, slot, joy]], st') \<and> rx_ok st' \<and> rx_need st' = 0) \<and>
    transport_decode_delta_for_slot [PKT_DELTA, sq, slot, joy] 4 slot =
      Some \<lparr>d_seq = sq, d_pid = slot, d_joy = joy, d_format = TRANSPORT_DELTA_PRIMARY\<rparr>"
proof
  have len: "length (rx_buf st) = 16" using assms(1) by (simp add: rx_ok_def)
  have not_low: "\<not> joy < 4" using assms(3) by (auto simp: joy_bytes_def)
  define b1 where "b1 = (rx_buf st)[0 := PKT_DELTA]"
  define b2 where "b2 = b1[1 := sq]"
  define b3 where "b3 = b2[2 := slot]"
  define b4 where "b4 = b3[3 := joy]"
  have l: "length b1 = 16" "length b2 = 16" "length b3 = 16" "length b4 = 16"
    using len by (simp_all add: b1_def b2_def b3_def b4_def)
  have n: "b4 ! 0 = PKT_DELTA" "b4 ! 1 = sq" "b4 ! 2 = slot" "b4 ! 3 = joy"
    using len by (simp_all add: b1_def b2_def b3_def b4_def)
  have out: "take 4 b4 = [PKT_DELTA, sq, slot, joy]"
    using n l by (intro nth_equalityI) (auto simp: less_Suc_eq numeral_eq_Suc)
  let ?st = "\<lambda>k b. st\<lparr>rx_need := 4, rx_idx := k, rx_buf := b\<rparr>"
  have s1: "transport_rx_push_byte st slot PKT_DELTA cap = (TRANSPORT_RX_NONE, [], ?st 1 b1)"
    using assms(2) by (simp add: transport_rx_push_byte_def rx_need_of_def rx_accept_byte_def b1_def Let_def)
  have s2: "transport_rx_push_byte (?st 1 b1) slot sq cap = (TRANSPORT_RX_NONE, [], ?st 2 b2)"
    by (simp add: transport_rx_push_byte_def rx_accept_byte_def b2_def Let_def)
  have s3: "transport_rx_push_byte (?st 2 b2) slot slot cap = (TRANSPORT_RX_NONE, [], ?st 3 b3)"
    by (simp add: transport_rx_push_byte_def rx_accept_byte_def b3_def Let_def)
  have s4: "transport_rx_push_byte (?st 3 b3) slot joy cap =
      (TRANSPORT_RX_PACKET, take 4 b4, st\<lparr>rx_need := 0, rx_idx := 0, rx_buf := b4\<rparr>)"
    using not_low n assms(4) by (simp add: transport_rx_push_byte_def rx_accept_byte_def b4_def Let_def)
  show "\<exists>st'. rx_push_all st slot [PKT_DELTA, sq, slot, joy] cap =
      ([[PKT_DELTA, sq, slot, joy]], st') \<and> rx_ok st' \<and> rx_need st' = 0"
    using s1 s2 s3 s4 out l by (auto simp: rx_ok_def)
  show "transport_decode_delta_for_slot [PKT_DELTA, sq, slot, joy] 4 slot =
      Some \<lparr>d_seq = sq, d_pid = slot, d_joy = joy, d_format = TRANSPORT_DELTA_PRIMARY\<rparr>"
    using assms(3) by (simp add: transport_decode_delta_for_slot_def sanitize_client_joy_eq)
qed

theorem scanner_delivers_delta_witness:
  "\<exists>st'. rx_push_all transport_rx_zero 1 [PKT_DELTA, 0x41, 1, 0x17] 16 =
            ([[PKT_DELTA, 0x41, 1, 0x17]], st') \<and> rx_ok st' \<and> rx_need st' = 0"
proof -
  have idle: "rx_need transport_rx_zero = 0" by (simp add: transport_rx_zero_def)
  have joy: "0x17 \<in> joy_bytes" by (simp add: joy_bytes_def)
  show ?thesis
    using scanner_delivers_delta [OF rx_zero_ok idle joy, of 16 1 "0x41"] by simp
qed

end
