(* ===== verification/Maze.thy ===== *)
theory Maze
  imports Prelude
begin

text \<open>
  The maze of \<^verbatim>\<open>server/main.c\<close>: a 20 x 19 bitmap in 48 bytes with its lookup, the clearing
  of a brick, the layout file loader and the line-of-sight tests of the zombies. Lemmas: lookup
  after clear and after set, clearing only removes bricks, what the loader accepts.
\<close>

section \<open>The bitmap\<close>

definition is_brick :: "bytes \<Rightarrow> int \<Rightarrow> int \<Rightarrow> bool" where
  "is_brick bricks x y =
     (if x < 0 \<or> x \<ge> 20 \<or> y < 0 \<or> y \<ge> 19 then True
      else let idx = nat (y * 20 + x) in bit (bricks ! (idx div 8)) (idx mod 8))"

definition is_outer_wall_cell :: "int \<Rightarrow> int \<Rightarrow> bool" where
  "is_outer_wall_cell x y \<longleftrightarrow> x = 0 \<or> x = 19 \<or> y = 0 \<or> y = 18"

definition clear_brick :: "bytes \<Rightarrow> int \<Rightarrow> int \<Rightarrow> bytes" where
  "clear_brick bricks x y =
     (if x < 0 \<or> x \<ge> 20 \<or> y < 0 \<or> y \<ge> 19 then bricks
      else let idx = nat (y * 20 + x) in
        bricks[idx div 8 := bricks ! (idx div 8) AND NOT (push_bit (idx mod 8) 1)])"

section \<open>Line of sight\<close>

text \<open>The cells strictly between two coordinates, in the order the loop visits them.\<close>

definition cells_between :: "int \<Rightarrow> int \<Rightarrow> int list" where
  "cells_between a b = (if b > a then [a + 1..b - 1] else rev [b + 1..a - 1])"

definition clear_row_shot :: "bytes \<Rightarrow> int \<Rightarrow> int \<Rightarrow> int \<Rightarrow> bool" where
  "clear_row_shot bricks y x0 x1 =
     (if x0 = x1 then True else list_all (\<lambda>x. \<not> is_brick bricks x y) (cells_between x0 x1))"

definition clear_col_shot :: "bytes \<Rightarrow> int \<Rightarrow> int \<Rightarrow> int \<Rightarrow> bool" where
  "clear_col_shot bricks x y0 y1 =
     (if y0 = y1 then True else list_all (\<lambda>y. \<not> is_brick bricks x y) (cells_between y0 y1))"

section \<open>The layout file\<close>

text \<open>
  \<open>fgets\<close> with a 256 byte buffer: at most 255 characters, up to and including a newline.
  \<open>text_chunks\<close> is the sequence of buffers successive calls deliver.
\<close>

definition fgets_len :: "string \<Rightarrow> nat" where
  "fgets_len s = min 255 (let n = length (takeWhile (\<lambda>c. c \<noteq> CHR 0x0A) s) in
     if n < length s then n + 1 else n)"

lemma fgets_len_pos: "s \<noteq> [] \<Longrightarrow> 0 < fgets_len s"
  by (cases s) (auto simp: fgets_len_def Let_def)

function text_chunks :: "string \<Rightarrow> string list" where
  "text_chunks s = (if s = [] then [] else take (fgets_len s) s # text_chunks (drop (fgets_len s) s))"
  by pat_completeness auto
termination by (relation "measure length") (auto simp: fgets_len_pos)

declare text_chunks.simps [simp del]

text \<open>\<open>strcspn(line, "\r\n")\<close> on a NUL-terminated buffer.\<close>

definition line_len :: "string \<Rightarrow> nat" where
  "line_len line = length (takeWhile (\<lambda>c. c \<noteq> CHR 0x0D \<and> c \<noteq> CHR 0x0A \<and> c \<noteq> CHR 0x00) line)"

definition set_brick :: "bytes \<Rightarrow> nat \<Rightarrow> nat \<Rightarrow> bytes" where
  "set_brick bits x y =
     (let idx = y * 20 + x in bits[idx div 8 := bits ! (idx div 8) OR push_bit (idx mod 8) 1])"

fun load_row :: "string \<Rightarrow> nat \<Rightarrow> nat \<Rightarrow> bytes \<Rightarrow> bytes option" where
  "load_row [] x y bits = Some bits"
| "load_row (c # cs) x y bits =
     (if c \<noteq> CHR ''.'' \<and> c \<noteq> CHR ''#'' then None
      else load_row cs (x + 1) y (if c = CHR ''#'' then set_brick bits x y else bits))"

fun load_rows :: "string list \<Rightarrow> nat \<Rightarrow> bytes \<Rightarrow> (nat \<times> bytes) option" where
  "load_rows [] y bits = Some (y, bits)"
| "load_rows (line # rest) y bits =
     (if \<not> y < 19 then Some (y, bits)
      else if line_len line = 0 then load_rows rest y bits
      else if line_len line \<noteq> 20 then None
      else case load_row (take 20 line) 0 y bits of
          None \<Rightarrow> None
        | Some bits' \<Rightarrow> load_rows rest (y + 1) bits')"

text \<open>
  The contents of the file, or \<open>None\<close> when it cannot be opened. \<open>None\<close> as the result is -1; the
  only caller then clears the bitmap.
\<close>

definition load_brick_layout :: "string option \<Rightarrow> bytes option" where
  "load_brick_layout file = (case file of
      None \<Rightarrow> None
    | Some s \<Rightarrow> (case load_rows (text_chunks s) 0 (replicate 48 0) of
          Some (y, bits) \<Rightarrow> if y = 19 then Some bits else None
        | None \<Rightarrow> None))"

section \<open>Lemmas: lookup\<close>

definition on_map :: "int \<Rightarrow> int \<Rightarrow> bool" where
  "on_map x y \<longleftrightarrow> 0 \<le> x \<and> x < 20 \<and> 0 \<le> y \<and> y < 19"

lemma off_map_is_brick: "\<not> on_map x y \<Longrightarrow> is_brick bricks x y"
  by (auto simp: on_map_def is_brick_def)

lemma cell_index_inj:
  fixes x y x' y' :: int
  assumes "on_map x y" "on_map x' y'"
  shows "nat (y * 20 + x) = nat (y' * 20 + x') \<longleftrightarrow> x = x' \<and> y = y'"
proof -
  have "0 \<le> y * 20 + x" "0 \<le> y' * 20 + x'" using assms by (auto simp: on_map_def)
  then have "nat (y * 20 + x) = nat (y' * 20 + x') \<longleftrightarrow> y * 20 + x = y' * 20 + x'"
    by (rule eq_nat_nat_iff)
  also have "\<dots> \<longleftrightarrow> x = x' \<and> y = y'"
  proof
    assume eq: "y * 20 + x = y' * 20 + x'"
    have "(y * 20 + x) mod 20 = x" "(y' * 20 + x') mod 20 = x'"
      using assms by (auto simp: on_map_def)
    then show "x = x' \<and> y = y'" using eq by auto
  qed simp
  finally show ?thesis .
qed

lemma cell_index_bound: "on_map x y \<Longrightarrow> nat (y * 20 + x) < 380"
  by (auto simp: on_map_def)

lemma cell_byte_bound: "on_map x y \<Longrightarrow> nat (y * 20 + x) div 8 < 48"
  using cell_index_bound [of x y] by (simp add: less_mult_imp_div_less)

lemma length_clear_brick [simp]: "length (clear_brick bricks x y) = length bricks"
  by (simp add: clear_brick_def Let_def)

lemma div_mod_eq_iff: "a = b \<longleftrightarrow> a div 8 = b div 8 \<and> a mod 8 = b mod (8 :: nat)"
  by (metis div_mod_decomp)

lemma is_brick_clear_brick:
  assumes "length bricks = 48"
  shows "is_brick (clear_brick bricks x y) x' y' \<longleftrightarrow>
    is_brick bricks x' y' \<and> \<not> (on_map x y \<and> x' = x \<and> y' = y)"
proof (cases "on_map x y \<and> on_map x' y'")
  case True
  let ?i = "nat (y * 20 + x)" and ?j = "nat (y' * 20 + x')"
  have same: "?i = ?j \<longleftrightarrow> x' = x \<and> y' = y" using cell_index_inj True by blast
  have bound: "?i div 8 < length bricks" "?j div 8 < length bricks"
    using cell_byte_bound True assms by auto
  show ?thesis
    using True bound same div_mod_eq_iff [of ?i ?j]
    by (auto simp: is_brick_def clear_brick_def on_map_def Let_def nth_list_update
        bit_and_iff bit_not_iff bit_exp_iff)
next
  case False
  then show ?thesis by (auto simp: is_brick_def clear_brick_def on_map_def)
qed

lemma set_brick_lookup:
  assumes "length bits = 48" "x < 20" "y < 19" "on_map x' y'"
  shows "is_brick (set_brick bits x y) x' y' \<longleftrightarrow> is_brick bits x' y' \<or> (x' = int x \<and> y' = int y)"
proof -
  let ?i = "y * 20 + x" and ?j = "nat (y' * 20 + x')"
  have i: "nat (int y * 20 + int x) = ?i" by simp
  have "on_map (int x) (int y)" using assms by (simp add: on_map_def)
  then have same: "?i = ?j \<longleftrightarrow> x' = int x \<and> y' = int y"
    using cell_index_inj [of "int x" "int y" x' y'] assms(4) unfolding i by blast
  have bound: "?j div 8 < length bits" using cell_byte_bound assms by auto
  have "?i < 48 * 8" using assms by simp
  then have "?i div 8 < length bits" using assms by (simp add: less_mult_imp_div_less)
  then show ?thesis
    using assms(4) bound same div_mod_eq_iff [of ?i ?j]
    by (auto simp: is_brick_def set_brick_def on_map_def Let_def nth_list_update bit_or_iff bit_exp_iff)
qed

lemma length_set_brick [simp]: "length (set_brick bits x y) = length bits"
  by (simp add: set_brick_def Let_def)

text \<open>\<open>bricks_below a b\<close>: every brick of \<open>a\<close> is a brick of \<open>b\<close>, and they agree on the outer wall.\<close>

definition bricks_below :: "bytes \<Rightarrow> bytes \<Rightarrow> bool" where
  "bricks_below a b \<longleftrightarrow> (\<forall>x y. (is_brick a x y \<longrightarrow> is_brick b x y) \<and>
     (is_outer_wall_cell x y \<longrightarrow> is_brick a x y = is_brick b x y))"

lemma bricks_below_refl [simp]: "bricks_below b b"
  by (simp add: bricks_below_def)

lemma bricks_below_clear:
  assumes "bricks_below a b" "length a = 48" "\<not> is_outer_wall_cell x y"
  shows "bricks_below (clear_brick a x y) b"
  using assms by (auto simp: bricks_below_def is_brick_clear_brick)

section \<open>Lemmas: line of sight\<close>

lemma set_cells_between: "set (cells_between a b) = {c. min a b < c \<and> c < max a b}"
  by (auto simp: cells_between_def)

lemma clear_row_shot_iff:
  "clear_row_shot bricks y a b \<longleftrightarrow> (\<forall>x. min a b < x \<and> x < max a b \<longrightarrow> \<not> is_brick bricks x y)"
  by (auto simp: clear_row_shot_def list_all_iff set_cells_between)

lemma clear_col_shot_iff:
  "clear_col_shot bricks x a b \<longleftrightarrow> (\<forall>y. min a b < y \<and> y < max a b \<longrightarrow> \<not> is_brick bricks x y)"
  by (auto simp: clear_col_shot_def list_all_iff set_cells_between)

section \<open>Lemmas: the loader\<close>

lemma load_row_spec:
  assumes "length bits = 48" "y < 19" "x + length cs \<le> 20" "set cs \<subseteq> {CHR ''.'', CHR ''#''}"
  shows "\<exists>bits'. load_row cs x y bits = Some bits' \<and> length bits' = 48 \<and>
    (\<forall>x' y'. on_map x' y' \<longrightarrow> (is_brick bits' x' y' \<longleftrightarrow> is_brick bits x' y' \<or>
        (y' = int y \<and> (\<exists>k < length cs. x' = int (x + k) \<and> cs ! k = CHR ''#''))))"
  using assms
proof (induction cs arbitrary: x bits)
  case Nil
  then show ?case by simp
next
  case (Cons c cs)
  let ?bits = "if c = CHR ''#'' then set_brick bits x y else bits"
  have c: "c = CHR ''.'' \<or> c = CHR ''#''" using Cons.prems(4) by simp
  have "x < 20" "x + 1 + length cs \<le> 20" "length ?bits = 48" using Cons.prems by auto
  then obtain bits' where run: "load_row cs (x + 1) y ?bits = Some bits'" "length bits' = 48"
    and spec: "\<forall>x' y'. on_map x' y' \<longrightarrow> (is_brick bits' x' y' \<longleftrightarrow> is_brick ?bits x' y' \<or>
        (y' = int y \<and> (\<exists>k < length cs. x' = int (x + 1 + k) \<and> cs ! k = CHR ''#'')))"
    using Cons.IH [of ?bits "x + 1"] Cons.prems by auto
  have "load_row (c # cs) x y bits = Some bits'" using run c by auto
  moreover have "is_brick bits' x' y' \<longleftrightarrow> is_brick bits x' y' \<or>
        (y' = int y \<and> (\<exists>k < length (c # cs). x' = int (x + k) \<and> (c # cs) ! k = CHR ''#''))"
    if "on_map x' y'" for x' y'
  proof -
    have "is_brick ?bits x' y' \<longleftrightarrow> is_brick bits x' y' \<or> (c = CHR ''#'' \<and> x' = int x \<and> y' = int y)"
      using set_brick_lookup [OF Cons.prems(1) \<open>x < 20\<close> Cons.prems(2) that] by simp
    moreover have "(\<exists>k < length (c # cs). x' = int (x + k) \<and> (c # cs) ! k = CHR ''#'') \<longleftrightarrow>
      (x' = int x \<and> c = CHR ''#'') \<or> (\<exists>k < length cs. x' = int (x + 1 + k) \<and> cs ! k = CHR ''#'')"
      by (simp add: Ex_less_Suc2 ac_simps)
    ultimately show ?thesis using spec that by blast
  qed
  ultimately show ?case using run(2) by blast
qed

lemma load_row_bad: "\<not> set cs \<subseteq> {CHR ''.'', CHR ''#''} \<Longrightarrow> load_row cs x y bits = None"
  by (induction cs arbitrary: x bits) auto

abbreviation (input) newline :: char where "newline \<equiv> CHR 0x0A"

lemma text_chunks_line:
  assumes "newline \<notin> set r" "length r < 255"
  shows "text_chunks (r @ newline # s) = (r @ [newline]) # text_chunks s"
proof -
  have "takeWhile (\<lambda>c. c \<noteq> newline) (r @ newline # s) = r"
    using assms(1) by (subst takeWhile_append2) auto
  then have "fgets_len (r @ newline # s) = length r + 1"
    using assms(2) by (simp add: fgets_len_def)
  then show ?thesis by (subst text_chunks.simps) simp
qed

lemma text_chunks_Nil [simp]: "text_chunks [] = []"
  by (simp add: text_chunks.simps)

definition maze_row :: "string \<Rightarrow> bool" where
  "maze_row r \<longleftrightarrow> length r = 20 \<and> set r \<subseteq> {CHR ''.'', CHR ''#''}"

lemma text_chunks_rows:
  "list_all maze_row rows \<Longrightarrow> text_chunks (concat (map (\<lambda>r. r @ [newline]) rows)) = map (\<lambda>r. r @ [newline]) rows"
proof (induction rows)
  case (Cons r rows)
  have "newline \<notin> set r" "length r < 255" using Cons.prems by (auto simp: maze_row_def)
  then show ?case using Cons text_chunks_line [of r "concat (map (\<lambda>r. r @ [newline]) rows)"] by simp
qed simp

lemma line_len_row:
  assumes "maze_row r"
  shows "line_len (r @ [newline]) = 20"
proof -
  have "takeWhile (\<lambda>c. c \<noteq> CHR 0x0D \<and> c \<noteq> CHR 0x0A \<and> c \<noteq> CHR 0x00) (r @ [newline]) = r"
    using assms by (subst takeWhile_append2) (auto simp: maze_row_def)
  then show ?thesis using assms by (simp add: line_len_def maze_row_def)
qed

lemma load_rows_spec:
  assumes "list_all maze_row rows" "y + length rows \<le> 19" "length bits = 48"
  shows "\<exists>bits'. load_rows (map (\<lambda>r. r @ [newline]) rows) y bits = Some (y + length rows, bits') \<and>
    length bits' = 48 \<and>
    (\<forall>x' y'. on_map x' y' \<longrightarrow> (is_brick bits' x' y' \<longleftrightarrow> is_brick bits x' y' \<or>
        (\<exists>j < length rows. y' = int (y + j) \<and> rows ! j ! nat x' = CHR ''#'')))"
  using assms
proof (induction rows arbitrary: y bits)
  case Nil
  then show ?case by simp
next
  case (Cons r rows)
  have r: "maze_row r" and y: "y < 19" using Cons.prems by auto
  then obtain bits1 where run: "load_row r 0 y bits = Some bits1" "length bits1 = 48"
    and row: "\<And>x' y'. on_map x' y' \<Longrightarrow> (is_brick bits1 x' y' \<longleftrightarrow> is_brick bits x' y' \<or>
        (y' = int y \<and> (\<exists>k < length r. x' = int (0 + k) \<and> r ! k = CHR ''#'')))"
    using load_row_spec [of bits y 0 r] Cons.prems(3) by (auto simp: maze_row_def)
  obtain bits' where runs: "load_rows (map (\<lambda>r. r @ [newline]) rows) (y + 1) bits1 = Some (y + 1 + length rows, bits')"
    "length bits' = 48"
    and rest: "\<And>x' y'. on_map x' y' \<Longrightarrow> (is_brick bits' x' y' \<longleftrightarrow> is_brick bits1 x' y' \<or>
        (\<exists>j < length rows. y' = int (y + 1 + j) \<and> rows ! j ! nat x' = CHR ''#''))"
    using Cons.IH [of "y + 1" bits1] Cons.prems run by auto
  have "load_rows (map (\<lambda>r. r @ [newline]) (r # rows)) y bits = Some (y + length (r # rows), bits')"
    using run runs y line_len_row [OF r] r by (simp add: maze_row_def)
  moreover have "is_brick bits' x' y' \<longleftrightarrow> is_brick bits x' y' \<or>
        (\<exists>j < length (r # rows). y' = int (y + j) \<and> (r # rows) ! j ! nat x' = CHR ''#'')"
    if on: "on_map x' y'" for x' y'
  proof -
    have "nat x' < length r" using on r by (auto simp: on_map_def maze_row_def)
    then have "(\<exists>k < length r. x' = int (0 + k) \<and> r ! k = CHR ''#'') \<longleftrightarrow> r ! nat x' = CHR ''#''"
      using on by (auto simp: on_map_def)
    moreover have "(\<exists>j < length (r # rows). y' = int (y + j) \<and> (r # rows) ! j ! nat x' = CHR ''#'') \<longleftrightarrow>
        (y' = int y \<and> r ! nat x' = CHR ''#'') \<or>
        (\<exists>j < length rows. y' = int (y + 1 + j) \<and> rows ! j ! nat x' = CHR ''#'')"
      by (simp add: Ex_less_Suc2 ac_simps)
    ultimately show ?thesis using row [OF on] rest [OF on] by blast
  qed
  ultimately show ?case using runs(2) by blast
qed

lemma is_brick_zero: "on_map x y \<Longrightarrow> \<not> is_brick (replicate 48 0) x y"
  using cell_byte_bound [of x y] by (auto simp: is_brick_def on_map_def Let_def)

section \<open>Properties\<close>

text \<open>
  Layout loading. A file of nineteen rows of twenty \<open>.\<close> and \<open>#\<close> characters loads, and the
  bitmap has a brick at a cell exactly where the file has a \<open>#\<close>; breaking a brick afterwards
  clears that one cell and no other.
\<close>

theorem load_brick_layout_sound:
  assumes "list_all maze_row rows" "length rows = 19" "on_map x y"
  shows "\<exists>bits. load_brick_layout (Some (concat (map (\<lambda>r. r @ [newline]) rows))) = Some bits \<and>
    length bits = 48 \<and>
    (is_brick bits x y \<longleftrightarrow> rows ! nat y ! nat x = CHR ''#'') \<and>
    (\<forall>a b. is_brick (clear_brick bits a b) x y \<longleftrightarrow>
        rows ! nat y ! nat x = CHR ''#'' \<and> (a, b) \<noteq> (x, y))"
proof -
  obtain bits where run: "load_rows (map (\<lambda>r. r @ [newline]) rows) 0 (replicate 48 0) = Some (19, bits)"
    "length bits = 48"
    and cells: "is_brick bits x y \<longleftrightarrow> is_brick (replicate 48 0) x y \<or>
        (\<exists>j < 19. y = int (0 + j) \<and> rows ! j ! nat x = CHR ''#'')"
    using load_rows_spec [of rows 0 "replicate 48 0"] assms by auto
  have "(\<exists>j < 19. y = int (0 + j) \<and> rows ! j ! nat x = CHR ''#'') \<longleftrightarrow> rows ! nat y ! nat x = CHR ''#''"
    using assms(3) by (auto simp: on_map_def intro!: exI [of _ "nat y"])
  then have look: "is_brick bits x y \<longleftrightarrow> rows ! nat y ! nat x = CHR ''#''"
    using cells is_brick_zero [OF assms(3)] by blast
  have "load_brick_layout (Some (concat (map (\<lambda>r. r @ [newline]) rows))) = Some bits"
    using run assms by (simp add: load_brick_layout_def text_chunks_rows)
  moreover have "is_brick (clear_brick bits a b) x y \<longleftrightarrow>
        rows ! nat y ! nat x = CHR ''#'' \<and> (a, b) \<noteq> (x, y)" for a b
    using is_brick_clear_brick [OF run(2), of a b x y] look assms(3) by auto
  ultimately show ?thesis using look run(2) by blast
qed

definition demo_rows :: "string list" where
  "demo_rows = replicate 20 CHR ''#'' # replicate 18 (CHR ''#'' # replicate 19 CHR ''.'')"

theorem load_brick_layout_sound_witness:
  "\<exists>bits. load_brick_layout (Some (concat (map (\<lambda>r. r @ [newline]) demo_rows))) = Some bits \<and>
     \<not> is_brick bits 3 5"
  using load_brick_layout_sound [of demo_rows 3 5]
  by (auto simp: demo_rows_def maze_row_def on_map_def list_all_iff)

end
