(* ===== verification/Room.thy ===== *)
theory Room
  imports Transmit Transport Maze
begin

text \<open>
  The data of a room of \<^verbatim>\<open>server/main.c\<close>: its structures, the packet builders, the masks
  computed from the seats, and the framed transmission to one client and to all of them.
  Diagnostic output is not modelled, so the \<open>debug\<close> parameter of the C functions is dropped
  wherever it only selects what is printed. Lemmas: what a transmission may touch.
\<close>

section \<open>Constants\<close>

abbreviation (input) CLIENT_TIMEOUT_MS :: u64 where "CLIENT_TIMEOUT_MS \<equiv> 15000"
abbreviation (input) CLIENT_HANDSHAKE_MS :: u64 where "CLIENT_HANDSHAKE_MS \<equiv> 3000"
abbreviation (input) LEAVE_DRAIN_MS :: u64 where "LEAVE_DRAIN_MS \<equiv> 1000"
abbreviation (input) INPUT_STALE_MS :: u64 where "INPUT_STALE_MS \<equiv> 500"
abbreviation (input) INPUT_QUEUE_MAX :: nat where "INPUT_QUEUE_MAX \<equiv> 6"
abbreviation (input) TRANSPORT_SUMMARY_MS :: u64 where "TRANSPORT_SUMMARY_MS \<equiv> 2000"
abbreviation (input) BRICK_RESYNC_MS :: u64 where "BRICK_RESYNC_MS \<equiv> 3000"
abbreviation (input) NAME_ROTATE_MS :: u64 where "NAME_ROTATE_MS \<equiv> 1000"
abbreviation (input) SEAT_REPEAT_MS :: u64 where "SEAT_REPEAT_MS \<equiv> 1000"
abbreviation (input) BRICK_ECHO_MAX :: nat where "BRICK_ECHO_MAX \<equiv> 8"
abbreviation (input) BRICK_ECHO_REPEATS :: nat where "BRICK_ECHO_REPEATS \<equiv> 2"
abbreviation (input) RESPAWN_ECHO_REPEATS :: nat where "RESPAWN_ECHO_REPEATS \<equiv> 2"
abbreviation (input) NAME_LEN :: nat where "NAME_LEN \<equiv> 8"
abbreviation (input) PROTOCOL_VERSION :: u8 where "PROTOCOL_VERSION \<equiv> 1"
abbreviation (input) RELIABLE_QUEUE_MAX :: nat where "RELIABLE_QUEUE_MAX \<equiv> 24"
abbreviation (input) RELIABLE_EVENT_MAX :: nat where "RELIABLE_EVENT_MAX \<equiv> 52"
abbreviation (input) RELIABLE_RESEND_MS :: u64 where "RELIABLE_RESEND_MS \<equiv> 300"
abbreviation (input) RELIABLE_FAST_MS :: u64 where "RELIABLE_FAST_MS \<equiv> 75"
abbreviation (input) ZOMBIE_SERVER_TICK_MS :: u64 where "ZOMBIE_SERVER_TICK_MS \<equiv> 100"
abbreviation (input) ZOMBIE_MOVE_INTERVAL_MS :: u64 where "ZOMBIE_MOVE_INTERVAL_MS \<equiv> 200"
abbreviation (input) ZOMBIE_WALL_HESITATE_MS :: u64 where "ZOMBIE_WALL_HESITATE_MS \<equiv> 300"
abbreviation (input) ZOMBIE_FIRE_WINDUP_MIN_MS :: u64 where "ZOMBIE_FIRE_WINDUP_MIN_MS \<equiv> 200"
abbreviation (input) ZOMBIE_FIRE_WINDUP_SPREAD_MS :: nat where "ZOMBIE_FIRE_WINDUP_SPREAD_MS \<equiv> 100"
abbreviation (input) ZOMBIE_FIRE_COOLDOWN_MS :: u64 where "ZOMBIE_FIRE_COOLDOWN_MS \<equiv> 900"
abbreviation (input) ZOMBIE_BRICK_FIRE_COOLDOWN_MS :: u64 where "ZOMBIE_BRICK_FIRE_COOLDOWN_MS \<equiv> 3000"
abbreviation (input) ZOMBIE_BRICK_FIRE_CHANCE_DENOMINATOR :: nat where "ZOMBIE_BRICK_FIRE_CHANCE_DENOMINATOR \<equiv> 3"
abbreviation (input) ZOMBIE_BRICK_FIRE_STUCK_MOVES :: u8 where "ZOMBIE_BRICK_FIRE_STUCK_MOVES \<equiv> 1"
abbreviation (input) ZOMBIE_DECISION_MIN_MOVES :: nat where "ZOMBIE_DECISION_MIN_MOVES \<equiv> 3"
abbreviation (input) ZOMBIE_DECISION_MAX_MOVES :: nat where "ZOMBIE_DECISION_MAX_MOVES \<equiv> 7"
abbreviation (input) ZOMBIE_INITIAL_PHASE_TICKS :: nat where "ZOMBIE_INITIAL_PHASE_TICKS \<equiv> 3"
abbreviation (input) SPAWN_MIN_DISTANCE :: int where "SPAWN_MIN_DISTANCE \<equiv> 8"
abbreviation (input) INT_MAX :: int where "INT_MAX \<equiv> 2147483647"

section \<open>Structures\<close>

record player_state =
  p_x :: u8
  p_y :: u8
  p_joy :: u8
  p_score :: u8
  respawn_at_ms :: u64
  zombie_move_next_ms :: u64
  zombie_fire_next_ms :: u64
  zombie_fire_windup_until_ms :: u64
  zombie_brick_fire_next_ms :: u64
  zombie_dir :: u8
  zombie_last_dir :: u8
  zombie_commit_moves_left :: u8
  zombie_fire_target :: u8
  zombie_brick_fire_pending :: bool
  zombie_brick_fire_dir :: u8
  zombie_stuck_moves :: u8

definition player_zero :: player_state where
  "player_zero = \<lparr>p_x = 0, p_y = 0, p_joy = 0, p_score = 0, respawn_at_ms = 0,
     zombie_move_next_ms = 0, zombie_fire_next_ms = 0, zombie_fire_windup_until_ms = 0,
     zombie_brick_fire_next_ms = 0, zombie_dir = 0, zombie_last_dir = 0,
     zombie_commit_moves_left = 0, zombie_fire_target = 0, zombie_brick_fire_pending = False,
     zombie_brick_fire_dir = 0, zombie_stuck_moves = 0\<rparr>"

text \<open>\<open>dx\<close> and \<open>dy\<close> are \<open>int8_t\<close> in the source and only ever hold -1, 0 and 1.\<close>

record shot_state =
  s_active :: bool
  s_x :: u8
  s_y :: u8
  s_dx :: int
  s_dy :: int
  s_clear_burst :: u8

definition shot_zero :: shot_state where
  "shot_zero = \<lparr>s_active = False, s_x = 0, s_y = 0, s_dx = 0, s_dy = 0, s_clear_burst = 0\<rparr>"

record queued_input =
  qi_seq :: u8
  qi_joy :: u8
  qi_ready_at_ms :: u64

text \<open>\<open>rq_pkt\<close> is \<open>pkt[0..len)\<close>: the fixed buffer is only ever read up to \<open>len\<close>.\<close>

record reliable_entry =
  rq_rev :: u16
  rq_pkt :: bytes
  rq_retries :: u8

definition queued_input_zero :: queued_input where
  "queued_input_zero = \<lparr>qi_seq = 0, qi_joy = 0, qi_ready_at_ms = 0\<rparr>"

definition reliable_entry_zero :: reliable_entry where
  "reliable_entry_zero = \<lparr>rq_rev = 0, rq_pkt = [], rq_retries = 0\<rparr>"

text \<open>The peer address is kept by the source for log lines only and is left out.\<close>

record client_slot =
  in_use :: bool
  c_fd :: int
  c_tx :: tcp_tx
  c_frame_rx :: tcp_frame_rx
  connected_ms :: u64
  received_packet :: bool
  handshake_ok :: bool
  c_name :: bytes
  last_seen_ms :: u64
  sent_bricks :: bool
  c_rx :: transport_rx_state
  c_transport :: transport_counters
  have_delta_seq :: bool
  last_delta_seq :: u8
  have_applied_input_seq :: bool
  applied_input_seq :: u8
  input_q :: "queued_input list"
  input_head :: nat
  input_count :: nat
  reliable_next_rev :: u16
  reliable_acked_rev :: u16
  reliable_sent_rev :: u16
  reliable_last_send_ms :: u64
  reliable_last_fast_ms :: u64
  reliable_q :: "reliable_entry list"
  reliable_head :: nat
  reliable_count :: nat
  leave_requested :: bool
  leave_seq :: u8

text \<open>\<open>memset(client, 0, sizeof *client)\<close> followed by \<open>fd = -1\<close>.\<close>

definition client_free :: client_slot where
  "client_free = \<lparr>in_use = False, c_fd = -1, c_tx = tcp_tx_zero, c_frame_rx = frame_rx_zero,
     connected_ms = 0, received_packet = False, handshake_ok = False, c_name = replicate NAME_LEN 0,
     last_seen_ms = 0, sent_bricks = False, c_rx = transport_rx_zero, c_transport = counters_zero,
     have_delta_seq = False, last_delta_seq = 0, have_applied_input_seq = False,
     applied_input_seq = 0, input_q = replicate INPUT_QUEUE_MAX queued_input_zero,
     input_head = 0, input_count = 0, reliable_next_rev = 0, reliable_acked_rev = 0,
     reliable_sent_rev = 0, reliable_last_send_ms = 0, reliable_last_fast_ms = 0,
     reliable_q = replicate RELIABLE_QUEUE_MAX reliable_entry_zero, reliable_head = 0,
     reliable_count = 0, leave_requested = False, leave_seq = 0\<rparr>"

record departing_connection =
  dc_in_use :: bool
  dc_fd :: int
  dc_tx :: tcp_tx
  dc_frame_rx :: tcp_frame_rx
  dc_leave_seq :: u8
  dc_deadline_ms :: u64

definition departing_free :: departing_connection where
  "departing_free = \<lparr>dc_in_use = False, dc_fd = -1, dc_tx = tcp_tx_zero,
     dc_frame_rx = frame_rx_zero, dc_leave_seq = 0, dc_deadline_ms = 0\<rparr>"

text \<open>The brick path is used once, to read the layout; its contents are an argument of \<open>init_room\<close>.\<close>

record room_config =
  cfg_port :: int
  cfg_zombies :: int
  cfg_tick_hz :: int
  cfg_lag_ms :: int
  cfg_kill_limit :: int
  cfg_intermission_ms :: int
  cfg_no_human_grace_ms :: int

record brick_echo =
  be_x :: u8
  be_y :: u8
  be_left :: nat

record respawn_echo =
  re_pkt :: bytes
  re_left :: nat

definition brick_echo_zero :: brick_echo where
  "brick_echo_zero = \<lparr>be_x = 0, be_y = 0, be_left = 0\<rparr>"

definition respawn_echo_zero :: respawn_echo where
  "respawn_echo_zero = \<lparr>re_pkt = replicate 7 0, re_left = 0\<rparr>"

datatype round_phase = ROUND_PLAYING | ROUND_OVER | ROUND_DORMANT

fun phase_byte :: "round_phase \<Rightarrow> u8" where
  "phase_byte ROUND_PLAYING = 0"
| "phase_byte ROUND_OVER = 1"
| "phase_byte ROUND_DORMANT = 2"

text \<open>\<open>r_env\<close> is not a field of the C structure: it is the outside world the room acts on.\<close>

record room =
  r_config :: room_config
  r_listener_fd :: int
  r_clients :: "client_slot list"
  r_departing :: "departing_connection list"
  r_players :: "player_state list"
  r_shots :: "shot_state list"
  r_brick_bits :: bytes
  r_brick_reset_bits :: bytes
  r_last_input_ms :: "u64 list"
  r_global_transport :: transport_counters
  r_brick_echo :: "brick_echo list"
  r_respawn_echo :: "respawn_echo list"
  r_occupied_mask :: u8
  r_seq :: u8
  r_tick_ms :: u64
  r_next_tick :: u64
  r_last_transport_summary_ms :: u64
  r_last_brick_resync_ms :: u64
  r_last_name_rotate_ms :: u64
  r_last_seat_ms :: u64
  r_last_seat_mask :: u8
  r_name_rotate :: nat
  r_round_id :: u8
  r_round_state :: round_phase
  r_historical_zombie_mask :: u8
  r_final_active_mask :: u8
  r_final_zombie_mask :: u8
  r_winner_pid :: u8
  r_final_scores :: bytes
  r_frozen_names :: "bytes list"
  r_frozen_match :: bytes
  r_intermission_deadline_ms :: u64
  r_no_human_deadline_ms :: u64
  r_env :: env

section \<open>Field updates by index\<close>

definition upd_player :: "nat \<Rightarrow> (player_state \<Rightarrow> player_state) \<Rightarrow> room \<Rightarrow> room" where
  "upd_player i f r = r\<lparr>r_players := modify i f (r_players r)\<rparr>"

definition upd_shot :: "nat \<Rightarrow> (shot_state \<Rightarrow> shot_state) \<Rightarrow> room \<Rightarrow> room" where
  "upd_shot i f r = r\<lparr>r_shots := modify i f (r_shots r)\<rparr>"

definition upd_client :: "nat \<Rightarrow> (client_slot \<Rightarrow> client_slot) \<Rightarrow> room \<Rightarrow> room" where
  "upd_client i f r = r\<lparr>r_clients := modify i f (r_clients r)\<rparr>"

text \<open>\<open>room->seq++\<close> and the calls of \<open>now_ms\<close> and \<open>rand\<close> made on behalf of a room.\<close>

definition next_seq :: "room \<Rightarrow> room" where
  "next_seq r = r\<lparr>r_seq := r_seq r + 1\<rparr>"

definition room_now :: "room \<Rightarrow> u64" where
  "room_now r = fst (now_ms (r_env r))"

definition room_now_read :: "room \<Rightarrow> room" where
  "room_now_read r = r\<lparr>r_env := snd (now_ms (r_env r))\<rparr>"

definition room_rand :: "room \<Rightarrow> nat" where
  "room_rand r = fst (c_rand (r_env r))"

definition room_rand_read :: "room \<Rightarrow> room" where
  "room_rand_read r = r\<lparr>r_env := snd (c_rand (r_env r))\<rparr>"

section \<open>Packet builders\<close>

definition build_snapshot :: "u8 \<Rightarrow> player_state list \<Rightarrow> u8 \<Rightarrow> u8 \<Rightarrow> bytes" where
  "build_snapshot seq players ack_seq round_id =
     [PKT_SNAPSHOT, seq, 0x01,
      p_x (players ! 0), p_y (players ! 0), p_x (players ! 1), p_y (players ! 1),
      p_x (players ! 2), p_y (players ! 2), p_x (players ! 3), p_y (players ! 3),
      p_joy (players ! 0), p_joy (players ! 1), p_joy (players ! 2), p_joy (players ! 3),
      p_score (players ! 0), p_score (players ! 1), p_score (players ! 2), p_score (players ! 3),
      ack_seq, round_id]"

definition build_name :: "u8 \<Rightarrow> u8 \<Rightarrow> bytes \<Rightarrow> bytes" where
  "build_name seq pid name = [PKT_NAME, seq, pid] @ name"

definition build_seats :: "u8 \<Rightarrow> u8 \<Rightarrow> bytes" where
  "build_seats seq seat_mask = [PKT_SEATS, seq, seat_mask AND 0x0F]"

definition build_brick_delta :: "u8 \<Rightarrow> u8 \<Rightarrow> u8 \<Rightarrow> u8 \<Rightarrow> bytes" where
  "build_brick_delta seq x y round_id = [PKT_BRICK_DELTA, seq, x, y, round_id]"

definition build_respawn :: "u8 \<Rightarrow> u8 \<Rightarrow> u8 \<Rightarrow> u8 \<Rightarrow> u8 \<Rightarrow> u8 \<Rightarrow> bytes" where
  "build_respawn seq pid x y flags round_id = [PKT_RESPAWN, seq, pid, x, y, flags, round_id]"

definition build_shot :: "u8 \<Rightarrow> u8 \<Rightarrow> u8 \<Rightarrow> u8 \<Rightarrow> u8 \<Rightarrow> u8 \<Rightarrow> bytes" where
  "build_shot seq pid x y active round_id = [PKT_SHOT, seq, pid, x, y, active, round_id]"

definition build_brick_full :: "u8 \<Rightarrow> bytes \<Rightarrow> u8 \<Rightarrow> bytes" where
  "build_brick_full seq bits round_id = [PKT_BRICK_FULL, seq, 0x01] @ bits @ [round_id]"

section \<open>Names\<close>

definition name_char :: "u8 \<Rightarrow> u8 option" where
  "name_char b =
     (let c = (if 0x61 \<le> b \<and> b \<le> 0x7A then b - 0x61 + 0x41 else b) in
      if (0x41 \<le> c \<and> c \<le> 0x5A) \<or> (0x30 \<le> c \<and> c \<le> 0x39) \<or> c = 0x20 \<or> c = 0x2D \<or> c = 0x2E
      then Some c else None)"

definition sanitize_name :: "bytes \<Rightarrow> bytes" where
  "sanitize_name inp =
     (let kept = List.map_filter name_char (take NAME_LEN inp) in
      kept @ replicate (NAME_LEN - length kept) 0x20)"

definition name_is_set :: "bytes \<Rightarrow> bool" where
  "name_is_set name \<longleftrightarrow> list_ex (\<lambda>b. b \<noteq> 0 \<and> b \<noteq> 0x20) (take NAME_LEN name)"

section \<open>Masks computed from the seats\<close>

definition slot_bit :: "nat \<Rightarrow> u8" where
  "slot_bit i = push_bit i 1"

definition seated :: "client_slot \<Rightarrow> bool" where
  "seated c \<longleftrightarrow> in_use c \<and> handshake_ok c"

definition compute_seat_mask :: "client_slot list \<Rightarrow> u8" where
  "compute_seat_mask clients =
     fold (\<lambda>i m. if seated (clients ! i) then m OR slot_bit i else m) [0..<MAX_PLAYERS] 0"

definition room_human_count :: "room \<Rightarrow> nat" where
  "room_human_count r = length (filter (\<lambda>i. seated (r_clients r ! i)) [0..<MAX_PLAYERS])"

text \<open>The loop of \<open>compute_zombie_mask\<close> over the remaining slots.\<close>

fun zombie_fill :: "client_slot list \<Rightarrow> nat list \<Rightarrow> int \<Rightarrow> bool list \<Rightarrow> bool list" where
  "zombie_fill clients [] remaining out_mask = out_mask"
| "zombie_fill clients (i # slots) remaining out_mask =
     (if \<not> remaining > 0 then out_mask
      else if seated (clients ! i) then zombie_fill clients slots remaining out_mask
      else zombie_fill clients slots (remaining - 1) (out_mask[i := True]))"

definition compute_zombie_mask :: "client_slot list \<Rightarrow> int \<Rightarrow> bool list" where
  "compute_zombie_mask clients zombies =
     (let out_mask = replicate MAX_PLAYERS False in
      if zombies \<le> 0 then out_mask
      else zombie_fill clients [1..<MAX_PLAYERS] zombies out_mask)"

definition mask_bits :: "bool list \<Rightarrow> u8" where
  "mask_bits zm = fold (\<lambda>i m. if zm ! i then m OR slot_bit i else m) [0..<MAX_PLAYERS] 0"

definition room_zombies :: "room \<Rightarrow> bool list" where
  "room_zombies r = compute_zombie_mask (r_clients r) (cfg_zombies (r_config r))"

section \<open>Transmission\<close>

definition send_checked :: "client_slot \<Rightarrow> bytes \<Rightarrow> env \<Rightarrow> client_slot \<times> env" where
  "send_checked c pkt e =
     (let (n, tx, e1) = send_frame (c_fd c) (c_tx c) pkt e in (c\<lparr>c_tx := tx\<rparr>, e1))"

text \<open>One step of the loop of \<open>broadcast_packet\<close>, and the loop.\<close>

definition broadcast_step ::
  "bytes \<Rightarrow> nat \<Rightarrow> client_slot list \<times> env \<Rightarrow> client_slot list \<times> env" where
  "broadcast_step pkt i s =
     (if \<not> in_use (fst s ! i) \<or> \<not> handshake_ok (fst s ! i) then s
      else let (c, e) = send_checked (fst s ! i) pkt (snd s) in ((fst s)[i := c], e))"

definition broadcast_packet :: "client_slot list \<Rightarrow> bytes \<Rightarrow> env \<Rightarrow> client_slot list \<times> env" where
  "broadcast_packet clients pkt e = for_slots (broadcast_step pkt) (clients, e)"

definition broadcast :: "bytes \<Rightarrow> room \<Rightarrow> room" where
  "broadcast pkt r =
     (let (cs, e) = broadcast_packet (r_clients r) pkt (r_env r) in r\<lparr>r_clients := cs, r_env := e\<rparr>)"

section \<open>What a transmission may touch\<close>

text \<open>
  \<open>core\<close> blanks the link state of a client and \<open>rcore\<close> everything a transmission may change in
  a room: the links, the outside world (except which descriptors were closed), the sequence byte, the echo queues and the name rotation. An operation that
  only transmits leaves \<open>rcore\<close> as it is, and so every other field.
\<close>

definition env_core :: "env \<Rightarrow> env" where
  "env_core e = \<lparr>e_sends = [], e_wire = (\<lambda>_. []), e_closed = e_closed e, e_rands = [], e_clock = 0, e_ticks = []\<rparr>"

lemma env_core_eq: "e_closed e = e_closed e' \<Longrightarrow> env_core e = env_core e'"
  by (simp add: env_core_def)

lemma closed_now_ms [simp]: "e_closed (snd (now_ms e)) = e_closed e"
  by (simp add: now_ms_def split: list.split)

lemma closed_rand [simp]: "e_closed (snd (c_rand e)) = e_closed e"
  by (simp add: c_rand_def split: list.split)

lemma closed_send_checked [simp]: "e_closed (snd (send_checked c pkt e)) = e_closed e"
  using send_frame_spec(1) [of "c_fd c" "c_tx c" pkt e] same_outside_def
  by (cases "send_frame (c_fd c) (c_tx c) pkt e") (auto simp: send_checked_def same_outside_def)

lemma closed_broadcast [simp]: "e_closed (snd (broadcast_packet cs pkt e)) = e_closed e"
proof -
  have "e_closed (snd (broadcast_step pkt i s)) = e_closed (snd s)" for i s
    by (simp add: broadcast_step_def split_beta)
  then show ?thesis
    using for_slots_preserves [of "\<lambda>s. e_closed (snd s)" "broadcast_step pkt" "(cs, e)"]
    by (simp add: broadcast_packet_def)
qed

definition core :: "client_slot \<Rightarrow> client_slot" where
  "core c = c\<lparr>c_tx := tcp_tx_zero, reliable_next_rev := 0, reliable_acked_rev := 0,
     reliable_sent_rev := 0, reliable_last_send_ms := 0, reliable_last_fast_ms := 0,
     reliable_q := [], reliable_head := 0, reliable_count := 0\<rparr>"

definition rcore :: "room \<Rightarrow> room" where
  "rcore r = r\<lparr>r_clients := map core (r_clients r), r_env := env_core (r_env r), r_seq := 0,
     r_brick_echo := [], r_respawn_echo := [], r_name_rotate := 0\<rparr>"

lemma coreD:
  assumes "core c = core d"
  shows "in_use c = in_use d" "c_fd c = c_fd d" "c_frame_rx c = c_frame_rx d"
    "connected_ms c = connected_ms d" "received_packet c = received_packet d"
    "handshake_ok c = handshake_ok d" "c_name c = c_name d" "last_seen_ms c = last_seen_ms d"
    "c_transport c = c_transport d" "have_delta_seq c = have_delta_seq d"
    "last_delta_seq c = last_delta_seq d" "have_applied_input_seq c = have_applied_input_seq d"
    "applied_input_seq c = applied_input_seq d" "input_q c = input_q d"
    "input_head c = input_head d" "input_count c = input_count d"
    "leave_requested c = leave_requested d" "leave_seq c = leave_seq d" "seated c = seated d"
  using arg_cong [OF assms, of in_use] arg_cong [OF assms, of c_fd] arg_cong [OF assms, of c_frame_rx]
    arg_cong [OF assms, of connected_ms] arg_cong [OF assms, of received_packet]
    arg_cong [OF assms, of handshake_ok] arg_cong [OF assms, of c_name]
    arg_cong [OF assms, of last_seen_ms] arg_cong [OF assms, of c_transport]
    arg_cong [OF assms, of have_delta_seq] arg_cong [OF assms, of last_delta_seq]
    arg_cong [OF assms, of have_applied_input_seq] arg_cong [OF assms, of applied_input_seq]
    arg_cong [OF assms, of input_q] arg_cong [OF assms, of input_head]
    arg_cong [OF assms, of input_count] arg_cong [OF assms, of leave_requested]
    arg_cong [OF assms, of leave_seq]
  by (simp_all add: core_def seated_def)

lemma rcoreD:
  assumes "rcore r = rcore q"
  shows "r_config r = r_config q" "r_listener_fd r = r_listener_fd q" "r_departing r = r_departing q"
    "r_players r = r_players q" "r_shots r = r_shots q" "r_brick_bits r = r_brick_bits q"
    "r_brick_reset_bits r = r_brick_reset_bits q" "r_last_input_ms r = r_last_input_ms q"
    "r_occupied_mask r = r_occupied_mask q" "r_tick_ms r = r_tick_ms q" "r_next_tick r = r_next_tick q"
    "r_round_id r = r_round_id q" "r_round_state r = r_round_state q"
    "r_historical_zombie_mask r = r_historical_zombie_mask q"
    "r_final_active_mask r = r_final_active_mask q" "r_final_zombie_mask r = r_final_zombie_mask q"
    "r_winner_pid r = r_winner_pid q" "r_final_scores r = r_final_scores q"
    "r_frozen_names r = r_frozen_names q" "r_frozen_match r = r_frozen_match q"
    "r_intermission_deadline_ms r = r_intermission_deadline_ms q"
    "r_no_human_deadline_ms r = r_no_human_deadline_ms q"
    "map core (r_clients r) = map core (r_clients q)"
    "length (r_clients r) = length (r_clients q)"
    "e_closed (r_env r) = e_closed (r_env q)"
proof -
  note field = arg_cong [OF assms]
  show "r_config r = r_config q" using field [of r_config] by (simp add: rcore_def)
  show "r_listener_fd r = r_listener_fd q" using field [of r_listener_fd] by (simp add: rcore_def)
  show "r_departing r = r_departing q" using field [of r_departing] by (simp add: rcore_def)
  show "r_players r = r_players q" using field [of r_players] by (simp add: rcore_def)
  show "r_shots r = r_shots q" using field [of r_shots] by (simp add: rcore_def)
  show "r_brick_bits r = r_brick_bits q" using field [of r_brick_bits] by (simp add: rcore_def)
  show "r_brick_reset_bits r = r_brick_reset_bits q" using field [of r_brick_reset_bits] by (simp add: rcore_def)
  show "r_last_input_ms r = r_last_input_ms q" using field [of r_last_input_ms] by (simp add: rcore_def)
  show "r_occupied_mask r = r_occupied_mask q" using field [of r_occupied_mask] by (simp add: rcore_def)
  show "r_tick_ms r = r_tick_ms q" using field [of r_tick_ms] by (simp add: rcore_def)
  show "r_next_tick r = r_next_tick q" using field [of r_next_tick] by (simp add: rcore_def)
  show "r_round_id r = r_round_id q" using field [of r_round_id] by (simp add: rcore_def)
  show "r_round_state r = r_round_state q" using field [of r_round_state] by (simp add: rcore_def)
  show "r_historical_zombie_mask r = r_historical_zombie_mask q"
    using field [of r_historical_zombie_mask] by (simp add: rcore_def)
  show "r_final_active_mask r = r_final_active_mask q" using field [of r_final_active_mask] by (simp add: rcore_def)
  show "r_final_zombie_mask r = r_final_zombie_mask q" using field [of r_final_zombie_mask] by (simp add: rcore_def)
  show "r_winner_pid r = r_winner_pid q" using field [of r_winner_pid] by (simp add: rcore_def)
  show "r_final_scores r = r_final_scores q" using field [of r_final_scores] by (simp add: rcore_def)
  show "r_frozen_names r = r_frozen_names q" using field [of r_frozen_names] by (simp add: rcore_def)
  show "r_frozen_match r = r_frozen_match q" using field [of r_frozen_match] by (simp add: rcore_def)
  show "r_intermission_deadline_ms r = r_intermission_deadline_ms q"
    using field [of r_intermission_deadline_ms] by (simp add: rcore_def)
  show "r_no_human_deadline_ms r = r_no_human_deadline_ms q"
    using field [of r_no_human_deadline_ms] by (simp add: rcore_def)
  show clients: "map core (r_clients r) = map core (r_clients q)"
    using field [of r_clients] by (simp add: rcore_def)
  then show "length (r_clients r) = length (r_clients q)" by (metis length_map)
  show "e_closed (r_env r) = e_closed (r_env q)"
    using field [of "\<lambda>r. e_closed (r_env r)"] by (simp add: rcore_def env_core_def)
qed

lemma core_nthD:
  assumes "map core cs = map core ds" "i < length cs"
  shows "core (cs ! i) = core (ds ! i)"
  using assms by (metis length_map nth_map)

lemma core_list_update: "core c = core (cs ! i) \<Longrightarrow> map core (cs[i := c]) = map core cs"
  by (metis list_update_id map_update)

lemma core_tx [simp]: "core (c\<lparr>c_tx := tx\<rparr>) = core c"
  by (simp add: core_def)

lemma core_send_checked [simp]: "core (fst (send_checked c pkt e)) = core c"
  by (simp add: send_checked_def split_beta)

lemma core_broadcast_step [simp]: "map core (fst (broadcast_step pkt i s)) = map core (fst s)"
  by (auto simp: broadcast_step_def split_beta intro: core_list_update)

lemma core_broadcast_packet [simp]: "map core (fst (broadcast_packet cs pkt e)) = map core cs"
  unfolding broadcast_packet_def
  using for_slots_preserves [of "\<lambda>s. map core (fst s)" "broadcast_step pkt" "(cs, e)"] by simp

lemma rcore_broadcast [simp]: "rcore (broadcast pkt r) = rcore r"
  using env_core_eq [OF closed_broadcast] by (simp add: broadcast_def rcore_def split_beta)

lemma rcore_next_seq [simp]: "rcore (next_seq r) = rcore r"
  by (simp add: next_seq_def rcore_def)

lemma rcore_now_read [simp]: "rcore (room_now_read r) = rcore r"
  using env_core_eq [OF closed_now_ms] by (simp add: room_now_read_def rcore_def)

lemma rcore_rand_read [simp]: "rcore (room_rand_read r) = rcore r"
  using env_core_eq [OF closed_rand] by (simp add: room_rand_read_def rcore_def)

lemmas broadcast_frame [simp] = rcoreD [OF rcore_broadcast]
lemmas next_seq_frame [simp] = rcoreD [OF rcore_next_seq]
lemmas now_read_frame [simp] = rcoreD [OF rcore_now_read]
lemmas rand_read_frame [simp] = rcoreD [OF rcore_rand_read]

section \<open>Lemmas: masks\<close>

lemma slots_list: "[0..<MAX_PLAYERS] = [0, 1, 2, 3]"
  by (simp add: upt_conv_Cons)

lemma bit_slot_bit [simp]: "bit (slot_bit i) n \<longleftrightarrow> n = i \<and> i < 8"
  by (auto simp: slot_bit_def bit_exp_iff)

lemma bit_fold_slots:
  "bit (fold (\<lambda>i m. if P i then m OR slot_bit i else m) xs m0) n \<longleftrightarrow>
     bit m0 n \<or> (n < 8 \<and> n \<in> set xs \<and> P n)"
  by (induction xs arbitrary: m0) (auto simp: bit_or_iff)

lemma bit_mask_bits: "bit (mask_bits zm) n \<longleftrightarrow> n < MAX_PLAYERS \<and> zm ! n"
  by (auto simp: mask_bits_def bit_fold_slots)

lemma bit_seat_mask: "bit (compute_seat_mask cs) n \<longleftrightarrow> n < MAX_PLAYERS \<and> seated (cs ! n)"
  by (auto simp: compute_seat_mask_def bit_fold_slots)

lemma zombie_mask_cases:
  "compute_zombie_mask cs z =
     [False,
      \<not> seated (cs ! 1) \<and> 0 < z,
      \<not> seated (cs ! 2) \<and> of_bool (\<not> seated (cs ! 1)) < z,
      \<not> seated (cs ! 3) \<and> of_bool (\<not> seated (cs ! 1)) + of_bool (\<not> seated (cs ! 2)) < z]"
proof -
  have slots: "[1..<MAX_PLAYERS] = [1, 2, 3]" by (simp add: upt_conv_Cons)
  have start: "replicate MAX_PLAYERS False = [False, False, False, False]" by (simp add: numeral_eq_Suc)
  show ?thesis
    unfolding compute_zombie_mask_def slots start Let_def by auto
qed

lemma length_zombie_mask [simp]: "length (compute_zombie_mask cs z) = 4"
  by (simp add: zombie_mask_cases)

lemma zombie_mask_not_seated: "i < 4 \<Longrightarrow> compute_zombie_mask cs z ! i \<Longrightarrow> 0 < i \<and> \<not> seated (cs ! i)"
  by (auto simp: zombie_mask_cases numeral_eq_Suc less_Suc_eq)

lemma zombie_mask_core:
  assumes "map core cs = map core ds" "length cs = 4"
  shows "compute_zombie_mask cs z = compute_zombie_mask ds z"
  using coreD(19) [OF core_nthD [OF assms(1), of 1]] coreD(19) [OF core_nthD [OF assms(1), of 2]]
    coreD(19) [OF core_nthD [OF assms(1), of 3]] assms(2)
  by (simp add: zombie_mask_cases)

section \<open>Lemmas: names\<close>

definition legal_name_char :: "u8 \<Rightarrow> bool" where
  "legal_name_char c \<longleftrightarrow> (0x41 \<le> c \<and> c \<le> 0x5A) \<or> (0x30 \<le> c \<and> c \<le> 0x39) \<or> c = 0x20 \<or> c = 0x2D \<or> c = 0x2E"

lemma name_char_legal: "name_char b = Some c \<Longrightarrow> legal_name_char c"
  by (auto simp: name_char_def legal_name_char_def Let_def split: if_splits)

lemma legal_not_lower: "legal_name_char c \<Longrightarrow> \<not> (0x61 \<le> c \<and> c \<le> 0x7A)"
  unfolding legal_name_char_def by unat_arith

lemma name_char_id: "legal_name_char c \<Longrightarrow> name_char c = Some c"
  using legal_not_lower [of c] by (auto simp: name_char_def legal_name_char_def Let_def)

lemma map_filter_legal: "list_all legal_name_char cs \<Longrightarrow> List.map_filter name_char cs = cs"
  by (induction cs) (simp_all add: List.map_filter_simps name_char_id)

lemma set_map_filter_legal: "list_all legal_name_char (List.map_filter name_char cs)"
  by (induction cs) (auto simp: List.map_filter_simps name_char_legal split: option.splits)

lemma length_map_filter: "length (List.map_filter f cs) \<le> length cs"
  by (induction cs) (auto simp: List.map_filter_simps split: option.splits)

lemma length_sanitize_name [simp]: "length (sanitize_name cs) = 8"
  using length_map_filter [of name_char "take 8 cs"] by (simp add: sanitize_name_def Let_def)

lemma sanitize_name_chars: "list_all legal_name_char (sanitize_name cs)"
  using set_map_filter_legal [of "take 8 cs"]
  by (auto simp: sanitize_name_def Let_def list_all_iff legal_name_char_def)

lemma sanitize_name_fixed: "length cs = 8 \<Longrightarrow> list_all legal_name_char cs \<Longrightarrow> sanitize_name cs = cs"
  by (simp add: sanitize_name_def map_filter_legal)

section \<open>Properties\<close>

text \<open>
  Names from the network. Whatever bytes a NAME packet carries, the stored name is exactly
  eight characters of the drawable set; sanitising is idempotent, and it leaves a name alone
  exactly when the name was already of that form.
\<close>

theorem sanitize_name_normal_form:
  "length (sanitize_name cs) = 8 \<and> list_all legal_name_char (sanitize_name cs) \<and>
   sanitize_name (sanitize_name cs) = sanitize_name cs \<and>
   (sanitize_name cs = cs \<longleftrightarrow> length cs = 8 \<and> list_all legal_name_char cs)"
  using sanitize_name_chars [of cs] sanitize_name_fixed length_sanitize_name [of cs] by metis

text \<open>
  Which seats the AI drives. Slot 0 is never a zombie, a seated human's slot never is, the
  number of zombies is the configured number or the number of vacant seats among slots 1 to 3,
  whichever is less, the lowest vacant slots are taken first, and the zombie bits and the seat
  bits sent to clients never overlap.
\<close>

theorem zombie_mask_exact:
  "compute_zombie_mask cs z ! 0 = False \<and>
   int (length (filter (\<lambda>i. compute_zombie_mask cs z ! i) [0..<4])) =
     max 0 (min z (int (length (filter (\<lambda>i. \<not> seated (cs ! i)) [1..<4])))) \<and>
   list_all (\<lambda>i. compute_zombie_mask cs z ! i =
     (\<not> seated (cs ! i) \<and> int (length (filter (\<lambda>j. \<not> seated (cs ! j)) [1..<i])) < z)) [1..<4] \<and>
   mask_bits (compute_zombie_mask cs z) AND compute_seat_mask cs = 0"
proof (intro conjI)
  show "mask_bits (compute_zombie_mask cs z) AND compute_seat_mask cs = 0"
    by (rule bit_eqI) (use zombie_mask_not_seated in \<open>auto simp: bit_and_iff bit_mask_bits bit_seat_mask\<close>)
  have l: "[0..<4] = [0, 1, 2, 3 :: nat]" "[1..<4] = [1, 2, 3 :: nat]" "[1..<3] = [1, 2 :: nat]"
    "[1..<2] = [1 :: nat]" by (simp_all add: upt_conv_Cons)
  show "list_all (\<lambda>i. compute_zombie_mask cs z ! i =
     (\<not> seated (cs ! i) \<and> int (length (filter (\<lambda>j. \<not> seated (cs ! j)) [1..<i])) < z)) [1..<4]"
    unfolding l list.pred_inject by (simp add: zombie_mask_cases l)
  show "int (length (filter (\<lambda>i. compute_zombie_mask cs z ! i) [0..<4])) =
     max 0 (min z (int (length (filter (\<lambda>i. \<not> seated (cs ! i)) [1..<4]))))"
    unfolding l by (simp add: zombie_mask_cases)
qed (simp add: zombie_mask_cases)

end
