(* ===== verification/Reliable.thy ===== *)
theory Reliable
  imports Room
begin

text \<open>
  The reliable event channel of \<^verbatim>\<open>server/main.c\<close>: a ring of 24 numbered events per client,
  sent one at a time, resent until acknowledged. Lemmas: the ring is a bounded FIFO; the
  numbering invariant (revisions are consecutive and at most one is in flight); what an
  acknowledgement does; that a saturated ring fails the connection.
\<close>

section \<open>Operations\<close>

definition rev_after :: "u16 \<Rightarrow> u16 \<Rightarrow> bool" where
  "rev_after a b \<longleftrightarrow> a - b < 0x8000 \<and> a \<noteq> b"

definition reliable_send_from :: "client_slot \<Rightarrow> u64 \<Rightarrow> env \<Rightarrow> client_slot \<times> env" where
  "reliable_send_from c now e =
     (if reliable_count c = 0 then (c, e)
      else let idx = reliable_head c;
               (c1, e1) = send_checked c (rq_pkt (reliable_q c ! idx)) e in
        (c1\<lparr>reliable_sent_rev := rq_rev (reliable_q c ! idx),
            reliable_q := modify idx (\<lambda>q. q\<lparr>rq_retries := rq_retries q + 1\<rparr>) (reliable_q c1),
            reliable_last_send_ms := now\<rparr>, e1))"

definition reliable_tick_step ::
  "u64 \<Rightarrow> nat \<Rightarrow> client_slot list \<times> env \<Rightarrow> client_slot list \<times> env" where
  "reliable_tick_step now i s =
     (let c = fst s ! i in
      if \<not> in_use c \<or> reliable_count c = 0 then s
      else if now - reliable_last_send_ms c \<ge> RELIABLE_RESEND_MS then
        (let (c1, e1) = reliable_send_from c now (snd s) in ((fst s)[i := c1], e1))
      else s)"

text \<open>The removal of the oldest event, and the loop of \<open>reliable_ack\<close>.\<close>

definition reliable_pop :: "client_slot \<Rightarrow> client_slot" where
  "reliable_pop c = c\<lparr>reliable_head := Suc (reliable_head c) mod RELIABLE_QUEUE_MAX,
     reliable_count := reliable_count c - 1,
     reliable_acked_rev := rq_rev (reliable_q c ! reliable_head c)\<rparr>"

lemma reliable_pop_count [simp]: "reliable_count (reliable_pop c) = reliable_count c - 1"
  by (simp add: reliable_pop_def)

function reliable_pop_acked :: "u16 \<Rightarrow> client_slot \<Rightarrow> client_slot" where
  "reliable_pop_acked ack c =
     (if reliable_count c > 0 then
        (if ack - rq_rev (reliable_q c ! reliable_head c) \<ge> 0x8000 then c
         else reliable_pop_acked ack (reliable_pop c))
      else c)"
  by pat_completeness auto
termination by (relation "measure (\<lambda>(_, c). reliable_count c)") auto

declare reliable_pop_acked.simps [simp del]

definition reliable_ack :: "client_slot \<Rightarrow> u16 \<Rightarrow> u64 \<Rightarrow> env \<Rightarrow> client_slot \<times> env" where
  "reliable_ack c ack now e =
     (if ack - reliable_sent_rev c < 0x8000 \<and> ack \<noteq> reliable_sent_rev c then (c, e)
      else if ack = reliable_acked_rev c \<and> reliable_count c > 0 \<and>
              now - reliable_last_fast_ms c \<ge> RELIABLE_FAST_MS
      then reliable_send_from (c\<lparr>reliable_last_fast_ms := now\<rparr>) now e
      else let c1 = reliable_pop_acked ack c in
        if reliable_count c1 > 0 then reliable_send_from c1 now e else (c1, e))"

definition reliable_push :: "reliable_entry \<Rightarrow> client_slot \<Rightarrow> client_slot" where
  "reliable_push entry c = c\<lparr>
     reliable_q := (reliable_q c)
       [(reliable_head c + reliable_count c) mod RELIABLE_QUEUE_MAX := entry],
     reliable_count := reliable_count c + 1\<rparr>"

text \<open>The packet of an event: type, sequence, revision low byte first, body.\<close>

definition reliable_packet :: "u8 \<Rightarrow> u16 \<Rightarrow> bytes \<Rightarrow> bytes" where
  "reliable_packet seq rv event =
     [PKT_RELIABLE_EVENT, seq, ucast rv, ucast (drop_bit 8 rv)] @ event"

text \<open>\<open>True\<close> is the return value 0. The sequence counter advances only when an event is queued.\<close>

definition reliable_enqueue_client ::
  "client_slot \<Rightarrow> bytes \<Rightarrow> u8 \<Rightarrow> u64 \<Rightarrow> env \<Rightarrow> bool \<times> client_slot \<times> u8 \<times> env" where
  "reliable_enqueue_client c event seq now e =
     (if \<not> in_use c \<or> \<not> handshake_ok c then (True, c, seq, e)
      else if length event = 0 \<or> length event > RELIABLE_EVENT_MAX \<or>
              reliable_count c \<ge> RELIABLE_QUEUE_MAX
      then (False, c\<lparr>c_tx := (c_tx c)\<lparr>tx_failed := True\<rparr>\<rparr>, seq, e)
      else let rv = reliable_next_rev c;
               pkt = reliable_packet seq rv event;
               c1 = reliable_push \<lparr>rq_rev = rv, rq_pkt = pkt, rq_retries = 0\<rparr>
                      (c\<lparr>reliable_next_rev := rv + 1\<rparr>) in
        if reliable_count c1 = 1 then
          (let (c2, e1) = send_checked c1 pkt e in
           (True, c2\<lparr>reliable_sent_rev := rv, reliable_last_send_ms := now\<rparr>, seq + 1, e1))
        else (True, c1, seq + 1, e))"

section \<open>Operations on a room\<close>

definition reliable_tick :: "u64 \<Rightarrow> room \<Rightarrow> room" where
  "reliable_tick now r =
     (let (cs, e) = for_slots (reliable_tick_step now) (r_clients r, r_env r) in
      r\<lparr>r_clients := cs, r_env := e\<rparr>)"

definition reliable_enqueue :: "nat \<Rightarrow> bytes \<Rightarrow> u64 \<Rightarrow> room \<Rightarrow> bool \<times> room" where
  "reliable_enqueue i event now r =
     (let (ok, c, seq, e) = reliable_enqueue_client (r_clients r ! i) event (r_seq r) now (r_env r) in
      (ok, r\<lparr>r_clients := (r_clients r)[i := c], r_seq := seq, r_env := e\<rparr>))"

definition broadcast_reliable_event :: "bytes \<Rightarrow> u64 \<Rightarrow> room \<Rightarrow> room" where
  "broadcast_reliable_event event now r =
     for_slots (\<lambda>i r. snd (reliable_enqueue i event now r)) r"

section \<open>The ring is a bounded FIFO\<close>

definition ring_shape :: "client_slot \<Rightarrow> bool" where
  "ring_shape c \<longleftrightarrow> length (reliable_q c) = RELIABLE_QUEUE_MAX \<and>
     reliable_head c < RELIABLE_QUEUE_MAX \<and> reliable_count c \<le> RELIABLE_QUEUE_MAX"

definition pending_events :: "client_slot \<Rightarrow> reliable_entry list" where
  "pending_events c = ring_items (reliable_q c) (reliable_head c) (reliable_count c)"

lemma length_pending_events [simp]: "length (pending_events c) = reliable_count c"
  by (simp add: pending_events_def)

lemma pending_push:
  assumes "ring_shape c" "reliable_count c < RELIABLE_QUEUE_MAX"
  shows "pending_events (reliable_push x c) = pending_events c @ [x]" "ring_shape (reliable_push x c)"
  using assms ring_items_push [of "reliable_count c" "reliable_q c" "reliable_head c" x]
  by (simp_all add: pending_events_def ring_shape_def reliable_push_def)

lemma pending_pop:
  assumes "ring_shape c" "0 < reliable_count c"
  shows "pending_events (reliable_pop c) = tl (pending_events c)" "ring_shape (reliable_pop c)"
  using assms ring_items_pop [of "reliable_count c" "reliable_q c" "reliable_head c"]
  by (auto simp: pending_events_def ring_shape_def reliable_pop_def)

lemma pending_nonempty [simp]: "pending_events c \<noteq> [] \<longleftrightarrow> 0 < reliable_count c"
  by (simp add: pending_events_def)

lemma pending_hd: "ring_shape c \<Longrightarrow> 0 < reliable_count c \<Longrightarrow>
    reliable_q c ! reliable_head c = hd (pending_events c)"
  by (simp add: pending_events_def ring_shape_def hd_ring_items)

lemma ring_shape_count: "ring_shape c \<Longrightarrow> reliable_count c \<le> RELIABLE_QUEUE_MAX"
  by (simp add: ring_shape_def)

interpretation reliable_ring: bounded_fifo ring_shape pending_events RELIABLE_QUEUE_MAX
  reliable_push reliable_pop
  by unfold_locales (simp_all add: pending_push pending_pop ring_shape_count)

interpretation revisions: serial_window rev_after "0x8000"
  by unfold_locales (auto simp: rev_after_def word_less_nat_alt)

section \<open>Numbering\<close>

text \<open>The revisions and packets waiting, oldest first; the retry counters are not part of it.\<close>

definition outbox :: "client_slot \<Rightarrow> (u16 \<times> bytes) list" where
  "outbox c = map (\<lambda>q. (rq_rev q, rq_pkt q)) (pending_events c)"

definition packet_of_rev :: "u16 \<times> bytes \<Rightarrow> bool" where
  "packet_of_rev m \<longleftrightarrow> (\<exists>seq event. snd m = reliable_packet seq (fst m) event \<and>
     0 < length event \<and> length event \<le> RELIABLE_EVENT_MAX)"

definition numbered :: "client_slot \<Rightarrow> bool" where
  "numbered c \<longleftrightarrow>
     reliable_next_rev c = reliable_acked_rev c + of_nat (reliable_count c) + 1 \<and>
     map fst (outbox c) = map (\<lambda>k. reliable_acked_rev c + of_nat k + 1) [0..<reliable_count c] \<and>
     reliable_sent_rev c = reliable_acked_rev c + of_bool (0 < reliable_count c) \<and>
     list_all packet_of_rev (outbox c)"

definition link_ok :: "client_slot \<Rightarrow> bool" where
  "link_ok c \<longleftrightarrow> tx_ok (c_tx c) \<and> ring_shape c \<and> (in_use c \<longrightarrow> numbered c)"

lemma length_outbox [simp]: "length (outbox c) = reliable_count c"
  by (simp add: outbox_def)

lemma outbox_Nil_iff [simp]: "outbox c = [] \<longleftrightarrow> reliable_count c = 0"
  by (metis length_0_conv length_outbox)

lemma outbox_pop: "ring_shape c \<Longrightarrow> 0 < reliable_count c \<Longrightarrow> outbox (reliable_pop c) = tl (outbox c)"
  by (simp add: outbox_def pending_pop map_tl)

lemma outbox_push:
  "ring_shape c \<Longrightarrow> reliable_count c < RELIABLE_QUEUE_MAX \<Longrightarrow>
   outbox (reliable_push x c) = outbox c @ [(rq_rev x, rq_pkt x)]"
  by (simp add: outbox_def pending_push)

lemma outbox_hd:
  "ring_shape c \<Longrightarrow> 0 < reliable_count c \<Longrightarrow>
   hd (outbox c) = (rq_rev (reliable_q c ! reliable_head c), rq_pkt (reliable_q c ! reliable_head c))"
  by (simp add: outbox_def hd_map pending_hd)

lemma head_rev:
  assumes "map fst (outbox c) = map (\<lambda>k. a + of_nat k + 1) [0..<reliable_count c]"
    and "ring_shape c" "0 < reliable_count c"
  shows "rq_rev (reliable_q c ! reliable_head c) = a + 1"
proof -
  have "fst (hd (outbox c)) = hd (map fst (outbox c))" using assms(3) by (simp add: hd_map)
  also have "\<dots> = a + 1" using assms(1,3) by (simp add: hd_map upt_conv_Cons)
  finally show ?thesis using outbox_hd [OF assms(2,3)] by simp
qed

lemma numbered_hd:
  assumes "numbered c" "ring_shape c" "0 < reliable_count c"
  shows "rq_rev (reliable_q c ! reliable_head c) = reliable_acked_rev c + 1"
  using assms by (intro head_rev) (simp_all add: numbered_def)

text \<open>Only the fields named here change when the head event is sent.\<close>

lemma send_checked_fields:
  "fst (send_checked c pkt e) = c\<lparr>c_tx := fst (snd (send_frame (c_fd c) (c_tx c) pkt e))\<rparr>"
  by (simp add: send_checked_def split_beta)

lemma tx_ok_send_checked: "tx_ok (c_tx c) \<Longrightarrow> tx_ok (c_tx (fst (send_checked c pkt e)))"
  using send_frame_spec(2) [of "c_fd c" "c_tx c" pkt e]
  by (simp add: send_checked_fields split_beta prod_eq_iff)

lemma outbox_tx [simp]: "outbox (c\<lparr>c_tx := tx\<rparr>) = outbox c"
  by (simp add: outbox_def pending_events_def)

lemma outbox_touch:
  assumes "ring_shape c" "0 < reliable_count c" "\<And>q. rq_rev (f q) = rq_rev q" "\<And>q. rq_pkt (f q) = rq_pkt q"
  shows "outbox (c\<lparr>reliable_q := modify (reliable_head c) f (reliable_q c)\<rparr>) = outbox c"
proof -
  let ?h = "reliable_head c" and ?q = "reliable_q c" and ?n = "reliable_count c"
  have ne: "0 < length ?q" and le: "?n \<le> length ?q" and h: "(?h + 0) mod length ?q = ?h"
    using assms(1) unfolding ring_shape_def by auto
  have "ring_items (modify ?h f ?q) ?h ?n = (ring_items ?q ?h ?n)[0 := f (?q ! ?h)]"
    using ring_items_update [OF ne le, of ?h "f (?q ! ?h)"] h by (simp add: modify_def)
  also have "map (\<lambda>q. (rq_rev q, rq_pkt q)) \<dots> = outbox c"
    using assms by (intro nth_equalityI)
      (auto simp: outbox_def pending_events_def nth_list_update nth_ring_items ring_shape_def)
  finally show ?thesis by (simp add: outbox_def pending_events_def)
qed

lemma send_from_spec:
  assumes "ring_shape c" "tx_ok (c_tx c)" and d_def: "d = fst (reliable_send_from c now e)"
  shows "core d = core c" "ring_shape d" "tx_ok (c_tx d)" "outbox d = outbox c"
    "reliable_count d = reliable_count c" "reliable_acked_rev d = reliable_acked_rev c"
    "reliable_next_rev d = reliable_next_rev c"
    "reliable_sent_rev d = (if 0 < reliable_count c then rq_rev (reliable_q c ! reliable_head c) else reliable_sent_rev c)"
proof -
  let ?tx = "fst (snd (send_frame (c_fd c) (c_tx c) (rq_pkt (reliable_q c ! reliable_head c)) e))"
  let ?bump = "\<lambda>q. q\<lparr>rq_retries := rq_retries q + 1\<rparr>"
  have d: "d = (if reliable_count c = 0 then c else
      c\<lparr>c_tx := ?tx, reliable_sent_rev := rq_rev (reliable_q c ! reliable_head c),
        reliable_q := modify (reliable_head c) ?bump (reliable_q c),
        reliable_last_send_ms := now\<rparr>)"
    by (simp add: d_def reliable_send_from_def send_checked_def split_beta Let_def)
  show "core d = core c" by (simp add: d core_def)
  show "ring_shape d" using assms(1) by (simp add: d ring_shape_def)
  show "tx_ok (c_tx d)"
    using assms(2) tx_ok_send_checked [of c "rq_pkt (reliable_q c ! reliable_head c)" e]
    by (simp add: d send_checked_fields)
  show "outbox d = outbox c"
    using outbox_touch [of c ?bump] assms(1) by (simp add: d outbox_def pending_events_def)
  show "reliable_count d = reliable_count c" "reliable_acked_rev d = reliable_acked_rev c"
    "reliable_next_rev d = reliable_next_rev c"
    "reliable_sent_rev d = (if 0 < reliable_count c then rq_rev (reliable_q c ! reliable_head c) else reliable_sent_rev c)"
    by (simp_all add: d)
qed

lemma numbered_send_from:
  assumes "numbered c" "ring_shape c" "tx_ok (c_tx c)"
  shows "numbered (fst (reliable_send_from c now e))"
  using assms numbered_hd [OF assms(1,2)] send_from_spec [OF assms(2,3) refl, of now e]
  by (simp add: numbered_def)

lemma numbered_pop:
  assumes "numbered c" "ring_shape c" "0 < reliable_count c" "reliable_sent_rev c = reliable_acked_rev c + 1"
  shows "map fst (outbox (reliable_pop c)) =
      map (\<lambda>k. reliable_acked_rev (reliable_pop c) + of_nat k + 1) [0..<reliable_count (reliable_pop c)] \<and>
    reliable_next_rev (reliable_pop c) =
      reliable_acked_rev (reliable_pop c) + of_nat (reliable_count (reliable_pop c)) + 1 \<and>
    list_all packet_of_rev (outbox (reliable_pop c)) \<and>
    reliable_acked_rev (reliable_pop c) = reliable_acked_rev c + 1"
proof -
  have acked: "reliable_acked_rev (reliable_pop c) = reliable_acked_rev c + 1"
    using numbered_hd [OF assms(1-3)] by (simp add: reliable_pop_def)
  obtain m where m: "reliable_count c = Suc m" using assms(3) by (cases "reliable_count c") auto
  have "map fst (outbox (reliable_pop c)) = tl (map fst (outbox c))"
    by (simp add: outbox_pop [OF assms(2,3)] map_tl)
  also have "\<dots> = tl (map (\<lambda>k. reliable_acked_rev c + of_nat k + 1) [0..<Suc m])"
    using assms(1) m by (simp add: numbered_def)
  also have "\<dots> = map (\<lambda>k. reliable_acked_rev c + 1 + of_nat k + 1) [0..<m]"
    by (simp add: map_upt_Suc ac_simps del: upt_Suc)
  finally have "map fst (outbox (reliable_pop c)) = \<dots>" .
  moreover have "list_all packet_of_rev (outbox (reliable_pop c))"
    using assms(1) by (simp add: outbox_pop [OF assms(2,3)] numbered_def list_all_tl)
  moreover have "reliable_next_rev (reliable_pop c) = reliable_next_rev c"
    by (simp add: reliable_pop_def)
  ultimately show ?thesis using acked assms(1) m by (simp add: numbered_def)
qed

section \<open>Acknowledgements\<close>

lemma rev_not_below:
  assumes "\<not> (a - b < (0x8000 :: u16) \<and> a \<noteq> b)" "a \<noteq> b"
  shows "a - b \<ge> 0x8000"
  using assms by auto

lemma next_rev_ahead: "(b - (b + 1) :: u16) \<ge> 0x8000"
proof -
  have "(b - (b + 1) :: u16) = - 1" by simp
  then show ?thesis by simp
qed

lemma pop_acked_eq:
  "reliable_pop_acked ack c =
     (if reliable_count c > 0 \<and> \<not> ack - rq_rev (reliable_q c ! reliable_head c) \<ge> 0x8000
      then reliable_pop_acked ack (reliable_pop c) else c)"
  by (subst reliable_pop_acked.simps) simp

text \<open>
  On a well-formed link an acknowledgement of the revision in flight removes exactly that event,
  and any other one removes nothing.
\<close>

lemma pop_acked_spec:
  assumes "numbered c" "ring_shape c" "\<not> rev_after ack (reliable_sent_rev c)"
  shows "reliable_pop_acked ack c =
    (if 0 < reliable_count c \<and> ack = reliable_sent_rev c then reliable_pop c else c)"
proof (cases "0 < reliable_count c")
  case False
  then show ?thesis by (subst pop_acked_eq) simp
next
  case True
  have hd: "rq_rev (reliable_q c ! reliable_head c) = reliable_sent_rev c"
    using numbered_hd [OF assms(1,2) True] assms(1) True by (simp add: numbered_def)
  show ?thesis
  proof (cases "ack = reliable_sent_rev c")
    case False
    then have "ack - reliable_sent_rev c \<ge> 0x8000"
      using assms(3) rev_not_below by (simp add: rev_after_def)
    then show ?thesis using False hd by (subst pop_acked_eq) simp
  next
    case ack: True
    have sent: "reliable_sent_rev c = reliable_acked_rev c + 1" using assms(1) True by (simp add: numbered_def)
    have "reliable_pop_acked ack (reliable_pop c) = reliable_pop c"
    proof (cases "0 < reliable_count (reliable_pop c)")
      case False
      then show ?thesis by (subst pop_acked_eq) simp
    next
      case more: True
      let ?d = "reliable_pop c"
      have revs: "map fst (outbox ?d) = map (\<lambda>k. reliable_acked_rev ?d + of_nat k + 1) [0..<reliable_count ?d]"
        and acked: "reliable_acked_rev ?d = reliable_sent_rev c"
        using numbered_pop [OF assms(1,2) True sent] sent by auto
      have "rq_rev (reliable_q ?d ! reliable_head ?d) = reliable_acked_rev ?d + 1"
        using revs pending_pop(2) [OF assms(2) True] more by (rule head_rev)
      then have "rq_rev (reliable_q ?d ! reliable_head ?d) = reliable_sent_rev c + 1"
        by (simp only: acked)
      then show ?thesis using ack next_rev_ahead [of "reliable_sent_rev c"] by (subst pop_acked_eq) simp
    qed
    then show ?thesis using True ack hd by (subst pop_acked_eq) simp
  qed
qed

lemma core_pop [simp]: "core (reliable_pop c) = core c"
  by (simp add: core_def reliable_pop_def)

lemma numbered_advance:
  assumes "numbered c" "ring_shape c" "tx_ok (c_tx c)" "0 < reliable_count c"
  shows "numbered (fst (if reliable_count (reliable_pop c) > 0
      then reliable_send_from (reliable_pop c) now e else (reliable_pop c, e)))"
proof -
  let ?d = "reliable_pop c"
  have sent: "reliable_sent_rev c = reliable_acked_rev c + 1" using assms(1,4) by (simp add: numbered_def)
  note pop = numbered_pop [OF assms(1,2,4) sent]
  have ring: "ring_shape ?d" by (rule pending_pop(2) [OF assms(2,4)])
  have tx: "tx_ok (c_tx ?d)" "reliable_sent_rev ?d = reliable_sent_rev c"
    using assms(3) by (simp_all add: reliable_pop_def)
  show ?thesis
  proof (cases "0 < reliable_count ?d")
    case False
    then show ?thesis using pop tx(2) sent by (simp add: numbered_def)
  next
    case True
    have "rq_rev (reliable_q ?d ! reliable_head ?d) = reliable_acked_rev ?d + 1"
      using pop ring True by (intro head_rev) auto
    then show ?thesis
      using True pop send_from_spec [OF ring tx(1) refl, of now e] by (simp add: numbered_def)
  qed
qed

lemma numbered_fast [simp]: "numbered (c\<lparr>reliable_last_fast_ms := t\<rparr>) = numbered c"
  by (simp add: numbered_def outbox_def pending_events_def)

lemma ack_cases:
  assumes "numbered c" "ring_shape c"
  obtains (unsent) "rev_after ack (reliable_sent_rev c)" "reliable_ack c ack now e = (c, e)"
    | (idle) "reliable_count c = 0" "\<not> rev_after ack (reliable_sent_rev c)" "reliable_ack c ack now e = (c, e)"
    | (current) "0 < reliable_count c" "ack = reliable_sent_rev c"
        "reliable_ack c ack now e =
          (if reliable_count (reliable_pop c) > 0 then reliable_send_from (reliable_pop c) now e
           else (reliable_pop c, e))"
    | (old) d where "0 < reliable_count c" "ack \<noteq> reliable_sent_rev c"
        "\<not> rev_after ack (reliable_sent_rev c)"
        "d = c \<or> d = c\<lparr>reliable_last_fast_ms := now\<rparr>"
        "reliable_ack c ack now e = reliable_send_from d now e"
proof -
  note pops = pop_acked_spec [OF assms]
  show thesis
  proof (cases "rev_after ack (reliable_sent_rev c)")
    case True
    then show thesis by (intro unsent) (simp_all add: reliable_ack_def rev_after_def)
  next
    case fresh: False
    show thesis
    proof (cases "0 < reliable_count c")
      case False
      then show thesis using fresh pops [OF fresh]
        by (intro idle) (auto simp: reliable_ack_def rev_after_def)
    next
      case some: True
      then have sent: "reliable_sent_rev c = reliable_acked_rev c + 1" using assms(1) by (simp add: numbered_def)
      show thesis
      proof (cases "ack = reliable_sent_rev c")
        case True
        then show thesis using fresh pops [OF fresh] some sent
          by (intro current) (auto simp: reliable_ack_def rev_after_def Let_def)
      next
        case False
        then have "reliable_ack c ack now e = reliable_send_from c now e \<or>
            reliable_ack c ack now e = reliable_send_from (c\<lparr>reliable_last_fast_ms := now\<rparr>) now e"
          using fresh pops [OF fresh] some by (auto simp: reliable_ack_def rev_after_def Let_def)
        then show thesis using old some False fresh by blast
      qed
    qed
  qed
qed

lemma core_fast [simp]: "core (c\<lparr>reliable_last_fast_ms := t\<rparr>) = core c"
  by (simp add: core_def)

lemma core_in_use: "core c = core d \<Longrightarrow> in_use c = in_use d"
  by (rule coreD(1))

lemma link_ok_send_from:
  assumes "link_ok c"
  shows "link_ok (fst (reliable_send_from c now e))"
  using assms numbered_send_from [of c now e] send_from_spec [of c _ now e, OF _ _ refl]
    core_in_use [of "fst (reliable_send_from c now e)" c]
  unfolding link_ok_def by auto

lemma core_send_from [simp]: "core (fst (reliable_send_from c now e)) = core c"
  by (simp add: reliable_send_from_def split_beta Let_def) (simp add: core_def send_checked_fields)

lemma core_pop_acked [simp]: "core (reliable_pop_acked ack c) = core c"
proof (induction ack c rule: reliable_pop_acked.induct)
  case (1 ack c)
  then show ?case by (subst reliable_pop_acked.simps) auto
qed

lemma core_ack [simp]: "core (fst (reliable_ack c ack now e)) = core c"
  by (simp add: reliable_ack_def Let_def)

lemma ack_spec:
  assumes "link_ok c" "in_use c"
  shows "link_ok (fst (reliable_ack c ack now e)) \<and>
    (if 0 < reliable_count c \<and> ack = reliable_acked_rev c + 1
     then outbox (fst (reliable_ack c ack now e)) = tl (outbox c) \<and>
          reliable_acked_rev (fst (reliable_ack c ack now e)) = ack
     else outbox (fst (reliable_ack c ack now e)) = outbox c \<and>
          reliable_acked_rev (fst (reliable_ack c ack now e)) = reliable_acked_rev c)"
proof -
  have num: "numbered c" and ring: "ring_shape c" and tx: "tx_ok (c_tx c)"
    using assms by (auto simp: link_ok_def)
  have sent: "reliable_sent_rev c = reliable_acked_rev c + of_bool (0 < reliable_count c)"
    using num by (simp add: numbered_def)
  show ?thesis
  proof (cases rule: ack_cases [OF num ring, of ack now e, case_names unsent idle current old])
    case unsent
    have "\<not> (0 < reliable_count c \<and> ack = reliable_acked_rev c + 1)"
      using unsent(1) sent by (auto simp: rev_after_def)
    then show ?thesis using unsent assms(1) by auto
  next
    case idle
    then show ?thesis using assms(1) by simp
  next
    case current
    let ?d = "fst (reliable_ack c ack now e)"
    have pop: "ring_shape (reliable_pop c)" "tx_ok (c_tx (reliable_pop c))"
      using pending_pop(2) [OF ring current(1)] tx by (simp_all add: reliable_pop_def)
    note from_spec = send_from_spec [OF pop refl, of now e]
    have "numbered ?d" using numbered_advance [OF num ring tx current(1), of now e] current(3) by simp
    moreover have "ring_shape ?d" "tx_ok (c_tx ?d)" using current(3) from_spec pop by simp_all
    moreover have "outbox ?d = tl (outbox c)"
      using current(3) from_spec(4) outbox_pop [OF ring current(1)] by simp
    moreover have "reliable_acked_rev ?d = ack"
      using current from_spec(6) numbered_hd [OF num ring current(1)] sent
      by (simp add: reliable_pop_def)
    ultimately show ?thesis using current(1,2) sent by (simp add: link_ok_def)
  next
    case (old d)
    then have d: "ring_shape d" "tx_ok (c_tx d)" "outbox d = outbox c" "link_ok d"
      "reliable_acked_rev d = reliable_acked_rev c"
      using ring tx assms(1) by (auto simp: ring_shape_def outbox_def pending_events_def link_ok_def)
    have "ack \<noteq> reliable_acked_rev c + 1" using old(1,2) sent by simp
    then show ?thesis
      using old(5) send_from_spec [OF d(1,2) refl, of now e] d link_ok_send_from [OF d(4), of now e]
      by simp
  qed
qed

section \<open>Enqueueing\<close>

lemma core_enqueue [simp]: "core (fst (snd (reliable_enqueue_client c event seq now e))) = core c"
  by (simp add: reliable_enqueue_client_def split_beta Let_def)
    (simp add: core_def send_checked_fields reliable_push_def)

lemma numbered_push:
  assumes "numbered c" "ring_shape c" "reliable_count c < RELIABLE_QUEUE_MAX"
    "0 < length event" "length event \<le> RELIABLE_EVENT_MAX"
    and rv_def: "rv = reliable_next_rev c"
    and d_def: "d = reliable_push \<lparr>rq_rev = rv, rq_pkt = reliable_packet seq rv event, rq_retries = 0\<rparr>
      (c\<lparr>reliable_next_rev := rv + 1\<rparr>)"
  shows "ring_shape d" "outbox d = outbox c @ [(rv, reliable_packet seq rv event)]"
    "0 < reliable_count c \<Longrightarrow> numbered d"
    "reliable_count c = 0 \<Longrightarrow> numbered (d\<lparr>c_tx := tx, reliable_sent_rev := rv, reliable_last_send_ms := now\<rparr>)"
proof -
  let ?c = "c\<lparr>reliable_next_rev := rv + 1\<rparr>"
  have c: "ring_shape ?c" "reliable_count ?c < RELIABLE_QUEUE_MAX" "outbox ?c = outbox c"
    using assms(2,3) by (simp_all add: ring_shape_def outbox_def pending_events_def)
  show ring: "ring_shape d" unfolding d_def by (rule pending_push(2) [OF c(1,2)])
  show out: "outbox d = outbox c @ [(rv, reliable_packet seq rv event)]"
    unfolding d_def using outbox_push [OF c(1,2)] c(3) by simp
  have f: "reliable_count d = Suc (reliable_count c)" "reliable_acked_rev d = reliable_acked_rev c"
    "reliable_sent_rev d = reliable_sent_rev c" "reliable_next_rev d = rv + 1"
    by (simp_all add: d_def reliable_push_def)
  have pkt: "packet_of_rev (rv, reliable_packet seq rv event)"
    using assms(4,5) by (auto simp: packet_of_rev_def)
  show "0 < reliable_count c \<Longrightarrow> numbered d"
    using assms(1) f out pkt by (simp add: numbered_def rv_def ac_simps)
  have same: "outbox (d\<lparr>c_tx := tx, reliable_sent_rev := rv, reliable_last_send_ms := now\<rparr>) = outbox d"
    by (simp add: outbox_def pending_events_def)
  show "reliable_count c = 0 \<Longrightarrow>
    numbered (d\<lparr>c_tx := tx, reliable_sent_rev := rv, reliable_last_send_ms := now\<rparr>)"
    unfolding numbered_def same using assms(1) f out pkt by (simp add: numbered_def rv_def)
qed

lemma enqueue_spec:
  assumes "link_ok c" "seated c" "reliable_enqueue_client c event seq now e = (ok, d, seq', e')"
  shows "link_ok d \<and> ok = (0 < length event \<and> length event \<le> RELIABLE_EVENT_MAX \<and>
      reliable_count c < RELIABLE_QUEUE_MAX) \<and>
    (if ok then outbox d = outbox c @ [(reliable_next_rev c, reliable_packet seq (reliable_next_rev c) event)] \<and>
        seq' = seq + 1
     else outbox d = outbox c \<and> tx_failed (c_tx d) \<and> seq' = seq \<and> e' = e)"
proof -
  have num: "numbered c" and ring: "ring_shape c" and tx: "tx_ok (c_tx c)" and seat: "in_use c" "handshake_ok c"
    using assms(1,2) by (auto simp: link_ok_def seated_def)
  let ?good = "0 < length event \<and> length event \<le> RELIABLE_EVENT_MAX \<and> reliable_count c < RELIABLE_QUEUE_MAX"
  have use: "in_use d" using coreD(1) [OF core_enqueue [of c event seq now e]] assms(3) seat by simp
  show ?thesis
  proof (cases ?good)
    case False
    then have "d = c\<lparr>c_tx := (c_tx c)\<lparr>tx_failed := True\<rparr>\<rparr> \<and> \<not> ok \<and> seq' = seq \<and> e' = e"
      using assms(3) seat by (auto simp: reliable_enqueue_client_def)
    then show ?thesis using num ring tx False
      by (simp add: link_ok_def tx_ok_def ring_shape_def numbered_def)
  next
    case True
    then have good: "0 < length event" "length event \<le> RELIABLE_EVENT_MAX" "reliable_count c < RELIABLE_QUEUE_MAX"
      by auto
    let ?rv = "reliable_next_rev c"
    let ?p = "reliable_packet seq ?rv event"
    let ?d = "reliable_push \<lparr>rq_rev = ?rv, rq_pkt = ?p, rq_retries = 0\<rparr> (c\<lparr>reliable_next_rev := ?rv + 1\<rparr>)"
    note push = numbered_push [OF num ring good(3,1,2) refl refl]
    have cnt: "reliable_count ?d = Suc (reliable_count c)" "c_tx ?d = c_tx c"
      by (simp_all add: reliable_push_def)
    show ?thesis
    proof (cases "reliable_count c = 0")
      case True
      then have d: "d = (fst (send_checked ?d ?p e))\<lparr>reliable_sent_rev := ?rv, reliable_last_send_ms := now\<rparr>"
        and rest: "ok" "seq' = seq + 1"
        using assms(3) seat good cnt by (auto simp: reliable_enqueue_client_def Let_def split_beta)
      have "tx_ok (c_tx d)" using tx_ok_send_checked [of ?d ?p e] tx cnt d by simp
      moreover have "numbered d" using push(4) [OF True, where seq = seq] d by (simp add: send_checked_fields)
      moreover have "ring_shape d" using push(1) [where seq = seq] d by (simp add: send_checked_fields ring_shape_def)
      moreover have "outbox d = outbox c @ [(?rv, ?p)]"
        using push(2) [where seq = seq] d by (simp add: send_checked_fields outbox_def pending_events_def)
      ultimately show ?thesis using rest good by (simp add: link_ok_def)
    next
      case False
      then have "d = ?d \<and> ok \<and> seq' = seq + 1"
        using assms(3) seat good cnt by (auto simp: reliable_enqueue_client_def Let_def)
      then show ?thesis using push(1,2,3) [where seq = seq] False tx cnt good by (simp add: link_ok_def)
    qed
  qed
qed

lemma enqueue_unseated:
  "\<not> seated c \<Longrightarrow> reliable_enqueue_client c event seq now e = (True, c, seq, e)"
  by (auto simp: reliable_enqueue_client_def seated_def)

lemma link_ok_enqueue:
  assumes "link_ok c"
  shows "link_ok (fst (snd (reliable_enqueue_client c event seq now e)))"
proof (cases "seated c")
  case True
  then show ?thesis
    using enqueue_spec [OF assms True, of event seq now e] by (metis prod.collapse)
qed (simp add: enqueue_unseated assms)

section \<open>Room-level lemmas\<close>

text \<open>Every link of the room is well formed.\<close>

definition links_ok :: "client_slot list \<Rightarrow> bool" where
  "links_ok cs \<longleftrightarrow> list_all link_ok cs"

lemma links_ok_update: "links_ok cs \<Longrightarrow> link_ok c \<Longrightarrow> links_ok (cs[i := c])"
  by (simp add: links_ok_def list_all_update)

lemma links_ok_nth: "links_ok cs \<Longrightarrow> i < length cs \<Longrightarrow> link_ok (cs ! i)"
  by (simp add: links_ok_def list_all_nthD)

lemma link_ok_send_checked: "link_ok c \<Longrightarrow> link_ok (fst (send_checked c pkt e))"
  using tx_ok_send_checked [of c pkt e]
  by (simp add: link_ok_def send_checked_fields ring_shape_def numbered_def)

lemma core_tick_step [simp]: "map core (fst (reliable_tick_step now i s)) = map core (fst s)"
  by (auto simp: reliable_tick_step_def Let_def split_beta intro!: core_list_update)

lemma tick_links: "map core (fst (for_slots (reliable_tick_step now) s)) = map core (fst s)"
  using for_slots_preserves [of "\<lambda>s. map core (fst s)" "reliable_tick_step now" s] by simp

lemma closed_send_from [simp]: "e_closed (snd (reliable_send_from c now e)) = e_closed e"
  by (simp add: reliable_send_from_def split_beta Let_def)

lemma closed_ack [simp]: "e_closed (snd (reliable_ack c ack now e)) = e_closed e"
  by (simp add: reliable_ack_def Let_def)

lemma closed_tick: "e_closed (snd (for_slots (reliable_tick_step now) s)) = e_closed (snd s)"
proof (rule for_slots_preserves [of "\<lambda>s. e_closed (snd s)"])
  show "e_closed (snd (reliable_tick_step now i s)) = e_closed (snd s)" for i s
    by (simp add: reliable_tick_step_def Let_def split_beta)
qed

lemma closed_enqueue [simp]:
  "e_closed (snd (snd (snd (reliable_enqueue_client c event seq now e)))) = e_closed e"
  by (simp add: reliable_enqueue_client_def Let_def split_beta)

lemma rcore_reliable_tick [simp]: "rcore (reliable_tick now r) = rcore r"
  using env_core_eq [OF closed_tick [of now "(r_clients r, r_env r)"]]
  by (simp add: reliable_tick_def rcore_def split_beta tick_links)

lemma rcore_reliable_enqueue [simp]: "rcore (snd (reliable_enqueue i event now r)) = rcore r"
  using env_core_eq [OF closed_enqueue] by (simp add: reliable_enqueue_def split_beta rcore_def core_list_update)

lemma rcore_broadcast_reliable [simp]: "rcore (broadcast_reliable_event event now r) = rcore r"
  unfolding broadcast_reliable_event_def by (rule for_slots_preserves) simp

lemmas reliable_tick_frame [simp] = rcoreD [OF rcore_reliable_tick]
lemmas reliable_enqueue_frame [simp] = rcoreD [OF rcore_reliable_enqueue]
lemmas broadcast_reliable_frame [simp] = rcoreD [OF rcore_broadcast_reliable]

lemma links_ok_broadcast_step:
  "links_ok (fst s) \<Longrightarrow> i < length (fst s) \<Longrightarrow> links_ok (fst (broadcast_step pkt i s))"
  by (simp add: broadcast_step_def split_beta links_ok_update link_ok_send_checked links_ok_nth)

lemma length_broadcast_step [simp]: "length (fst (broadcast_step pkt i s)) = length (fst s)"
  by (metis core_broadcast_step length_map)

lemma links_ok_broadcast [wf_intros]:
  assumes "links_ok (r_clients r)" "length (r_clients r) = 4"
  shows "links_ok (r_clients (broadcast pkt r))"
proof -
  let ?P = "\<lambda>s. links_ok (fst s) \<and> length (fst s) = 4"
  have "?P (for_slots (broadcast_step pkt) (r_clients r, r_env r))"
    by (rule for_slots_invariant [of ?P]) (simp_all add: links_ok_broadcast_step assms)
  then show ?thesis by (simp add: broadcast_def broadcast_packet_def split_beta)
qed

lemma links_ok_tick_step:
  "links_ok (fst s) \<Longrightarrow> i < length (fst s) \<Longrightarrow> links_ok (fst (reliable_tick_step now i s))"
  by (simp add: reliable_tick_step_def Let_def split_beta links_ok_update link_ok_send_from links_ok_nth)

lemma length_tick_step [simp]: "length (fst (reliable_tick_step now i s)) = length (fst s)"
  by (metis core_tick_step length_map)

lemma links_ok_reliable_tick [wf_intros]:
  assumes "links_ok (r_clients r)" "length (r_clients r) = 4"
  shows "links_ok (r_clients (reliable_tick now r))"
proof -
  let ?P = "\<lambda>s. links_ok (fst s) \<and> length (fst s) = 4"
  have "?P (for_slots (reliable_tick_step now) (r_clients r, r_env r))"
    by (rule for_slots_invariant [of ?P]) (simp_all add: links_ok_tick_step assms)
  then show ?thesis by (simp add: reliable_tick_def split_beta)
qed

lemma links_ok_reliable_enqueue [wf_intros]:
  assumes "links_ok (r_clients r)" "length (r_clients r) = 4" "i < 4"
  shows "links_ok (r_clients (snd (reliable_enqueue i event now r)))"
  using assms by (simp add: reliable_enqueue_def split_beta links_ok_update link_ok_enqueue links_ok_nth)

lemma links_ok_broadcast_reliable [wf_intros]:
  assumes "links_ok (r_clients r)" "length (r_clients r) = 4"
  shows "links_ok (r_clients (broadcast_reliable_event event now r))"
proof -
  let ?P = "\<lambda>r. links_ok (r_clients r) \<and> length (r_clients r) = 4"
  have "?P (broadcast_reliable_event event now r)"
    unfolding broadcast_reliable_event_def
    by (rule for_slots_invariant [of ?P]) (simp_all add: links_ok_reliable_enqueue assms)
  then show ?thesis by simp
qed

section \<open>Properties\<close>

text \<open>
  Acknowledgements. On a well-formed link an ACK removes an event exactly when it names the
  revision in flight, which is the one after the last acknowledged; then exactly that event is
  removed and the next one becomes the head. Every other ACK, duplicate, stale or beyond what was
  sent, removes nothing; the numbering invariant survives in every case.
\<close>

theorem reliable_ack_exact:
  assumes "link_ok c" "in_use c"
  shows "link_ok (fst (reliable_ack c ack now e)) \<and>
    outbox (fst (reliable_ack c ack now e)) =
      (if 0 < reliable_count c \<and> ack = reliable_acked_rev c + 1 then tl (outbox c) else outbox c) \<and>
    reliable_acked_rev (fst (reliable_ack c ack now e)) =
      (if 0 < reliable_count c \<and> ack = reliable_acked_rev c + 1 then ack else reliable_acked_rev c)"
  using ack_spec [OF assms, of ack now e]
  by (cases "0 < reliable_count c \<and> ack = reliable_acked_rev c + 1") auto

definition demo_link :: client_slot where
  "demo_link = client_free\<lparr>in_use := True, c_fd := 5, handshake_ok := True, reliable_next_rev := 9,
     reliable_acked_rev := 6, reliable_sent_rev := 7, reliable_count := 2,
     reliable_q := [\<lparr>rq_rev = 7, rq_pkt = reliable_packet 1 7 [0x54], rq_retries = 1\<rparr>,
       \<lparr>rq_rev = 8, rq_pkt = reliable_packet 2 8 [0x55, 1, 5], rq_retries = 0\<rparr>] @
       replicate 22 reliable_entry_zero\<rparr>"

lemma demo_link_ok: "link_ok demo_link" "in_use demo_link" "seated demo_link"
proof -
  have items: "pending_events demo_link =
      [\<lparr>rq_rev = 7, rq_pkt = reliable_packet 1 7 [0x54], rq_retries = 1\<rparr>,
       \<lparr>rq_rev = 8, rq_pkt = reliable_packet 2 8 [0x55, 1, 5], rq_retries = 0\<rparr>]"
    by (simp add: pending_events_def demo_link_def ring_items_def client_free_def upt_conv_Cons)
  have "packet_of_rev (7, reliable_packet 1 7 [0x54])" "packet_of_rev (8, reliable_packet 2 8 [0x55, 1, 5])"
    unfolding packet_of_rev_def
    by (rule exI [of _ 1], rule exI [of _ "[0x54]"], simp)
      (rule exI [of _ 2], rule exI [of _ "[0x55, 1, 5]"], simp)
  then show "link_ok demo_link"
    by (simp add: link_ok_def numbered_def outbox_def items)
      (simp add: demo_link_def client_free_def tcp_tx_zero_def tx_ok_def ring_shape_def upt_conv_Cons)
  show "in_use demo_link" "seated demo_link" by (simp_all add: demo_link_def seated_def)
qed

theorem reliable_ack_exact_witness:
  "reliable_acked_rev (fst (reliable_ack demo_link 7 50 demo_env)) = 7 \<and>
   reliable_acked_rev (fst (reliable_ack demo_link 8 50 demo_env)) = 6"
  using reliable_ack_exact [OF demo_link_ok(1,2), of 7 50 demo_env]
    reliable_ack_exact [OF demo_link_ok(1,2), of 8 50 demo_env]
  by (simp add: demo_link_def)

text \<open>
  Queueing an event. For a seated client an event is either appended to the outbox under the
  next revision and consumes one sequence number, or, when the ring already holds 24 events or the
  event does not fit, the connection is marked failed and nothing else changes: no event is ever
  dropped silently, overwritten or reordered.
\<close>

theorem reliable_enqueue_or_fail:
  assumes "link_ok c" "seated c" "reliable_enqueue_client c event seq now e = (ok, d, seq', e')"
  shows "link_ok d \<and> ok = (0 < length event \<and> length event \<le> RELIABLE_EVENT_MAX \<and>
      reliable_count c < RELIABLE_QUEUE_MAX) \<and>
    outbox d = (if ok then outbox c @ [(reliable_next_rev c, reliable_packet seq (reliable_next_rev c) event)]
       else outbox c) \<and>
    seq' = (if ok then seq + 1 else seq) \<and> (ok \<or> tx_failed (c_tx d))"
  using enqueue_spec [OF assms] by (simp split: if_splits)

theorem reliable_enqueue_or_fail_witness:
  "length (outbox (fst (snd (reliable_enqueue_client demo_link [0x55, 2, 5] 9 100 demo_env)))) = 3"
  using reliable_enqueue_or_fail [OF demo_link_ok(1,3), of "[0x55, 2, 5]" 9 100 demo_env
      "fst (reliable_enqueue_client demo_link [0x55, 2, 5] 9 100 demo_env)"
      "fst (snd (reliable_enqueue_client demo_link [0x55, 2, 5] 9 100 demo_env))"
      "fst (snd (snd (reliable_enqueue_client demo_link [0x55, 2, 5] 9 100 demo_env)))"
      "snd (snd (snd (reliable_enqueue_client demo_link [0x55, 2, 5] 9 100 demo_env)))"]
  by (simp add: demo_link_def)

text \<open>
  Duplicate acknowledgements. While an event is in flight, every ACK that is neither current
  nor ahead makes the server send the event in flight again at once, however recently it did so:
  the 75 ms limit on fast retransmission decides only which branch does it.
\<close>

theorem old_ack_always_resends:
  assumes "link_ok c" "in_use c" "0 < reliable_count c"
    and "ack \<noteq> reliable_sent_rev c" "\<not> rev_after ack (reliable_sent_rev c)"
  shows "snd (reliable_ack c ack now e) =
      snd (send_checked c (rq_pkt (reliable_q c ! reliable_head c)) e) \<and>
    reliable_last_send_ms (fst (reliable_ack c ack now e)) = now \<and>
    outbox (fst (reliable_ack c ack now e)) = outbox c"
proof -
  have num: "numbered c" and ring: "ring_shape c" and tx: "tx_ok (c_tx c)"
    using assms(1,2) by (auto simp: link_ok_def)
  from ack_cases [OF num ring, of ack now e] obtain d where d: "d = c \<or> d = c\<lparr>reliable_last_fast_ms := now\<rparr>"
    and run: "reliable_ack c ack now e = reliable_send_from d now e"
    using assms(3-5) by (metis neq0_conv)
  have same: "reliable_count d = reliable_count c" "reliable_q d = reliable_q c" "reliable_head d = reliable_head c"
    "c_fd d = c_fd c" "c_tx d = c_tx c" "outbox d = outbox c" "ring_shape d" "tx_ok (c_tx d)"
    using d ring tx by (auto simp: outbox_def pending_events_def ring_shape_def)
  then show ?thesis
    using run assms(3) send_from_spec(4) [OF same(7,8) refl, of now e]
    by (simp add: reliable_send_from_def send_checked_def split_beta Let_def)
qed

theorem old_ack_always_resends_witness:
  "reliable_last_send_ms (fst (reliable_ack (demo_link\<lparr>reliable_last_fast_ms := 1000\<rparr>) 6 1001 demo_env)) = 1001"
proof -
  have l: "link_ok (demo_link\<lparr>reliable_last_fast_ms := 1000\<rparr>)"
    using demo_link_ok(1) by (simp add: link_ok_def ring_shape_def)
  show ?thesis
    using old_ack_always_resends [OF l, of 6 1001 demo_env]
    by (simp add: demo_link_def rev_after_def)
qed

end
