(* ===== verification/Announce.thy ===== *)
theory Announce
  imports Reliable
begin

text \<open>
  The announcements of \<^verbatim>\<open>server/main.c\<close>: the respawn and brick echoes (one repeat per tick at
  most), the name rotation, and the sequences broadcast-then-reliable-then-echo with which the
  server publishes a respawn or a broken brick. Lemmas: an announcement changes no game state;
  the echo queues stay within their bounds and every flush sends at most one packet.
\<close>

section \<open>Echo queues\<close>

definition queue_respawn_echo :: "bytes \<Rightarrow> room \<Rightarrow> room" where
  "queue_respawn_echo pkt r =
     (let pid = unat (pkt ! 2) in
      if pid \<ge> MAX_PLAYERS then r
      else r\<lparr>r_respawn_echo :=
        (r_respawn_echo r)[pid := \<lparr>re_pkt = pkt, re_left = RESPAWN_ECHO_REPEATS\<rparr>]\<rparr>)"

text \<open>One step of the loop of \<open>flush_respawn_echo\<close>: \<open>True\<close> is its \<open>return\<close>.\<close>

definition flush_respawn_step :: "nat \<Rightarrow> room \<Rightarrow> bool \<times> room" where
  "flush_respawn_step i r =
     (if re_left (r_respawn_echo r ! i) = 0 then (False, r)
      else let r1 = r\<lparr>r_respawn_echo := modify i (\<lambda>q. q\<lparr>re_left := re_left q - 1\<rparr>) (r_respawn_echo r)\<rparr>;
               pkt = (re_pkt (r_respawn_echo r1 ! i))[1 := r_seq r1] in
        (True, broadcast pkt (next_seq r1)))"

definition flush_respawn_echo :: "room \<Rightarrow> room" where
  "flush_respawn_echo r = snd (for_until flush_respawn_step [0..<MAX_PLAYERS] r)"

definition queue_brick_echo :: "u8 \<Rightarrow> u8 \<Rightarrow> room \<Rightarrow> room" where
  "queue_brick_echo x y r =
     (let q = r_brick_echo r in
      case find (\<lambda>i. be_left (q ! i) > 0 \<and> be_x (q ! i) = x \<and> be_y (q ! i) = y) [0..<BRICK_ECHO_MAX] of
        Some i \<Rightarrow> r\<lparr>r_brick_echo := modify i (\<lambda>b. b\<lparr>be_left := BRICK_ECHO_REPEATS\<rparr>) q\<rparr>
      | None \<Rightarrow>
          (let spare = (case find (\<lambda>i. be_left (q ! i) = 0) [0..<BRICK_ECHO_MAX] of
                 Some i \<Rightarrow> i | None \<Rightarrow> 0) in
           r\<lparr>r_brick_echo := q[spare := \<lparr>be_x = x, be_y = y, be_left = BRICK_ECHO_REPEATS\<rparr>]\<rparr>))"

definition flush_brick_step :: "nat \<Rightarrow> room \<Rightarrow> bool \<times> room" where
  "flush_brick_step i r =
     (if be_left (r_brick_echo r ! i) = 0 then (False, r)
      else let r1 = r\<lparr>r_brick_echo := modify i (\<lambda>q. q\<lparr>be_left := be_left q - 1\<rparr>) (r_brick_echo r)\<rparr>;
               pkt = build_brick_delta (r_seq r1) (be_x (r_brick_echo r1 ! i))
                 (be_y (r_brick_echo r1 ! i)) (r_round_id r1) in
        (True, broadcast pkt (next_seq r1)))"

definition flush_brick_echo :: "room \<Rightarrow> room" where
  "flush_brick_echo r = snd (for_until flush_brick_step [0..<BRICK_ECHO_MAX] r)"

section \<open>Announcements\<close>

text \<open>The time argument of a reliable broadcast: the caller's \<open>now\<close>, or a call of \<open>now_ms\<close>.\<close>

definition reliable_at :: "u64 option \<Rightarrow> bytes \<Rightarrow> room \<Rightarrow> room" where
  "reliable_at at event r = (case at of
      Some now \<Rightarrow> broadcast_reliable_event event now r
    | None \<Rightarrow> broadcast_reliable_event event (room_now r) (room_now_read r))"

definition announce_respawn :: "nat \<Rightarrow> u8 \<Rightarrow> u8 \<Rightarrow> u8 \<Rightarrow> u64 option \<Rightarrow> room \<Rightarrow> room" where
  "announce_respawn pid x y flags at r =
     (let pkt = build_respawn (r_seq r) (of_nat pid) x y flags (r_round_id r);
          r1 = broadcast pkt (next_seq r);
          r2 = reliable_at at pkt r1 in
      queue_respawn_echo pkt r2)"

definition announce_brick :: "u8 \<Rightarrow> u8 \<Rightarrow> u64 option \<Rightarrow> room \<Rightarrow> room" where
  "announce_brick x y at r =
     (let r1 = queue_brick_echo x y r;
          pkt = build_brick_delta (r_seq r1) x y (r_round_id r1);
          r2 = broadcast pkt (next_seq r1) in
      reliable_at at pkt r2)"

definition announce_shot :: "nat \<Rightarrow> u8 \<Rightarrow> u8 \<Rightarrow> u8 \<Rightarrow> room \<Rightarrow> room" where
  "announce_shot pid x y active r =
     broadcast (build_shot (r_seq r) (of_nat pid) x y active (r_round_id r)) (next_seq r)"

text \<open>The name rotation sends to every connected socket, seated or not.\<close>

definition name_step :: "bytes \<Rightarrow> nat \<Rightarrow> client_slot list \<times> env \<Rightarrow> client_slot list \<times> env" where
  "name_step pkt i s =
     (if \<not> in_use (fst s ! i) then s
      else let (c, e) = send_checked (fst s ! i) pkt (snd s) in ((fst s)[i := c], e))"

definition broadcast_next_name :: "room \<Rightarrow> room" where
  "broadcast_next_name r =
     (let i = r_name_rotate r mod MAX_PLAYERS;
          c = r_clients r ! i;
          name = (if in_use c \<and> name_is_set (c_name c) then c_name c else replicate NAME_LEN 0x20);
          pkt = build_name (r_seq r) (of_nat i) name;
          (cs, e) = for_slots (name_step pkt) (r_clients r, r_env r);
          r1 = (next_seq r)\<lparr>r_name_rotate := (i + 1) mod MAX_PLAYERS, r_clients := cs, r_env := e\<rparr> in
      reliable_at None pkt r1)"

section \<open>Announcements change no game state\<close>

lemma rcore_queue_respawn_echo [simp]: "rcore (queue_respawn_echo pkt r) = rcore r"
  by (simp add: queue_respawn_echo_def rcore_def Let_def)

lemma rcore_queue_brick_echo [simp]: "rcore (queue_brick_echo x y r) = rcore r"
  by (simp add: queue_brick_echo_def rcore_def Let_def split: option.split)

lemma rcore_flush_respawn_step [simp]: "rcore (snd (flush_respawn_step i r)) = rcore r"
  by (simp add: flush_respawn_step_def Let_def) (simp add: rcore_def)

lemma rcore_flush_brick_step [simp]: "rcore (snd (flush_brick_step i r)) = rcore r"
  by (simp add: flush_brick_step_def Let_def) (simp add: rcore_def)

lemma for_until_preserves:
  assumes "\<And>x s. x \<in> set xs \<Longrightarrow> g (snd (f x s)) = g s"
  shows "g (snd (for_until f xs s)) = g s"
  using for_until_invariant [of xs "\<lambda>t. g t = g s" f s] assms by simp

lemma rcore_flush_respawn_echo [simp]: "rcore (flush_respawn_echo r) = rcore r"
  unfolding flush_respawn_echo_def by (rule for_until_preserves) simp

lemma rcore_flush_brick_echo [simp]: "rcore (flush_brick_echo r) = rcore r"
  unfolding flush_brick_echo_def by (rule for_until_preserves) simp

lemma rcore_reliable_at [simp]: "rcore (reliable_at at event r) = rcore r"
  by (simp add: reliable_at_def split: option.split)

lemma rcore_announce_respawn [simp]: "rcore (announce_respawn pid x y flags at r) = rcore r"
  by (simp add: announce_respawn_def Let_def)

lemma rcore_announce_brick [simp]: "rcore (announce_brick x y at r) = rcore r"
  by (simp add: announce_brick_def Let_def)

lemma rcore_announce_shot [simp]: "rcore (announce_shot pid x y active r) = rcore r"
  by (simp add: announce_shot_def)

lemma core_name_step [simp]: "map core (fst (name_step pkt i s)) = map core (fst s)"
  by (auto simp: name_step_def split_beta intro: core_list_update)

lemma core_name_steps: "map core (fst (for_slots (name_step pkt) s)) = map core (fst s)"
  using for_slots_preserves [of "\<lambda>s. map core (fst s)" "name_step pkt" s] by simp

lemma closed_name_steps: "e_closed (snd (for_slots (name_step pkt) s)) = e_closed (snd s)"
proof (rule for_slots_preserves [of "\<lambda>s. e_closed (snd s)"])
  show "e_closed (snd (name_step pkt i s)) = e_closed (snd s)" for i s
    by (simp add: name_step_def split_beta)
qed

lemma rcore_next_name [simp]: "rcore (broadcast_next_name r) = rcore r"
  using env_core_eq [OF closed_name_steps]
  by (simp add: broadcast_next_name_def Let_def split_beta)
    (simp add: rcore_def next_seq_def core_name_steps)

lemmas queue_respawn_echo_frame [simp] = rcoreD [OF rcore_queue_respawn_echo]
lemmas queue_brick_echo_frame [simp] = rcoreD [OF rcore_queue_brick_echo]
lemmas flush_respawn_echo_frame [simp] = rcoreD [OF rcore_flush_respawn_echo]
lemmas flush_brick_echo_frame [simp] = rcoreD [OF rcore_flush_brick_echo]
lemmas reliable_at_frame [simp] = rcoreD [OF rcore_reliable_at]
lemmas announce_respawn_frame [simp] = rcoreD [OF rcore_announce_respawn]
lemmas announce_brick_frame [simp] = rcoreD [OF rcore_announce_brick]
lemmas announce_shot_frame [simp] = rcoreD [OF rcore_announce_shot]
lemmas next_name_frame [simp] = rcoreD [OF rcore_next_name]

section \<open>The transport side of a room stays well formed\<close>

definition net_ok :: "room \<Rightarrow> bool" where
  "net_ok r \<longleftrightarrow> length (r_clients r) = MAX_PLAYERS \<and> links_ok (r_clients r) \<and>
     length (r_brick_echo r) = BRICK_ECHO_MAX \<and> length (r_respawn_echo r) = MAX_PLAYERS \<and>
     list_all (\<lambda>b. be_left b \<le> BRICK_ECHO_REPEATS) (r_brick_echo r) \<and>
     list_all (\<lambda>q. length (re_pkt q) = 7 \<and> re_left q \<le> RESPAWN_ECHO_REPEATS) (r_respawn_echo r)"

lemma net_ok_length: "net_ok r \<Longrightarrow> length (r_clients r) = 4"
  by (simp add: net_ok_def)

lemma broadcast_echo [simp]:
  "r_brick_echo (broadcast pkt r) = r_brick_echo r" "r_respawn_echo (broadcast pkt r) = r_respawn_echo r"
  by (simp_all add: broadcast_def split_beta)

lemma next_seq_other [simp]:
  "r_brick_echo (next_seq r) = r_brick_echo r" "r_respawn_echo (next_seq r) = r_respawn_echo r"
  "r_clients (next_seq r) = r_clients r"
  by (simp_all add: next_seq_def)

lemma now_read_other [simp]:
  "r_brick_echo (room_now_read r) = r_brick_echo r" "r_respawn_echo (room_now_read r) = r_respawn_echo r"
  "r_clients (room_now_read r) = r_clients r"
  by (simp_all add: room_now_read_def)

lemma reliable_enqueue_echo [simp]:
  "r_brick_echo (snd (reliable_enqueue i event now r)) = r_brick_echo r"
  "r_respawn_echo (snd (reliable_enqueue i event now r)) = r_respawn_echo r"
  by (simp_all add: reliable_enqueue_def split_beta)

lemma broadcast_reliable_echo [simp]:
  "r_brick_echo (broadcast_reliable_event event now r) = r_brick_echo r"
  "r_respawn_echo (broadcast_reliable_event event now r) = r_respawn_echo r"
  unfolding broadcast_reliable_event_def by (rule for_slots_preserves, simp)+

lemma reliable_tick_echo [simp]:
  "r_brick_echo (reliable_tick now r) = r_brick_echo r"
  "r_respawn_echo (reliable_tick now r) = r_respawn_echo r"
  by (simp_all add: reliable_tick_def split_beta)

lemma rand_read_other [simp]:
  "r_brick_echo (room_rand_read r) = r_brick_echo r" "r_respawn_echo (room_rand_read r) = r_respawn_echo r"
  "r_clients (room_rand_read r) = r_clients r"
  by (simp_all add: room_rand_read_def)

lemma net_ok_next_seq [simp]: "net_ok (next_seq r) = net_ok r"
  by (simp add: net_ok_def)

lemma net_ok_now_read [simp]: "net_ok (room_now_read r) = net_ok r"
  by (simp add: net_ok_def)

lemma net_ok_broadcast [simp]: "net_ok r \<Longrightarrow> net_ok (broadcast pkt r)"
  by (simp add: net_ok_def links_ok_broadcast)

lemma net_ok_reliable_enqueue [simp]: "net_ok r \<Longrightarrow> i < 4 \<Longrightarrow> net_ok (snd (reliable_enqueue i event now r))"
  by (simp add: net_ok_def links_ok_reliable_enqueue)

lemma net_ok_broadcast_reliable [simp]: "net_ok r \<Longrightarrow> net_ok (broadcast_reliable_event event now r)"
  by (simp add: net_ok_def links_ok_broadcast_reliable)

lemma net_ok_reliable_tick [simp]: "net_ok r \<Longrightarrow> net_ok (reliable_tick now r)"
  by (simp add: net_ok_def links_ok_reliable_tick)

lemma net_ok_reliable_at [simp]: "net_ok r \<Longrightarrow> net_ok (reliable_at at event r)"
  by (simp add: reliable_at_def split: option.split)

lemma net_ok_queue_respawn [simp]:
  "net_ok r \<Longrightarrow> length pkt = 7 \<Longrightarrow> net_ok (queue_respawn_echo pkt r)"
  by (auto simp: net_ok_def queue_respawn_echo_def Let_def intro!: list_all_update)

lemma net_ok_queue_brick [simp]: "net_ok r \<Longrightarrow> net_ok (queue_brick_echo x y r)"
  by (auto simp: net_ok_def queue_brick_echo_def Let_def
      intro!: list_all_update list_all_modify split: option.split)

lemma net_ok_announce_respawn [simp]: "net_ok r \<Longrightarrow> net_ok (announce_respawn pid x y flags at r)"
  by (simp add: announce_respawn_def Let_def build_respawn_def)

lemma net_ok_announce_brick [simp]: "net_ok r \<Longrightarrow> net_ok (announce_brick x y at r)"
  by (simp add: announce_brick_def Let_def)

lemma net_ok_announce_shot [simp]: "net_ok r \<Longrightarrow> net_ok (announce_shot pid x y active r)"
  by (simp add: announce_shot_def)

lemma net_ok_flush_respawn_step: "net_ok r \<Longrightarrow> net_ok (snd (flush_respawn_step i r))"
  by (auto simp: flush_respawn_step_def Let_def net_ok_def intro!: list_all_modify links_ok_broadcast)

lemma net_ok_flush_brick_step: "net_ok r \<Longrightarrow> net_ok (snd (flush_brick_step i r))"
  by (auto simp: flush_brick_step_def Let_def net_ok_def intro!: list_all_modify links_ok_broadcast)

lemma net_ok_flush_respawn_echo [simp]: "net_ok r \<Longrightarrow> net_ok (flush_respawn_echo r)"
  unfolding flush_respawn_echo_def by (rule for_until_invariant) (rule net_ok_flush_respawn_step)

lemma net_ok_flush_brick_echo [simp]: "net_ok r \<Longrightarrow> net_ok (flush_brick_echo r)"
  unfolding flush_brick_echo_def by (rule for_until_invariant) (rule net_ok_flush_brick_step)

lemma links_ok_name_step:
  "links_ok (fst s) \<Longrightarrow> i < length (fst s) \<Longrightarrow> links_ok (fst (name_step pkt i s))"
  by (simp add: name_step_def split_beta links_ok_update link_ok_send_checked links_ok_nth)

lemma length_name_step [simp]: "length (fst (name_step pkt i s)) = length (fst s)"
  by (metis core_name_step length_map)

lemma net_ok_next_name [simp]:
  assumes "net_ok r"
  shows "net_ok (broadcast_next_name r)"
proof -
  let ?P = "\<lambda>s. links_ok (fst s) \<and> length (fst s) = 4"
  have "?P (for_slots (name_step pkt) (r_clients r, r_env r))" for pkt
    by (rule for_slots_invariant [of ?P]) (use assms in \<open>simp_all add: links_ok_name_step net_ok_def\<close>)
  then show ?thesis
    using assms unfolding broadcast_next_name_def Let_def split_beta
    by (intro net_ok_reliable_at) (simp add: net_ok_def)
qed

section \<open>An empty room\<close>

text \<open>A room with nobody in it, used by the witnesses.\<close>

definition demo_config :: room_config where
  "demo_config = \<lparr>cfg_port = 9000, cfg_zombies = 1, cfg_tick_hz = 10, cfg_lag_ms = 0,
     cfg_kill_limit = 5, cfg_intermission_ms = 15000, cfg_no_human_grace_ms = 60000\<rparr>"

definition demo_player :: "u8 \<Rightarrow> u8 \<Rightarrow> player_state" where
  "demo_player x y = player_zero\<lparr>p_x := x, p_y := y, p_joy := 0x0F\<rparr>"

definition demo_room :: room where
  "demo_room = \<lparr>r_config = demo_config, r_listener_fd = 3, r_clients = replicate 4 client_free,
     r_departing = replicate 4 departing_free,
     r_players = [demo_player 1 1, demo_player 18 1, demo_player 1 17, demo_player 18 17],
     r_shots = replicate 4 shot_zero, r_brick_bits = replicate 48 0,
     r_brick_reset_bits = replicate 48 0, r_last_input_ms = replicate 4 0,
     r_global_transport = counters_zero, r_brick_echo = replicate 8 brick_echo_zero,
     r_respawn_echo = replicate 4 respawn_echo_zero, r_occupied_mask = 0, r_seq = 0,
     r_tick_ms = 100, r_next_tick = 0, r_last_transport_summary_ms = 0, r_last_brick_resync_ms = 0,
     r_last_name_rotate_ms = 0, r_last_seat_ms = 0, r_last_seat_mask = 0xFF, r_name_rotate = 0,
     r_round_id = 1, r_round_state = ROUND_PLAYING, r_historical_zombie_mask = 0,
     r_final_active_mask = 0, r_final_zombie_mask = 0, r_winner_pid = 0,
     r_final_scores = replicate 4 0, r_frozen_names = replicate 4 (replicate 8 0),
     r_frozen_match = replicate 43 0, r_intermission_deadline_ms = 0, r_no_human_deadline_ms = 0,
     r_env = demo_env\<rparr>"

lemma link_ok_free [simp]: "link_ok client_free"
  by (simp add: link_ok_def client_free_def tx_ok_def tcp_tx_zero_def ring_shape_def)

lemma demo_room_net_ok: "net_ok demo_room"
  by (simp add: net_ok_def links_ok_def list_all_iff demo_room_def brick_echo_zero_def respawn_echo_zero_def)

section \<open>Properties\<close>

text \<open>The repeats still owed.\<close>

definition respawn_echoes_left :: "room \<Rightarrow> nat" where
  "respawn_echoes_left r = sum_list (map re_left (r_respawn_echo r))"

lemma sum_list_modify_dec:
  assumes "i < length xs" "f (xs ! i) \<noteq> 0" "\<And>x. f (g x) = f x - (1 :: nat)"
  shows "sum_list (map f (modify i g xs)) = sum_list (map f xs) - 1"
  using assms
proof (induction xs arbitrary: i)
  case (Cons x xs)
  show ?case
  proof (cases i)
    case 0
    then show ?thesis using Cons.prems by (simp add: modify_def)
  next
    case (Suc k)
    then have "f (xs ! k) \<in> set (map f xs)" using Cons.prems by auto
    then have "f (xs ! k) \<le> sum_list (map f xs)" by (rule member_le_sum_list) simp
    then show ?thesis using Suc Cons by (simp add: modify_def)
  qed
qed simp

lemma flush_respawn_steps:
  assumes "\<forall>i \<in> set slots. i < length (r_respawn_echo r)"
  shows "(\<forall>i \<in> set slots. re_left (r_respawn_echo r ! i) = 0) \<and> for_until flush_respawn_step slots r = (False, r) \<or>
    (\<exists>i \<in> set slots. re_left (r_respawn_echo r ! i) \<noteq> 0 \<and>
       for_until flush_respawn_step slots r = flush_respawn_step i r)"
  using assms
proof (induction slots)
  case (Cons j slots)
  show ?case
  proof (cases "re_left (r_respawn_echo r ! j) = 0")
    case True
    then show ?thesis using Cons by (auto simp: flush_respawn_step_def)
  next
    case False
    then have "for_until flush_respawn_step (j # slots) r = flush_respawn_step j r"
      by (simp add: flush_respawn_step_def Let_def)
    then show ?thesis using False by auto
  qed
qed simp

text \<open>
  Respawn echoes. Queueing a RESPAWN replaces whatever echo its slot still owed and touches no
  other slot; a flush sends at most one packet, namely one owed echo with a fresh sequence number,
  and owes exactly one repeat less afterwards, so the queue is empty after as many ticks as repeats
  were owed and never holds more than eight.
\<close>

theorem respawn_echo_bounded:
  assumes "net_ok r"
  shows "respawn_echoes_left r \<le> 8 \<and>
    respawn_echoes_left (flush_respawn_echo r) = respawn_echoes_left r - 1 \<and>
    (if respawn_echoes_left r = 0 then flush_respawn_echo r = r
     else \<exists>i < 4. re_left (r_respawn_echo r ! i) \<noteq> 0 \<and>
       r_seq (flush_respawn_echo r) = r_seq r + 1 \<and>
       r_clients (flush_respawn_echo r) =
         r_clients (broadcast ((re_pkt (r_respawn_echo r ! i))[1 := r_seq r]) r)) \<and>
    r_respawn_echo (queue_respawn_echo (build_respawn sq 2 x y fl rid) r) =
      (r_respawn_echo r)[2 := \<lparr>re_pkt = build_respawn sq 2 x y fl rid, re_left = 2\<rparr>]"
proof -
  let ?q = "r_respawn_echo r"
  have len: "length ?q = 4" and le: "\<forall>q \<in> set ?q. re_left q \<le> 2"
    using assms by (auto simp: net_ok_def list_all_iff)
  have "respawn_echoes_left r \<le> sum_list (map (\<lambda>_. 2) ?q)"
    unfolding respawn_echoes_left_def by (rule sum_list_mono) (use le in auto)
  then have bound: "respawn_echoes_left r \<le> 8" using len by (simp add: sum_list_triv)
  have queue: "r_respawn_echo (queue_respawn_echo (build_respawn sq 2 x y fl rid) r) =
      ?q[2 := \<lparr>re_pkt = build_respawn sq 2 x y fl rid, re_left = 2\<rparr>]"
    by (simp add: queue_respawn_echo_def build_respawn_def)
  consider (none) "\<forall>i \<in> set [0..<4]. re_left (?q ! i) = 0" "flush_respawn_echo r = r"
    | (some) i where "i < 4" "re_left (?q ! i) \<noteq> 0" "flush_respawn_echo r = snd (flush_respawn_step i r)"
    using flush_respawn_steps [of "[0..<4]" r] len unfolding flush_respawn_echo_def by force
  then show ?thesis
  proof cases
    case none
    then have "\<forall>q \<in> set ?q. re_left q = 0" using len by (auto simp: in_set_conv_nth)
    then have "respawn_echoes_left r = 0" by (simp add: respawn_echoes_left_def)
    then show ?thesis using none bound queue by simp
  next
    case some
    have "re_left (?q ! i) \<in> set (map re_left ?q)" using some(1) len by auto
    then have pos: "respawn_echoes_left r \<noteq> 0"
      using some(2) by (auto simp: respawn_echoes_left_def)
    have "respawn_echoes_left (flush_respawn_echo r) = respawn_echoes_left r - 1"
      using some len by (simp add: respawn_echoes_left_def flush_respawn_step_def Let_def sum_list_modify_dec)
    moreover have "r_seq (flush_respawn_echo r) = r_seq r + 1 \<and>
       r_clients (flush_respawn_echo r) = r_clients (broadcast ((re_pkt (?q ! i))[1 := r_seq r]) r)"
      using some len by (simp add: flush_respawn_step_def Let_def broadcast_def next_seq_def split_beta nth_modify)
    ultimately show ?thesis using some(1,2) pos bound queue by auto
  qed
qed

theorem respawn_echo_bounded_witness:
  "respawn_echoes_left (flush_respawn_echo demo_room) = 0"
  using respawn_echo_bounded [OF demo_room_net_ok]
  by (simp add: respawn_echoes_left_def demo_room_def respawn_echo_zero_def)

end
