(* ===== verification/Spawn.thy ===== *)
theory Spawn
  imports Announce
begin

text \<open>
  Occupancy and placement of \<^verbatim>\<open>server/main.c\<close>: which slots are on the board, collision lookup,
  the distance to the nearest actor and the choice of a spawn cell. Lemmas: the chosen cell lies
  on the map, is free whenever a free cell exists, and is far from every actor or as far as
  possible, whatever \<open>rand()\<close> returns.
\<close>

section \<open>Definitions\<close>

definition slot_on_board :: "room \<Rightarrow> nat \<Rightarrow> bool" where
  "slot_on_board r i =
     (if \<not> bit (r_occupied_mask r) i then False else respawn_at_ms (r_players r ! i) = 0)"

text \<open>\<open>ignore\<close> is \<open>None\<close> for the -1 of the source.\<close>

definition is_player_at :: "room \<Rightarrow> int \<Rightarrow> int \<Rightarrow> nat option \<Rightarrow> bool" where
  "is_player_at r x y ignore =
     list_ex (\<lambda>i. ignore \<noteq> Some i \<and> slot_on_board r i \<and>
       p_x (r_players r ! i) = of_int x \<and> p_y (r_players r ! i) = of_int y) [0..<MAX_PLAYERS]"

definition actor_distance :: "room \<Rightarrow> int \<Rightarrow> int \<Rightarrow> nat \<Rightarrow> int" where
  "actor_distance r x y i = \<bar>x - uint (p_x (r_players r ! i))\<bar> + \<bar>y - uint (p_y (r_players r ! i))\<bar>"

definition spawn_nearest_actor_distance :: "room \<Rightarrow> int \<Rightarrow> int \<Rightarrow> int" where
  "spawn_nearest_actor_distance r x y =
     fold (\<lambda>i nearest. if \<not> slot_on_board r i then nearest
        else let distance = actor_distance r x y i in
          if distance < nearest then distance else nearest) [0..<MAX_PLAYERS] INT_MAX"

definition spawn_cell_is_free :: "room \<Rightarrow> int \<Rightarrow> int \<Rightarrow> bool" where
  "spawn_cell_is_free r x y \<longleftrightarrow> \<not> is_brick (r_brick_bits r) x y \<and> \<not> is_player_at r x y None"

text \<open>The random tries of \<open>pick_spawn\<close>, at most \<open>n\<close> of them.\<close>

fun spawn_tries :: "nat \<Rightarrow> room \<Rightarrow> env \<Rightarrow> (int \<times> int) option \<times> env" where
  "spawn_tries 0 r e = (None, e)"
| "spawn_tries (Suc n) r e =
     (let (a, e1) = c_rand e; x = int (a mod 20);
          (b, e2) = c_rand e1; y = int (b mod 19) in
      if spawn_cell_is_free r x y \<and> spawn_nearest_actor_distance r x y \<ge> SPAWN_MIN_DISTANCE
      then (Some (x, y), e2)
      else spawn_tries n r e2)"

text \<open>The exhaustive pass: rows outside, columns inside, strict improvement only.\<close>

definition map_cells :: "(int \<times> int) list" where
  "map_cells = concat (map (\<lambda>y. map (\<lambda>x. (x, y)) [0..19]) [0..18])"

definition farthest_step :: "room \<Rightarrow> int \<times> int \<Rightarrow> int \<times> int \<times> int \<Rightarrow> int \<times> int \<times> int" where
  "farthest_step r cell best = (case (cell, best) of ((x, y), (best_distance, best_x, best_y)) \<Rightarrow>
     if \<not> spawn_cell_is_free r x y then best
     else let distance = spawn_nearest_actor_distance r x y in
       if distance > best_distance then (distance, x, y) else best)"

definition farthest_cell :: "room \<Rightarrow> int \<times> int" where
  "farthest_cell r = snd (fold (farthest_step r) map_cells (-1, 0, 0))"

definition pick_spawn :: "room \<Rightarrow> (u8 \<times> u8) \<times> room" where
  "pick_spawn r = (case spawn_tries 200 r (r_env r) of
      (Some (x, y), e) \<Rightarrow> ((of_int x, of_int y), r\<lparr>r_env := e\<rparr>)
    | (None, e) \<Rightarrow> (case farthest_cell r of (x, y) \<Rightarrow> ((of_int x, of_int y), r\<lparr>r_env := e\<rparr>)))"

text \<open>\<open>pick_spawn\<close> followed by the two stores of its result.\<close>

definition place_actor :: "nat \<Rightarrow> room \<Rightarrow> room" where
  "place_actor i r = (let ((sx, sy), r1) = pick_spawn r in
     upd_player i (\<lambda>p. p\<lparr>p_x := sx, p_y := sy\<rparr>) r1)"

section \<open>Lemmas\<close>

lemma rcore_env: "e_closed e = e_closed (r_env r) \<Longrightarrow> rcore (r\<lparr>r_env := e\<rparr>) = rcore r"
  using env_core_eq [of e "r_env r"] by (simp add: rcore_def)

lemma closed_spawn_tries: "e_closed (snd (spawn_tries n r e)) = e_closed e"
  by (induction n arbitrary: e) (simp_all add: Let_def split_beta)

lemma rcore_pick_spawn [simp]: "rcore (snd (pick_spawn r)) = rcore r"
  using closed_spawn_tries [of 200 r "r_env r"]
  by (auto simp: pick_spawn_def rcore_env split: prod.split option.split)

lemmas pick_spawn_frame [simp] = rcoreD [OF rcore_pick_spawn]

lemma pick_spawn_other [simp]:
  "r_clients (snd (pick_spawn r)) = r_clients r" "r_brick_echo (snd (pick_spawn r)) = r_brick_echo r"
  "r_respawn_echo (snd (pick_spawn r)) = r_respawn_echo r"
  by (simp_all add: pick_spawn_def split: prod.split option.split)

lemma is_player_at_iff:
  "is_player_at r x y ignore \<longleftrightarrow> (\<exists>i < MAX_PLAYERS. ignore \<noteq> Some i \<and> slot_on_board r i \<and>
     p_x (r_players r ! i) = of_int x \<and> p_y (r_players r ! i) = of_int y)"
  by (auto simp: is_player_at_def list_ex_iff)

text \<open>A fold that keeps the least of the distances seen.\<close>

lemma fold_min:
  "fold (\<lambda>i m. if \<not> P i then m else let d = f i in if d < m then d else m) xs (m0 :: int) =
     Min (insert m0 (f ` {i \<in> set xs. P i}))"
proof (induction xs arbitrary: m0)
  case Nil
  then show ?case by simp
next
  case (Cons x xs)
  have fin: "finite (f ` {i \<in> set xs. P i})" by simp
  show ?case
  proof (cases "P x")
    case False
    then have "{i \<in> set (x # xs). P i} = {i \<in> set xs. P i}" by auto
    then show ?thesis using False Cons.IH by simp
  next
    case True
    then have set: "{i \<in> set (x # xs). P i} = insert x {i \<in> set xs. P i}" by auto
    let ?F = "f ` {i \<in> set xs. P i}"
    have "Min (insert m0 (insert (f x) ?F)) = min m0 (Min (insert (f x) ?F))"
      using fin by (subst Min_insert) auto
    also have "\<dots> = Min (insert (min m0 (f x)) ?F)"
    proof (cases "?F = {}")
      case True
      then show ?thesis by (simp only: Min_singleton Min_insert finite.intros)
    next
      case False
      then show ?thesis using fin by (simp add: min.assoc)
    qed
    finally show ?thesis
      using True Cons.IH [of "if f x < m0 then f x else m0"] set by (simp add: min_def Let_def)
  qed
qed

lemma nearest_le:
  assumes "i < MAX_PLAYERS" "slot_on_board r i"
  shows "spawn_nearest_actor_distance r x y \<le> actor_distance r x y i"
  unfolding spawn_nearest_actor_distance_def fold_min
  using assms by (intro Min_le) auto

lemma nearest_nonneg: "0 \<le> spawn_nearest_actor_distance r x y"
  unfolding spawn_nearest_actor_distance_def fold_min by (auto simp: actor_distance_def)

lemma set_map_cells: "set map_cells = {(x, y). on_map x y}"
  by (force simp: map_cells_def on_map_def image_iff)

lemma free_on_map: "spawn_cell_is_free r x y \<Longrightarrow> on_map x y"
  using off_map_is_brick [of x y "r_brick_bits r"] by (auto simp: spawn_cell_is_free_def)

lemma spawn_tries_Some:
  "spawn_tries n r e = (Some (x, y), e') \<Longrightarrow>
   spawn_cell_is_free r x y \<and> spawn_nearest_actor_distance r x y \<ge> SPAWN_MIN_DISTANCE"
  by (induction n r e rule: spawn_tries.induct) (auto simp: Let_def split: prod.splits if_splits)

text \<open>What the exhaustive pass has found after some of the cells.\<close>

definition farthest_inv :: "room \<Rightarrow> (int \<times> int) set \<Rightarrow> int \<times> int \<times> int \<Rightarrow> bool" where
  "farthest_inv r seen best = (case best of (d, x, y) \<Rightarrow>
     (d = -1 \<and> x = 0 \<and> y = 0 \<and> (\<forall>(a, b) \<in> seen. \<not> spawn_cell_is_free r a b)) \<or>
     (spawn_cell_is_free r x y \<and> d = spawn_nearest_actor_distance r x y \<and>
      (\<forall>(a, b) \<in> seen. spawn_cell_is_free r a b \<longrightarrow> spawn_nearest_actor_distance r a b \<le> d)))"

lemma farthest_inv_step:
  assumes "farthest_inv r seen best"
  shows "farthest_inv r (insert (x, y) seen) (farthest_step r (x, y) best)"
proof -
  obtain d bx by' where best: "best = (d, bx, by')" by (metis prod_cases3)
  have "0 \<le> spawn_nearest_actor_distance r x y" by (rule nearest_nonneg)
  then show ?thesis using assms unfolding best
    by (auto simp: farthest_inv_def farthest_step_def Let_def)
qed

lemma farthest_inv_fold:
  "farthest_inv r seen best \<Longrightarrow> farthest_inv r (seen \<union> set cells) (fold (farthest_step r) cells best)"
proof (induction cells arbitrary: seen best)
  case Nil
  then show ?case by simp
next
  case (Cons c cells)
  obtain x y where c: "c = (x, y)" by force
  have "farthest_inv r (insert (x, y) seen) (farthest_step r (x, y) best)"
    by (rule farthest_inv_step [OF Cons.prems])
  from Cons.IH [OF this] show ?case by (simp add: c)
qed

lemma farthest_cell_spec:
  assumes "farthest_cell r = (x, y)" "spawn_cell_is_free r a b"
  shows "spawn_cell_is_free r x y \<and> spawn_nearest_actor_distance r a b \<le> spawn_nearest_actor_distance r x y"
proof -
  obtain d where f: "fold (farthest_step r) map_cells (-1, 0, 0) = (d, x, y)"
    using assms(1) by (auto simp: farthest_cell_def split: prod.splits) (metis prod.collapse)
  have "farthest_inv r ({} \<union> set map_cells) (fold (farthest_step r) map_cells (-1, 0, 0))"
    by (rule farthest_inv_fold) (simp add: farthest_inv_def)
  moreover have "(a, b) \<in> set map_cells" using free_on_map [OF assms(2)] by (simp add: set_map_cells)
  ultimately show ?thesis using assms(2) unfolding f by (auto simp: farthest_inv_def)
qed

lemma farthest_cell_none:
  assumes "farthest_cell r = (x, y)" "\<And>a b. \<not> spawn_cell_is_free r a b"
  shows "x = 0 \<and> y = 0"
proof -
  have "farthest_inv r ({} \<union> set map_cells) (fold (farthest_step r) map_cells (-1, 0, 0))"
    by (rule farthest_inv_fold) (simp add: farthest_inv_def)
  then show ?thesis using assms by (auto simp: farthest_inv_def farthest_cell_def split: prod.splits)
qed

text \<open>The two outcomes of \<open>pick_spawn\<close>, with the cell as integers.\<close>

lemma pick_spawn_cases:
  obtains x y where "on_map x y" "fst (pick_spawn r) = (of_int x, of_int y)"
    "\<And>a b. spawn_cell_is_free r a b \<Longrightarrow> spawn_cell_is_free r x y \<and>
       (spawn_nearest_actor_distance r x y \<ge> SPAWN_MIN_DISTANCE \<or>
        spawn_nearest_actor_distance r a b \<le> spawn_nearest_actor_distance r x y)"
proof (cases "spawn_tries 200 r (r_env r)")
  case (Pair found e)
  show thesis
  proof (cases found)
    case None
    obtain x y where far: "farthest_cell r = (x, y)" by force
    have "on_map x y"
    proof (cases "\<exists>a b. spawn_cell_is_free r a b")
      case True
      then show ?thesis using farthest_cell_spec [OF far] free_on_map by blast
    next
      case False
      then show ?thesis using farthest_cell_none [OF far] by (auto simp: on_map_def)
    qed
    then show thesis
      using that [of x y] farthest_cell_spec [OF far] Pair None far by (simp add: pick_spawn_def)
  next
    case (Some cell)
    obtain x y where cell: "cell = (x, y)" by force
    then have "spawn_cell_is_free r x y \<and> spawn_nearest_actor_distance r x y \<ge> SPAWN_MIN_DISTANCE"
      using spawn_tries_Some Pair Some by blast
    moreover from this have "on_map x y" using free_on_map by blast
    ultimately show thesis
      using that [of x y] Pair Some cell by (simp add: pick_spawn_def)
  qed
qed

lemma uint_of_int_cell: "0 \<le> x \<Longrightarrow> x < 256 \<Longrightarrow> uint (of_int x :: u8) = x"
  by (simp add: word_of_int_inverse uint_word_of_int_eq take_bit_int_eq_self)

lemma of_int_cell_eq: "0 \<le> x \<Longrightarrow> x < 256 \<Longrightarrow> (w :: u8) = of_int x \<longleftrightarrow> uint w = x"
  using uint_of_int_cell [of x] by auto

definition cell_ok :: "u8 \<Rightarrow> u8 \<Rightarrow> bool" where
  "cell_ok x y \<longleftrightarrow> uint x < 20 \<and> uint y < 19"

lemma cell_ok_on_map: "cell_ok x y \<longleftrightarrow> on_map (uint x) (uint y)"
  by (simp add: cell_ok_def on_map_def)

lemma pick_spawn_cell_ok: "cell_ok (fst (fst (pick_spawn r))) (snd (fst (pick_spawn r)))"
  by (rule pick_spawn_cases [of r]) (auto simp: cell_ok_def on_map_def uint_of_int_cell)

text \<open>When a free cell exists, the chosen one is under no actor.\<close>

lemma pick_spawn_avoids:
  assumes "\<exists>a b. spawn_cell_is_free r a b" "j < MAX_PLAYERS" "slot_on_board r j"
  shows "fst (pick_spawn r) \<noteq> (p_x (r_players r ! j), p_y (r_players r ! j))"
proof -
  obtain a b where free: "spawn_cell_is_free r a b" using assms(1) by blast
  show ?thesis
  proof (rule pick_spawn_cases [of r])
    fix x y
    assume xy: "fst (pick_spawn r) = (of_int x, of_int y)"
      and spec: "\<And>a b. spawn_cell_is_free r a b \<Longrightarrow> spawn_cell_is_free r x y \<and>
       (spawn_nearest_actor_distance r x y \<ge> SPAWN_MIN_DISTANCE \<or>
        spawn_nearest_actor_distance r a b \<le> spawn_nearest_actor_distance r x y)"
    have "\<not> is_player_at r x y None" using spec [OF free] by (simp add: spawn_cell_is_free_def)
    then show ?thesis using xy assms(2,3) by (auto simp: is_player_at_iff)
  qed
qed

section \<open>Properties\<close>

text \<open>
  Spawn placement. Whatever the random numbers are, the chosen cell is on the map. If the
  board has a free cell at all, the chosen cell is free: not a brick and not under any actor on
  the board. It is at least eight cells from every actor on the board, or no free cell is farther
  from its nearest actor than it is.
\<close>

theorem pick_spawn_safe:
  assumes "spawn_cell_is_free r a b" "fst (pick_spawn r) = (sx, sy)"
    and "i < MAX_PLAYERS" "slot_on_board r i"
  shows "cell_ok sx sy \<and> \<not> is_brick (r_brick_bits r) (uint sx) (uint sy) \<and>
    (p_x (r_players r ! i), p_y (r_players r ! i)) \<noteq> (sx, sy) \<and>
    (actor_distance r (uint sx) (uint sy) i \<ge> SPAWN_MIN_DISTANCE \<or>
     spawn_nearest_actor_distance r a b \<le> spawn_nearest_actor_distance r (uint sx) (uint sy))"
proof (rule pick_spawn_cases [of r])
  fix x y
  assume on: "on_map x y" and xy: "fst (pick_spawn r) = (of_int x, of_int y)"
    and spec: "\<And>a b. spawn_cell_is_free r a b \<Longrightarrow> spawn_cell_is_free r x y \<and>
       (spawn_nearest_actor_distance r x y \<ge> SPAWN_MIN_DISTANCE \<or>
        spawn_nearest_actor_distance r a b \<le> spawn_nearest_actor_distance r x y)"
  have u: "uint sx = x" "uint sy = y"
    using on xy assms(2) by (auto simp: on_map_def uint_of_int_cell)
  have free: "spawn_cell_is_free r x y" using spec [OF assms(1)] by simp
  then have "\<not> (p_x (r_players r ! i) = of_int x \<and> p_y (r_players r ! i) = of_int y)"
    using assms(3,4) by (auto simp: spawn_cell_is_free_def is_player_at_iff)
  moreover have "sx = of_int x" "sy = of_int y" using xy assms(2) by auto
  moreover have "actor_distance r x y i \<ge> SPAWN_MIN_DISTANCE \<or>
     spawn_nearest_actor_distance r a b \<le> spawn_nearest_actor_distance r x y"
    using spec [OF assms(1)] nearest_le [OF assms(3,4), of x y] by linarith
  ultimately show ?thesis
    using free on u by (auto simp: spawn_cell_is_free_def cell_ok_def on_map_def)
qed

theorem pick_spawn_safe_witness:
  "(p_x (r_players demo_room ! 1), p_y (r_players demo_room ! 1)) \<noteq>
    fst (pick_spawn (demo_room\<lparr>r_occupied_mask := 2\<rparr>))"
proof -
  let ?r = "demo_room\<lparr>r_occupied_mask := 2\<rparr>"
  have board: "slot_on_board ?r 1"
    by (simp add: slot_on_board_def demo_room_def demo_player_def player_zero_def bit_numeral_rec)
  have "\<not> is_player_at ?r 5 5 None"
    by (simp add: is_player_at_def upt_conv_Cons slot_on_board_def demo_room_def demo_player_def
        player_zero_def bit_numeral_rec)
  then have free: "spawn_cell_is_free ?r 5 5"
    using is_brick_zero [of 5 5] by (simp add: spawn_cell_is_free_def on_map_def demo_room_def)
  have two: "fst (pick_spawn ?r) = (fst (fst (pick_spawn ?r)), snd (fst (pick_spawn ?r)))" by simp
  have slot: "(1::nat) < MAX_PLAYERS" by simp
  from pick_spawn_safe [OF free two slot board] show ?thesis by simp
qed

end
