(* ===== verification/Inputs.thy ===== *)
theory Inputs
  imports Reliable
begin

text \<open>
  The input path of \<^verbatim>\<open>server/main.c\<close>: freshness of a DELTA's sequence number, the queue of six
  waiting inputs with its folding of idle repeats, and the application of one input per client and
  tick. Lemmas: the modular window, the ring as a bounded FIFO, and that every queued directional
  input is applied exactly once, in order, and acknowledged by its own number.
\<close>

section \<open>Operations\<close>

definition seq_after :: "u8 \<Rightarrow> u8 \<Rightarrow> bool" where
  "seq_after a b \<longleftrightarrow> \<not> (a - b = 0 \<or> a - b \<ge> 0x80)"

definition delta_seq_is_fresh :: "client_slot \<Rightarrow> u8 \<Rightarrow> bool \<times> client_slot" where
  "delta_seq_is_fresh c seq =
     (if \<not> have_delta_seq c then (True, c\<lparr>have_delta_seq := True, last_delta_seq := seq\<rparr>)
      else let diff = seq - last_delta_seq c in
        if diff = 0 \<or> diff \<ge> 0x80 then (False, c) else (True, c\<lparr>last_delta_seq := seq\<rparr>))"

definition input_push :: "queued_input \<Rightarrow> client_slot \<Rightarrow> client_slot" where
  "input_push q c = c\<lparr>
     input_q := (input_q c)[(input_head c + input_count c) mod INPUT_QUEUE_MAX := q],
     input_count := input_count c + 1\<rparr>"

definition input_pop :: "client_slot \<Rightarrow> client_slot" where
  "input_pop c = c\<lparr>input_head := Suc (input_head c) mod INPUT_QUEUE_MAX,
     input_count := input_count c - 1\<rparr>"

text \<open>The block of \<open>handle_client_packet\<close> that queues an accepted DELTA.\<close>

definition queue_input :: "u8 \<Rightarrow> u8 \<Rightarrow> u64 \<Rightarrow> int \<Rightarrow> client_slot \<Rightarrow> client_slot" where
  "queue_input seq joy now lag_ms c =
     (let last_i = (input_head c + input_count c + INPUT_QUEUE_MAX - 1) mod INPUT_QUEUE_MAX;
          foldable = input_count c > 0 \<and> qi_joy (input_q c ! last_i) = joy \<and> joy AND 0x1F = 0x0F in
      if foldable then c\<lparr>input_q := modify last_i (\<lambda>q. q\<lparr>qi_seq := seq\<rparr>) (input_q c)\<rparr>
      else if input_count c < INPUT_QUEUE_MAX
      then input_push \<lparr>qi_seq = seq, qi_joy = joy, qi_ready_at_ms = now + of_int lag_ms\<rparr> c
      else c)"

text \<open>The client part of one step of \<open>apply_queued_input\<close>, with the joystick it selects.\<close>

definition apply_input :: "u64 \<Rightarrow> client_slot \<Rightarrow> client_slot \<times> u8" where
  "apply_input now c =
     (if input_count c > 0 \<and> now \<ge> qi_ready_at_ms (input_q c ! input_head c) then
        (let q = input_q c ! input_head c in
         (input_pop (c\<lparr>applied_input_seq := qi_seq q, have_applied_input_seq := True\<rparr>), qi_joy q))
      else (c, 0x0F))"

definition apply_input_step :: "u64 \<Rightarrow> nat \<Rightarrow> room \<Rightarrow> room" where
  "apply_input_step now i r =
     (if \<not> in_use (r_clients r ! i) then r
      else let (c, joy) = apply_input now (r_clients r ! i) in
        upd_player i (\<lambda>p. p\<lparr>p_joy := joy\<rparr>) (upd_client i (\<lambda>_. c) r))"

definition apply_queued_input :: "u64 \<Rightarrow> room \<Rightarrow> room" where
  "apply_queued_input now r = for_slots (apply_input_step now) r"

section \<open>The queue is a bounded FIFO\<close>

definition input_shape :: "client_slot \<Rightarrow> bool" where
  "input_shape c \<longleftrightarrow> length (input_q c) = INPUT_QUEUE_MAX \<and> input_head c < INPUT_QUEUE_MAX \<and>
     input_count c \<le> INPUT_QUEUE_MAX"

definition pending_inputs :: "client_slot \<Rightarrow> queued_input list" where
  "pending_inputs c = ring_items (input_q c) (input_head c) (input_count c)"

lemma length_pending_inputs [simp]: "length (pending_inputs c) = input_count c"
  by (simp add: pending_inputs_def)

lemma pending_inputs_nonempty [simp]: "pending_inputs c \<noteq> [] \<longleftrightarrow> 0 < input_count c"
  by (simp add: pending_inputs_def)

lemma input_push_pending:
  assumes "input_shape c" "input_count c < INPUT_QUEUE_MAX"
  shows "pending_inputs (input_push q c) = pending_inputs c @ [q]" "input_shape (input_push q c)"
  using assms ring_items_push [of "input_count c" "input_q c" "input_head c" q]
  by (simp_all add: pending_inputs_def input_shape_def input_push_def)

lemma input_pop_pending:
  assumes "input_shape c" "0 < input_count c"
  shows "pending_inputs (input_pop c) = tl (pending_inputs c)" "input_shape (input_pop c)"
  using assms ring_items_pop [of "input_count c" "input_q c" "input_head c"]
  by (auto simp: pending_inputs_def input_shape_def input_pop_def)

lemma input_shape_count: "input_shape c \<Longrightarrow> input_count c \<le> INPUT_QUEUE_MAX"
  by (simp add: input_shape_def)

interpretation input_ring: bounded_fifo input_shape pending_inputs INPUT_QUEUE_MAX
  input_push input_pop
  by unfold_locales (simp_all add: input_push_pending input_pop_pending input_shape_count)

lemma seq_after_iff: "seq_after a b \<longleftrightarrow> a \<noteq> b \<and> unat (a - b) < 0x80"
  by (auto simp: seq_after_def word_le_nat_alt)

interpretation delta_seqs: serial_window seq_after "0x80"
  by unfold_locales (simp_all add: seq_after_iff)

section \<open>Lemmas\<close>

lemma fresh_cases:
  "delta_seq_is_fresh c seq =
     (if have_delta_seq c \<and> \<not> seq_after seq (last_delta_seq c) then (False, c)
      else (True, c\<lparr>have_delta_seq := True, last_delta_seq := seq\<rparr>))"
proof -
  have "have_delta_seq c \<Longrightarrow> c\<lparr>last_delta_seq := seq\<rparr> = c\<lparr>have_delta_seq := True, last_delta_seq := seq\<rparr>"
    by simp
  then show ?thesis by (auto simp: delta_seq_is_fresh_def seq_after_def Let_def)
qed

lemma hd_pending_inputs:
  "input_shape c \<Longrightarrow> 0 < input_count c \<Longrightarrow> hd (pending_inputs c) = input_q c ! input_head c"
  by (simp add: pending_inputs_def input_shape_def hd_ring_items)

lemma pending_inputs_fold:
  assumes "input_shape c" "0 < input_count c"
    and k_def: "k = (input_head c + input_count c + INPUT_QUEUE_MAX - 1) mod INPUT_QUEUE_MAX"
  shows "pending_inputs (c\<lparr>input_q := modify k f (input_q c)\<rparr>) =
      butlast (pending_inputs c) @ [f (last (pending_inputs c))]"
    and "input_q c ! k = last (pending_inputs c)"
proof -
  let ?q = "input_q c" and ?h = "input_head c" and ?n = "input_count c"
  have ne: "?n - 1 < length ?q" and le: "?n \<le> length ?q" and six: "length ?q = 6"
    using assms(1,2) unfolding input_shape_def by auto
  have "?h + ?n + 6 - 1 = ?h + (?n - 1) + 6" using assms(2) by simp
  then have k: "k = (?h + (?n - 1)) mod length ?q" unfolding k_def six by (metis mod_add_self2)
  show look: "?q ! k = last (pending_inputs c)"
    using assms(2) k by (simp add: pending_inputs_def last_conv_nth nth_ring_items)
  have "pending_inputs (c\<lparr>input_q := modify k f ?q\<rparr>) = (pending_inputs c)[?n - 1 := f (?q ! k)]"
    using ring_items_update [OF ne le, of ?h "f (?q ! k)"] k
    by (simp add: pending_inputs_def modify_def)
  also have "\<dots> = butlast (pending_inputs c) @ [f (last (pending_inputs c))]"
    using assms(2) list_update_last [of "pending_inputs c" "f (last (pending_inputs c))"] look by simp
  finally show "pending_inputs (c\<lparr>input_q := modify k f ?q\<rparr>) =
      butlast (pending_inputs c) @ [f (last (pending_inputs c))]" .
qed

lemma queue_input_spec:
  assumes "input_shape c"
  shows "input_shape (queue_input seq joy now lag c) \<and>
    pending_inputs (queue_input seq joy now lag c) =
     (if input_count c > 0 \<and> qi_joy (last (pending_inputs c)) = joy \<and> joy AND 0x1F = 0x0F
      then butlast (pending_inputs c) @ [(last (pending_inputs c))\<lparr>qi_seq := seq\<rparr>]
      else if input_count c < INPUT_QUEUE_MAX
      then pending_inputs c @ [\<lparr>qi_seq = seq, qi_joy = joy, qi_ready_at_ms = now + of_int lag\<rparr>]
      else pending_inputs c)"
proof (cases "0 < input_count c")
  case True
  let ?k = "(input_head c + input_count c + 6 - 1) mod 6"
  have shape: "input_shape (c\<lparr>input_q := modify ?k g (input_q c)\<rparr>)" for g
    using assms by (simp add: input_shape_def)
  note f = pending_inputs_fold [OF assms True refl]
  show ?thesis
    using f(1) [of "\<lambda>q. q\<lparr>qi_seq := seq\<rparr>"] f(2) True assms input_push_pending [OF assms]
    shape by (simp add: queue_input_def Let_def)
next
  case False
  then show ?thesis using input_push_pending [OF assms] by (simp add: queue_input_def)
qed

lemma apply_input_spec:
  assumes "input_shape c"
  shows "(0 < input_count c \<and> now \<ge> qi_ready_at_ms (hd (pending_inputs c)) \<longrightarrow>
      input_shape (fst (apply_input now c)) \<and>
      pending_inputs (fst (apply_input now c)) = tl (pending_inputs c) \<and>
      applied_input_seq (fst (apply_input now c)) = qi_seq (hd (pending_inputs c)) \<and>
      have_applied_input_seq (fst (apply_input now c)) \<and>
      snd (apply_input now c) = qi_joy (hd (pending_inputs c))) \<and>
    (\<not> (0 < input_count c \<and> now \<ge> qi_ready_at_ms (hd (pending_inputs c))) \<longrightarrow>
      apply_input now c = (c, 0x0F))"
proof (cases "0 < input_count c")
  case True
  note head = hd_pending_inputs [OF assms True]
  let ?c = "c\<lparr>applied_input_seq := qi_seq (hd (pending_inputs c)), have_applied_input_seq := True\<rparr>"
  have c: "input_shape ?c" "0 < input_count ?c" "pending_inputs ?c = pending_inputs c"
    using assms True by (simp_all add: input_shape_def pending_inputs_def)
  show ?thesis
    using True head input_pop_pending [OF c(1,2)] c(3)
    by (simp add: apply_input_def Let_def input_pop_def)
next
  case False
  then show ?thesis by (simp add: apply_input_def)
qed

lemma core_link_cong:
  "c_tx c = c_tx d \<Longrightarrow> in_use c = in_use d \<Longrightarrow> reliable_q c = reliable_q d \<Longrightarrow>
   reliable_head c = reliable_head d \<Longrightarrow> reliable_count c = reliable_count d \<Longrightarrow>
   reliable_next_rev c = reliable_next_rev d \<Longrightarrow> reliable_acked_rev c = reliable_acked_rev d \<Longrightarrow>
   reliable_sent_rev c = reliable_sent_rev d \<Longrightarrow> link_ok c = link_ok d"
  by (simp add: link_ok_def ring_shape_def numbered_def outbox_def pending_events_def)

lemma link_ok_queue_input [simp]: "link_ok (queue_input seq joy now lag c) = link_ok c"
  by (rule core_link_cong) (simp_all add: queue_input_def input_push_def Let_def)

lemma link_ok_apply_input [simp]: "link_ok (fst (apply_input now c)) = link_ok c"
  by (rule core_link_cong) (simp_all add: apply_input_def input_pop_def Let_def)

lemma link_ok_fresh [simp]: "link_ok (snd (delta_seq_is_fresh c seq)) = link_ok c"
  by (rule core_link_cong) (simp_all add: fresh_cases)

text \<open>A queue holds legal joystick bytes only.\<close>

definition input_ok :: "client_slot \<Rightarrow> bool" where
  "input_ok c \<longleftrightarrow> input_shape c \<and> list_all (\<lambda>q. qi_joy q \<in> joy_bytes) (pending_inputs c)"

lemma input_ok_queue:
  assumes "input_ok c" "joy \<in> joy_bytes"
  shows "input_ok (queue_input seq joy now lag c)"
  using queue_input_spec [of c seq joy now lag] assms
  by (auto simp: input_ok_def list_all_butlast)

lemma input_ok_apply:
  assumes "input_ok c"
  shows "input_ok (fst (apply_input now c))" "snd (apply_input now c) \<in> joy_bytes"
proof -
  have neutral: "0x0F \<in> joy_bytes" by (simp add: joy_bytes_def)
  have "input_ok (fst (apply_input now c)) \<and> snd (apply_input now c) \<in> joy_bytes"
  proof (cases "0 < input_count c \<and> now \<ge> qi_ready_at_ms (hd (pending_inputs c))")
    case True
    then show ?thesis
      using apply_input_spec [of c now] assms list_all_hd [of "\<lambda>q. qi_joy q \<in> joy_bytes" "pending_inputs c"]
      by (simp add: input_ok_def list_all_tl)
  next
    case False
    then show ?thesis using apply_input_spec [of c now] assms neutral by (simp add: input_ok_def)
  qed
  then show "input_ok (fst (apply_input now c))" "snd (apply_input now c) \<in> joy_bytes" by auto
qed

section \<open>The history of a client's inputs\<close>

datatype input_event = InputArrives u8 u8 u64 | InputTick u64

text \<open>
  The log beside the queue: what entered it (arrivals that found room) and what was applied and
  acknowledged, as pairs of sequence number and joystick byte.
\<close>

type_synonym input_log = "client_slot \<times> (u8 \<times> u8) list \<times> (u8 \<times> u8) list"

fun input_step :: "int \<Rightarrow> input_event \<Rightarrow> input_log \<Rightarrow> input_log" where
  "input_step lag (InputArrives seq joy now) (c, entered, applied) =
     (queue_input seq joy now lag c,
      if input_count c < INPUT_QUEUE_MAX then entered @ [(seq, joy)] else entered, applied)"
| "input_step lag (InputTick now) (c, entered, applied) =
     (let (d, joy) = apply_input now c in
      (d, entered, if input_count d < input_count c then applied @ [(applied_input_seq d, joy)] else applied))"

definition moves :: "(u8 \<times> u8) list \<Rightarrow> (u8 \<times> u8) list" where
  "moves xs = filter (\<lambda>(seq, joy). joy AND 0x1F \<noteq> 0x0F) xs"

definition queued_pairs :: "client_slot \<Rightarrow> (u8 \<times> u8) list" where
  "queued_pairs c = map (\<lambda>q. (qi_seq q, qi_joy q)) (pending_inputs c)"

definition log_ok :: "input_log \<Rightarrow> bool" where
  "log_ok l = (case l of (c, entered, applied) \<Rightarrow> input_shape c \<and>
     moves applied @ moves (queued_pairs c) = moves entered \<and>
     (applied \<noteq> [] \<longrightarrow> have_applied_input_seq c \<and> applied_input_seq c = fst (last applied)))"

lemma moves_append [simp]: "moves (xs @ ys) = moves xs @ moves ys"
  by (simp add: moves_def)

lemma moves_neutral: "joy AND 0x1F = 0x0F \<Longrightarrow> moves [(seq, joy)] = []"
  by (simp add: moves_def)

lemma moves_fold:
  assumes "xs \<noteq> []" "qi_joy (last xs) AND 0x1F = 0x0F"
  shows "moves (map (\<lambda>q. (qi_seq q, qi_joy q)) (butlast xs @ [(last xs)\<lparr>qi_seq := seq\<rparr>])) =
    moves (map (\<lambda>q. (qi_seq q, qi_joy q)) xs)"
  using assms by (cases xs rule: rev_cases) (simp_all add: moves_neutral)

lemma queue_input_applied [simp]:
  "applied_input_seq (queue_input seq joy now lag c) = applied_input_seq c"
  "have_applied_input_seq (queue_input seq joy now lag c) = have_applied_input_seq c"
  by (simp_all add: queue_input_def input_push_def Let_def)

lemma log_ok_arrives:
  assumes "log_ok (c, entered, applied)"
  shows "log_ok (input_step lag (InputArrives seq joy now) (c, entered, applied))"
proof -
  have shape: "input_shape c" and hist: "moves applied @ moves (queued_pairs c) = moves entered"
    using assms by (simp_all add: log_ok_def)
  note q = queue_input_spec [OF shape, of seq joy now lag]
  consider (fold) "input_count c > 0 \<and> qi_joy (last (pending_inputs c)) = joy \<and> joy AND 0x1F = 0x0F"
    | (room) "\<not> (input_count c > 0 \<and> qi_joy (last (pending_inputs c)) = joy \<and> joy AND 0x1F = 0x0F)"
        "input_count c < INPUT_QUEUE_MAX"
    | (full) "\<not> (input_count c > 0 \<and> qi_joy (last (pending_inputs c)) = joy \<and> joy AND 0x1F = 0x0F)"
        "\<not> input_count c < INPUT_QUEUE_MAX" by blast
  then have "moves (queued_pairs (queue_input seq joy now lag c)) =
      (if input_count c < INPUT_QUEUE_MAX then moves (queued_pairs c) @ moves [(seq, joy)]
       else moves (queued_pairs c))"
  proof cases
    case fold
    then show ?thesis
      using q moves_fold [of "pending_inputs c" seq] by (simp add: queued_pairs_def moves_neutral)
  next
    case room
    have "pending_inputs (queue_input seq joy now lag c) =
        pending_inputs c @ [\<lparr>qi_seq = seq, qi_joy = joy, qi_ready_at_ms = now + of_int lag\<rparr>]"
      using q by (simp only: room if_True if_False simp_thms)
    then show ?thesis using room(2) by (simp add: queued_pairs_def)
  next
    case full
    have "pending_inputs (queue_input seq joy now lag c) = pending_inputs c"
      using q by (simp only: full if_True if_False simp_thms)
    then show ?thesis using full(2) by (simp add: queued_pairs_def)
  qed
  then show ?thesis using assms hist q by (simp add: log_ok_def)
qed

lemma log_ok_tick:
  assumes "log_ok (c, entered, applied)"
  shows "log_ok (input_step lag (InputTick now) (c, entered, applied))"
proof -
  have shape: "input_shape c" and hist: "moves applied @ moves (queued_pairs c) = moves entered"
    using assms by (simp_all add: log_ok_def)
  obtain d joy where run: "apply_input now c = (d, joy)" by force
  note a = apply_input_spec [OF shape, of now]
  show ?thesis
  proof (cases "0 < input_count c \<and> now \<ge> qi_ready_at_ms (hd (pending_inputs c))")
    case True
    then have d: "input_shape d" "pending_inputs d = tl (pending_inputs c)"
      "applied_input_seq d = qi_seq (hd (pending_inputs c))" "have_applied_input_seq d"
      "joy = qi_joy (hd (pending_inputs c))" using a run by simp_all
    have ne: "pending_inputs c \<noteq> []" using True by simp
    have less: "input_count d < input_count c"
      using d(2) ne length_pending_inputs [of d] length_pending_inputs [of c]
      by (cases "pending_inputs c") simp_all
    have "queued_pairs c = (applied_input_seq d, joy) # queued_pairs d"
      using ne d by (cases "pending_inputs c") (simp_all add: queued_pairs_def)
    then have "moves (queued_pairs c) = moves [(applied_input_seq d, joy)] @ moves (queued_pairs d)"
      by (metis append_Cons append_Nil moves_append)
    then show ?thesis using run less d hist by (simp add: log_ok_def)
  next
    case False
    then show ?thesis using a run assms by (simp add: log_ok_def)
  qed
qed

lemma log_ok_run: "log_ok l \<Longrightarrow> log_ok (fold (input_step lag) evs l)"
proof (induction evs arbitrary: l)
  case (Cons ev evs)
  obtain c entered applied where l: "l = (c, entered, applied)" by (metis prod_cases3)
  have "log_ok (input_step lag ev l)"
    using Cons.prems log_ok_arrives log_ok_tick unfolding l by (cases ev) auto
  then show ?case using Cons.IH by simp
qed simp

section \<open>Properties\<close>

text \<open>
  C21: Inputs are neither lost nor invented. Over any interleaving of arrivals and ticks, the
  directional inputs applied so far followed by those still queued are exactly the directional
  inputs that entered the queue, in arrival order, each under its own sequence number; the
  acknowledgement the client sees is the number of the input applied last.
\<close>

theorem inputs_applied_in_order:
  assumes "input_shape c" "pending_inputs c = []"
    and "fold (input_step lag) evs (c, [], []) = (d, entered, applied)"
  shows "moves applied @ moves (queued_pairs d) = moves entered \<and> input_count d \<le> INPUT_QUEUE_MAX \<and>
    (applied = [] \<or> have_applied_input_seq d \<and> applied_input_seq d = fst (last applied))"
proof -
  have "log_ok (c, [], [])" using assms(1,2) by (simp add: log_ok_def queued_pairs_def moves_def)
  then have "log_ok (d, entered, applied)" using log_ok_run [of "(c, [], [])" lag evs] assms(3) by simp
  then show ?thesis by (auto simp: log_ok_def input_shape_def)
qed

definition demo_inputs :: "input_event list" where
  "demo_inputs = [InputArrives 1 0x07 10, InputArrives 2 0x0D 11, InputTick 100, InputTick 200]"

theorem inputs_applied_in_order_witness:
  "moves (snd (snd (fold (input_step 0) demo_inputs (client_free, [], [])))) @
     moves (queued_pairs (fst (fold (input_step 0) demo_inputs (client_free, [], [])))) =
   [(1, 0x07), (2, 0x0D)]"
proof -
  have shape: "input_shape client_free" "pending_inputs client_free = []"
    by (simp_all add: input_shape_def pending_inputs_def client_free_def)
  let ?run = "fold (input_step 0) demo_inputs (client_free, [], [])"
  have "fst (snd ?run) = [(1, 0x07), (2, 0x0D)]"
    by (simp add: demo_inputs_def client_free_def queue_input_def input_push_def Let_def split_beta)
  moreover have "moves (snd (snd ?run)) @ moves (queued_pairs (fst ?run)) = moves (fst (snd ?run))"
    using inputs_applied_in_order [OF shape, of 0 demo_inputs "fst ?run" "fst (snd ?run)" "snd (snd ?run)"]
    by simp
  ultimately show ?thesis by (simp add: moves_def)
qed

text \<open>
  Replays. Once a DELTA with number \<open>seq\<close> has been accepted, that number and the 128 numbers
  before it are refused, and the 127 numbers after it are accepted: a replayed or reordered input
  can never be applied twice within the window.
\<close>

theorem delta_replay_window:
  assumes "delta_seq_is_fresh c seq = (True, d)" "k \<le> 128" "0 < j" "j < 128"
  shows "last_delta_seq d = seq \<and> delta_seq_is_fresh d (seq - of_nat k) = (False, d) \<and>
    fst (delta_seq_is_fresh d (seq + of_nat j)) \<and>
    (have_delta_seq c = False \<or> seq_after seq (last_delta_seq c))"
proof -
  have d: "d = c\<lparr>have_delta_seq := True, last_delta_seq := seq\<rparr>"
    and ok: "\<not> have_delta_seq c \<or> seq_after seq (last_delta_seq c)"
    using assms(1) by (auto simp: fresh_cases split: if_splits)
  have "\<not> seq_after (seq - of_nat k) seq" using assms(2) by (intro delta_seqs.not_newer_sub) simp
  moreover have "seq_after (seq + of_nat j) seq"
    using assms(3,4) delta_seqs.newer_add [of j seq] by simp
  ultimately show ?thesis using d ok by (auto simp: fresh_cases)
qed

theorem delta_replay_window_witness:
  "fst (delta_seq_is_fresh (client_free\<lparr>have_delta_seq := True, last_delta_seq := 2\<rparr>) 250) = False"
proof -
  have "delta_seq_is_fresh client_free 2 = (True, client_free\<lparr>have_delta_seq := True, last_delta_seq := 2\<rparr>)"
    by (simp add: delta_seq_is_fresh_def client_free_def)
  from delta_replay_window [OF this, of 8 1]
  have "delta_seq_is_fresh (client_free\<lparr>have_delta_seq := True, last_delta_seq := 2\<rparr>) (2 - of_nat 8) =
      (False, client_free\<lparr>have_delta_seq := True, last_delta_seq := 2\<rparr>)" by simp
  moreover have "(2 - of_nat 8 :: u8) = 250" by simp
  ultimately show ?thesis by (simp only: fst_conv)
qed

end
