(* ===== verification/Wellformed.thy ===== *)
theory Wellformed
  imports Spawn Inputs
begin

text \<open>
  The well-formedness invariant of a room: array lengths, actors and shots on the map, legal
  joystick bytes, no brick beyond the layout, sound client records and links. Lemmas: the
  primitive updates and every transmission preserve it, so an operation's proof is its
  decomposition into primitives.
\<close>

section \<open>The invariant\<close>

definition config_ok :: "room_config \<Rightarrow> bool" where
  "config_ok cfg \<longleftrightarrow> 0 \<le> cfg_zombies cfg \<and> cfg_zombies cfg < 4 \<and>
     1 \<le> cfg_kill_limit cfg \<and> cfg_kill_limit cfg \<le> 10 \<and>
     100 \<le> cfg_intermission_ms cfg \<and> cfg_intermission_ms cfg \<le> 600000 \<and>
     100 \<le> cfg_no_human_grace_ms cfg \<and> cfg_no_human_grace_ms cfg \<le> 600000"

definition player_ok :: "player_state \<Rightarrow> bool" where
  "player_ok p \<longleftrightarrow> cell_ok (p_x p) (p_y p) \<and> p_joy p \<in> joy_bytes"

definition is_cardinal :: "int \<Rightarrow> int \<Rightarrow> bool" where
  "is_cardinal dx dy \<longleftrightarrow> (dx, dy) \<in> {(1, 0), (0, 1), (-1, 0), (0, -1)}"

definition shot_ok :: "shot_state \<Rightarrow> bool" where
  "shot_ok s \<longleftrightarrow> s_clear_burst s \<le> 3 \<and>
     (s_active s \<longrightarrow> cell_ok (s_x s) (s_y s) \<and> is_cardinal (s_dx s) (s_dy s))"

definition name_ok :: "bytes \<Rightarrow> bool" where
  "name_ok name \<longleftrightarrow> length name = NAME_LEN \<and> (name = replicate NAME_LEN 0 \<or> list_all legal_name_char name)"

definition seat_ok :: "client_slot \<Rightarrow> bool" where
  "seat_ok c \<longleftrightarrow> (handshake_ok c \<longrightarrow> in_use c) \<and> (leave_requested c \<longrightarrow> handshake_ok c) \<and>
     (in_use c \<longleftrightarrow> 0 \<le> c_fd c) \<and> name_ok (c_name c) \<and> input_ok c"

definition board_ok :: "room \<Rightarrow> bool" where
  "board_ok r \<longleftrightarrow> config_ok (r_config r) \<and>
     length (r_players r) = MAX_PLAYERS \<and> list_all player_ok (r_players r) \<and>
     length (r_shots r) = MAX_PLAYERS \<and> list_all shot_ok (r_shots r) \<and>
     length (r_brick_bits r) = 48 \<and> length (r_brick_reset_bits r) = 48 \<and>
     bricks_below (r_brick_bits r) (r_brick_reset_bits r) \<and>
     length (r_last_input_ms r) = MAX_PLAYERS \<and> length (r_departing r) = MAX_DEPARTING"

definition seats_ok :: "room \<Rightarrow> bool" where
  "seats_ok r \<longleftrightarrow> list_all seat_ok (r_clients r)"

definition base_ok :: "room \<Rightarrow> bool" where
  "base_ok r \<longleftrightarrow> net_ok r \<and> board_ok r \<and> seats_ok r"

lemma base_ok_lengths:
  assumes "base_ok r"
  shows "length (r_clients r) = 4" "length (r_players r) = 4" "length (r_shots r) = 4"
    "length (r_brick_bits r) = 48" "length (r_last_input_ms r) = 4" "length (r_departing r) = 4"
  using assms by (simp_all add: base_ok_def board_ok_def net_ok_def)

lemma base_ok_player: "base_ok r \<Longrightarrow> i < 4 \<Longrightarrow> player_ok (r_players r ! i)"
  by (simp add: base_ok_def board_ok_def list_all_nthD)

lemma base_ok_shot: "base_ok r \<Longrightarrow> i < 4 \<Longrightarrow> shot_ok (r_shots r ! i)"
  by (simp add: base_ok_def board_ok_def list_all_nthD)

lemma base_ok_seat: "base_ok r \<Longrightarrow> i < 4 \<Longrightarrow> seat_ok (r_clients r ! i)"
  by (simp add: base_ok_def seats_ok_def net_ok_def list_all_nthD)

lemma base_ok_link: "base_ok r \<Longrightarrow> i < 4 \<Longrightarrow> link_ok (r_clients r ! i)"
  by (simp add: base_ok_def net_ok_def links_ok_nth)

section \<open>Transmissions\<close>

lemma seat_ok_core: "core c = core d \<Longrightarrow> seat_ok c = seat_ok d"
  by (simp add: seat_ok_def input_ok_def input_shape_def pending_inputs_def coreD [of c d])

lemma seats_ok_rcore:
  assumes "rcore r = rcore q"
  shows "seats_ok r = seats_ok q"
proof -
  note len = rcoreD(24) [OF assms]
  have "seat_ok (r_clients r ! i) = seat_ok (r_clients q ! i)" if "i < length (r_clients r)" for i
    by (rule seat_ok_core, rule core_nthD [OF rcoreD(23) [OF assms] that])
  then show ?thesis using len by (simp add: seats_ok_def list_all_length)
qed

lemma board_ok_rcore: "rcore r = rcore q \<Longrightarrow> board_ok r = board_ok q"
  by (simp add: board_ok_def rcoreD [of r q])

lemma base_ok_quiet: "rcore r = rcore q \<Longrightarrow> net_ok r \<Longrightarrow> base_ok q \<Longrightarrow> base_ok r"
  using board_ok_rcore [of r q] seats_ok_rcore [of r q] by (simp add: base_ok_def)

lemma base_ok_net [simp]: "base_ok r \<Longrightarrow> net_ok r"
  by (simp add: base_ok_def)

lemma base_ok_next_seq [simp]: "base_ok r \<Longrightarrow> base_ok (next_seq r)"
  by (rule base_ok_quiet [of _ r]) simp_all

lemma base_ok_now_read [simp]: "base_ok r \<Longrightarrow> base_ok (room_now_read r)"
  by (rule base_ok_quiet [of _ r]) simp_all

lemma net_ok_rand_read [simp]: "net_ok (room_rand_read r) = net_ok r"
  by (simp add: net_ok_def room_rand_read_def)

lemma base_ok_rand_read [simp]: "base_ok r \<Longrightarrow> base_ok (room_rand_read r)"
  by (rule base_ok_quiet [of _ r]) simp_all

lemma base_ok_broadcast [simp]: "base_ok r \<Longrightarrow> base_ok (broadcast pkt r)"
  by (rule base_ok_quiet [of _ r]) simp_all

lemma base_ok_broadcast_reliable [simp]: "base_ok r \<Longrightarrow> base_ok (broadcast_reliable_event event now r)"
  by (rule base_ok_quiet [of _ r]) simp_all

lemma base_ok_reliable_enqueue [simp]: "base_ok r \<Longrightarrow> i < 4 \<Longrightarrow> base_ok (snd (reliable_enqueue i event now r))"
  by (rule base_ok_quiet [of _ r]) simp_all

lemma base_ok_reliable_tick [simp]: "base_ok r \<Longrightarrow> base_ok (reliable_tick now r)"
  by (rule base_ok_quiet [of _ r]) simp_all

lemma base_ok_announce_respawn [simp]: "base_ok r \<Longrightarrow> base_ok (announce_respawn pid x y fl at r)"
  by (rule base_ok_quiet [of _ r]) simp_all

lemma base_ok_announce_brick [simp]: "base_ok r \<Longrightarrow> base_ok (announce_brick x y at r)"
  by (rule base_ok_quiet [of _ r]) simp_all

lemma base_ok_announce_shot [simp]: "base_ok r \<Longrightarrow> base_ok (announce_shot pid x y a r)"
  by (rule base_ok_quiet [of _ r]) simp_all

lemma base_ok_flush_respawn [simp]: "base_ok r \<Longrightarrow> base_ok (flush_respawn_echo r)"
  by (rule base_ok_quiet [of _ r]) simp_all

lemma base_ok_flush_brick [simp]: "base_ok r \<Longrightarrow> base_ok (flush_brick_echo r)"
  by (rule base_ok_quiet [of _ r]) simp_all

lemma base_ok_next_name [simp]: "base_ok r \<Longrightarrow> base_ok (broadcast_next_name r)"
  by (rule base_ok_quiet [of _ r]) simp_all

lemma net_ok_pick_spawn [simp]: "net_ok (snd (pick_spawn r)) = net_ok r"
  by (simp add: net_ok_def)

lemma base_ok_pick_spawn [simp]: "base_ok r \<Longrightarrow> base_ok (snd (pick_spawn r))"
  by (rule base_ok_quiet [of _ r]) simp_all

section \<open>Primitive updates\<close>

lemma net_ok_fields [simp]:
  "net_ok (r\<lparr>r_players := ps\<rparr>) = net_ok r" "net_ok (r\<lparr>r_shots := ss\<rparr>) = net_ok r"
  "net_ok (r\<lparr>r_brick_bits := bb\<rparr>) = net_ok r" "net_ok (r\<lparr>r_last_input_ms := li\<rparr>) = net_ok r"
  "net_ok (r\<lparr>r_departing := dp\<rparr>) = net_ok r" "net_ok (r\<lparr>r_env := ev\<rparr>) = net_ok r"
  "net_ok (r\<lparr>r_global_transport := gt\<rparr>) = net_ok r"
  by (simp_all add: net_ok_def)

lemma base_ok_fields [simp]:
  "base_ok (r\<lparr>r_occupied_mask := m\<rparr>) = base_ok r" "base_ok (r\<lparr>r_env := ev\<rparr>) = base_ok r"
  "base_ok (r\<lparr>r_next_tick := t\<rparr>) = base_ok r" "base_ok (r\<lparr>r_last_brick_resync_ms := t\<rparr>) = base_ok r"
  "base_ok (r\<lparr>r_last_name_rotate_ms := t\<rparr>) = base_ok r" "base_ok (r\<lparr>r_last_seat_ms := t\<rparr>) = base_ok r"
  "base_ok (r\<lparr>r_last_seat_mask := m\<rparr>) = base_ok r" "base_ok (r\<lparr>r_round_id := m\<rparr>) = base_ok r"
  "base_ok (r\<lparr>r_round_state := st\<rparr>) = base_ok r" "base_ok (r\<lparr>r_historical_zombie_mask := m\<rparr>) = base_ok r"
  "base_ok (r\<lparr>r_final_active_mask := m\<rparr>) = base_ok r" "base_ok (r\<lparr>r_final_zombie_mask := m\<rparr>) = base_ok r"
  "base_ok (r\<lparr>r_winner_pid := m\<rparr>) = base_ok r" "base_ok (r\<lparr>r_final_scores := ss\<rparr>) = base_ok r"
  "base_ok (r\<lparr>r_frozen_names := ns\<rparr>) = base_ok r" "base_ok (r\<lparr>r_frozen_match := pk\<rparr>) = base_ok r"
  "base_ok (r\<lparr>r_intermission_deadline_ms := t\<rparr>) = base_ok r"
  "base_ok (r\<lparr>r_no_human_deadline_ms := t\<rparr>) = base_ok r"
  "base_ok (r\<lparr>r_last_transport_summary_ms := t\<rparr>) = base_ok r"
  "base_ok (r\<lparr>r_global_transport := gt\<rparr>) = base_ok r" "base_ok (r\<lparr>r_seq := m\<rparr>) = base_ok r"
  by (simp_all add: base_ok_def net_ok_def board_ok_def seats_ok_def)

lemma base_ok_occupied: "base_ok r \<Longrightarrow> base_ok (r\<lparr>r_occupied_mask := m\<rparr>)"
  by simp

lemma base_ok_upd_player:
  assumes "base_ok r" "i < 4 \<Longrightarrow> player_ok (r_players r ! i) \<Longrightarrow> player_ok (f (r_players r ! i))"
  shows "base_ok (upd_player i f r)"
  using assms by (auto simp: base_ok_def board_ok_def seats_ok_def upd_player_def intro: list_all_modify)

lemma base_ok_upd_shot:
  assumes "base_ok r" "i < 4 \<Longrightarrow> shot_ok (r_shots r ! i) \<Longrightarrow> shot_ok (f (r_shots r ! i))"
  shows "base_ok (upd_shot i f r)"
  using assms by (auto simp: base_ok_def board_ok_def seats_ok_def upd_shot_def intro: list_all_modify)

lemma base_ok_upd_client:
  assumes "base_ok r"
    and "i < 4 \<Longrightarrow> seat_ok (r_clients r ! i) \<Longrightarrow> link_ok (r_clients r ! i) \<Longrightarrow>
      seat_ok (f (r_clients r ! i)) \<and> link_ok (f (r_clients r ! i))"
  shows "base_ok (upd_client i f r)"
proof -
  have len: "length (r_clients r) = 4" using assms(1) by (rule base_ok_lengths)
  have both: "list_all (\<lambda>c. seat_ok c \<and> link_ok c) (r_clients r)"
    using assms(1) by (simp add: base_ok_def net_ok_def seats_ok_def links_ok_def list_all_iff)
  have "list_all (\<lambda>c. seat_ok c \<and> link_ok c) (modify i f (r_clients r))"
    by (rule list_all_modify [OF both]) (use assms(2) len in auto)
  then show ?thesis
    using assms(1) by (simp add: base_ok_def net_ok_def board_ok_def seats_ok_def links_ok_def
        upd_client_def list_all_iff)
qed

lemma base_ok_last_input [simp]: "length ts = 4 \<Longrightarrow> base_ok r \<Longrightarrow> base_ok (r\<lparr>r_last_input_ms := ts\<rparr>)"
  by (simp add: base_ok_def board_ok_def seats_ok_def)

lemma base_ok_clear_brick:
  assumes "base_ok r" "\<not> is_outer_wall_cell x y"
  shows "base_ok (r\<lparr>r_brick_bits := clear_brick (r_brick_bits r) x y\<rparr>)"
  using assms by (simp add: base_ok_def board_ok_def seats_ok_def bricks_below_clear)

lemma base_ok_reset_bricks: "base_ok r \<Longrightarrow> base_ok (r\<lparr>r_brick_bits := r_brick_reset_bits r\<rparr>)"
  by (simp add: base_ok_def board_ok_def seats_ok_def)

lemma shot_zero_ok: "shot_ok shot_zero"
  by (simp add: shot_ok_def shot_zero_def)

lemma base_ok_no_shots [simp]: "base_ok r \<Longrightarrow> base_ok (r\<lparr>r_shots := replicate 4 shot_zero\<rparr>)"
  by (simp add: base_ok_def board_ok_def seats_ok_def list_all_iff shot_zero_ok)

lemma base_ok_place_actor [simp]: "base_ok r \<Longrightarrow> base_ok (place_actor i r)"
  unfolding place_actor_def Let_def split_beta
  by (rule base_ok_upd_player)
    (use pick_spawn_cell_ok [of r] in \<open>auto simp: player_ok_def\<close>)

lemma neutral_joy: "0x0F \<in> joy_bytes"
  by (simp add: joy_bytes_def)

end
