(* ===== verification/Rounds.thy ===== *)
theory Rounds
  imports Wellformed
begin

text \<open>
  The round life cycle of \<^verbatim>\<open>server/main.c\<close>: resetting a slot, scoring, the end of a round and
  its frozen result, the start of the next one, dormancy and waking, the no-human grace window
  and the activation of a joining client. Lemmas: the invariants of the board, the seats and the
  phases, and what each transition establishes.
\<close>

section \<open>Slots\<close>

text \<open>\<open>reset_zombie_schedule\<close>; \<open>draw\<close> is the value of \<open>rand()\<close>.\<close>

definition zombie_schedule :: "u64 \<Rightarrow> nat \<Rightarrow> player_state \<Rightarrow> player_state" where
  "zombie_schedule now draw p = p\<lparr>
     zombie_move_next_ms := now + ZOMBIE_SERVER_TICK_MS +
       of_nat (draw mod ZOMBIE_INITIAL_PHASE_TICKS) * ZOMBIE_SERVER_TICK_MS,
     zombie_fire_next_ms := now, zombie_fire_windup_until_ms := 0,
     zombie_brick_fire_next_ms := now, zombie_dir := 0xFF, zombie_last_dir := 0xFF,
     zombie_commit_moves_left := 0, zombie_fire_target := 0xFF,
     zombie_brick_fire_pending := False, zombie_brick_fire_dir := 0xFF, zombie_stuck_moves := 0\<rparr>"

definition reset_zombie_schedule :: "nat \<Rightarrow> u64 \<Rightarrow> room \<Rightarrow> room" where
  "reset_zombie_schedule i now r = upd_player i (zombie_schedule now (room_rand r)) (room_rand_read r)"

definition reset_slot_gameplay :: "nat \<Rightarrow> u64 \<Rightarrow> room \<Rightarrow> room" where
  "reset_slot_gameplay slot now r =
     (if slot \<ge> MAX_PLAYERS then r
      else let r1 = (if s_active (r_shots r ! slot)
                     then upd_shot slot (\<lambda>s. s\<lparr>s_active := False, s_clear_burst := 3\<rparr>) r else r);
               r2 = upd_player slot (\<lambda>p. p\<lparr>p_joy := 0x0F, p_score := 0\<rparr>) r1;
               r3 = reset_zombie_schedule slot now r2 in
        r3\<lparr>r_last_input_ms := (r_last_input_ms r3)[slot := 0]\<rparr>)"

section \<open>The end of a round\<close>

definition build_fallback_name :: "nat \<Rightarrow> bool \<Rightarrow> bytes" where
  "build_fallback_name slot zombie =
     map of_char (if zombie then ''ZOMBIE '' else ''WIZARD '') @ [of_nat (0x30 + (slot + 1))]"

definition frozen_name :: "room \<Rightarrow> bool list \<Rightarrow> nat \<Rightarrow> bytes" where
  "frozen_name r zombie_mask i =
     (let c = r_clients r ! i in
      if \<not> bit (r_final_active_mask r) i then replicate NAME_LEN 0x20
      else if \<not> zombie_mask ! i \<and> in_use c \<and> handshake_ok c \<and> name_is_set (c_name c) then c_name c
      else build_fallback_name i (zombie_mask ! i))"

definition match_end_packet :: "room \<Rightarrow> bytes" where
  "match_end_packet r =
     [PKT_MATCH_END, r_round_id r, r_winner_pid r, r_final_active_mask r, r_final_zombie_mask r,
      of_int (cfg_kill_limit (r_config r))] @
     r_final_scores r @ [r_historical_zombie_mask r] @ concat (r_frozen_names r)"

definition freeze_match_result :: "nat \<Rightarrow> room \<Rightarrow> room" where
  "freeze_match_result winner r =
     (let zombie_mask = room_zombies r;
          zombie_bits = mask_bits zombie_mask;
          r1 = r\<lparr>r_historical_zombie_mask := r_historical_zombie_mask r OR zombie_bits,
                 r_winner_pid := of_nat winner, r_final_active_mask := r_occupied_mask r,
                 r_final_zombie_mask := zombie_bits\<rparr>;
          r2 = r1\<lparr>r_frozen_names := map (frozen_name r1 zombie_mask) [0..<MAX_PLAYERS],
                  r_final_scores := map (\<lambda>i. p_score (r_players r1 ! i)) [0..<MAX_PLAYERS]\<rparr> in
      r2\<lparr>r_frozen_match := match_end_packet r2\<rparr>)"

definition clear_inputs :: "client_slot \<Rightarrow> client_slot" where
  "clear_inputs c = c\<lparr>input_head := 0, input_count := 0\<rparr>"

text \<open>\<open>memset\<close> of the shots and of both echo arrays.\<close>

definition clear_transients :: "room \<Rightarrow> room" where
  "clear_transients r = r\<lparr>r_shots := replicate MAX_PLAYERS shot_zero,
     r_brick_echo := replicate BRICK_ECHO_MAX brick_echo_zero,
     r_respawn_echo := replicate MAX_PLAYERS respawn_echo_zero\<rparr>"

definition enter_round_over :: "nat \<Rightarrow> u64 \<Rightarrow> room \<Rightarrow> room" where
  "enter_round_over winner now r =
     (if r_round_state r \<noteq> ROUND_PLAYING then r
      else let r1 = freeze_match_result winner (r\<lparr>r_round_state := ROUND_OVER\<rparr>);
               r2 = clear_transients (r1\<lparr>r_intermission_deadline_ms :=
                      now + of_int (cfg_intermission_ms (r_config r1))\<rparr>);
               r3 = r2\<lparr>r_players := map (\<lambda>p. p\<lparr>p_joy := 0x0F\<rparr>) (r_players r2),
                       r_clients := map clear_inputs (r_clients r2)\<rparr> in
        broadcast_reliable_event (r_frozen_match r3) now r3)"

definition award_score :: "nat \<Rightarrow> u64 \<Rightarrow> room \<Rightarrow> bool \<times> room" where
  "award_score shooter now r =
     (if r_round_state r \<noteq> ROUND_PLAYING \<or> shooter \<ge> MAX_PLAYERS then (False, r)
      else let limit = of_int (cfg_kill_limit (r_config r)) :: u8;
               r1 = (if p_score (r_players r ! shooter) < limit
                     then upd_player shooter (\<lambda>p. p\<lparr>p_score := p_score p + 1\<rparr>) r else r) in
        if p_score (r_players r1 ! shooter) \<ge> limit
        then (True, enter_round_over shooter now (upd_player shooter (\<lambda>p. p\<lparr>p_score := limit\<rparr>) r1))
        else (False, r1))"

section \<open>The start of a round\<close>

definition send_round_state :: "nat \<Rightarrow> u64 \<Rightarrow> room \<Rightarrow> room" where
  "send_round_state slot now r =
     (let c = r_clients r ! slot in
      if \<not> in_use c \<or> \<not> handshake_ok c then r
      else if r_round_state r = ROUND_OVER then snd (reliable_enqueue slot (r_frozen_match r) now r)
      else let start = [PKT_ROUND_START, r_round_id r, of_int (cfg_kill_limit (r_config r))];
               full = build_brick_full (r_seq r) (r_brick_bits r) (r_round_id r);
               (ok, r1) = reliable_enqueue slot start now (next_seq r) in
        if ok then snd (reliable_enqueue slot full now r1) else r1)"

definition occupy :: "nat \<Rightarrow> room \<Rightarrow> room" where
  "occupy i r = r\<lparr>r_occupied_mask := r_occupied_mask r OR slot_bit i\<rparr>"

definition round_client_reset :: "client_slot \<Rightarrow> client_slot" where
  "round_client_reset c = c\<lparr>have_delta_seq := False, have_applied_input_seq := False,
     input_head := 0, input_count := 0\<rparr>"

text \<open>The body of the per-slot loop of \<open>reset_round\<close>.\<close>

definition reset_round_slot :: "u64 \<Rightarrow> bool list \<Rightarrow> nat \<Rightarrow> room \<Rightarrow> room" where
  "reset_round_slot now zombie_mask i r =
     (let r1 = upd_player i (\<lambda>p. p\<lparr>p_joy := 0x0F, p_score := 0, respawn_at_ms := 0\<rparr>) r;
          r2 = reset_zombie_schedule i now r1;
          r3 = upd_client i round_client_reset
                 (r2\<lparr>r_last_input_ms := (r_last_input_ms r2)[i := 0]\<rparr>) in
      if (in_use (r_clients r3 ! i) \<and> handshake_ok (r_clients r3 ! i)) \<or> zombie_mask ! i
      then occupy i (place_actor i r3)
      else r3)"

definition reset_round :: "u64 \<Rightarrow> room \<Rightarrow> room" where
  "reset_round now r =
     (let r1 = clear_transients (r\<lparr>r_round_id := r_round_id r + 1, r_round_state := ROUND_PLAYING,
                 r_intermission_deadline_ms := 0, r_brick_bits := r_brick_reset_bits r\<rparr>);
          zombie_mask = room_zombies r1;
          r2 = r1\<lparr>r_historical_zombie_mask := mask_bits zombie_mask, r_occupied_mask := 0\<rparr>;
          r3 = for_slots (reset_round_slot now zombie_mask) r2;
          r4 = for_slots (\<lambda>i. send_round_state i now) r3 in
      r4\<lparr>r_last_brick_resync_ms := now, r_next_tick := now\<rparr>)"

section \<open>Dormancy and joining\<close>

definition enter_dormant :: "u64 \<Rightarrow> room \<Rightarrow> room" where
  "enter_dormant now r = (reset_round now r)\<lparr>r_round_state := ROUND_DORMANT, r_occupied_mask := 0,
     r_intermission_deadline_ms := 0, r_no_human_deadline_ms := 0\<rparr>"

definition wake_slot :: "u64 \<Rightarrow> bool list \<Rightarrow> nat \<Rightarrow> room \<Rightarrow> room" where
  "wake_slot now zombie_mask i r =
     (if \<not> (in_use (r_clients r ! i) \<and> handshake_ok (r_clients r ! i)) \<and> \<not> zombie_mask ! i then r
      else let r1 = reset_slot_gameplay i now (place_actor i r);
               r2 = occupy i (upd_player i (\<lambda>p. p\<lparr>respawn_at_ms := 0\<rparr>) r1) in
        if zombie_mask ! i
        then r2\<lparr>r_historical_zombie_mask := r_historical_zombie_mask r2 OR slot_bit i\<rparr> else r2)"

definition wake_dormant_room :: "u64 \<Rightarrow> room \<Rightarrow> room" where
  "wake_dormant_room now r =
     (let r1 = r\<lparr>r_round_state := ROUND_PLAYING, r_occupied_mask := 0, r_historical_zombie_mask := 0\<rparr>;
          zombie_mask = room_zombies r1;
          r2 = for_slots (wake_slot now zombie_mask) r1 in
      r2\<lparr>r_next_tick := now + r_tick_ms r2, r_last_name_rotate_ms := now - NAME_ROTATE_MS div 2,
         r_last_brick_resync_ms := now, r_last_seat_ms := now, r_last_seat_mask := 0xFF\<rparr>)"

definition begin_no_human_grace :: "u64 \<Rightarrow> room \<Rightarrow> room" where
  "begin_no_human_grace now r =
     (if r_no_human_deadline_ms r \<noteq> 0 \<or> r_round_state r = ROUND_DORMANT then r
      else let r1 = r\<lparr>r_no_human_deadline_ms := now + of_int (cfg_no_human_grace_ms (r_config r)),
                      r_shots := replicate MAX_PLAYERS shot_zero\<rparr> in
        if r_round_state r1 = ROUND_OVER then reset_round now r1 else r1)"

definition activate_joining_client :: "nat \<Rightarrow> bool \<Rightarrow> u64 \<Rightarrow> room \<Rightarrow> room" where
  "activate_joining_client slot keep_position now r =
     (if slot \<ge> MAX_PLAYERS \<or> r_round_state r \<noteq> ROUND_PLAYING then r
      else let r1 = (if keep_position then r else place_actor slot r);
               r2 = occupy slot (upd_player slot (\<lambda>p. p\<lparr>respawn_at_ms := 0\<rparr>) r1);
               p = r_players r2 ! slot in
        announce_respawn slot (p_x p) (p_y p) 0x03 (Some now) r2)"

section \<open>The operations keep the room well formed\<close>

lemma player_ok_schedule [simp]: "player_ok (zombie_schedule now draw p) = player_ok p"
  by (simp add: player_ok_def zombie_schedule_def)

lemma base_ok_schedule [simp]: "base_ok r \<Longrightarrow> base_ok (reset_zombie_schedule i now r)"
  unfolding reset_zombie_schedule_def by (rule base_ok_upd_player) simp_all

lemma shot_ok_retired: "shot_ok (s\<lparr>s_active := False, s_clear_burst := 3\<rparr>)"
  by (simp add: shot_ok_def)

lemma last_input_frames [simp]:
  "r_last_input_ms (reset_zombie_schedule i now r) = r_last_input_ms r"
  "r_last_input_ms (upd_player i f r) = r_last_input_ms r"
  "r_last_input_ms (upd_shot i g r) = r_last_input_ms r"
  "r_last_input_ms (upd_client i h r) = r_last_input_ms r"
  by (simp_all add: reset_zombie_schedule_def upd_player_def upd_shot_def upd_client_def)

lemma base_ok_reset_slot [simp]:
  assumes "base_ok r"
  shows "base_ok (reset_slot_gameplay i now r)"
proof -
  have "base_ok (if s_active (r_shots r ! i)
      then upd_shot i (\<lambda>s. s\<lparr>s_active := False, s_clear_burst := 3\<rparr>) r else r)" (is "base_ok ?r1")
    using assms base_ok_upd_shot [OF assms] shot_ok_retired by auto
  then have "base_ok (upd_player i (\<lambda>p. p\<lparr>p_joy := 0x0F, p_score := 0\<rparr>) ?r1)" (is "base_ok ?r2")
    by (rule base_ok_upd_player) (simp add: player_ok_def neutral_joy)
  then have "base_ok (reset_zombie_schedule i now ?r2)" by simp
  moreover have "length (r_last_input_ms ?r2) = 4" using assms by (auto simp: base_ok_lengths)
  ultimately show ?thesis using assms by (simp add: reset_slot_gameplay_def Let_def)
qed

lemma base_ok_freeze [simp]: "base_ok r \<Longrightarrow> base_ok (freeze_match_result w r)"
  by (simp add: freeze_match_result_def Let_def)

lemma base_ok_clear_transients [simp]:
  "base_ok r \<Longrightarrow> base_ok (clear_transients r)"
  by (simp add: clear_transients_def base_ok_def net_ok_def board_ok_def seats_ok_def list_all_iff
      shot_zero_ok brick_echo_zero_def respawn_echo_zero_def)

lemma input_ok_empty: "input_ok c \<Longrightarrow> input_head d = 0 \<Longrightarrow> input_count d = 0 \<Longrightarrow> input_q d = input_q c \<Longrightarrow> input_ok d"
  by (simp add: input_ok_def input_shape_def pending_inputs_def)

lemma seat_ok_clear_inputs: "seat_ok c \<Longrightarrow> seat_ok (clear_inputs c)"
  using input_ok_empty [of c "clear_inputs c"] by (auto simp: seat_ok_def clear_inputs_def)

lemma link_ok_clear_inputs [simp]: "link_ok (clear_inputs c) = link_ok c"
  by (rule core_link_cong) (simp_all add: clear_inputs_def)

lemma seat_ok_round_client: "seat_ok c \<Longrightarrow> seat_ok (round_client_reset c)"
  using input_ok_empty [of c "round_client_reset c"] by (auto simp: seat_ok_def round_client_reset_def)

lemma link_ok_round_client [simp]: "link_ok (round_client_reset c) = link_ok c"
  by (rule core_link_cong) (simp_all add: round_client_reset_def)

lemma base_ok_neutral_all:
  assumes "base_ok r"
  shows "base_ok (r\<lparr>r_players := map (\<lambda>p. p\<lparr>p_joy := 0x0F\<rparr>) (r_players r),
    r_clients := map clear_inputs (r_clients r)\<rparr>)"
  using assms
  by (simp add: base_ok_def net_ok_def board_ok_def seats_ok_def links_ok_def list_all_iff player_ok_def
      neutral_joy seat_ok_clear_inputs)

lemma base_ok_enter_round_over [simp]:
  assumes "base_ok r"
  shows "base_ok (enter_round_over w now r)"
proof -
  have "base_ok (clear_transients ((freeze_match_result w (r\<lparr>r_round_state := ROUND_OVER\<rparr>))
      \<lparr>r_intermission_deadline_ms := t\<rparr>))" for t
    using assms by simp
  from base_ok_neutral_all [OF this] show ?thesis
    using assms by (simp add: enter_round_over_def Let_def)
qed

lemma base_ok_award_score [simp]:
  assumes "base_ok r"
  shows "base_ok (snd (award_score sh now r))"
proof -
  have up: "base_ok q \<Longrightarrow> base_ok (upd_player sh (\<lambda>p. p\<lparr>p_score := f p\<rparr>) q)" for f q
    by (rule base_ok_upd_player) (simp_all add: player_ok_def)
  show ?thesis using assms up by (simp add: award_score_def Let_def)
qed

lemma base_ok_send_round_state [simp]:
  "base_ok r \<Longrightarrow> i < 4 \<Longrightarrow> base_ok (send_round_state i now r)"
  by (simp add: send_round_state_def Let_def split_beta)

lemma base_ok_occupy [simp]: "base_ok (occupy i r) = base_ok r"
  by (simp add: occupy_def)

lemma base_ok_reset_round_slot [simp]:
  assumes "base_ok r"
  shows "base_ok (reset_round_slot now zm i r)"
proof -
  have "base_ok (upd_player i (\<lambda>p. p\<lparr>p_joy := 0x0F, p_score := 0, respawn_at_ms := 0\<rparr>) r)" (is "base_ok ?r1")
    using assms by (rule base_ok_upd_player) (simp add: player_ok_def neutral_joy)
  then have "base_ok (reset_zombie_schedule i now ?r1)" (is "base_ok ?r2") by simp
  then have "base_ok (?r2\<lparr>r_last_input_ms := (r_last_input_ms ?r2)[i := 0]\<rparr>)" (is "base_ok ?r3")
    using assms by (simp add: base_ok_lengths)
  then have "base_ok (upd_client i round_client_reset ?r3)"
    by (rule base_ok_upd_client) (simp add: seat_ok_round_client)
  then show ?thesis by (simp add: reset_round_slot_def Let_def)
qed

lemma base_ok_send_states:
  "base_ok r \<Longrightarrow> base_ok (for_slots (\<lambda>i. send_round_state i now) r)"
  by (rule for_slots_invariant) simp_all

lemma base_ok_reset_round [simp]:
  assumes "base_ok r"
  shows "base_ok (reset_round now r)"
proof -
  have "base_ok (clear_transients (r\<lparr>r_round_id := r_round_id r + 1, r_round_state := ROUND_PLAYING,
      r_intermission_deadline_ms := 0, r_brick_bits := r_brick_reset_bits r\<rparr>))"
    using base_ok_reset_bricks [of "r\<lparr>r_round_id := r_round_id r + 1, r_round_state := ROUND_PLAYING,
      r_intermission_deadline_ms := 0\<rparr>"] assms by simp
  then have "base_ok (for_slots (reset_round_slot now zm)
      ((clear_transients (r\<lparr>r_round_id := r_round_id r + 1, r_round_state := ROUND_PLAYING,
      r_intermission_deadline_ms := 0, r_brick_bits := r_brick_reset_bits r\<rparr>))
      \<lparr>r_historical_zombie_mask := hm, r_occupied_mask := 0\<rparr>))" for zm hm
    by (intro for_slots_invariant [of base_ok]) simp_all
  then show ?thesis by (simp add: reset_round_def Let_def base_ok_send_states)
qed

lemma base_ok_enter_dormant [simp]: "base_ok r \<Longrightarrow> base_ok (enter_dormant now r)"
  by (simp add: enter_dormant_def)

lemma base_ok_respawn_at: "base_ok r \<Longrightarrow> base_ok (upd_player i (\<lambda>p. p\<lparr>respawn_at_ms := t\<rparr>) r)"
  by (rule base_ok_upd_player) (simp_all add: player_ok_def)

lemma base_ok_wake_slot [simp]: "base_ok r \<Longrightarrow> base_ok (wake_slot now zm i r)"
  by (simp add: wake_slot_def Let_def base_ok_respawn_at)

lemma base_ok_wake [simp]:
  assumes "base_ok r"
  shows "base_ok (wake_dormant_room now r)"
proof -
  have "base_ok (for_slots (wake_slot now zm)
      (r\<lparr>r_round_state := ROUND_PLAYING, r_occupied_mask := 0, r_historical_zombie_mask := 0\<rparr>))" for zm
    by (rule for_slots_invariant [of base_ok]) (simp_all add: assms)
  then show ?thesis by (simp add: wake_dormant_room_def Let_def)
qed

lemma base_ok_grace [simp]: "base_ok r \<Longrightarrow> base_ok (begin_no_human_grace now r)"
  by (simp add: begin_no_human_grace_def Let_def)

lemma base_ok_activate [simp]: "base_ok r \<Longrightarrow> base_ok (activate_joining_client slot keep now r)"
  by (simp add: activate_joining_client_def Let_def base_ok_respawn_at)

section \<open>What the operations leave alone\<close>

text \<open>
  The part of a room that no gameplay operation changes, who is seated, on which descriptor, and
  what has been closed.
\<close>

definition rkey :: "room \<Rightarrow> room_config \<times> bytes \<times> u64 \<times> int \<times> departing_connection list \<times> bool list \<times> bool list \<times>
    int list \<times> int list" where
  "rkey r = (r_config r, r_brick_reset_bits r, r_tick_ms r, r_listener_fd r, r_departing r,
     map in_use (r_clients r), map handshake_ok (r_clients r), map c_fd (r_clients r),
     e_closed (r_env r))"

lemma rkey_rcore: "rcore r = rcore q \<Longrightarrow> rkey r = rkey q"
proof -
  assume eq: "rcore r = rcore q"
  have "map in_use cs = map in_use (map core cs)" "map handshake_ok cs = map handshake_ok (map core cs)"
    "map c_fd cs = map c_fd (map core cs)" for cs
    by (simp_all add: core_def comp_def)
  then have "map in_use (r_clients r) = map in_use (r_clients q)"
    "map handshake_ok (r_clients r) = map handshake_ok (r_clients q)"
    "map c_fd (r_clients r) = map c_fd (r_clients q)"
    using rcoreD(23) [OF eq] by metis+
  then show "rkey r = rkey q" by (simp add: rkey_def rcoreD [OF eq])
qed

lemmas rkey_transmissions [simp] =
  rkey_rcore [OF rcore_broadcast] rkey_rcore [OF rcore_next_seq] rkey_rcore [OF rcore_now_read]
  rkey_rcore [OF rcore_rand_read] rkey_rcore [OF rcore_reliable_tick]
  rkey_rcore [OF rcore_reliable_enqueue] rkey_rcore [OF rcore_broadcast_reliable]
  rkey_rcore [OF rcore_queue_respawn_echo] rkey_rcore [OF rcore_queue_brick_echo]
  rkey_rcore [OF rcore_flush_respawn_echo] rkey_rcore [OF rcore_flush_brick_echo]
  rkey_rcore [OF rcore_announce_respawn] rkey_rcore [OF rcore_announce_brick]
  rkey_rcore [OF rcore_announce_shot] rkey_rcore [OF rcore_next_name] rkey_rcore [OF rcore_pick_spawn]

lemma rkey_updates [simp]:
  "rkey (upd_player i f r) = rkey r" "rkey (upd_shot i g r) = rkey r" "rkey (occupy i r) = rkey r"
  "rkey (reset_zombie_schedule i now r) = rkey r" "rkey (place_actor i r) = rkey r"
  by (simp_all add: rkey_def upd_player_def upd_shot_def occupy_def reset_zombie_schedule_def
      place_actor_def Let_def split_beta)

lemma rkey_fields [simp]:
  "rkey (r\<lparr>r_brick_bits := bb\<rparr>) = rkey r" "rkey (r\<lparr>r_last_input_ms := li\<rparr>) = rkey r"
  "rkey (r\<lparr>r_occupied_mask := m\<rparr>) = rkey r"
  by (simp_all add: rkey_def)

lemma rkey_upd_client:
  assumes "\<And>c. in_use (f c) = in_use c" "\<And>c. handshake_ok (f c) = handshake_ok c" "\<And>c. c_fd (f c) = c_fd c"
  shows "rkey (upd_client i f r) = rkey r"
  using map_modify [of in_use f, OF assms(1)] map_modify [of handshake_ok f, OF assms(2)]
    map_modify [of c_fd f, OF assms(3)]
  by (simp add: rkey_def upd_client_def)

lemma rkey_reset_slot [simp]: "rkey (reset_slot_gameplay i now r) = rkey r"
  by (simp add: reset_slot_gameplay_def Let_def)

lemma rkey_freeze [simp]: "rkey (freeze_match_result w r) = rkey r"
  by (simp add: freeze_match_result_def Let_def rkey_def)

lemma rkey_clear [simp]: "rkey (clear_transients r) = rkey r"
  by (simp add: clear_transients_def rkey_def)

lemma rkey_enter_round_over [simp]: "rkey (enter_round_over w now r) = rkey r"
proof -
  have key: "rkey (q\<lparr>r_players := ps, r_clients := map clear_inputs (r_clients q)\<rparr>) = rkey q" for q ps
    by (simp add: rkey_def clear_inputs_def comp_def)
  have "rkey (q\<lparr>r_intermission_deadline_ms := t\<rparr>) = rkey q" "rkey (q\<lparr>r_round_state := st\<rparr>) = rkey q" for q t st
    by (simp_all add: rkey_def)
  then show ?thesis by (simp add: enter_round_over_def Let_def key)
qed

lemma rkey_award [simp]: "rkey (snd (award_score sh now r)) = rkey r"
  by (simp add: award_score_def Let_def)

lemma rkey_send_round_state [simp]: "rkey (send_round_state i now r) = rkey r"
  by (simp add: send_round_state_def Let_def split_beta)

lemma rkey_reset_round_slot [simp]: "rkey (reset_round_slot now zm i r) = rkey r"
  by (simp add: reset_round_slot_def Let_def rkey_upd_client round_client_reset_def)

lemma rkey_reset_round [simp]: "rkey (reset_round now r) = rkey r"
proof -
  have "rkey (q\<lparr>r_last_brick_resync_ms := t, r_next_tick := t'\<rparr>) = rkey q"
    "rkey (q\<lparr>r_historical_zombie_mask := h, r_occupied_mask := m\<rparr>) = rkey q"
    "rkey (q\<lparr>r_round_id := i, r_round_state := st, r_intermission_deadline_ms := t, r_brick_bits := b\<rparr>) = rkey q"
    for q t t' h m i st b by (simp_all add: rkey_def)
  then show ?thesis
    by (simp add: reset_round_def Let_def for_slots_preserves [where g = rkey])
qed

lemma rkey_enter_dormant [simp]: "rkey (enter_dormant now r) = rkey r"
proof -
  have "rkey (q\<lparr>r_round_state := st, r_occupied_mask := m, r_intermission_deadline_ms := t,
      r_no_human_deadline_ms := t'\<rparr>) = rkey q" for q st m t t' by (simp add: rkey_def)
  then show ?thesis by (simp add: enter_dormant_def)
qed

lemma rkey_wake_slot [simp]: "rkey (wake_slot now zm i r) = rkey r"
proof -
  have "rkey (q\<lparr>r_historical_zombie_mask := h\<rparr>) = rkey q" for q h by (simp add: rkey_def)
  then show ?thesis by (simp add: wake_slot_def Let_def)
qed

lemma rkey_wake [simp]: "rkey (wake_dormant_room now r) = rkey r"
proof -
  have "rkey (q\<lparr>r_round_state := st, r_occupied_mask := m, r_historical_zombie_mask := h\<rparr>) = rkey q"
    "rkey (q\<lparr>r_next_tick := t1, r_last_name_rotate_ms := t2, r_last_brick_resync_ms := t3,
       r_last_seat_ms := t4, r_last_seat_mask := m\<rparr>) = rkey q" for q st m h t1 t2 t3 t4
    by (simp_all add: rkey_def)
  then show ?thesis by (simp add: wake_dormant_room_def Let_def for_slots_preserves [where g = rkey])
qed

lemma rkey_grace [simp]: "rkey (begin_no_human_grace now r) = rkey r"
proof -
  have "rkey (q\<lparr>r_no_human_deadline_ms := t, r_shots := ss\<rparr>) = rkey q" for q t ss by (simp add: rkey_def)
  then show ?thesis by (simp add: begin_no_human_grace_def Let_def)
qed

lemma rkey_activate [simp]: "rkey (activate_joining_client slot keep now r) = rkey r"
  by (simp add: activate_joining_client_def Let_def)

lemma rkeyD:
  assumes "rkey r = rkey q"
  shows "r_config r = r_config q" "r_brick_reset_bits r = r_brick_reset_bits q"
    "length (r_clients r) = length (r_clients q)"
    "i < length (r_clients q) \<Longrightarrow> seated (r_clients r ! i) = seated (r_clients q ! i)"
proof -
  have use: "map in_use (r_clients r) = map in_use (r_clients q)"
    and hs: "map handshake_ok (r_clients r) = map handshake_ok (r_clients q)"
    using assms by (simp_all add: rkey_def)
  show "r_config r = r_config q" "r_brick_reset_bits r = r_brick_reset_bits q"
    using assms by (simp_all add: rkey_def)
  show len: "length (r_clients r) = length (r_clients q)" using use by (metis length_map)
  show "i < length (r_clients q) \<Longrightarrow> seated (r_clients r ! i) = seated (r_clients q ! i)"
    using use hs len unfolding seated_def by (metis nth_map)
qed

lemma rkey_zombies:
  assumes "rkey r = rkey q" "length (r_clients q) = 4"
  shows "room_zombies r = room_zombies q"
  using rkeyD(4) [OF assms(1), of 1] rkeyD(4) [OF assms(1), of 2] rkeyD(4) [OF assms(1), of 3]
    rkeyD(1) [OF assms(1)] assms(2)
  by (simp add: room_zombies_def zombie_mask_cases)

lemma rkey_humans:
  assumes "rkey r = rkey q" "length (r_clients q) = 4"
  shows "room_human_count r = room_human_count q"
  using rkeyD(4) [OF assms(1)] assms(2) by (simp add: room_human_count_def upt_conv_Cons)

section \<open>Rounds and results\<close>

text \<open>The round bookkeeping that only the round transitions change.\<close>

definition rround :: "room \<Rightarrow> u8 \<times> round_phase \<times> u64 \<times> u64 \<times> u8 \<times> u8 \<times> u8 \<times> bytes \<times> bytes list \<times> bytes" where
  "rround r = (r_round_id r, r_round_state r, r_intermission_deadline_ms r, r_no_human_deadline_ms r,
     r_winner_pid r, r_final_active_mask r, r_final_zombie_mask r, r_final_scores r,
     r_frozen_names r, r_frozen_match r)"

lemma rround_rcore: "rcore r = rcore q \<Longrightarrow> rround r = rround q"
  by (simp add: rround_def rcoreD [of r q])

lemmas rround_transmissions [simp] =
  rround_rcore [OF rcore_broadcast] rround_rcore [OF rcore_next_seq] rround_rcore [OF rcore_now_read]
  rround_rcore [OF rcore_rand_read] rround_rcore [OF rcore_reliable_tick]
  rround_rcore [OF rcore_reliable_enqueue] rround_rcore [OF rcore_broadcast_reliable]
  rround_rcore [OF rcore_queue_respawn_echo] rround_rcore [OF rcore_queue_brick_echo]
  rround_rcore [OF rcore_flush_respawn_echo] rround_rcore [OF rcore_flush_brick_echo]
  rround_rcore [OF rcore_announce_respawn] rround_rcore [OF rcore_announce_brick]
  rround_rcore [OF rcore_announce_shot] rround_rcore [OF rcore_next_name] rround_rcore [OF rcore_pick_spawn]

lemma rround_updates [simp]:
  "rround (upd_player i f r) = rround r" "rround (upd_shot i g r) = rround r"
  "rround (upd_client i h r) = rround r" "rround (occupy i r) = rround r"
  "rround (reset_zombie_schedule i now r) = rround r" "rround (place_actor i r) = rround r"
  "rround (r\<lparr>r_brick_bits := bb\<rparr>) = rround r" "rround (r\<lparr>r_last_input_ms := li\<rparr>) = rround r"
  "rround (r\<lparr>r_occupied_mask := m\<rparr>) = rround r" "rround (r\<lparr>r_historical_zombie_mask := m\<rparr>) = rround r"
  by (simp_all add: rround_def upd_player_def upd_shot_def upd_client_def occupy_def
      reset_zombie_schedule_def place_actor_def Let_def split_beta)

lemma rround_slot_ops [simp]:
  "rround (reset_slot_gameplay i now r) = rround r" "rround (send_round_state i now r) = rround r"
  "rround (reset_round_slot now zm i r) = rround r" "rround (wake_slot now zm i r) = rround r"
  "rround (activate_joining_client i keep now r) = rround r"
  by (simp_all add: reset_slot_gameplay_def send_round_state_def reset_round_slot_def wake_slot_def
      activate_joining_client_def Let_def split_beta)

lemma rroundD:
  assumes "rround r = rround q"
  shows "r_round_id r = r_round_id q" "r_round_state r = r_round_state q"
    "r_no_human_deadline_ms r = r_no_human_deadline_ms q"
    "r_intermission_deadline_ms r = r_intermission_deadline_ms q"
    "r_frozen_match r = r_frozen_match q" "r_final_scores r = r_final_scores q"
    "r_winner_pid r = r_winner_pid q" "r_final_active_mask r = r_final_active_mask q"
    "r_final_zombie_mask r = r_final_zombie_mask q" "r_frozen_names r = r_frozen_names q"
  using assms by (simp_all add: rround_def)

lemma rround_clear [simp]: "rround (clear_transients r) = rround r"
  by (simp add: clear_transients_def rround_def)

lemma rround_reset_loop:
  "rround (for_slots (\<lambda>i. send_round_state i now) (for_slots (reset_round_slot now zm) r)) = rround r"
  by (simp add: for_slots_preserves [where g = rround])

lemma reset_round_phase [simp]:
  "r_round_state (reset_round now r) = ROUND_PLAYING" "r_round_id (reset_round now r) = r_round_id r + 1"
  "r_intermission_deadline_ms (reset_round now r) = 0"
  "r_no_human_deadline_ms (reset_round now r) = r_no_human_deadline_ms r"
proof -
  let ?q = "(clear_transients (r\<lparr>r_round_id := r_round_id r + 1, r_round_state := ROUND_PLAYING,
      r_intermission_deadline_ms := 0, r_brick_bits := r_brick_reset_bits r\<rparr>))"
  have f: "r_round_state ?q = ROUND_PLAYING" "r_round_id ?q = r_round_id r + 1"
    "r_intermission_deadline_ms ?q = 0" "r_no_human_deadline_ms ?q = r_no_human_deadline_ms r"
    by (simp_all add: clear_transients_def)
  let ?z = "room_zombies ?q"
  let ?s = "?q\<lparr>r_historical_zombie_mask := mask_bits ?z, r_occupied_mask := 0\<rparr>"
  have "rround (for_slots (\<lambda>i. send_round_state i now) (for_slots (reset_round_slot now ?z) ?s)) = rround ?q"
    by (simp only: rround_reset_loop) (simp add: rround_def)
  from rroundD [OF this] f show "r_round_state (reset_round now r) = ROUND_PLAYING"
    "r_round_id (reset_round now r) = r_round_id r + 1"
    "r_intermission_deadline_ms (reset_round now r) = 0"
    "r_no_human_deadline_ms (reset_round now r) = r_no_human_deadline_ms r"
    by (simp_all add: reset_round_def Let_def)
qed

lemma enter_dormant_phase [simp]:
  "r_round_state (enter_dormant now r) = ROUND_DORMANT" "r_round_id (enter_dormant now r) = r_round_id r + 1"
  "r_no_human_deadline_ms (enter_dormant now r) = 0" "r_occupied_mask (enter_dormant now r) = 0"
  by (simp_all add: enter_dormant_def)

lemma wake_phase [simp]:
  "r_round_state (wake_dormant_room now r) = ROUND_PLAYING"
  "r_no_human_deadline_ms (wake_dormant_room now r) = r_no_human_deadline_ms r"
  "r_round_id (wake_dormant_room now r) = r_round_id r"
proof -
  let ?q = "r\<lparr>r_round_state := ROUND_PLAYING, r_occupied_mask := 0, r_historical_zombie_mask := 0\<rparr>"
  have "rround (for_slots (wake_slot now zm) ?q) = rround ?q" for zm
    by (simp add: for_slots_preserves [where g = rround])
  from rroundD [OF this] show "r_round_state (wake_dormant_room now r) = ROUND_PLAYING"
    "r_no_human_deadline_ms (wake_dormant_room now r) = r_no_human_deadline_ms r"
    "r_round_id (wake_dormant_room now r) = r_round_id r"
    by (simp_all add: wake_dormant_room_def Let_def)
qed

lemma enter_round_over_not_playing: "r_round_state r \<noteq> ROUND_PLAYING \<Longrightarrow> enter_round_over w now r = r"
  by (simp add: enter_round_over_def)

text \<open>The frozen result: everything a MATCH_END says, computed from the room at that moment.\<close>

lemma enter_round_over_result:
  assumes "r_round_state r = ROUND_PLAYING" "rq = enter_round_over w now r"
  shows "r_round_state rq = ROUND_OVER" "r_winner_pid rq = of_nat w"
    "r_final_scores rq = map (\<lambda>i. p_score (r_players r ! i)) [0..<4]"
    "r_final_active_mask rq = r_occupied_mask r" "r_final_zombie_mask rq = mask_bits (room_zombies r)"
    "r_historical_zombie_mask rq = r_historical_zombie_mask r OR mask_bits (room_zombies r)"
    "r_frozen_match rq = match_end_packet rq"
    "r_no_human_deadline_ms rq = r_no_human_deadline_ms r" "r_round_id rq = r_round_id r"
    "r_intermission_deadline_ms rq = now + of_int (cfg_intermission_ms (r_config r))"
    "r_players rq = map (\<lambda>p. p\<lparr>p_joy := 0x0F\<rparr>) (r_players r)" "r_config rq = r_config r"
    "r_shots rq = replicate 4 shot_zero"
proof -
  define q where "q = freeze_match_result w (r\<lparr>r_round_state := ROUND_OVER\<rparr>)"
  define q2 where "q2 = clear_transients (q\<lparr>r_intermission_deadline_ms := now + of_int (cfg_intermission_ms (r_config q))\<rparr>)"
  define q3 where "q3 = q2\<lparr>r_players := map (\<lambda>p. p\<lparr>p_joy := 0x0F\<rparr>) (r_players q2),
      r_clients := map clear_inputs (r_clients q2)\<rparr>"
  have zom: "room_zombies (r\<lparr>r_round_state := ROUND_OVER\<rparr>) = room_zombies r" by (simp add: room_zombies_def)
  have rq: "rq = broadcast_reliable_event (r_frozen_match q3) now q3"
    using assms by (simp add: enter_round_over_def Let_def q_def q2_def q3_def)
  note q = q_def freeze_match_result_def Let_def q2_def q3_def clear_transients_def
  show "r_round_state rq = ROUND_OVER" "r_winner_pid rq = of_nat w"
    "r_final_scores rq = map (\<lambda>i. p_score (r_players r ! i)) [0..<4]"
    "r_final_active_mask rq = r_occupied_mask r" "r_final_zombie_mask rq = mask_bits (room_zombies r)"
    "r_historical_zombie_mask rq = r_historical_zombie_mask r OR mask_bits (room_zombies r)"
    "r_no_human_deadline_ms rq = r_no_human_deadline_ms r" "r_round_id rq = r_round_id r"
    "r_intermission_deadline_ms rq = now + of_int (cfg_intermission_ms (r_config r))"
    "r_players rq = map (\<lambda>p. p\<lparr>p_joy := 0x0F\<rparr>) (r_players r)" "r_config rq = r_config r"
    "r_shots rq = replicate 4 shot_zero"
    by (simp_all add: rq q zom)
  show "r_frozen_match rq = match_end_packet rq"
    by (simp add: rq) (simp add: q match_end_packet_def)
qed

section \<open>Scores\<close>

definition kill_limit :: "room \<Rightarrow> u8" where
  "kill_limit r = of_int (cfg_kill_limit (r_config r))"

definition score_fine :: "u8 \<Rightarrow> round_phase \<Rightarrow> player_state \<Rightarrow> bool" where
  "score_fine limit st p \<longleftrightarrow> p_score p \<le> limit \<and> (st \<noteq> ROUND_OVER \<longrightarrow> p_score p < limit)"

definition result_ok :: "room \<Rightarrow> bool" where
  "result_ok r \<longleftrightarrow> (r_round_state r = ROUND_OVER \<longrightarrow>
     (\<exists>w < MAX_PLAYERS. r_winner_pid r = of_nat w \<and> r_final_scores r ! w = kill_limit r) \<and>
     r_frozen_match r = match_end_packet r \<and> length (r_frozen_match r) = 43 \<and>
     length (r_final_scores r) = MAX_PLAYERS)"

text \<open>
  While a round is open every score is below the limit; once it is over the frozen result is
  consistent with the room and names a winner who has the limit.
\<close>

definition round_ok :: "room \<Rightarrow> bool" where
  "round_ok r \<longleftrightarrow> list_all (score_fine (kill_limit r) (r_round_state r)) (r_players r) \<and> result_ok r"

lemma kill_limit_unat:
  assumes "base_ok r"
  shows "unat (kill_limit r) = nat (cfg_kill_limit (r_config r))" "0 < kill_limit r"
proof -
  have c: "1 \<le> cfg_kill_limit (r_config r)" "cfg_kill_limit (r_config r) \<le> 10"
    using assms by (simp_all add: base_ok_def board_ok_def config_ok_def)
  then have u: "uint (kill_limit r) = cfg_kill_limit (r_config r)"
    unfolding kill_limit_def by (intro uint_of_int_cell) auto
  then show "unat (kill_limit r) = nat (cfg_kill_limit (r_config r))" by (metis nat_uint_eq)
  show "0 < kill_limit r" using u c by (simp add: word_less_def)
qed

lemma round_ok_rcore:
  assumes "rcore r = rcore q"
  shows "round_ok r = round_ok q"
  by (simp add: round_ok_def result_ok_def kill_limit_def match_end_packet_def rcoreD [OF assms])

lemmas round_ok_transmissions [simp] =
  round_ok_rcore [OF rcore_broadcast] round_ok_rcore [OF rcore_next_seq] round_ok_rcore [OF rcore_now_read]
  round_ok_rcore [OF rcore_rand_read] round_ok_rcore [OF rcore_reliable_tick]
  round_ok_rcore [OF rcore_reliable_enqueue] round_ok_rcore [OF rcore_broadcast_reliable]
  round_ok_rcore [OF rcore_flush_respawn_echo] round_ok_rcore [OF rcore_flush_brick_echo]
  round_ok_rcore [OF rcore_announce_respawn] round_ok_rcore [OF rcore_announce_brick]
  round_ok_rcore [OF rcore_announce_shot] round_ok_rcore [OF rcore_next_name] round_ok_rcore [OF rcore_pick_spawn]

lemma round_ok_fields [simp]:
  "round_ok (r\<lparr>r_shots := ss\<rparr>) = round_ok r" "round_ok (r\<lparr>r_brick_bits := bb\<rparr>) = round_ok r"
  "round_ok (r\<lparr>r_last_input_ms := li\<rparr>) = round_ok r" "round_ok (r\<lparr>r_occupied_mask := m\<rparr>) = round_ok r"
  "round_ok (r\<lparr>r_clients := cs\<rparr>) = round_ok r" "round_ok (r\<lparr>r_next_tick := t\<rparr>) = round_ok r"
  "round_ok (r\<lparr>r_last_brick_resync_ms := t\<rparr>) = round_ok r" "round_ok (r\<lparr>r_last_name_rotate_ms := t\<rparr>) = round_ok r"
  "round_ok (r\<lparr>r_last_seat_ms := t\<rparr>) = round_ok r" "round_ok (r\<lparr>r_last_seat_mask := m\<rparr>) = round_ok r"
  "round_ok (r\<lparr>r_no_human_deadline_ms := t\<rparr>) = round_ok r" "round_ok (r\<lparr>r_intermission_deadline_ms := t\<rparr>) = round_ok r"
  "round_ok (r\<lparr>r_env := ev\<rparr>) = round_ok r" "round_ok (r\<lparr>r_departing := dp\<rparr>) = round_ok r"
  "round_ok (r\<lparr>r_global_transport := gt\<rparr>) = round_ok r" "round_ok (r\<lparr>r_seq := sq\<rparr>) = round_ok r"
  "round_ok (r\<lparr>r_last_transport_summary_ms := t\<rparr>) = round_ok r"
  "round_ok (upd_client i f r) = round_ok r" "round_ok (upd_shot i g r) = round_ok r" "round_ok (occupy i r) = round_ok r"
  by (simp_all add: round_ok_def result_ok_def kill_limit_def match_end_packet_def upd_client_def
      upd_shot_def occupy_def)

lemma result_ok_upd_player [simp]: "result_ok (upd_player i f r) = result_ok r"
  by (simp add: result_ok_def kill_limit_def match_end_packet_def upd_player_def)

lemma round_ok_upd_player:
  assumes "round_ok r" "base_ok r" "\<And>p. p_score (f p) = p_score p \<or> p_score (f p) = 0"
  shows "round_ok (upd_player i f r)"
proof -
  have pos: "0 < kill_limit r" by (rule kill_limit_unat(2) [OF assms(2)])
  have "score_fine (kill_limit r) (r_round_state r) (f p)" if "score_fine (kill_limit r) (r_round_state r) p" for p
    using that assms(3) [of p] pos by (auto simp: score_fine_def)
  then have "list_all (score_fine (kill_limit r) (r_round_state r)) (modify i f (r_players r))"
    using assms(1) by (intro list_all_modify) (simp_all add: round_ok_def)
  moreover have "kill_limit (upd_player i f r) = kill_limit r" by (simp add: kill_limit_def upd_player_def)
  ultimately show ?thesis using assms(1) by (simp add: round_ok_def) (simp add: upd_player_def)
qed

lemma zombie_schedule_score [simp]: "p_score (zombie_schedule now d p) = p_score p"
  by (simp add: zombie_schedule_def)

lemma round_ok_schedule [simp]:
  "round_ok r \<Longrightarrow> base_ok r \<Longrightarrow> round_ok (reset_zombie_schedule i now r)"
  unfolding reset_zombie_schedule_def by (rule round_ok_upd_player) simp_all

lemma round_ok_place_actor [simp]: "round_ok r \<Longrightarrow> base_ok r \<Longrightarrow> round_ok (place_actor i r)"
  unfolding place_actor_def Let_def split_beta by (rule round_ok_upd_player) simp_all

lemma round_ok_reset_slot [simp]:
  assumes "round_ok r" "base_ok r"
  shows "round_ok (reset_slot_gameplay i now r)"
proof -
  let ?r1 = "if s_active (r_shots r ! i)
      then upd_shot i (\<lambda>s. s\<lparr>s_active := False, s_clear_burst := 3\<rparr>) r else r"
  have b: "base_ok ?r1" using assms base_ok_upd_shot [OF assms(2)] shot_ok_retired by auto
  have "round_ok ?r1" using assms by simp
  then have "round_ok (upd_player i (\<lambda>p. p\<lparr>p_joy := 0x0F, p_score := 0\<rparr>) ?r1)"
    using b by (rule round_ok_upd_player) simp
  moreover have "base_ok (upd_player i (\<lambda>p. p\<lparr>p_joy := 0x0F, p_score := 0\<rparr>) ?r1)"
    using b by (rule base_ok_upd_player) (simp add: player_ok_def neutral_joy)
  ultimately show ?thesis using assms by (simp add: reset_slot_gameplay_def Let_def)
qed

lemma round_ok_send_round_state [simp]: "round_ok (send_round_state i now r) = round_ok r"
  by (simp add: send_round_state_def Let_def split_beta)

text \<open>All scores zero and a round that is not over: the state every round starts from.\<close>

lemma round_ok_fresh:
  assumes "r_round_state r \<noteq> ROUND_OVER" "list_all (\<lambda>p. p_score p = 0) (r_players r)" "base_ok r"
  shows "round_ok r"
  using assms kill_limit_unat(2) [OF assms(3)]
  by (auto simp: round_ok_def result_ok_def score_fine_def list_all_iff)

lemma fallback_name_length: "i < 4 \<Longrightarrow> length (build_fallback_name i z) = 8"
  by (simp add: build_fallback_name_def)

lemma frozen_name_length:
  assumes "seats_ok r" "length (r_clients r) = 4" "i < 4"
  shows "length (frozen_name r zm i) = 8"
  using assms fallback_name_length [OF assms(3)] list_all_nthD [of seat_ok "r_clients r" i]
  by (auto simp: frozen_name_def Let_def seats_ok_def seat_ok_def name_ok_def)

lemma enter_round_over_names:
  assumes "r_round_state r = ROUND_PLAYING" "base_ok r"
  shows "length (r_frozen_match (enter_round_over w now r)) = 43"
proof -
  define q where "q = r\<lparr>r_round_state := ROUND_OVER,
      r_historical_zombie_mask := r_historical_zombie_mask r OR mask_bits (room_zombies r),
      r_winner_pid := of_nat w, r_final_active_mask := r_occupied_mask r,
      r_final_zombie_mask := mask_bits (room_zombies r)\<rparr>"
  have zom: "room_zombies (r\<lparr>r_round_state := ROUND_OVER\<rparr>) = room_zombies r" by (simp add: room_zombies_def)
  have names: "r_frozen_names (enter_round_over w now r) = map (frozen_name q (room_zombies r)) [0..<4]"
    using assms(1) by (simp add: enter_round_over_def Let_def freeze_match_result_def clear_transients_def
        q_def zom)
  have "seats_ok q" "length (r_clients q) = 4"
    using assms(2) base_ok_lengths(1) [OF assms(2)] by (simp_all add: q_def base_ok_def seats_ok_def)
  then have "\<forall>i < 4. length (frozen_name q (room_zombies r) i) = 8" using frozen_name_length by blast
  then have "length (concat (r_frozen_names (enter_round_over w now r))) = 32"
    unfolding names by (simp add: length_concat upt_conv_Cons)
  then show ?thesis
    unfolding enter_round_over_result(7) [OF assms(1) refl, of w now] match_end_packet_def
    using enter_round_over_result(3) [OF assms(1) refl, of w now] by simp
qed

lemma award_score_cases:
  assumes "r_round_state r = ROUND_PLAYING" "base_ok r" "round_ok r" "sh < 4"
  defines "sc \<equiv> p_score (r_players r ! sh) + 1"
  defines "q \<equiv> upd_player sh (\<lambda>p. p\<lparr>p_score := sc\<rparr>) r"
  shows "sc \<le> kill_limit r \<and>
    award_score sh now r = (if sc = kill_limit r then (True, enter_round_over sh now q) else (False, q))"
proof -
  let ?l = "kill_limit r" and ?p = "r_players r ! sh"
  have len: "length (r_players r) = 4" by (rule base_ok_lengths(2) [OF assms(2)])
  have lt: "p_score ?p < ?l"
    using assms(1,3,4) len list_all_nthD [of "score_fine ?l ROUND_PLAYING" "r_players r" sh]
    by (simp add: round_ok_def score_fine_def)
  then have le: "sc \<le> ?l" unfolding sc_def by (rule inc_le)
  have q1: "upd_player sh (\<lambda>p. p\<lparr>p_score := p_score p + 1\<rparr>) r = q"
    by (simp add: q_def upd_player_def modify_def sc_def)
  have at: "p_score (r_players q ! sh) = sc" using assms(4) len by (simp add: q_def upd_player_def nth_modify)
  have again: "upd_player sh (\<lambda>p. p\<lparr>p_score := sc\<rparr>) q = q"
    using assms(4) len by (simp add: q_def upd_player_def modify_def)
  show ?thesis
    using assms(1,4) lt le q1 at again
    by (auto simp: award_score_def Let_def kill_limit_def [symmetric])
qed

lemma round_ok_award [simp]:
  assumes "round_ok r" "base_ok r"
  shows "round_ok (snd (award_score sh now r))"
proof (cases "r_round_state r = ROUND_PLAYING \<and> sh < 4")
  case False
  then show ?thesis using assms(1) by (auto simp: award_score_def)
next
  case True
  define sc where "sc = p_score (r_players r ! sh) + 1"
  define q where "q = upd_player sh (\<lambda>p. p\<lparr>p_score := sc\<rparr>) r"
  have len: "length (r_players r) = 4" by (rule base_ok_lengths(2) [OF assms(2)])
  from award_score_cases [OF _ assms(2,1), of sh now] True
  have le: "sc \<le> kill_limit r" and run: "award_score sh now r =
      (if sc = kill_limit r then (True, enter_round_over sh now q) else (False, q))"
    by (auto simp: sc_def q_def)
  have qf: "r_round_state q = ROUND_PLAYING" "r_config q = r_config r" "kill_limit q = kill_limit r"
    "r_players q = modify sh (\<lambda>p. p\<lparr>p_score := sc\<rparr>) (r_players r)"
    using True by (simp_all add: q_def upd_player_def kill_limit_def)
  have bq: "base_ok q" unfolding q_def by (rule base_ok_upd_player [OF assms(2)]) (simp add: player_ok_def)
  have old: "list_all (score_fine (kill_limit r) ROUND_PLAYING) (r_players r)"
    using assms(1) True by (simp add: round_ok_def)
  show ?thesis
  proof (cases "sc = kill_limit r")
    case False
    then have "score_fine (kill_limit r) ROUND_PLAYING (p\<lparr>p_score := sc\<rparr>)" for p
      using le by (simp add: score_fine_def)
    then have "list_all (score_fine (kill_limit r) ROUND_PLAYING) (r_players q)"
      using old unfolding qf(4) by (intro list_all_modify) auto
    then show ?thesis using run False qf by (simp add: round_ok_def result_ok_def)
  next
    case end_: True
    let ?z = "enter_round_over sh now q"
    note z = enter_round_over_result [OF qf(1) refl, of sh now]
    have lim: "kill_limit ?z = kill_limit r" using z(12) qf(2) by (simp add: kill_limit_def)
    have "list_all (\<lambda>p. p_score p \<le> kill_limit r) (r_players q)"
      using old le unfolding qf(4) by (intro list_all_modify) (auto simp: score_fine_def list_all_iff)
    then have "list_all (score_fine (kill_limit r) ROUND_OVER) (r_players ?z)"
      unfolding z(11) by (simp add: list_all_iff score_fine_def)
    moreover have "r_final_scores ?z ! sh = kill_limit r"
      using True len end_ unfolding z(3) qf(4) by (simp add: nth_modify)
    moreover have "length (r_final_scores ?z) = 4" unfolding z(3) by simp
    ultimately show ?thesis
      using run end_ z(1,2,7) lim enter_round_over_names [OF qf(1) bq, of sh now] True
      by (auto simp: round_ok_def result_ok_def)
  qed
qed

section \<open>The board a round starts with\<close>

text \<open>
  \<open>actors_apart r\<close>: no two actors on the board share a cell. \<open>open_cells\<close> gives four brick-free
  cells, enough for a free one to remain while at most three actors stand.
\<close>

definition actors_apart :: "room \<Rightarrow> bool" where
  "actors_apart r \<longleftrightarrow> (\<forall>i < MAX_PLAYERS. \<forall>j < MAX_PLAYERS. i \<noteq> j \<longrightarrow> slot_on_board r i \<longrightarrow> slot_on_board r j \<longrightarrow>
     (p_x (r_players r ! i), p_y (r_players r ! i)) \<noteq> (p_x (r_players r ! j), p_y (r_players r ! j)))"

definition open_cells :: "bytes \<Rightarrow> (int \<times> int) list \<Rightarrow> bool" where
  "open_cells bricks cells \<longleftrightarrow> distinct cells \<and> length cells = 4 \<and>
     list_all (\<lambda>(x, y). \<not> is_brick bricks x y) cells"

lemma open_cells_free:
  assumes "open_cells (r_brick_bits r) cells" "n < 4" "\<And>j. j < 4 \<Longrightarrow> slot_on_board r j \<Longrightarrow> j < n"
  shows "\<exists>a b. spawn_cell_is_free r a b"
proof (rule ccontr)
  assume "\<nexists>a b. spawn_cell_is_free r a b"
  then have none: "\<not> spawn_cell_is_free r a b" for a b by blast
  let ?at = "\<lambda>j. (uint (p_x (r_players r ! j)), uint (p_y (r_players r ! j)))"
  have "set cells \<subseteq> ?at ` {..<n}"
  proof
    fix c assume c: "c \<in> set cells"
    obtain x y where xy: "c = (x, y)" by force
    have clear: "\<not> is_brick (r_brick_bits r) x y"
      using assms(1) c xy by (auto simp: open_cells_def list_all_iff)
    then have on: "on_map x y" using off_map_is_brick by blast
    obtain j where j: "j < 4" "slot_on_board r j" "p_x (r_players r ! j) = of_int x" "p_y (r_players r ! j) = of_int y"
      using none [of x y] clear by (auto simp: spawn_cell_is_free_def is_player_at_iff)
    then have "?at j = (x, y)" using on by (simp add: on_map_def uint_of_int_cell)
    then show "c \<in> ?at ` {..<n}" using xy assms(3) [OF j(1,2)]
      by (intro image_eqI [of _ _ j]) simp_all
  qed
  then have "card (set cells) \<le> card (?at ` {..<n})" by (intro card_mono) simp_all
  also have "\<dots> \<le> n" using card_image_le [of "{..<n}" ?at] by simp
  finally have "card (set cells) \<le> n" .
  moreover have "card (set cells) = 4" using assms(1) by (simp add: open_cells_def distinct_card)
  ultimately show False using assms(2) by simp
qed

text \<open>The fields of a room after the per-slot step of \<open>reset_round\<close>.\<close>

definition cleared_player :: "player_state \<Rightarrow> bool" where
  "cleared_player p \<longleftrightarrow> p_joy p = 0x0F \<and> p_score p = 0 \<and> respawn_at_ms p = 0 \<and>
     zombie_fire_windup_until_ms p = 0 \<and> \<not> zombie_brick_fire_pending p \<and> zombie_dir p = 0xFF"

definition cleared_client :: "client_slot \<Rightarrow> bool" where
  "cleared_client c \<longleftrightarrow> \<not> have_delta_seq c \<and> \<not> have_applied_input_seq c \<and> input_count c = 0"

text \<open>The room just before the placement decision, and the slot's seat at that point.\<close>

definition reset_slot_base :: "u64 \<Rightarrow> nat \<Rightarrow> room \<Rightarrow> room" where
  "reset_slot_base now i r =
     (let r2 = reset_zombie_schedule i now
            (upd_player i (\<lambda>p. p\<lparr>p_joy := 0x0F, p_score := 0, respawn_at_ms := 0\<rparr>) r) in
      upd_client i round_client_reset (r2\<lparr>r_last_input_ms := (r_last_input_ms r2)[i := 0]\<rparr>))"

lemma reset_slot_base_fields:
  assumes "base_ok r" "i < 4"
  shows "j \<noteq> i \<Longrightarrow> r_players (reset_slot_base now i r) ! j = r_players r ! j"
    and "cleared_player (r_players (reset_slot_base now i r) ! i)"
    and "r_occupied_mask (reset_slot_base now i r) = r_occupied_mask r"
    and "r_brick_bits (reset_slot_base now i r) = r_brick_bits r"
    and "r_shots (reset_slot_base now i r) = r_shots r"
    and "r_last_input_ms (reset_slot_base now i r) = (r_last_input_ms r)[i := 0]"
    and "j \<noteq> i \<Longrightarrow> r_clients (reset_slot_base now i r) ! j = r_clients r ! j"
    and "cleared_client (r_clients (reset_slot_base now i r) ! i)"
    and "in_use (r_clients (reset_slot_base now i r) ! i) = in_use (r_clients r ! i)"
    and "handshake_ok (r_clients (reset_slot_base now i r) ! i) = handshake_ok (r_clients r ! i)"
  using assms base_ok_lengths [OF assms(1)]
  by (simp_all add: reset_slot_base_def Let_def reset_zombie_schedule_def upd_player_def upd_client_def
      nth_modify cleared_player_def cleared_client_def zombie_schedule_def round_client_reset_def)

lemma reset_round_slot_eq:
  "reset_round_slot now zm i r =
     (let r3 = reset_slot_base now i r in
      if seated (r_clients r3 ! i) \<or> zm ! i then occupy i (place_actor i r3) else r3)"
  by (simp add: reset_round_slot_def reset_slot_base_def Let_def seated_def)

lemma place_actor_fields:
  assumes "i < length (r_players r)"
  shows "j \<noteq> i \<Longrightarrow> r_players (place_actor i r) ! j = r_players r ! j"
    and "r_players (place_actor i r) ! i =
      (r_players r ! i)\<lparr>p_x := fst (fst (pick_spawn r)), p_y := snd (fst (pick_spawn r))\<rparr>"
    and "r_occupied_mask (place_actor i r) = r_occupied_mask r"
    and "r_brick_bits (place_actor i r) = r_brick_bits r" "r_shots (place_actor i r) = r_shots r"
    and "r_last_input_ms (place_actor i r) = r_last_input_ms r" "r_clients (place_actor i r) = r_clients r"
    and "length (r_players (place_actor i r)) = length (r_players r)"
    and "r_shots (place_actor i r) = r_shots r"
  using assms by (simp_all add: place_actor_def upd_player_def split_beta nth_modify)

lemma occupy_fields [simp]:
  "r_players (occupy i r) = r_players r" "r_clients (occupy i r) = r_clients r"
  "r_brick_bits (occupy i r) = r_brick_bits r" "r_shots (occupy i r) = r_shots r"
  "r_last_input_ms (occupy i r) = r_last_input_ms r"
  "bit (r_occupied_mask (occupy i r)) j \<longleftrightarrow> bit (r_occupied_mask r) j \<or> j = i \<and> i < 8"
  by (auto simp: occupy_def bit_or_iff)

text \<open>The loop invariant of the placement pass: slots below \<open>i\<close> are done.\<close>

definition placing :: "room \<Rightarrow> bool list \<Rightarrow> (int \<times> int) list \<Rightarrow> nat \<Rightarrow> room \<Rightarrow> bool" where
  "placing q zm cells i r \<longleftrightarrow> base_ok r \<and> rkey r = rkey q \<and> r_brick_bits r = r_brick_bits q \<and>
     r_shots r = r_shots q \<and>
     (\<forall>j < i. cleared_player (r_players r ! j) \<and> cleared_client (r_clients r ! j) \<and> r_last_input_ms r ! j = 0) \<and>
     (\<forall>j. bit (r_occupied_mask r) j \<longleftrightarrow> j < i \<and> (seated (r_clients q ! j) \<or> zm ! j)) \<and>
     (open_cells (r_brick_bits q) cells \<longrightarrow> actors_apart r)"

lemma placing_step:
  assumes "placing q zm cells i r" "i < 4" "base_ok q"
  shows "placing q zm cells (Suc i) (reset_round_slot now zm i r)"
proof -
  let ?b = "reset_slot_base now i r" and ?n = "reset_round_slot now zm i r"
  have ok: "base_ok r" and key: "rkey r = rkey q" and bricks: "r_brick_bits r = r_brick_bits q"
    and shots: "r_shots r = r_shots q"
    and past: "\<And>j. j < i \<Longrightarrow> cleared_player (r_players r ! j) \<and> cleared_client (r_clients r ! j) \<and> r_last_input_ms r ! j = 0"
    and occ: "\<And>j. bit (r_occupied_mask r) j \<longleftrightarrow> j < i \<and> (seated (r_clients q ! j) \<or> zm ! j)"
    and apart: "open_cells (r_brick_bits q) cells \<Longrightarrow> actors_apart r"
    using assms(1) by (auto simp: placing_def)
  note b = reset_slot_base_fields [OF ok assms(2), where now = now]
  have key': "rkey ?n = rkey q" using key by simp
  have seat: "seated (r_clients ?b ! i) = seated (r_clients q ! i)"
    using b(9,10) rkeyD(4) [OF key, of i] base_ok_lengths(1) [OF assms(3)] assms(2)
    by (simp add: seated_def)
  have okb: "base_ok ?n" using ok by simp
  have lenb: "length (r_players ?b) = 4"
    using base_ok_lengths(2) [OF ok] by (simp add: reset_slot_base_def Let_def reset_zombie_schedule_def
        upd_player_def upd_client_def)
  have len5: "length (r_last_input_ms r) = 4" using base_ok_lengths(5) [OF ok] .
  let ?act = "seated (r_clients q ! i) \<or> zm ! i"
  have n: "?n = (if ?act then occupy i (place_actor i ?b) else ?b)"
    by (simp add: reset_round_slot_eq Let_def seat)
  note p = place_actor_fields [of i ?b, unfolded lenb, OF assms(2)]
  have other: "r_players ?n ! j = r_players r ! j" "r_clients ?n ! j = r_clients r ! j" if "j \<noteq> i" for j
    using that n b(1,7) [OF that] p(1) [OF that] p(7) by auto
  have here: "cleared_player (r_players ?n ! i)" "cleared_client (r_clients ?n ! i)"
    using n b(2,8) p(2,7) by (auto simp: cleared_player_def)
  have li: "r_last_input_ms ?n = (r_last_input_ms r)[i := 0]" using n b(6) p(6) by simp
  have occ': "bit (r_occupied_mask ?n) j \<longleftrightarrow> j < Suc i \<and> (seated (r_clients q ! j) \<or> zm ! j)" for j
    using n b(3) p(3) occ [of j] assms(2) by (auto simp: less_Suc_eq)
  have "actors_apart ?n" if cells: "open_cells (r_brick_bits q) cells"
  proof -
    have board: "slot_on_board ?b j \<longleftrightarrow> slot_on_board r j" if "j \<noteq> i" for j
      using b(1) [OF that] b(3) by (simp add: slot_on_board_def)
    have below: "j < i" if "slot_on_board ?b j" for j
      using that b(3) occ [of j] by (simp add: slot_on_board_def split: if_splits)
    have free: "\<exists>a c. spawn_cell_is_free ?b a c"
      using cells b(4) bricks below by (intro open_cells_free [of ?b cells i]) (simp_all add: assms(2))
    have new: "(p_x (r_players ?n ! i), p_y (r_players ?n ! i)) \<noteq> (p_x (r_players ?n ! j), p_y (r_players ?n ! j))"
      if "j < 4" "j \<noteq> i" "slot_on_board ?n j" "?act" for j
    proof -
      have "slot_on_board r j"
        using that(3) other(1) [OF that(2)] occ' [of j] occ [of j] that(2)
        by (auto simp: slot_on_board_def split: if_splits)
      then have "slot_on_board ?b j" using board [OF that(2)] by simp
      from pick_spawn_avoids [OF free that(1) this] show ?thesis
        using n p(2) that(4) other(1) [OF that(2)] b(1) [OF that(2)] by auto
    qed
    have old: "(p_x (r_players ?n ! k), p_y (r_players ?n ! k)) \<noteq> (p_x (r_players ?n ! j), p_y (r_players ?n ! j))"
      if "k < 4" "j < 4" "k \<noteq> j" "k \<noteq> i" "j \<noteq> i" "slot_on_board ?n k" "slot_on_board ?n j" for j k
    proof -
      have "slot_on_board r k" "slot_on_board r j"
        using that(6,7) other(1) [OF that(4)] other(1) [OF that(5)] occ' [of j] occ' [of k] occ [of j] occ [of k] that(4,5)
        by (auto simp: slot_on_board_def split: if_splits)
      then show ?thesis
        using apart [OF cells] that other(1) [OF that(4)] other(1) [OF that(5)] by (simp add: actors_apart_def)
    qed
    have act: "?act" if "slot_on_board ?n i"
      using that occ' [of i] by (simp add: slot_on_board_def split: if_splits)
    show ?thesis
      unfolding actors_apart_def using new old act by metis
  qed
  moreover have "\<forall>j < Suc i. cleared_player (r_players ?n ! j) \<and> cleared_client (r_clients ?n ! j) \<and> r_last_input_ms ?n ! j = 0"
    using past here other li assms(2) len5 by (auto simp: less_Suc_eq nth_list_update)
  moreover have "r_brick_bits ?n = r_brick_bits q" "r_shots ?n = r_shots q"
    using n b(4,5) p(4,5) bricks shots by auto
  ultimately show ?thesis using okb key' occ' by (simp add: placing_def)
qed

lemma rcore_send_round_state [simp]: "rcore (send_round_state i now r) = rcore r"
  by (simp add: send_round_state_def Let_def split_beta)

lemma rcore_send_states [simp]: "rcore (for_slots (\<lambda>i. send_round_state i now) r) = rcore r"
  by (rule for_slots_preserves) simp

lemmas send_states_frame [simp] = rcoreD [OF rcore_send_states]

lemma cleared_client_core: "core c = core d \<Longrightarrow> cleared_client c = cleared_client d"
  by (simp add: cleared_client_def coreD [of c d])

definition reset_round_start :: "room \<Rightarrow> room" where
  "reset_round_start r = (let r1 = clear_transients (r\<lparr>r_round_id := r_round_id r + 1,
       r_round_state := ROUND_PLAYING, r_intermission_deadline_ms := 0,
       r_brick_bits := r_brick_reset_bits r\<rparr>) in
     r1\<lparr>r_historical_zombie_mask := mask_bits (room_zombies r1), r_occupied_mask := 0\<rparr>)"

lemma reset_round_start_ok:
  assumes "base_ok r"
  shows "base_ok (reset_round_start r)" "rkey (reset_round_start r) = rkey r"
    "r_brick_bits (reset_round_start r) = r_brick_reset_bits r"
    "r_shots (reset_round_start r) = replicate 4 shot_zero" "r_occupied_mask (reset_round_start r) = 0"
proof -
  show "base_ok (reset_round_start r)"
    using base_ok_reset_bricks [of "r\<lparr>r_round_id := r_round_id r + 1, r_round_state := ROUND_PLAYING,
      r_intermission_deadline_ms := 0\<rparr>"] assms by (simp add: reset_round_start_def Let_def)
  show "rkey (reset_round_start r) = rkey r"
    by (simp add: reset_round_start_def Let_def rkey_def clear_transients_def)
  show "r_brick_bits (reset_round_start r) = r_brick_reset_bits r"
    "r_shots (reset_round_start r) = replicate 4 shot_zero" "r_occupied_mask (reset_round_start r) = 0"
    by (simp_all add: reset_round_start_def Let_def clear_transients_def)
qed

lemma reset_round_eq:
  assumes "base_ok r"
  shows "reset_round now r =
    (for_slots (\<lambda>i. send_round_state i now)
       (for_slots (reset_round_slot now (room_zombies r)) (reset_round_start r)))
    \<lparr>r_last_brick_resync_ms := now, r_next_tick := now\<rparr>"
proof -
  let ?r1 = "clear_transients (r\<lparr>r_round_id := r_round_id r + 1,
       r_round_state := ROUND_PLAYING, r_intermission_deadline_ms := 0,
       r_brick_bits := r_brick_reset_bits r\<rparr>)"
  have "room_zombies ?r1 = room_zombies r"
    by (rule rkey_zombies) (simp_all add: rkey_def clear_transients_def base_ok_lengths [OF assms])
  then show ?thesis by (simp add: reset_round_def reset_round_start_def Let_def)
qed

text \<open>Everything a new round starts from.\<close>

definition fresh_round :: "room \<Rightarrow> bool list \<Rightarrow> room \<Rightarrow> bool" where
  "fresh_round r zm q \<longleftrightarrow> r_brick_bits q = r_brick_reset_bits r \<and> r_shots q = replicate 4 shot_zero \<and>
     list_all (\<lambda>i. cleared_player (r_players q ! i) \<and> cleared_client (r_clients q ! i) \<and>
        r_last_input_ms q ! i = 0 \<and>
        (bit (r_occupied_mask q) i \<longleftrightarrow> seated (r_clients r ! i) \<or> zm ! i)) [0..<MAX_PLAYERS]"

lemma reset_round_fresh:
  assumes "base_ok r"
  shows "fresh_round r (room_zombies r) (reset_round now r) \<and>
    (open_cells (r_brick_reset_bits r) cells \<longrightarrow> actors_apart (reset_round now r))"
proof -
  let ?s = "reset_round_start r" and ?zm = "room_zombies r"
  let ?p = "for_slots (reset_round_slot now ?zm) ?s"
  let ?q = "for_slots (\<lambda>i. send_round_state i now) ?p"
  note start = reset_round_start_ok [OF assms]
  have empty: "\<not> slot_on_board ?s j" for j using start(5) by (simp add: slot_on_board_def)
  have "placing ?s ?zm cells 4 ?p"
    by (rule for_slots_index [of "placing ?s ?zm cells"])
      (simp add: placing_def start actors_apart_def empty, rule placing_step, simp_all add: start)
  then have p: "r_brick_bits ?p = r_brick_reset_bits r" "r_shots ?p = replicate 4 shot_zero"
    "base_ok ?p" "\<And>j. j < 4 \<Longrightarrow> cleared_player (r_players ?p ! j) \<and> cleared_client (r_clients ?p ! j) \<and> r_last_input_ms ?p ! j = 0"
    "\<And>j. bit (r_occupied_mask ?p) j \<longleftrightarrow> j < 4 \<and> (seated (r_clients ?s ! j) \<or> ?zm ! j)"
    "open_cells (r_brick_reset_bits r) cells \<Longrightarrow> actors_apart ?p"
    using start by (auto simp: placing_def)
  have seat: "j < 4 \<Longrightarrow> seated (r_clients ?s ! j) = seated (r_clients r ! j)" for j
    using rkeyD(4) [OF start(2), of j] base_ok_lengths(1) [OF assms] by simp
  have clr: "cleared_client (r_clients ?q ! j)" if "j < 4" for j
  proof -
    have "core (r_clients ?q ! j) = core (r_clients ?p ! j)"
      by (rule core_nthD) (simp_all add: base_ok_lengths [OF p(3)] that)
    then show ?thesis using cleared_client_core p(4) [OF that] by blast
  qed
  have f: "r_brick_bits (reset_round now r) = r_brick_bits ?p" "r_shots (reset_round now r) = r_shots ?p"
    "r_players (reset_round now r) = r_players ?p" "r_last_input_ms (reset_round now r) = r_last_input_ms ?p"
    "r_occupied_mask (reset_round now r) = r_occupied_mask ?p" "r_clients (reset_round now r) = r_clients ?q"
    by (simp_all add: reset_round_eq [OF assms])
  have "fresh_round r ?zm (reset_round now r)"
    unfolding fresh_round_def f list_all_iff using p clr seat by auto
  moreover have "actors_apart (reset_round now r) = actors_apart ?p"
    by (simp add: actors_apart_def slot_on_board_def f)
  ultimately show ?thesis using p(6) by simp
qed

lemma fresh_scores:
  assumes "fresh_round r zm q" "length (r_players q) = 4"
  shows "list_all (\<lambda>p. p_score p = 0) (r_players q)"
  using assms by (auto simp: fresh_round_def cleared_player_def list_all_length)

lemma round_ok_reset_round [simp]: "base_ok r \<Longrightarrow> round_ok (reset_round now r)"
  using fresh_scores [OF reset_round_fresh [THEN conjunct1]] base_ok_lengths(2) [of "reset_round now r"]
  by (intro round_ok_fresh) simp_all

lemma round_ok_enter_dormant [simp]:
  assumes "base_ok r"
  shows "round_ok (enter_dormant now r)"
proof (rule round_ok_fresh)
  show "list_all (\<lambda>p. p_score p = 0) (r_players (enter_dormant now r))"
    using fresh_scores [OF reset_round_fresh [OF assms, THEN conjunct1]]
      base_ok_lengths(2) [of "reset_round now r"] assms by (simp add: enter_dormant_def)
qed (use assms in simp_all)

lemma round_ok_grace [simp]:
  assumes "round_ok r" "base_ok r"
  shows "round_ok (begin_no_human_grace now r)"
  using assms by (simp add: begin_no_human_grace_def Let_def)

lemma round_ok_respawn_at: "round_ok r \<Longrightarrow> base_ok r \<Longrightarrow> round_ok (upd_player i (\<lambda>p. p\<lparr>respawn_at_ms := t\<rparr>) r)"
  by (rule round_ok_upd_player) simp_all

lemma round_ok_activate [simp]:
  "round_ok r \<Longrightarrow> base_ok r \<Longrightarrow> round_ok (activate_joining_client slot keep now r)"
  by (simp add: activate_joining_client_def Let_def round_ok_respawn_at)

lemma result_ok_open: "r_round_state r \<noteq> ROUND_OVER \<Longrightarrow> result_ok r"
  by (simp add: result_ok_def)

lemma round_ok_historical:
  "r_round_state r \<noteq> ROUND_OVER \<Longrightarrow> round_ok (r\<lparr>r_historical_zombie_mask := m\<rparr>) = round_ok r"
  by (simp add: round_ok_def result_ok_open kill_limit_def)

lemma round_ok_wake_slot:
  assumes "round_ok r" "base_ok r" "r_round_state r = ROUND_PLAYING"
  shows "round_ok (wake_slot now zm i r)" "r_round_state (wake_slot now zm i r) = ROUND_PLAYING"
proof -
  show st: "r_round_state (wake_slot now zm i r) = ROUND_PLAYING"
    using rroundD(2) [of "wake_slot now zm i r" r] assms(3) by simp
  let ?q = "upd_player i (\<lambda>p. p\<lparr>respawn_at_ms := 0\<rparr>) (reset_slot_gameplay i now (place_actor i r))"
  have "round_ok ?q" using assms by (intro round_ok_respawn_at) simp_all
  moreover have "r_round_state ?q = ROUND_PLAYING" using rroundD(2) [of ?q r] assms(3) by simp
  moreover have "r_round_state (occupy i ?q) = r_round_state ?q" by (simp add: occupy_def)
  ultimately show "round_ok (wake_slot now zm i r)"
    using assms(1) by (simp add: wake_slot_def Let_def round_ok_historical)
qed

lemma round_ok_wake [simp]:
  assumes "round_ok r" "base_ok r" "r_round_state r \<noteq> ROUND_OVER"
  shows "round_ok (wake_dormant_room now r)"
proof -
  let ?r = "r\<lparr>r_round_state := ROUND_PLAYING, r_occupied_mask := 0, r_historical_zombie_mask := 0\<rparr>"
  have "round_ok ?r"
    using assms by (auto simp: round_ok_def result_ok_def kill_limit_def score_fine_def list_all_iff)
  then have "round_ok (for_slots (wake_slot now zm) ?r) \<and> base_ok (for_slots (wake_slot now zm) ?r) \<and>
      r_round_state (for_slots (wake_slot now zm) ?r) = ROUND_PLAYING" for zm
    using assms by (intro for_slots_invariant [of "\<lambda>r. round_ok r \<and> base_ok r \<and> r_round_state r = ROUND_PLAYING"])
      (simp_all add: round_ok_wake_slot)
  then show ?thesis by (simp add: wake_dormant_room_def Let_def)
qed

section \<open>Round state for one client\<close>

lemma send_round_state_seated:
  assumes "seated (r_clients r ! i)" "i < length (r_clients r)" "r_round_state r \<noteq> ROUND_OVER"
    and "reliable_enqueue_client (r_clients r ! i) [PKT_ROUND_START, r_round_id r, kill_limit r]
        (r_seq r + 1) now (r_env r) = (ok, d, sq, e)"
  shows "r_clients (send_round_state i now r) ! i =
    (if ok then fst (snd (reliable_enqueue_client d
        (build_brick_full (r_seq r) (r_brick_bits r) (r_round_id r)) sq now e)) else d)"
proof -
  have seat: "in_use (r_clients r ! i)" "handshake_ok (r_clients r ! i)" using assms(1) by (simp_all add: seated_def)
  have first: "reliable_enqueue i [PKT_ROUND_START, r_round_id r, of_int (cfg_kill_limit (r_config r))] now (next_seq r) =
      (ok, (next_seq r)\<lparr>r_clients := (r_clients r)[i := d], r_seq := sq, r_env := e\<rparr>)"
    using assms(4) by (simp add: reliable_enqueue_def kill_limit_def next_seq_def)
  show ?thesis
    using seat assms(2,3) unfolding send_round_state_def Let_def first
    by (simp add: reliable_enqueue_def split_beta next_seq_def)
qed

text \<open>The bodies of the events a client still has to receive, without the four header bytes.\<close>

definition outbox_events :: "client_slot \<Rightarrow> bytes list" where
  "outbox_events c = map (\<lambda>m. drop 4 (snd m)) (outbox c)"

lemma drop_reliable_packet [simp]: "drop 4 (reliable_packet sq rv event) = event"
  by (simp add: reliable_packet_def numeral_eq_Suc)

lemma demo_room_base_ok: "base_ok demo_room"
proof -
  have cells: "cell_ok 1 1" "cell_ok 18 1" "cell_ok 1 17" "cell_ok 18 17" by (simp_all add: cell_ok_def)
  have "seat_ok client_free"
    by (simp add: seat_ok_def client_free_def name_ok_def input_ok_def input_shape_def pending_inputs_def)
  then show ?thesis
    using demo_room_net_ok cells
    by (simp add: base_ok_def board_ok_def seats_ok_def list_all_iff demo_room_def demo_player_def
        player_zero_def player_ok_def neutral_joy shot_zero_ok config_ok_def demo_config_def)
qed

lemma demo_room_round_ok: "round_ok demo_room"
  by (rule round_ok_fresh [OF _ _ demo_room_base_ok])
    (simp_all add: demo_room_def demo_player_def player_zero_def)

section \<open>Properties\<close>

text \<open>
  C24: Scoring. In an open round a hit raises the shooter's score by exactly one and no other score;
  it ends the round precisely when the score reaches the kill limit. The round then has one winner,
  MATCH_END is 43 bytes long and carries the final scores, the shots are gone, and no later hit can
  change a score or the result.
\<close>

theorem award_score_exact:
  assumes "base_ok r" "round_ok r" "r_round_state r = ROUND_PLAYING" "sh < MAX_PLAYERS"
    and "award_score sh now r = (ended, q)"
  shows "p_score (r_players r ! sh) < kill_limit r \<and>
    ended = (p_score (r_players r ! sh) + 1 = kill_limit r) \<and>
    map p_score (r_players q) = (map p_score (r_players r))[sh := p_score (r_players r ! sh) + 1] \<and>
    r_round_state q = (if ended then ROUND_OVER else ROUND_PLAYING) \<and>
    (ended \<longrightarrow> r_winner_pid q = of_nat sh \<and> length (r_frozen_match q) = 43 \<and>
       take 10 (r_frozen_match q) = [PKT_MATCH_END, r_round_id r, of_nat sh, r_occupied_mask r,
         mask_bits (room_zombies r), kill_limit r] @ map p_score (r_players q) \<and>
       r_shots q = replicate 4 shot_zero \<and> award_score sh2 now2 q = (False, q))"
proof -
  define sc where "sc = p_score (r_players r ! sh) + 1"
  define u where "u = upd_player sh (\<lambda>p. p\<lparr>p_score := sc\<rparr>) r"
  have len: "length (r_players r) = 4" by (rule base_ok_lengths(2) [OF assms(1)])
  have lt: "p_score (r_players r ! sh) < kill_limit r"
    using assms(2,3,4) len list_all_nthD [of "score_fine (kill_limit r) ROUND_PLAYING" "r_players r" sh]
    by (simp add: round_ok_def score_fine_def)
  have run: "(ended, q) = (if sc = kill_limit r then (True, enter_round_over sh now u) else (False, u))"
    using award_score_cases [OF assms(3,1,2), of sh now] assms(4,5) by (simp add: sc_def u_def)
  have u: "r_round_state u = ROUND_PLAYING" "r_players u = (r_players r)[sh := (r_players r ! sh)\<lparr>p_score := sc\<rparr>]"
    "r_occupied_mask u = r_occupied_mask r" "r_round_id u = r_round_id r" "r_config u = r_config r" "rkey u = rkey r"
    using assms(3) by (simp_all add: u_def upd_player_def modify_def rkey_def)
  have scores_u: "map p_score (r_players u) = (map p_score (r_players r))[sh := sc]"
    unfolding u(2) by (simp add: map_update)
  note z = enter_round_over_result [OF u(1) refl, of sh now]
  have bu: "base_ok u" unfolding u_def by (rule base_ok_upd_player [OF assms(1)]) (simp add: player_ok_def)
  have zom: "room_zombies u = room_zombies r" by (rule rkey_zombies [OF u(6) base_ok_lengths(1) [OF assms(1)]])
  show ?thesis
  proof (cases "sc = kill_limit r")
    case False
    then have "ended = False" "q = u" using run by simp_all
    then show ?thesis using lt scores_u u(1) False by (simp add: sc_def)
  next
    case True
    then have q: "ended" "q = enter_round_over sh now u" using run by simp_all
    have final: "r_final_scores q = map p_score (r_players q)"
      unfolding q z(3,11) using len by (intro nth_equalityI) (auto simp: u(2) nth_list_update)
    have "map p_score (r_players q) = map p_score (r_players u)" unfolding q z(11) by simp
    moreover have "award_score sh2 now2 q = (False, q)" using z(1) q by (simp add: award_score_def)
    moreover have "take 10 (r_frozen_match q) = [PKT_MATCH_END, r_round_id r, of_nat sh, r_occupied_mask r,
         mask_bits (room_zombies r), kill_limit r] @ map p_score (r_players q)"
      unfolding q z(7) match_end_packet_def z(2,4,5,9,12) u zom final [unfolded q]
      using base_ok_lengths(2) [OF base_ok_enter_round_over [OF bu], of sh now]
      by (simp add: kill_limit_def numeral_eq_Suc)
    ultimately show ?thesis
      using True q z(1,2,13) lt scores_u enter_round_over_names [OF u(1) bu, of sh now] by (simp add: sc_def)
  qed
qed

definition match_point :: room where
  "match_point = upd_player 2 (\<lambda>p. p\<lparr>p_score := 4\<rparr>) demo_room"

lemma match_point_ok: "base_ok match_point" "round_ok match_point" "r_round_state match_point = ROUND_PLAYING"
proof -
  show "base_ok match_point" unfolding match_point_def
    by (rule base_ok_upd_player [OF demo_room_base_ok]) (simp add: player_ok_def)
  have "score_fine 5 ROUND_PLAYING (demo_player x y)" "score_fine 5 ROUND_PLAYING ((demo_player x y)\<lparr>p_score := 4\<rparr>)" for x y
    by (simp_all add: score_fine_def demo_player_def player_zero_def)
  then show "round_ok match_point" "r_round_state match_point = ROUND_PLAYING"
    by (simp_all add: match_point_def upd_player_def modify_def round_ok_def result_ok_def demo_room_def
        kill_limit_def demo_config_def)
qed

theorem award_score_exact_witness:
  "fst (award_score 2 500 match_point) \<and> r_winner_pid (snd (award_score 2 500 match_point)) = 2"
  using award_score_exact [OF match_point_ok, of 2 500 "fst (award_score 2 500 match_point)"
      "snd (award_score 2 500 match_point)"]
  by (simp add: match_point_def upd_player_def modify_def demo_room_def demo_player_def player_zero_def
      kill_limit_def demo_config_def)

text \<open>
  C27: A new round starts clean. The walls are back to the loaded layout, no shot is in flight,
  every actor is idle with score zero and not awaiting respawn, every client's input queue and
  sequence memory is empty, exactly the seated and the zombie slots are on the board, and no two
  of them share a cell.
\<close>

theorem reset_round_clean:
  assumes "base_ok r" "open_cells (r_brick_reset_bits r) cells"
  shows "fresh_round r (room_zombies r) (reset_round now r) \<and> actors_apart (reset_round now r) \<and>
    r_round_state (reset_round now r) = ROUND_PLAYING \<and>
    r_round_id (reset_round now r) = r_round_id r + 1 \<and>
    base_ok (reset_round now r) \<and> round_ok (reset_round now r)"
  using reset_round_fresh [OF assms(1), of now cells] assms by simp

theorem reset_round_clean_witness:
  "actors_apart (reset_round 7 demo_room) \<and> r_round_id (reset_round 7 demo_room) = 2"
proof -
  have "open_cells (r_brick_reset_bits demo_room) [(1, 1), (2, 1), (3, 1), (4, 1)]"
    using is_brick_zero [of 1 1] is_brick_zero [of 2 1] is_brick_zero [of 3 1] is_brick_zero [of 4 1]
    by (simp add: open_cells_def demo_room_def on_map_def)
  from reset_round_clean [OF demo_room_base_ok this, of 7] show ?thesis by (simp add: demo_room_def)
qed

text \<open>
  Round state on join and at round start. A seated client in an open round gets the round's
  id and kill limit and then the whole current map appended to its reliable stream, in that order;
  if the stream has no room for both, its connection is marked failed instead.
\<close>

theorem round_state_queued:
  assumes "base_ok r" "i < MAX_PLAYERS" "seated (r_clients r ! i)" "r_round_state r \<noteq> ROUND_OVER"
  shows "if reliable_count (r_clients r ! i) + 2 \<le> RELIABLE_QUEUE_MAX
    then outbox_events (r_clients (send_round_state i now r) ! i) = outbox_events (r_clients r ! i) @
      [[PKT_ROUND_START, r_round_id r, kill_limit r], build_brick_full (r_seq r) (r_brick_bits r) (r_round_id r)]
    else tx_failed (c_tx (r_clients (send_round_state i now r) ! i))"
proof -
  let ?c = "r_clients r ! i" and ?full = "build_brick_full (r_seq r) (r_brick_bits r) (r_round_id r)"
  obtain ok d sq e where one: "reliable_enqueue_client ?c [PKT_ROUND_START, r_round_id r, kill_limit r]
        (r_seq r + 1) now (r_env r) = (ok, d, sq, e)" by (metis prod_cases4)
  obtain ok2 d2 sq2 e2 where two: "reliable_enqueue_client d ?full sq now e = (ok2, d2, sq2, e2)"
    by (metis prod_cases4)
  have len: "length (r_clients r) = 4" by (rule base_ok_lengths(1) [OF assms(1)])
  have link: "link_ok ?c" by (rule base_ok_link [OF assms(1,2)])
  note s1 = enqueue_spec [OF link assms(3) one]
  have res: "r_clients (send_round_state i now r) ! i = (if ok then d2 else d)"
    using send_round_state_seated [OF assms(3) _ assms(4) one] assms(2) len two by simp
  have seat: "seated d" using coreD(19) [OF core_enqueue [of ?c _ "r_seq r + 1" now "r_env r"], of "[PKT_ROUND_START, r_round_id r, kill_limit r]"]
      one assms(3) by simp
  have link_d: "link_ok d" using s1 by simp
  note s2 = enqueue_spec [OF link_d seat two]
  have full: "length ?full = 52" using base_ok_lengths(4) [OF assms(1)] by (simp add: build_brick_full_def)
  show ?thesis
  proof (cases "reliable_count ?c < RELIABLE_QUEUE_MAX")
    case False
    then show ?thesis using res s1 by simp
  next
    case True
    then have ok and d: "outbox d = outbox ?c @ [(reliable_next_rev ?c, reliable_packet (r_seq r + 1)
        (reliable_next_rev ?c) [PKT_ROUND_START, r_round_id r, kill_limit r])]"
      using s1 by simp_all
    then have "reliable_count d = reliable_count ?c + 1" using length_outbox [of d] by simp
    then show ?thesis using res \<open>ok\<close> s2 full d by (auto simp: outbox_events_def)
  qed
qed

definition demo_joined :: room where
  "demo_joined = upd_client 1 (\<lambda>_. demo_link) demo_room"

lemma demo_link_seat_ok: "seat_ok demo_link"
  by (simp add: seat_ok_def demo_link_def client_free_def name_ok_def input_ok_def input_shape_def pending_inputs_def)

lemma demo_joined_ok: "base_ok demo_joined" "seated (r_clients demo_joined ! 1)"
proof -
  show "base_ok demo_joined" unfolding demo_joined_def
    by (rule base_ok_upd_client [OF demo_room_base_ok]) (simp add: demo_link_seat_ok demo_link_ok)
  show "seated (r_clients demo_joined ! 1)"
    using demo_link_ok(3) by (simp add: demo_joined_def upd_client_def modify_def demo_room_def)
qed

theorem round_state_queued_witness:
  "outbox_events (r_clients (send_round_state 1 90 demo_joined) ! 1) =
     outbox_events demo_link @ [[0x55, 1, 5], build_brick_full 0 (replicate 48 0) 1]"
proof -
  have f: "r_clients demo_joined ! 1 = demo_link" "r_round_state demo_joined \<noteq> ROUND_OVER"
    "r_round_id demo_joined = 1" "r_seq demo_joined = 0" "r_brick_bits demo_joined = replicate 48 0"
    "kill_limit demo_joined = 5" "reliable_count demo_link = 2"
    by (simp_all add: demo_joined_def upd_client_def modify_def demo_room_def kill_limit_def demo_config_def
        demo_link_def)
  have slot: "(1::nat) < MAX_PLAYERS" by simp
  from round_state_queued [OF demo_joined_ok(1) slot demo_joined_ok(2) f(2), of 90] show ?thesis
    unfolding f by simp
qed

end
