(* ===== verification/Combat.thy ===== *)
theory Combat
  imports Rounds
begin

text \<open>
  Movement and shots of \<^verbatim>\<open>server/main.c\<close>: the joystick decoder, one authoritative move, firing
  and the flight of the shots with their swept collision test. Lemmas: these steps keep the
  invariants, a move goes to a free neighbouring cell, a shot only ever enters open cells, and a
  player cannot slip through a shot by exchanging cells with it.
\<close>

section \<open>Definitions\<close>

definition stick_to_cardinal_delta :: "u8 \<Rightarrow> (int \<times> int) option" where
  "stick_to_cardinal_delta stick =
     (let s = stick AND 0x0F in
      if s = 0x07 then Some (1, 0)
      else if s = 0x0D then Some (0, 1)
      else if s = 0x0B then Some (-1, 0)
      else if s = 0x0E then Some (0, -1)
      else None)"

definition shot_active_flags :: "shot_state \<Rightarrow> u8" where
  "shot_active_flags s =
     (let dir = (if s_dy s > 0 then 1 else if s_dx s < 0 then 2 else if s_dy s < 0 then 3 else 0) in
      1 OR push_bit 1 dir)"

definition clamp :: "int \<Rightarrow> int \<Rightarrow> int" where
  "clamp hi v = (let v1 = (if v < 0 then 0 else v) in if v1 > hi then hi else v1)"

definition apply_move_if_free :: "nat \<Rightarrow> room \<Rightarrow> room" where
  "apply_move_if_free idx r =
     (let p = r_players r ! idx in
      case stick_to_cardinal_delta (p_joy p AND 0x0F) of
        None \<Rightarrow> r
      | Some (dx, dy) \<Rightarrow>
          (let nx = clamp 19 (uint (p_x p) + dx); ny = clamp 18 (uint (p_y p) + dy) in
           if \<not> is_brick (r_brick_bits r) nx ny \<and> \<not> is_player_at r nx ny (Some idx)
           then upd_player idx (\<lambda>p. p\<lparr>p_x := of_int nx, p_y := of_int ny\<rparr>) r
           else r))"

text \<open>Breaking the brick at a cell, unless it belongs to the outer wall.\<close>

definition break_brick :: "int \<Rightarrow> int \<Rightarrow> u64 option \<Rightarrow> room \<Rightarrow> room" where
  "break_brick x y at r =
     (if \<not> is_outer_wall_cell x y
      then announce_brick (of_int x) (of_int y) at (r\<lparr>r_brick_bits := clear_brick (r_brick_bits r) x y\<rparr>)
      else r)"

text \<open>A hit: the score, and unless that ended the round the victim's pending respawn.\<close>

definition hit_victim :: "nat \<Rightarrow> nat \<Rightarrow> u64 \<Rightarrow> u64 option \<Rightarrow> room \<Rightarrow> bool \<times> room" where
  "hit_victim shooter p now at r =
     (let (round_ended, r1) = award_score shooter now r in
      if round_ended then (True, r1)
      else (False, announce_respawn p 0 0 0x01 at
              (upd_player p (\<lambda>v. v\<lparr>respawn_at_ms := now + 2000\<rparr>) r1)))"

definition actor_at :: "room \<Rightarrow> nat \<Rightarrow> int \<Rightarrow> int \<Rightarrow> bool" where
  "actor_at r p x y \<longleftrightarrow> slot_on_board r p \<and> p_x (r_players r ! p) = of_int x \<and> p_y (r_players r ! p) = of_int y"

definition launch_shot :: "nat \<Rightarrow> int \<Rightarrow> int \<Rightarrow> int \<Rightarrow> int \<Rightarrow> room \<Rightarrow> room" where
  "launch_shot shooter sx sy dx dy r =
     upd_shot shooter (\<lambda>s. s\<lparr>s_active := True, s_x := of_int sx, s_y := of_int sy,
       s_dx := dx, s_dy := dy, s_clear_burst := 0\<rparr>) r"

definition start_shot :: "nat \<Rightarrow> u8 \<Rightarrow> room \<Rightarrow> room" where
  "start_shot shooter joy r =
     (let pl = r_players r ! shooter in
      if respawn_at_ms pl \<noteq> 0 then r
      else if s_active (r_shots r ! shooter) then r
      else if joy AND 0x10 = 0 then r
      else case stick_to_cardinal_delta (joy AND 0x0F) of
        None \<Rightarrow> r
      | Some (dx, dy) \<Rightarrow>
          (let sx = uint (p_x pl) + dx; sy = uint (p_y pl) + dy in
           if is_brick (r_brick_bits r) sx sy then break_brick sx sy None r
           else if sx < 0 \<or> sx > 19 \<or> sy < 0 \<or> sy > 18 then r
           else if is_player_at r sx sy (Some shooter) then
             (case find (\<lambda>p. p \<noteq> shooter \<and> actor_at r p sx sy) [0..<MAX_PLAYERS] of
                None \<Rightarrow> r
              | Some p \<Rightarrow>
                  (let (round_ended, r1) = hit_victim shooter p (room_now r) None (room_now_read r) in
                   if round_ended then r1 else announce_shot shooter 0 0 0 r1))
           else launch_shot shooter sx sy dx dy r))"

definition retire_shot :: "nat \<Rightarrow> room \<Rightarrow> room" where
  "retire_shot i r = announce_shot i 0 0 0
     (upd_shot i (\<lambda>s. s\<lparr>s_active := False, s_clear_burst := 3\<rparr>) r)"

definition advance_shot :: "nat \<Rightarrow> int \<Rightarrow> int \<Rightarrow> room \<Rightarrow> room" where
  "advance_shot i nx ny r =
     (let r1 = upd_shot i (\<lambda>s. s\<lparr>s_x := of_int nx, s_y := of_int ny\<rparr>) r in
      announce_shot i (of_int nx) (of_int ny) (shot_active_flags (r_shots r1 ! i)) r1)"

text \<open>
  The body of the first loop of \<open>step_shots\<close>. \<open>pre\<close> holds the positions before this tick's moves;
  \<open>True\<close> is the early return when the round ends.
\<close>

definition shot_hits :: "room \<Rightarrow> (u8 \<times> u8) list \<Rightarrow> nat \<Rightarrow> int \<Rightarrow> int \<Rightarrow> nat \<Rightarrow> bool" where
  "shot_hits r pre i nx ny p \<longleftrightarrow> p \<noteq> i \<and> slot_on_board r p \<and>
     (let pl = r_players r ! p; s = r_shots r ! i in
      (p_x pl = of_int nx \<and> p_y pl = of_int ny) \<or>
      (p_x pl = s_x s \<and> p_y pl = s_y s \<and> (fst (pre ! p) \<noteq> p_x pl \<or> snd (pre ! p) \<noteq> p_y pl)))"

definition step_shot :: "u64 \<Rightarrow> (u8 \<times> u8) list \<Rightarrow> nat \<Rightarrow> room \<Rightarrow> bool \<times> room" where
  "step_shot now pre i r =
     (let s = r_shots r ! i in
      if \<not> s_active s then (False, r)
      else let nx = uint (s_x s) + s_dx s; ny = uint (s_y s) + s_dy s in
        if nx < 0 \<or> nx > 19 \<or> ny < 0 \<or> ny > 18 then (False, retire_shot i r)
        else case find (shot_hits r pre i nx ny) [0..<MAX_PLAYERS] of
          Some p \<Rightarrow>
            (let (round_ended, r1) = hit_victim i p now (Some now) r in
             if round_ended then (True, r1) else (False, retire_shot i r1))
        | None \<Rightarrow>
            if is_brick (r_brick_bits r) nx ny
            then (False, retire_shot i (break_brick nx ny (Some now) r))
            else (False, advance_shot i nx ny r))"

definition clear_burst_step :: "nat \<Rightarrow> room \<Rightarrow> room" where
  "clear_burst_step i r =
     (if s_clear_burst (r_shots r ! i) = 0 then r
      else announce_shot i 0 0 0 (upd_shot i (\<lambda>s. s\<lparr>s_clear_burst := s_clear_burst s - 1\<rparr>) r))"

definition step_shots :: "(u8 \<times> u8) list \<Rightarrow> room \<Rightarrow> room" where
  "step_shots pre r =
     (let now = room_now r;
          (round_ended, r1) = for_until (step_shot now pre) [0..<MAX_PLAYERS] (room_now_read r) in
      if round_ended then r1 else for_slots clear_burst_step r1)"

section \<open>Lemmas\<close>

lemma cardinal_delta: "stick_to_cardinal_delta stick = Some (dx, dy) \<Longrightarrow> is_cardinal dx dy"
  by (auto simp: stick_to_cardinal_delta_def is_cardinal_def Let_def split: if_splits)

lemma cell_ok_of_int: "0 \<le> x \<Longrightarrow> x < 20 \<Longrightarrow> 0 \<le> y \<Longrightarrow> y < 19 \<Longrightarrow> cell_ok (of_int x) (of_int y)"
  by (simp add: cell_ok_def uint_of_int_cell)

lemma clamp_range: "0 \<le> hi \<Longrightarrow> 0 \<le> clamp hi v \<and> clamp hi v \<le> hi"
  by (auto simp: clamp_def Let_def)

lemma base_ok_move [simp]:
  assumes "base_ok r"
  shows "base_ok (apply_move_if_free i r)"
proof -
  have "cell_ok (of_int (clamp 19 a)) (of_int (clamp 18 b))" for a b
    using clamp_range [of 19 a] clamp_range [of 18 b] by (intro cell_ok_of_int) auto
  then show ?thesis
    using assms by (auto simp: apply_move_if_free_def Let_def player_ok_def
        intro!: base_ok_upd_player split: option.split)
qed

lemma base_ok_break [simp]: "base_ok r \<Longrightarrow> base_ok (break_brick x y at r)"
  by (simp add: break_brick_def base_ok_clear_brick)

lemma base_ok_hit [simp]: "base_ok r \<Longrightarrow> base_ok (snd (hit_victim sh p now at r))"
  by (simp add: hit_victim_def split_beta base_ok_respawn_at)

lemma base_ok_launch:
  "base_ok r \<Longrightarrow> \<not> (sx < 0 \<or> sx > 19 \<or> sy < 0 \<or> sy > 18) \<Longrightarrow> is_cardinal dx dy \<Longrightarrow>
   base_ok (launch_shot sh sx sy dx dy r)"
  unfolding launch_shot_def by (rule base_ok_upd_shot) (auto simp: shot_ok_def intro: cell_ok_of_int)

text \<open>The five ways a trigger press can go.\<close>

lemma start_shot_cases:
  obtains (nothing) "start_shot sh joy r = r"
    | (breaks) sx sy where "respawn_at_ms (r_players r ! sh) = 0" "\<not> s_active (r_shots r ! sh)" "joy AND 0x10 \<noteq> 0"
        "is_brick (r_brick_bits r) sx sy" "start_shot sh joy r = break_brick sx sy None r"
    | (hit) sx sy p where "respawn_at_ms (r_players r ! sh) = 0" "\<not> s_active (r_shots r ! sh)" "joy AND 0x10 \<noteq> 0"
        "p < 4" "p \<noteq> sh" "actor_at r p sx sy"
        "start_shot sh joy r = (let (ended, r1) = hit_victim sh p (room_now r) None (room_now_read r) in
             if ended then r1 else announce_shot sh 0 0 0 r1)"
    | (launches) sx sy dx dy where "respawn_at_ms (r_players r ! sh) = 0" "\<not> s_active (r_shots r ! sh)" "joy AND 0x10 \<noteq> 0"
        "is_cardinal dx dy" "sx = uint (p_x (r_players r ! sh)) + dx" "sy = uint (p_y (r_players r ! sh)) + dy"
        "\<not> (sx < 0 \<or> sx > 19 \<or> sy < 0 \<or> sy > 18)" "\<not> is_brick (r_brick_bits r) sx sy"
        "\<not> is_player_at r sx sy (Some sh)" "start_shot sh joy r = launch_shot sh sx sy dx dy r"
proof -
  let ?pl = "r_players r ! sh"
  show thesis
  proof (cases "respawn_at_ms ?pl = 0 \<and> \<not> s_active (r_shots r ! sh) \<and> joy AND 0x10 \<noteq> 0")
    case False
    then have "start_shot sh joy r = r" unfolding start_shot_def Let_def by auto
    then show thesis by (rule nothing)
  next
    case can: True
    show thesis
    proof (cases "stick_to_cardinal_delta (joy AND 0x0F)")
      case None
      then have "start_shot sh joy r = r" by (simp add: start_shot_def Let_def)
      then show thesis by (rule nothing)
    next
      case (Some d)
      obtain dx dy where d: "d = (dx, dy)" by force
      define sx where "sx = uint (p_x ?pl) + dx"
      define sy where "sy = uint (p_y ?pl) + dy"
      have card: "is_cardinal dx dy" using Some d cardinal_delta by blast
      have run: "start_shot sh joy r =
          (if is_brick (r_brick_bits r) sx sy then break_brick sx sy None r
           else if sx < 0 \<or> sx > 19 \<or> sy < 0 \<or> sy > 18 then r
           else if is_player_at r sx sy (Some sh) then
             (case find (\<lambda>p. p \<noteq> sh \<and> actor_at r p sx sy) [0..<MAX_PLAYERS] of
                None \<Rightarrow> r
              | Some p \<Rightarrow> (let (ended, r1) = hit_victim sh p (room_now r) None (room_now_read r) in
                   if ended then r1 else announce_shot sh 0 0 0 r1))
           else launch_shot sh sx sy dx dy r)"
        using can Some d by (simp only: start_shot_def Let_def sx_def sy_def simp_thms if_True if_False
            option.case prod.case)
      consider (b) "is_brick (r_brick_bits r) sx sy"
        | (out) "\<not> is_brick (r_brick_bits r) sx sy" "sx < 0 \<or> sx > 19 \<or> sy < 0 \<or> sy > 18"
        | (pl) "\<not> is_brick (r_brick_bits r) sx sy" "\<not> (sx < 0 \<or> sx > 19 \<or> sy < 0 \<or> sy > 18)" "is_player_at r sx sy (Some sh)"
        | (free) "\<not> is_brick (r_brick_bits r) sx sy" "\<not> (sx < 0 \<or> sx > 19 \<or> sy < 0 \<or> sy > 18)" "\<not> is_player_at r sx sy (Some sh)"
        by blast
      then show thesis
      proof cases
        case b
        then show thesis using can run by (intro breaks [of sx sy]) auto
      next
        case out
        then have "start_shot sh joy r = r" using run by simp
        then show thesis by (rule nothing)
      next
        case free
        then show thesis using can run card by (intro launches [OF _ _ _ card sx_def sy_def]) auto
      next
        case pl
        show thesis
        proof (cases "find (\<lambda>p. p \<noteq> sh \<and> actor_at r p sx sy) [0..<MAX_PLAYERS]")
          case None
          then have "start_shot sh joy r = r" using run pl by simp
          then show thesis by (rule nothing)
        next
          case (Some p)
          then have "p < 4" "p \<noteq> sh" "actor_at r p sx sy" by (auto simp: find_Some_iff)
          then show thesis using can run pl Some by (intro hit [of p sx sy]) auto
        qed
      qed
    qed
  qed
qed

lemma base_ok_start_shot [simp]:
  assumes "base_ok r"
  shows "base_ok (start_shot sh joy r)"
  by (rule start_shot_cases [of sh joy r])
    (use assms in \<open>simp_all add: base_ok_launch split_beta\<close>)

lemma base_ok_retire [simp]: "base_ok r \<Longrightarrow> base_ok (retire_shot i r)"
  by (simp add: retire_shot_def base_ok_upd_shot shot_ok_retired)

lemma base_ok_advance:
  assumes "base_ok r" "\<not> (x < 0 \<or> x > 19 \<or> y < 0 \<or> y > 18)"
  shows "base_ok (advance_shot i x y r)"
proof -
  have "base_ok (upd_shot i (\<lambda>s. s\<lparr>s_x := of_int x, s_y := of_int y\<rparr>) r)"
    using assms by (intro base_ok_upd_shot) (auto simp: shot_ok_def intro: cell_ok_of_int)
  then show ?thesis by (simp add: advance_shot_def Let_def)
qed

text \<open>The five ways a shot's step can go.\<close>

lemma step_shot_cases:
  obtains (idle) "\<not> s_active (r_shots r ! i)" "step_shot now pre i r = (False, r)"
    | (leaves) nx ny where "s_active (r_shots r ! i)" "nx = uint (s_x (r_shots r ! i)) + s_dx (r_shots r ! i)"
        "ny = uint (s_y (r_shots r ! i)) + s_dy (r_shots r ! i)" "nx < 0 \<or> nx > 19 \<or> ny < 0 \<or> ny > 18"
        "step_shot now pre i r = (False, retire_shot i r)"
    | (hit) nx ny p where "s_active (r_shots r ! i)" "nx = uint (s_x (r_shots r ! i)) + s_dx (r_shots r ! i)"
        "ny = uint (s_y (r_shots r ! i)) + s_dy (r_shots r ! i)" "\<not> (nx < 0 \<or> nx > 19 \<or> ny < 0 \<or> ny > 18)"
        "p < 4" "shot_hits r pre i nx ny p" "\<And>j. j < p \<Longrightarrow> \<not> shot_hits r pre i nx ny j"
        "step_shot now pre i r = (let (ended, r1) = hit_victim i p now (Some now) r in
           if ended then (True, r1) else (False, retire_shot i r1))"
    | (wall) nx ny where "s_active (r_shots r ! i)" "nx = uint (s_x (r_shots r ! i)) + s_dx (r_shots r ! i)"
        "ny = uint (s_y (r_shots r ! i)) + s_dy (r_shots r ! i)" "\<not> (nx < 0 \<or> nx > 19 \<or> ny < 0 \<or> ny > 18)"
        "\<And>p. p < 4 \<Longrightarrow> \<not> shot_hits r pre i nx ny p" "is_brick (r_brick_bits r) nx ny"
        "step_shot now pre i r = (False, retire_shot i (break_brick nx ny (Some now) r))"
    | (flies) nx ny where "s_active (r_shots r ! i)" "nx = uint (s_x (r_shots r ! i)) + s_dx (r_shots r ! i)"
        "ny = uint (s_y (r_shots r ! i)) + s_dy (r_shots r ! i)" "\<not> (nx < 0 \<or> nx > 19 \<or> ny < 0 \<or> ny > 18)"
        "\<And>p. p < 4 \<Longrightarrow> \<not> shot_hits r pre i nx ny p" "\<not> is_brick (r_brick_bits r) nx ny"
        "step_shot now pre i r = (False, advance_shot i nx ny r)"
proof -
  define nx where "nx = uint (s_x (r_shots r ! i)) + s_dx (r_shots r ! i)"
  define ny where "ny = uint (s_y (r_shots r ! i)) + s_dy (r_shots r ! i)"
  show thesis
  proof (cases "s_active (r_shots r ! i)")
    case False
    then show thesis by (intro idle) (simp_all add: step_shot_def)
  next
    case act: True
    show thesis
    proof (cases "nx < 0 \<or> nx > 19 \<or> ny < 0 \<or> ny > 18")
      case True
      then show thesis using act
        by (intro leaves [OF act nx_def ny_def True]) (simp add: step_shot_def Let_def nx_def ny_def)
    next
      case inside: False
      have run: "step_shot now pre i r = (case find (shot_hits r pre i nx ny) [0..<MAX_PLAYERS] of
          Some p \<Rightarrow> (let (ended, r1) = hit_victim i p now (Some now) r in
             if ended then (True, r1) else (False, retire_shot i r1))
        | None \<Rightarrow> if is_brick (r_brick_bits r) nx ny
            then (False, retire_shot i (break_brick nx ny (Some now) r))
            else (False, advance_shot i nx ny r))"
        using act inside by (simp only: step_shot_def Let_def nx_def ny_def simp_thms if_True if_False)
      show thesis
      proof (cases "find (shot_hits r pre i nx ny) [0..<MAX_PLAYERS]")
        case None
        then have none: "\<And>p. p < 4 \<Longrightarrow> \<not> shot_hits r pre i nx ny p" by (auto simp: find_None_iff)
        show thesis
        proof (cases "is_brick (r_brick_bits r) nx ny")
          case True
          then show thesis using run None by (intro wall [OF act nx_def ny_def inside none True]) simp_all
        next
          case False
          then show thesis using run None by (intro flies [OF act nx_def ny_def inside none False]) simp_all
        qed
      next
        case (Some p)
        then obtain k where k: "k < 4" "p = [0..<MAX_PLAYERS] ! k" "shot_hits r pre i nx ny p"
          "\<And>j. j < k \<Longrightarrow> \<not> shot_hits r pre i nx ny ([0..<MAX_PLAYERS] ! j)"
          by (auto simp: find_Some_iff)
        then have "p = k" "\<And>j. j < p \<Longrightarrow> \<not> shot_hits r pre i nx ny j" by (auto simp: nth_upt)
        then show thesis using run Some k by (intro hit [OF act nx_def ny_def inside]) simp_all
      qed
    qed
  qed
qed

lemma base_ok_step_shot [simp]:
  assumes "base_ok r" "i < 4"
  shows "base_ok (snd (step_shot now pre i r))"
  by (rule step_shot_cases [of r i now pre])
    (use assms in \<open>simp_all add: base_ok_advance split_beta\<close>)

lemma base_ok_clear_burst [simp]: "base_ok r \<Longrightarrow> base_ok (clear_burst_step i r)"
proof -
  assume ok: "base_ok r"
  have dec: "b - 1 \<le> (3 :: u8)" if "b \<le> 3" "b \<noteq> 0" for b
    using that by unat_arith
  show ?thesis
  proof (cases "s_clear_burst (r_shots r ! i) = 0")
    case False
    then show ?thesis
      using ok dec by (auto simp: clear_burst_step_def shot_ok_def intro!: base_ok_announce_shot base_ok_upd_shot)
  qed (simp add: clear_burst_step_def ok)
qed

lemma base_ok_step_shots [simp]:
  assumes "base_ok r"
  shows "base_ok (step_shots pre r)"
proof -
  have "base_ok (snd (for_until (step_shot (room_now r) pre) [0..<4] (room_now_read r)))"
    by (rule for_until_invariant) (simp_all add: assms)
  then show ?thesis
    by (auto simp: step_shots_def Let_def split_beta intro!: for_slots_invariant [of base_ok])
qed

section \<open>Seats, rounds and scores under combat\<close>

lemma rkey_combat [simp]:
  "rkey (apply_move_if_free i r) = rkey r" "rkey (break_brick x y at r) = rkey r"
  "rkey (snd (hit_victim sh p now at r)) = rkey r" "rkey (launch_shot sh sx sy dx dy r) = rkey r"
  "rkey (retire_shot i r) = rkey r" "rkey (advance_shot i x y r) = rkey r"
  "rkey (clear_burst_step i r) = rkey r"
  by (simp_all add: apply_move_if_free_def break_brick_def hit_victim_def launch_shot_def retire_shot_def
      advance_shot_def clear_burst_step_def Let_def split_beta split: option.split)

lemma rkey_start_shot [simp]: "rkey (start_shot sh joy r) = rkey r"
  by (rule start_shot_cases [of sh joy r]) (simp_all add: split_beta)

lemma rkey_step_shot [simp]: "rkey (snd (step_shot now pre i r)) = rkey r"
  by (rule step_shot_cases [of r i now pre]) (simp_all add: split_beta)

lemma rkey_step_shots [simp]: "rkey (step_shots pre r) = rkey r"
proof -
  have "rkey (snd (for_until (step_shot now pre) [0..<4] (room_now_read r))) = rkey r" for now
    by (subst for_until_preserves) simp_all
  then show ?thesis
    by (simp add: step_shots_def Let_def split_beta for_slots_preserves [where g = rkey])
qed

lemma round_ok_move [simp]: "round_ok r \<Longrightarrow> base_ok r \<Longrightarrow> round_ok (apply_move_if_free i r)"
  by (auto simp: apply_move_if_free_def Let_def intro!: round_ok_upd_player split: option.split)

lemma round_ok_break [simp]: "round_ok (break_brick x y at r) = round_ok r"
  by (simp add: break_brick_def)

lemma round_ok_hit [simp]: "round_ok r \<Longrightarrow> base_ok r \<Longrightarrow> round_ok (snd (hit_victim sh p now at r))"
  by (simp add: hit_victim_def split_beta round_ok_respawn_at)

lemma round_ok_shot_ops [simp]:
  "round_ok (launch_shot sh sx sy dx dy r) = round_ok r" "round_ok (retire_shot i r) = round_ok r"
  "round_ok (advance_shot i x y r) = round_ok r" "round_ok (clear_burst_step i r) = round_ok r"
  by (simp_all add: launch_shot_def retire_shot_def advance_shot_def clear_burst_step_def Let_def)

lemma round_ok_start_shot [simp]: "round_ok r \<Longrightarrow> base_ok r \<Longrightarrow> round_ok (start_shot sh joy r)"
  by (rule start_shot_cases [of sh joy r]) (simp_all add: split_beta)

lemma round_ok_step_shot [simp]: "round_ok r \<Longrightarrow> base_ok r \<Longrightarrow> round_ok (snd (step_shot now pre i r))"
  by (rule step_shot_cases [of r i now pre]) (simp_all add: split_beta)

lemma round_ok_step_shots [simp]:
  assumes "round_ok r" "base_ok r"
  shows "round_ok (step_shots pre r)"
proof -
  let ?P = "\<lambda>r. round_ok r \<and> base_ok r"
  have "?P (snd (for_until (step_shot now pre) [0..<4] (room_now_read r)))" for now
    by (rule for_until_invariant) (simp_all add: assms)
  then show ?thesis
    by (simp add: step_shots_def Let_def split_beta)
      (auto intro!: for_slots_invariant [of ?P, THEN conjunct1])
qed

text \<open>Combat never leaves an open round except into the results, and never moves the deadline.\<close>

lemma enter_round_over_phase [simp]:
  "r_round_state (enter_round_over sh now r) =
     (if r_round_state r = ROUND_PLAYING then ROUND_OVER else r_round_state r)"
  "r_no_human_deadline_ms (enter_round_over sh now r) = r_no_human_deadline_ms r"
  using enter_round_over_result(1,8) [OF _ refl, of r sh now] enter_round_over_not_playing [of r sh now]
  by (cases "r_round_state r = ROUND_PLAYING"; simp)+

lemma upd_player_phase [simp]:
  "r_round_state (upd_player i f r) = r_round_state r"
  "r_no_human_deadline_ms (upd_player i f r) = r_no_human_deadline_ms r"
  by (simp_all add: upd_player_def)

lemma award_phase:
  "r_round_state (snd (award_score sh now r)) = r_round_state r \<or> r_round_state (snd (award_score sh now r)) = ROUND_OVER"
  "r_no_human_deadline_ms (snd (award_score sh now r)) = r_no_human_deadline_ms r"
  by (auto simp: award_score_def Let_def)

section \<open>Shots stay in the open\<close>

definition shots_open :: "room \<Rightarrow> bool" where
  "shots_open r \<longleftrightarrow> (\<forall>i < MAX_PLAYERS. s_active (r_shots r ! i) \<longrightarrow>
     \<not> is_brick (r_brick_bits r) (uint (s_x (r_shots r ! i))) (uint (s_y (r_shots r ! i))))"

lemma shots_open_rcore: "rcore r = rcore q \<Longrightarrow> shots_open r = shots_open q"
  by (simp add: shots_open_def rcoreD [of r q])

lemmas shots_open_transmissions [simp] =
  shots_open_rcore [OF rcore_announce_shot] shots_open_rcore [OF rcore_announce_brick]
  shots_open_rcore [OF rcore_announce_respawn] shots_open_rcore [OF rcore_now_read]

lemma shots_open_upd_player [simp]: "shots_open (upd_player i f r) = shots_open r"
  by (simp add: shots_open_def upd_player_def)

lemma shots_open_clear:
  assumes "shots_open r" "length (r_brick_bits r) = 48"
  shows "shots_open (r\<lparr>r_brick_bits := clear_brick (r_brick_bits r) x y\<rparr>)"
  using assms by (simp add: shots_open_def is_brick_clear_brick)

lemma shots_open_break: "shots_open r \<Longrightarrow> base_ok r \<Longrightarrow> shots_open (break_brick x y at r)"
  by (simp add: break_brick_def shots_open_clear base_ok_lengths)

lemma shots_open_upd_shot:
  assumes "shots_open r" "base_ok r"
    and "i < 4 \<Longrightarrow> s_active (f (r_shots r ! i)) \<Longrightarrow>
      \<not> is_brick (r_brick_bits r) (uint (s_x (f (r_shots r ! i)))) (uint (s_y (f (r_shots r ! i))))"
  shows "shots_open (upd_shot i f r)"
  using assms base_ok_lengths(3) [OF assms(2)]
  by (auto simp: shots_open_def upd_shot_def nth_modify)

lemma shots_open_award: "shots_open r \<Longrightarrow> shots_open (snd (award_score sh now r))"
proof -
  assume s: "shots_open r"
  have "shots_open (enter_round_over sh now q)" if "shots_open q" for q
  proof (cases "r_round_state q = ROUND_PLAYING")
    case True
    then have "r_shots (enter_round_over sh now q) = replicate 4 shot_zero"
      by (rule enter_round_over_result(13) [OF _ refl])
    then show ?thesis by (simp add: shots_open_def shot_zero_def)
  next
    case False
    then show ?thesis using that by (simp add: enter_round_over_not_playing)
  qed
  then show ?thesis using s by (simp add: award_score_def Let_def)
qed

lemma shots_open_hit: "shots_open r \<Longrightarrow> shots_open (snd (hit_victim sh p now at r))"
  using shots_open_award [of r sh now] by (simp add: hit_victim_def split_beta)

lemma shots_open_retire: "shots_open r \<Longrightarrow> base_ok r \<Longrightarrow> shots_open (retire_shot i r)"
  unfolding retire_shot_def shots_open_transmissions by (rule shots_open_upd_shot) simp_all

lemma in_bounds_uint:
  "\<not> (x < 0 \<or> x > 19 \<or> y < 0 \<or> y > 18) \<Longrightarrow> uint (of_int x :: u8) = x \<and> uint (of_int y :: u8) = y"
  by (auto intro!: uint_of_int_cell)

lemma shots_open_launch:
  assumes "shots_open r" "base_ok r" "\<not> (sx < 0 \<or> sx > 19 \<or> sy < 0 \<or> sy > 18)" "\<not> is_brick (r_brick_bits r) sx sy"
  shows "shots_open (launch_shot sh sx sy dx dy r)"
  unfolding launch_shot_def
  using assms(4) in_bounds_uint [OF assms(3)] by (intro shots_open_upd_shot [OF assms(1,2)]) simp

lemma shots_open_advance:
  assumes "shots_open r" "base_ok r" "\<not> (sx < 0 \<or> sx > 19 \<or> sy < 0 \<or> sy > 18)" "\<not> is_brick (r_brick_bits r) sx sy"
  shows "shots_open (advance_shot i sx sy r)"
  unfolding advance_shot_def Let_def shots_open_transmissions
  using assms(4) in_bounds_uint [OF assms(3)] by (intro shots_open_upd_shot [OF assms(1,2)]) simp

lemma shots_open_start_shot: "shots_open r \<Longrightarrow> base_ok r \<Longrightarrow> shots_open (start_shot sh joy r)"
  by (rule start_shot_cases [of sh joy r])
    (simp_all add: split_beta shots_open_break shots_open_hit shots_open_launch)

lemma shots_open_step_shot: "shots_open r \<Longrightarrow> base_ok r \<Longrightarrow> shots_open (snd (step_shot now pre i r))"
  by (rule step_shot_cases [of r i now pre])
    (simp_all add: split_beta shots_open_break shots_open_hit shots_open_retire shots_open_advance)

lemma shots_open_clear_burst: "shots_open r \<Longrightarrow> base_ok r \<Longrightarrow> shots_open (clear_burst_step i r)"
  by (auto simp: clear_burst_step_def shots_open_def base_ok_lengths upd_shot_def nth_modify)

lemma shots_open_step_shots:
  assumes "shots_open r" "base_ok r"
  shows "shots_open (step_shots pre r)"
proof -
  let ?P = "\<lambda>r. shots_open r \<and> base_ok r"
  have "?P (snd (for_until (step_shot now pre) [0..<4] (room_now_read r)))" for now
    by (rule for_until_invariant) (simp_all add: assms shots_open_step_shot)
  then show ?thesis
    by (simp add: step_shots_def Let_def split_beta)
      (auto intro!: for_slots_invariant [of ?P, THEN conjunct1] simp: shots_open_clear_burst)
qed

section \<open>Phases under combat\<close>

text \<open>From \<open>r\<close> to \<open>q\<close> the phase stays or an open round ends; the grace deadline stays.\<close>

definition phase_ext :: "room \<Rightarrow> room \<Rightarrow> bool" where
  "phase_ext r q \<longleftrightarrow> r_no_human_deadline_ms q = r_no_human_deadline_ms r \<and>
     (r_round_state q = r_round_state r \<or> r_round_state r = ROUND_PLAYING \<and> r_round_state q = ROUND_OVER)"

lemma phase_ext_trans: "phase_ext r q \<Longrightarrow> phase_ext q u \<Longrightarrow> phase_ext r u"
  by (auto simp: phase_ext_def)

lemma phase_ext_rround: "rround q = rround r \<Longrightarrow> phase_ext r q"
  by (simp add: phase_ext_def rround_def)

lemma phase_ext_after: "phase_ext r q \<Longrightarrow> rround u = rround q \<Longrightarrow> phase_ext r u"
  by (simp add: phase_ext_def rround_def)

lemma rround_combat [simp]:
  "rround (apply_move_if_free i r) = rround r" "rround (break_brick x y at r) = rround r"
  "rround (launch_shot sh sx sy dx dy r) = rround r" "rround (retire_shot i r) = rround r"
  "rround (advance_shot i x y r) = rround r" "rround (clear_burst_step i r) = rround r"
  by (simp_all add: apply_move_if_free_def break_brick_def launch_shot_def retire_shot_def
      advance_shot_def clear_burst_step_def Let_def split_beta split: option.split)

lemma phase_ext_award: "phase_ext r (snd (award_score sh now r))"
  by (auto simp: award_score_def Let_def phase_ext_def)

lemma phase_ext_hit: "phase_ext r (snd (hit_victim sh p now at r))"
  using phase_ext_award [of r sh now]
  by (auto simp: hit_victim_def split_beta intro: phase_ext_after)

lemma phase_ext_now: "phase_ext (room_now_read r) q \<Longrightarrow> phase_ext r q"
  by (simp add: phase_ext_def)

lemma phase_ext_start_shot: "phase_ext r (start_shot sh joy r)"
proof (rule start_shot_cases [of sh joy r])
  fix sx sy p
  assume run: "start_shot sh joy r = (let (ended, r1) = hit_victim sh p (room_now r) None (room_now_read r) in
             if ended then r1 else announce_shot sh 0 0 0 r1)"
  have "phase_ext (room_now_read r) (snd (hit_victim sh p (room_now r) None (room_now_read r)))"
    by (rule phase_ext_hit)
  then show ?thesis unfolding run
    by (auto simp: split_beta intro: phase_ext_now phase_ext_after)
qed (simp_all add: phase_ext_rround)

lemma phase_ext_step_shot: "phase_ext r (snd (step_shot now pre i r))"
proof (rule step_shot_cases [of r i now pre])
  fix nx ny p
  assume run: "step_shot now pre i r = (let (ended, r1) = hit_victim i p now (Some now) r in
           if ended then (True, r1) else (False, retire_shot i r1))"
  show ?thesis unfolding run using phase_ext_hit [of r i p now "Some now"]
    by (auto simp: split_beta intro: phase_ext_after)
qed (simp_all add: phase_ext_rround)

lemma phase_ext_step_shots: "phase_ext r (step_shots pre r)"
proof -
  have "phase_ext r (snd (for_until (step_shot now pre) [0..<4] (room_now_read r)))" for now
    by (rule for_until_invariant) (auto intro: phase_ext_trans phase_ext_step_shot phase_ext_rround)
  moreover have "rround (for_slots clear_burst_step q) = rround q" for q
    by (rule for_slots_preserves) simp
  ultimately show ?thesis
    by (auto simp: step_shots_def Let_def split_beta intro: phase_ext_after)
qed

section \<open>Lemmas: movement\<close>

lemma cardinal_unit: "is_cardinal dx dy \<Longrightarrow> \<bar>dx\<bar> + \<bar>dy\<bar> = 1"
  by (auto simp: is_cardinal_def)

lemma clamp_unit:
  assumes "0 \<le> v" "v \<le> hi"
  shows "\<bar>clamp hi (v + d) - v\<bar> \<le> \<bar>d\<bar>"
  using assms by (auto simp: clamp_def Let_def)

lemma on_board_upd_player:
  assumes "\<And>p. respawn_at_ms (f p) = respawn_at_ms p"
  shows "slot_on_board (upd_player i f r) j = slot_on_board r j"
  using assms by (cases "i < length (r_players r)")
    (auto simp: slot_on_board_def upd_player_def modify_def nth_list_update list_update_beyond)

definition actor_cell :: "room \<Rightarrow> nat \<Rightarrow> int \<times> int" where
  "actor_cell r i = (uint (p_x (r_players r ! i)), uint (p_y (r_players r ! i)))"

definition cell_distance :: "int \<times> int \<Rightarrow> int \<times> int \<Rightarrow> int" where
  "cell_distance a b = \<bar>fst a - fst b\<bar> + \<bar>snd a - snd b\<bar>"

text \<open>What one move does, as a disjunction of staying and stepping.\<close>

lemma move_cases:
  assumes "base_ok r" "i < 4"
  obtains (stays) "apply_move_if_free i r = r"
    | (steps) nx ny where "on_map nx ny" "\<not> is_brick (r_brick_bits r) nx ny" "\<not> is_player_at r nx ny (Some i)"
        "\<bar>nx - uint (p_x (r_players r ! i))\<bar> + \<bar>ny - uint (p_y (r_players r ! i))\<bar> \<le> 1"
        "apply_move_if_free i r = upd_player i (\<lambda>p. p\<lparr>p_x := of_int nx, p_y := of_int ny\<rparr>) r"
proof (cases "stick_to_cardinal_delta (p_joy (r_players r ! i) AND 0x0F)")
  case None
  then show thesis by (intro stays) (simp add: apply_move_if_free_def Let_def)
next
  case (Some d)
  let ?p = "r_players r ! i"
  obtain dx dy where d: "d = (dx, dy)" by force
  define nx where "nx = clamp 19 (uint (p_x ?p) + dx)"
  define ny where "ny = clamp 18 (uint (p_y ?p) + dy)"
  have cell: "uint (p_x ?p) < 20" "uint (p_y ?p) < 19"
    using base_ok_player [OF assms] by (simp_all add: player_ok_def cell_ok_def)
  have on: "on_map nx ny"
    using clamp_range [of 19 "uint (p_x ?p) + dx"] clamp_range [of 18 "uint (p_y ?p) + dy"]
    by (simp add: on_map_def nx_def ny_def)
  have near: "\<bar>nx - uint (p_x ?p)\<bar> + \<bar>ny - uint (p_y ?p)\<bar> \<le> 1"
    using clamp_unit [of "uint (p_x ?p)" 19 dx] clamp_unit [of "uint (p_y ?p)" 18 dy] cell
      cardinal_unit [of dx dy] cardinal_delta Some d unfolding nx_def ny_def by fastforce
  have run: "apply_move_if_free i r =
      (if \<not> is_brick (r_brick_bits r) nx ny \<and> \<not> is_player_at r nx ny (Some i)
       then upd_player i (\<lambda>p. p\<lparr>p_x := of_int nx, p_y := of_int ny\<rparr>) r else r)"
    using Some d by (simp only: apply_move_if_free_def Let_def nx_def ny_def option.case prod.case)
  show thesis
  proof (cases "\<not> is_brick (r_brick_bits r) nx ny \<and> \<not> is_player_at r nx ny (Some i)")
    case True
    then show thesis using run on near by (intro steps) auto
  next
    case False
    then show thesis using run by (intro stays) auto
  qed
qed

text \<open>
  No two actors come together: whoever shares a cell afterwards shared it before, with neither of
  them having moved.
\<close>

definition no_meeting :: "room \<Rightarrow> room \<Rightarrow> bool" where
  "no_meeting r q \<longleftrightarrow> (\<forall>i < 4. \<forall>j < 4. i \<noteq> j \<longrightarrow> slot_on_board q i \<longrightarrow> slot_on_board q j \<longrightarrow>
     actor_cell q i = actor_cell q j \<longrightarrow>
     slot_on_board r i \<and> slot_on_board r j \<and> actor_cell r i = actor_cell q i \<and> actor_cell r j = actor_cell q j)"

lemma no_meeting_refl [simp]: "no_meeting r r"
  by (simp add: no_meeting_def)

lemma no_meeting_trans: "no_meeting r q \<Longrightarrow> no_meeting q u \<Longrightarrow> no_meeting r u"
  unfolding no_meeting_def by metis

lemma apart_cells: "actors_apart r \<longleftrightarrow> (\<forall>i < 4. \<forall>j < 4. i \<noteq> j \<longrightarrow> slot_on_board r i \<longrightarrow> slot_on_board r j \<longrightarrow>
    actor_cell r i \<noteq> actor_cell r j)"
  by (simp add: actors_apart_def actor_cell_def word_uint_eq_iff)

lemma no_meeting_apart: "no_meeting r q \<Longrightarrow> actors_apart r \<Longrightarrow> actors_apart q"
  unfolding no_meeting_def apart_cells by metis

text \<open>One actor goes to a cell where no other stands; the rest stay or leave the board.\<close>

lemma no_meeting_one:
  assumes "\<And>j. j < 4 \<Longrightarrow> j \<noteq> i \<Longrightarrow> actor_cell q j = actor_cell r j \<and> (slot_on_board q j \<longrightarrow> slot_on_board r j)"
    and "\<And>j. j < 4 \<Longrightarrow> j \<noteq> i \<Longrightarrow> slot_on_board r j \<Longrightarrow> actor_cell q i \<noteq> actor_cell r j"
  shows "no_meeting r q"
  unfolding no_meeting_def
proof (intro allI impI)
  fix j k :: nat
  assume jk: "j < 4" "k < 4" "j \<noteq> k" "slot_on_board q j" "slot_on_board q k" "actor_cell q j = actor_cell q k"
  have "j \<noteq> i" using assms(1) [OF jk(2)] assms(2) [OF jk(2)] jk by metis
  moreover have "k \<noteq> i" using assms(1) [OF jk(1)] assms(2) [OF jk(1)] jk by metis
  ultimately show "slot_on_board r j \<and> slot_on_board r k \<and> actor_cell r j = actor_cell q j \<and> actor_cell r k = actor_cell q k"
    using assms(1) jk by simp
qed

lemma no_meeting_move:
  assumes "base_ok r" "i < 4"
  shows "no_meeting r (apply_move_if_free i r)"
proof (rule move_cases [OF assms(1,2)])
  fix nx ny
  let ?q = "upd_player i (\<lambda>p. p\<lparr>p_x := of_int nx, p_y := of_int ny\<rparr>) r"
  assume free: "\<not> is_player_at r nx ny (Some i)" and run: "apply_move_if_free i r = ?q" and on: "on_map nx ny"
  have board: "slot_on_board ?q j = slot_on_board r j" for j by (rule on_board_upd_player) simp
  have pl: "r_players ?q ! j = (if i = j then (r_players r ! i)\<lparr>p_x := of_int nx, p_y := of_int ny\<rparr> else r_players r ! j)"
    if "j < 4" for j using that base_ok_lengths(2) [OF assms(1)] by (simp add: upd_player_def nth_modify)
  have "actor_cell ?q i \<noteq> actor_cell r j" if j: "j < 4" "j \<noteq> i" "slot_on_board r j" for j
  proof
    assume "actor_cell ?q i = actor_cell r j"
    then have "p_x (r_players r ! j) = of_int nx" "p_y (r_players r ! j) = of_int ny"
      using assms(2) by (simp_all add: actor_cell_def pl word_uint_eq_iff)
    then show False using free j by (auto simp: is_player_at_iff)
  qed
  then show ?thesis unfolding run
    by (intro no_meeting_one [of i]) (auto simp: actor_cell_def pl board)
qed simp

section \<open>Properties\<close>

text \<open>
  A move is legal. It changes nothing but the mover's cell, by at most one step; if the cell
  changes, the new one is on the map, is not a brick and holds no other actor on the board; and
  if no two actors shared a cell before, none do afterwards.
\<close>

theorem move_is_legal:
  assumes "base_ok r" "i < MAX_PLAYERS" "q = apply_move_if_free i r"
  shows "q = r\<lparr>r_players := (r_players r)[i := (r_players r ! i)
        \<lparr>p_x := p_x (r_players q ! i), p_y := p_y (r_players q ! i)\<rparr>]\<rparr> \<and>
    cell_distance (actor_cell r i) (actor_cell q i) \<le> 1 \<and>
    (actor_cell q i = actor_cell r i \<or>
      on_map (fst (actor_cell q i)) (snd (actor_cell q i)) \<and>
      is_brick (r_brick_bits r) (fst (actor_cell q i)) (snd (actor_cell q i)) = False \<and>
      is_player_at r (fst (actor_cell q i)) (snd (actor_cell q i)) (Some i) = False) \<and>
    (actors_apart r \<longrightarrow> actors_apart q) \<and> base_ok q"
proof -
  have len: "i < length (r_players r)" using base_ok_lengths(2) [OF assms(1)] assms(2) by simp
  have apart: "actors_apart r \<longrightarrow> actors_apart q" "base_ok q"
    using no_meeting_apart [OF no_meeting_move [OF assms(1,2)]] assms(1,3) by simp_all
  show ?thesis
  proof (rule move_cases [OF assms(1,2)])
    assume "apply_move_if_free i r = r"
    then show ?thesis using apart assms(3) by (simp add: cell_distance_def)
  next
    fix nx ny
    assume on: "on_map nx ny" and free: "\<not> is_brick (r_brick_bits r) nx ny" "\<not> is_player_at r nx ny (Some i)"
      and near: "\<bar>nx - uint (p_x (r_players r ! i))\<bar> + \<bar>ny - uint (p_y (r_players r ! i))\<bar> \<le> 1"
      and run: "apply_move_if_free i r = upd_player i (\<lambda>p. p\<lparr>p_x := of_int nx, p_y := of_int ny\<rparr>) r"
    have u: "uint (of_int nx :: u8) = nx" "uint (of_int ny :: u8) = ny"
      using on by (simp_all add: on_map_def uint_of_int_cell)
    have q: "r_players q ! i = (r_players r ! i)\<lparr>p_x := of_int nx, p_y := of_int ny\<rparr>"
      using run assms(3) len by (simp add: upd_player_def nth_modify)
    have at: "actor_cell q i = (nx, ny)" by (simp add: actor_cell_def q u)
    have "q = r\<lparr>r_players := (r_players r)[i := (r_players r ! i)
        \<lparr>p_x := p_x (r_players q ! i), p_y := p_y (r_players q ! i)\<rparr>]\<rparr>"
      unfolding q using run assms(3) by (simp add: upd_player_def modify_def)
    moreover have "cell_distance (actor_cell r i) (nx, ny) \<le> 1"
      using near by (simp add: cell_distance_def actor_cell_def abs_minus_commute)
    ultimately show ?thesis using at on free apart by simp
  qed
qed

definition demo_runner :: room where
  "demo_runner = upd_player 0 (\<lambda>p. p\<lparr>p_joy := 0x07\<rparr>) (demo_room\<lparr>r_occupied_mask := 15\<rparr>)"

lemma demo_runner_ok: "base_ok demo_runner"
  unfolding demo_runner_def
  by (rule base_ok_upd_player) (simp_all add: demo_room_base_ok player_ok_def joy_bytes_def)

theorem move_is_legal_witness:
  "cell_distance (actor_cell demo_runner 0) (actor_cell (apply_move_if_free 0 demo_runner) 0) \<le> 1"
  using move_is_legal [OF demo_runner_ok _ refl, of 0] by simp

text \<open>
  Who may fire, and at what. A trigger press does nothing when the shooter awaits respawn, has
  a shot in flight or gives no direction with the trigger. Otherwise at most one of these happens:
  one brick that is not outer wall disappears, one other actor on the board is hit, or the
  shooter's own shot starts on an open, empty map cell next to it; other shots are untouched while
  the round stays open.
\<close>

theorem start_shot_guarded:
  assumes "base_ok r" "sh < MAX_PLAYERS" "q = start_shot sh joy r"
  shows "(respawn_at_ms (r_players r ! sh) \<noteq> 0 \<or> s_active (r_shots r ! sh) \<or> joy AND 0x10 = 0 \<or>
      stick_to_cardinal_delta (joy AND 0x0F) = None \<longrightarrow> q = r) \<and>
    bricks_below (r_brick_bits q) (r_brick_reset_bits r) \<and>
    (r_shots q = r_shots r \<or> r_round_state q = ROUND_OVER \<or>
     (\<exists>s. r_shots q = (r_shots r)[sh := s] \<and> s_active s \<and>
        cell_distance (actor_cell r sh) (uint (s_x s), uint (s_y s)) = 1 \<and>
        is_brick (r_brick_bits r) (uint (s_x s)) (uint (s_y s)) = False \<and>
        is_player_at r (uint (s_x s)) (uint (s_y s)) (Some sh) = False))"
proof -
  have none: "respawn_at_ms (r_players r ! sh) \<noteq> 0 \<or> s_active (r_shots r ! sh) \<or> joy AND 0x10 = 0 \<or>
      stick_to_cardinal_delta (joy AND 0x0F) = None \<longrightarrow> q = r"
    unfolding assms(3) start_shot_def Let_def by auto
  have "base_ok q" using assms(1,3) by simp
  then have bricks: "bricks_below (r_brick_bits q) (r_brick_reset_bits r)"
    using rkeyD(2) [of q r] assms(3) by (simp add: base_ok_def board_ok_def)
  have "r_shots q = r_shots r \<or> r_round_state q = ROUND_OVER \<or>
     (\<exists>s. r_shots q = (r_shots r)[sh := s] \<and> s_active s \<and>
        cell_distance (actor_cell r sh) (uint (s_x s), uint (s_y s)) = 1 \<and>
        is_brick (r_brick_bits r) (uint (s_x s)) (uint (s_y s)) = False \<and>
        is_player_at r (uint (s_x s)) (uint (s_y s)) (Some sh) = False)"
  proof (rule start_shot_cases [of sh joy r])
    fix sx sy
    assume "start_shot sh joy r = break_brick sx sy None r"
    then show ?thesis by (simp add: assms(3) break_brick_def)
  next
    fix p
    assume run: "start_shot sh joy r = (let (ended, r1) = hit_victim sh p (room_now r) None (room_now_read r) in
             if ended then r1 else announce_shot sh 0 0 0 r1)"
    have "r_shots (snd (award_score sh t u)) = r_shots u \<or> r_round_state (snd (award_score sh t u)) = ROUND_OVER" for t u
      by (auto simp: award_score_def Let_def upd_player_def)
    from this [of "room_now r" "room_now_read r"] show ?thesis
      unfolding assms(3) run hit_victim_def by (auto simp: split_beta upd_player_def)
  next
    fix sx sy dx dy
    assume card: "is_cardinal dx dy" and at: "sx = uint (p_x (r_players r ! sh)) + dx"
        "sy = uint (p_y (r_players r ! sh)) + dy"
      and inside: "\<not> (sx < 0 \<or> sx > 19 \<or> sy < 0 \<or> sy > 18)"
      and free: "\<not> is_brick (r_brick_bits r) sx sy" "\<not> is_player_at r sx sy (Some sh)"
      and run: "start_shot sh joy r = launch_shot sh sx sy dx dy r"
    have u: "uint (of_int sx :: u8) = sx" "uint (of_int sy :: u8) = sy" using in_bounds_uint [OF inside] by auto
    have "cell_distance (actor_cell r sh) (sx, sy) = 1"
      using cardinal_unit [OF card] at by (simp add: cell_distance_def actor_cell_def)
    then show ?thesis
      using run u free assms(3) by (intro disjI2 exI [of _ "(r_shots r ! sh)\<lparr>s_active := True, s_x := of_int sx,
        s_y := of_int sy, s_dx := dx, s_dy := dy, s_clear_burst := 0\<rparr>"])
        (simp add: launch_shot_def upd_shot_def modify_def)
  qed (simp add: assms(3))
  then show ?thesis using none bricks by blast
qed

theorem start_shot_guarded_witness:
  "start_shot 0 0x17 (upd_player 0 (\<lambda>p. p\<lparr>respawn_at_ms := 900\<rparr>) demo_runner) =
     upd_player 0 (\<lambda>p. p\<lparr>respawn_at_ms := 900\<rparr>) demo_runner"
proof -
  have ok: "base_ok (upd_player 0 (\<lambda>p. p\<lparr>respawn_at_ms := 900\<rparr>) demo_runner)"
    by (rule base_ok_respawn_at [OF demo_runner_ok])
  show ?thesis
    using start_shot_guarded [OF ok _ refl, of 0 "0x17"]
    by (simp add: demo_runner_def upd_player_def modify_def demo_room_def)
qed

text \<open>
  What hitting means, said without the code: the cell of the shot, the cell it goes to, and the
  other actors on the board that are on the second, or on the first having come there this tick.
\<close>

definition shot_cell :: "room \<Rightarrow> nat \<Rightarrow> int \<times> int" where
  "shot_cell r i = (uint (s_x (r_shots r ! i)), uint (s_y (r_shots r ! i)))"

definition shot_target :: "room \<Rightarrow> nat \<Rightarrow> int \<times> int" where
  "shot_target r i = (fst (shot_cell r i) + s_dx (r_shots r ! i), snd (shot_cell r i) + s_dy (r_shots r ! i))"

definition meets :: "room \<Rightarrow> (u8 \<times> u8) list \<Rightarrow> nat \<Rightarrow> nat \<Rightarrow> bool" where
  "meets r pre i p \<longleftrightarrow> p \<noteq> i \<and> slot_on_board r p \<and>
     (actor_cell r p = shot_target r i \<or>
      actor_cell r p = shot_cell r i \<and> (uint (fst (pre ! p)), uint (snd (pre ! p))) \<noteq> actor_cell r p)"

lemma shot_hits_meets:
  assumes "shot_target r i = (nx, ny)" "on_map nx ny"
  shows "shot_hits r pre i nx ny p = meets r pre i p"
proof -
  have "(x = of_int nx) = (uint x = nx)" "(y = of_int ny) = (uint y = ny)" for x y :: u8
    using assms(2) by (auto simp: on_map_def uint_of_int_cell)
  then show ?thesis
    by (auto simp: shot_hits_def meets_def Let_def assms(1) actor_cell_def shot_cell_def word_uint_eq_iff)
qed

lemma hd_filter_least:
  assumes "v < n" "P v" "\<And>j. j < v \<Longrightarrow> \<not> P j"
  shows "hd (filter P [0..<n]) = v"
proof -
  have "[0..<n] = [0..<v] @ v # [Suc v..<n]"
    using assms(1) by (metis less_imp_le upt_add_eq_append upt_conv_Cons le_add_diff_inverse zero_le)
  moreover have "filter P [0..<v] = []" using assms(3) by (auto simp: filter_empty_conv)
  ultimately show ?thesis using assms(2) by simp
qed

lemma retire_players: "r_players (retire_shot i r) = r_players r" "r_round_state (retire_shot i r) = r_round_state r"
  by (simp_all add: retire_shot_def upd_shot_def)

lemma hit_exact:
  assumes "base_ok r" "round_ok r" "r_round_state r = ROUND_PLAYING" "i < 4" "v < 4" "v \<noteq> i"
    and "hit_victim i v now at r = (ended, q)"
  shows "map p_score (r_players q) = (map p_score (r_players r))[i := p_score (r_players r ! i) + 1] \<and>
    ended = (p_score (r_players r ! i) + 1 = kill_limit r) \<and>
    (if ended then r_round_state q = ROUND_OVER \<and> r_winner_pid q = of_nat i
     else r_round_state q = ROUND_PLAYING \<and>
       map respawn_at_ms (r_players q) = (map respawn_at_ms (r_players r))[v := now + 2000])"
proof -
  define sc where "sc = p_score (r_players r ! i) + 1"
  define u where "u = upd_player i (\<lambda>p. p\<lparr>p_score := sc\<rparr>) r"
  have len: "length (r_players r) = 4" by (rule base_ok_lengths(2) [OF assms(1)])
  have u: "r_players u = (r_players r)[i := (r_players r ! i)\<lparr>p_score := sc\<rparr>]" "r_round_state u = ROUND_PLAYING"
    using assms(3) by (simp_all add: u_def upd_player_def modify_def)
  have award: "award_score i now r = (if sc = kill_limit r then (True, enter_round_over i now u) else (False, u))"
    using award_score_cases [OF assms(3,1,2,4), of now] by (simp add: sc_def u_def)
  show ?thesis
  proof (cases "sc = kill_limit r")
    case True
    note over = enter_round_over_result [OF u(2) refl, of i now]
    have "ended" "q = enter_round_over i now u" using assms(7) award True by (simp_all add: hit_victim_def)
    then show ?thesis using True over(1,2,11) by (simp add: u(1) map_update sc_def [symmetric] o_def)
  next
    case False
    then have q: "\<not> ended" "q = announce_respawn v 0 0 1 at (upd_player v (\<lambda>p. p\<lparr>respawn_at_ms := now + 2000\<rparr>) u)"
      using assms(7) award by (simp_all add: hit_victim_def)
    have "r_players q = (r_players u)[v := (r_players u ! v)\<lparr>respawn_at_ms := now + 2000\<rparr>]" "r_round_state q = ROUND_PLAYING"
      using u(2) by (simp_all add: q(2) upd_player_def modify_def)
    then show ?thesis
      using False q(1) assms(4-6) len by (simp add: u(1) map_update sc_def [symmetric] list_eq_iff_nth_eq nth_list_update)
  qed
qed

text \<open>
  C30: No slipping through a shot. In an open round, when a live shot steps inside the maze: if it meets
  other actors on the board, on the cell it goes to or on its own cell when they came there this tick,
  the shooter scores exactly one and nobody else; on the last kill the round is over with the shooter as
  winner, otherwise the lowest of them and nobody else awaits respawn two seconds later, and the shot is
  gone. If it meets nobody, no actor changes.
\<close>

theorem shot_meets_actor:
  assumes "base_ok r" "round_ok r" "r_round_state r = ROUND_PLAYING" "i < MAX_PLAYERS" "s_active (r_shots r ! i)"
    and "on_map (fst (shot_target r i)) (snd (shot_target r i))" "step_shot now pre i r = (ended, q)"
  shows "if list_ex (meets r pre i) [0..<MAX_PLAYERS]
    then map p_score (r_players q) = (map p_score (r_players r))[i := p_score (r_players r ! i) + 1] \<and>
      ended = (p_score (r_players r ! i) + 1 = kill_limit r) \<and>
      (if ended then r_round_state q = ROUND_OVER \<and> r_winner_pid q = of_nat i
       else r_round_state q = ROUND_PLAYING \<and> s_active (r_shots q ! i) = False \<and>
         map respawn_at_ms (r_players q) =
           (map respawn_at_ms (r_players r))[hd (filter (meets r pre i) [0..<MAX_PLAYERS]) := now + 2000])
    else ended = False \<and> r_players q = r_players r"
proof -
  obtain nx ny where n: "shot_target r i = (nx, ny)" "on_map nx ny" using assms(6) by (metis prod.collapse)
  note hits = shot_hits_meets [OF n]
  have at: "x = nx \<and> y = ny" if "x = uint (s_x (r_shots r ! i)) + s_dx (r_shots r ! i)"
    "y = uint (s_y (r_shots r ! i)) + s_dy (r_shots r ! i)" for x y
    using n(1) that by (simp add: shot_target_def shot_cell_def)
  show ?thesis
  proof (rule step_shot_cases [of r i now pre])
    fix x y v
    assume xy: "x = uint (s_x (r_shots r ! i)) + s_dx (r_shots r ! i)" "y = uint (s_y (r_shots r ! i)) + s_dy (r_shots r ! i)"
      and v: "v < 4" "shot_hits r pre i x y v" "\<And>j. j < v \<Longrightarrow> \<not> shot_hits r pre i x y j"
      and run: "step_shot now pre i r = (let (ended, r1) = hit_victim i v now (Some now) r in
           if ended then (True, r1) else (False, retire_shot i r1))"
    have v': "meets r pre i v" "\<And>j. j < v \<Longrightarrow> \<not> meets r pre i j" using v(2,3) at [OF xy] hits by auto
    have some: "list_ex (meets r pre i) [0..<4]" using v(1) v'(1) by (auto simp: list_ex_iff)
    have least: "hd (filter (meets r pre i) [0..<4]) = v" using hd_filter_least [of v 4 "meets r pre i"] v(1) v' by blast
    obtain en r1 where hit: "hit_victim i v now (Some now) r = (en, r1)" by force
    have "v \<noteq> i" using v'(1) by (simp add: meets_def)
    note exact = hit_exact [OF assms(1-3) _ v(1) this hit]
    have "base_ok r1" using base_ok_hit [OF assms(1), of i v now "Some now"] hit by simp
    then have gone: "s_active (r_shots (retire_shot i r1) ! i) = False"
      using assms(4) base_ok_lengths(3) by (simp add: retire_shot_def upd_shot_def nth_modify)
    have "ended = en" "q = (if en then r1 else retire_shot i r1)" using assms(7) run by (auto simp: hit split: if_splits)
    then show ?thesis using exact assms(4) gone some least by (cases en) (simp_all add: retire_players)
  next
    fix x y
    assume "x = uint (s_x (r_shots r ! i)) + s_dx (r_shots r ! i)" "y = uint (s_y (r_shots r ! i)) + s_dy (r_shots r ! i)"
      and "x < 0 \<or> x > 19 \<or> y < 0 \<or> y > 18"
    then show ?thesis using at n(2) by (auto simp: on_map_def)
  next
    fix x y
    assume "x = uint (s_x (r_shots r ! i)) + s_dx (r_shots r ! i)" "y = uint (s_y (r_shots r ! i)) + s_dy (r_shots r ! i)"
      and none: "\<And>p. p < 4 \<Longrightarrow> \<not> shot_hits r pre i x y p"
      and run: "step_shot now pre i r = (False, retire_shot i (break_brick x y (Some now) r))"
    then have "\<not> list_ex (meets r pre i) [0..<4]" using at hits by (auto simp: list_ex_iff)
    then show ?thesis using run assms(7) by (auto simp: retire_players break_brick_def)
  next
    fix x y
    assume "x = uint (s_x (r_shots r ! i)) + s_dx (r_shots r ! i)" "y = uint (s_y (r_shots r ! i)) + s_dy (r_shots r ! i)"
      and none: "\<And>p. p < 4 \<Longrightarrow> \<not> shot_hits r pre i x y p" and run: "step_shot now pre i r = (False, advance_shot i x y r)"
    then have "\<not> list_ex (meets r pre i) [0..<4]" using at hits by (auto simp: list_ex_iff)
    then show ?thesis using run assms(7) by (auto simp: advance_shot_def Let_def upd_shot_def)
  qed (use assms(5) in simp)
qed

text \<open>An actor at (5,5) that has just left (6,5), and a shot moving from (5,5) to (6,5).\<close>

definition demo_exchange :: room where
  "demo_exchange = upd_shot 0 (\<lambda>s. s\<lparr>s_active := True, s_x := 5, s_y := 5, s_dx := 1, s_dy := 0\<rparr>)
     (upd_player 1 (\<lambda>p. p\<lparr>p_x := 5, p_y := 5\<rparr>) demo_runner)"

theorem shot_meets_actor_witness:
  "p_score (r_players (snd (step_shot 100 [(1, 1), (6, 5), (1, 17), (18, 17)] 0 demo_exchange)) ! 0) = 1 \<and>
   respawn_at_ms (r_players (snd (step_shot 100 [(1, 1), (6, 5), (1, 17), (18, 17)] 0 demo_exchange)) ! 1) = 2100"
proof -
  let ?pre = "[(1, 1), (6, 5), (1, 17), (18, 17)] :: (u8 \<times> u8) list"
  define q where "q = snd (step_shot 100 ?pre 0 demo_exchange)"
  have ok: "base_ok demo_exchange"
    unfolding demo_exchange_def
    by (intro base_ok_upd_shot base_ok_upd_player demo_runner_ok)
      (auto simp: shot_ok_def player_ok_def cell_ok_def is_cardinal_def)
  have rok: "round_ok demo_exchange"
    unfolding demo_exchange_def demo_runner_def
    by (simp, intro round_ok_upd_player base_ok_upd_player)
      (simp_all add: demo_room_round_ok demo_room_base_ok player_ok_def joy_bytes_def)
  have f: "r_shots demo_exchange ! 0 = \<lparr>s_active = True, s_x = 5, s_y = 5, s_dx = 1, s_dy = 0, s_clear_burst = 0\<rparr>"
    "r_players demo_exchange = [(demo_player 1 1)\<lparr>p_joy := 7\<rparr>, (demo_player 18 1)\<lparr>p_x := 5, p_y := 5\<rparr>,
       demo_player 1 17, demo_player 18 17]" "r_occupied_mask demo_exchange = 15"
    "r_round_state demo_exchange = ROUND_PLAYING" "kill_limit demo_exchange = 5"
    by (simp_all add: demo_exchange_def demo_runner_def demo_room_def upd_shot_def upd_player_def modify_def shot_zero_def
        kill_limit_def demo_config_def)
  have cells: "shot_cell demo_exchange 0 = (5, 5)" "shot_target demo_exchange 0 = (6, 5)"
    by (simp_all add: shot_target_def shot_cell_def f)
  have "meets demo_exchange ?pre 0 p = (p = 1)" if "p < 4" for p
  proof -
    have "p = 0 \<or> p = 1 \<or> p = 2 \<or> p = 3" using that by auto
    then show ?thesis
      by (auto simp: meets_def cells actor_cell_def slot_on_board_def f demo_player_def player_zero_def bit_numeral_rec)
  qed
  then have m: "list_ex (meets demo_exchange ?pre 0) [0..<4]" "filter (meets demo_exchange ?pre 0) [0..<4] = [1]"
    by (simp_all add: upt_conv_Cons)
  have act: "s_active (r_shots demo_exchange ! 0)"
    and on: "on_map (fst (shot_target demo_exchange 0)) (snd (shot_target demo_exchange 0))"
    by (simp_all add: f cells on_map_def)
  obtain ended where run: "step_shot 100 ?pre 0 demo_exchange = (ended, q)" by (metis prod.collapse q_def)
  from shot_meets_actor [OF ok rok f(4) _ act on run] m
  have "map p_score (r_players q) = [1, 0, 0, 0]" "map respawn_at_ms (r_players q) = [0, 2100, 0, 0]"
    by (simp_all add: f(2,5) demo_player_def player_zero_def)
  then show ?thesis unfolding q_def [symmetric] by (auto simp: map_eq_Cons_conv)
qed

text \<open>
  Shots fly through open cells only. If every live shot is over an open cell, the same holds
  after any trigger press and after a step of all the shots; the board stays well formed.
\<close>

theorem shots_never_in_walls:
  assumes "base_ok r" "shots_open r"
  shows "shots_open (start_shot sh joy r) \<and> base_ok (start_shot sh joy r) \<and>
    shots_open (step_shots pre r) \<and> base_ok (step_shots pre r)"
  using assms by (simp add: shots_open_start_shot shots_open_step_shots)

theorem shots_never_in_walls_witness:
  "shots_open (step_shots [] demo_runner) \<and> shots_open (start_shot 0 0x17 demo_runner)"
proof -
  have "shots_open demo_runner"
    by (auto simp: shots_open_def demo_runner_def upd_player_def demo_room_def shot_zero_def)
  from shots_never_in_walls [OF demo_runner_ok this] show ?thesis by simp
qed

end
