(* ===== verification/Zombie.thy ===== *)
theory Zombie
  imports Combat
begin

text \<open>
  The zombie AI of \<^verbatim>\<open>server/main.c\<close>: whom it can shoot, where it walks, and the decision a
  zombie takes in one tick, with the pauses and cooldowns kept in its player record. Lemmas: the
  shot target is the nearest human in an unobstructed line, the chosen direction is free whenever
  any direction is, and a decision touches the zombie's own record only.
\<close>

section \<open>Directions\<close>

definition stick_from_dir :: "u8 \<Rightarrow> u8" where
  "stick_from_dir dir =
     (let d = dir AND 0x03 in
      if d = 0 then 0x07 else if d = 1 then 0x0D else if d = 2 then 0x0B
      else if d = 3 then 0x0E else 0x0F)"

definition dir_delta :: "u8 \<Rightarrow> int \<times> int" where
  "dir_delta dir =
     (let d = dir AND 0x03 in
      if d = 0 then (1, 0) else if d = 1 then (0, 1) else if d = 2 then (-1, 0)
      else if d = 3 then (0, -1) else (0, 0))"

definition dir_free :: "u8 \<Rightarrow> room \<Rightarrow> nat \<Rightarrow> bool" where
  "dir_free dir r idx =
     (let (dx, dy) = dir_delta dir;
          nx = uint (p_x (r_players r ! idx)) + dx; ny = uint (p_y (r_players r ! idx)) + dy in
      if is_brick (r_brick_bits r) nx ny then False
      else if is_player_at r nx ny (Some idx) then False
      else True)"

definition zombie_attempts_brick :: "room \<Rightarrow> nat \<Rightarrow> u8 \<Rightarrow> bool" where
  "zombie_attempts_brick r idx joy = (case stick_to_cardinal_delta (joy AND 0x0F) of
      None \<Rightarrow> False
    | Some (dx, dy) \<Rightarrow> is_brick (r_brick_bits r) (uint (p_x (r_players r ! idx)) + dx)
        (uint (p_y (r_players r ! idx)) + dy))"

definition zombie_attempts_breakable_brick :: "room \<Rightarrow> nat \<Rightarrow> u8 \<Rightarrow> bool" where
  "zombie_attempts_breakable_brick r idx joy = (case stick_to_cardinal_delta (joy AND 0x0F) of
      None \<Rightarrow> False
    | Some (dx, dy) \<Rightarrow>
        (let x = uint (p_x (r_players r ! idx)) + dx; y = uint (p_y (r_players r ! idx)) + dy in
         \<not> is_outer_wall_cell x y \<and> is_brick (r_brick_bits r) x y))"

section \<open>Shot targets\<close>

text \<open>The filter at the head of both target loops.\<close>

definition quarry :: "room \<Rightarrow> nat \<Rightarrow> bool list \<Rightarrow> nat \<Rightarrow> bool" where
  "quarry r idx human_mask p \<longleftrightarrow> human_mask ! p \<and> p \<noteq> idx \<and> respawn_at_ms (r_players r ! p) = 0"

definition same_row_open :: "room \<Rightarrow> nat \<Rightarrow> nat \<Rightarrow> bool" where
  "same_row_open r idx p \<longleftrightarrow> p_y (r_players r ! p) = p_y (r_players r ! idx) \<and>
     clear_row_shot (r_brick_bits r) (uint (p_y (r_players r ! idx)))
       (uint (p_x (r_players r ! idx))) (uint (p_x (r_players r ! p)))"

definition same_column_open :: "room \<Rightarrow> nat \<Rightarrow> nat \<Rightarrow> bool" where
  "same_column_open r idx p \<longleftrightarrow> p_x (r_players r ! p) = p_x (r_players r ! idx) \<and>
     clear_col_shot (r_brick_bits r) (uint (p_x (r_players r ! idx)))
       (uint (p_y (r_players r ! idx))) (uint (p_y (r_players r ! p)))"

definition row_dir :: "room \<Rightarrow> nat \<Rightarrow> nat \<Rightarrow> u8" where
  "row_dir r idx p = (if p_x (r_players r ! p) > p_x (r_players r ! idx) then 0 else 2)"

definition column_dir :: "room \<Rightarrow> nat \<Rightarrow> nat \<Rightarrow> u8" where
  "column_dir r idx p = (if p_y (r_players r ! p) > p_y (r_players r ! idx) then 1 else 3)"

text \<open>The loop state: the best target (\<open>None\<close> for -1), its distance and its direction.\<close>

type_synonym aim = "nat option \<times> int \<times> u8"

definition nearer :: "nat \<Rightarrow> int \<Rightarrow> u8 \<Rightarrow> aim \<Rightarrow> aim" where
  "nearer p distance dir best =
     (if distance < fst (snd best) then (Some p, distance, dir) else best)"

definition target_step :: "room \<Rightarrow> nat \<Rightarrow> bool list \<Rightarrow> nat \<Rightarrow> aim \<Rightarrow> aim" where
  "target_step r idx human_mask p best =
     (if \<not> quarry r idx human_mask p then best
      else let b1 = (if same_row_open r idx p
                     then nearer p \<bar>uint (p_x (r_players r ! p)) - uint (p_x (r_players r ! idx))\<bar>
                            (row_dir r idx p) best
                     else best) in
        (if same_column_open r idx p
         then nearer p \<bar>uint (p_y (r_players r ! p)) - uint (p_y (r_players r ! idx))\<bar>
                (column_dir r idx p) b1
         else b1))"

definition zombie_find_shot_target :: "room \<Rightarrow> nat \<Rightarrow> bool list \<Rightarrow> (nat \<times> u8) option" where
  "zombie_find_shot_target r idx human_mask =
     (case fold (target_step r idx human_mask) [0..<MAX_PLAYERS] (None, INT_MAX, 0xFF) of
        (None, _, _) \<Rightarrow> None
      | (Some best, _, best_dir) \<Rightarrow> Some (best, best_dir))"

text \<open>The kept target is an \<open>uint8_t\<close>, so it is never negative; 0xFF is out of range.\<close>

definition zombie_shot_target_valid :: "room \<Rightarrow> nat \<Rightarrow> bool list \<Rightarrow> u8 \<Rightarrow> u8 option" where
  "zombie_shot_target_valid r idx human_mask target8 =
     (let target = unat target8 in
      if target \<ge> MAX_PLAYERS then None
      else if \<not> human_mask ! target \<or> respawn_at_ms (r_players r ! target) \<noteq> 0 then None
      else if same_row_open r idx target then Some (row_dir r idx target)
      else if same_column_open r idx target then Some (column_dir r idx target)
      else None)"

section \<open>Pursuit\<close>

type_synonym chase = "nat option \<times> int \<times> int \<times> int"

definition chase_step :: "room \<Rightarrow> nat \<Rightarrow> bool list \<Rightarrow> nat \<Rightarrow> chase \<Rightarrow> chase" where
  "chase_step r idx human_mask p best =
     (if \<not> quarry r idx human_mask p then best
      else let dx = uint (p_x (r_players r ! idx)) - uint (p_x (r_players r ! p));
               dy = uint (p_y (r_players r ! idx)) - uint (p_y (r_players r ! p));
               adx = (if dx < 0 then - dx else dx);
               ady = (if dy < 0 then - dy else dy);
               dist = adx + ady in
        if dist < fst (snd best) then (Some p, dist, dx, dy) else best)"

text \<open>The one or two directions towards the target, the longer axis first.\<close>

definition chase_choices :: "int \<Rightarrow> int \<Rightarrow> u8 list" where
  "chase_choices best_dx best_dy =
     (let dir_x = (if best_dx > 0 then 2 else 0);
          dir_y = (if best_dy > 0 then 3 else 1);
          ys = (if best_dy \<noteq> 0 then [dir_y] else []);
          xs = (if best_dx \<noteq> 0 then [dir_x] else []) in
      if \<bar>best_dy\<bar> \<ge> \<bar>best_dx\<bar> then ys @ xs else xs @ ys)"

text \<open>Two passes over the same candidates; only the first spares the direct reversal.\<close>

definition first_free :: "room \<Rightarrow> nat \<Rightarrow> u8 list \<Rightarrow> u8 option" where
  "first_free r idx dirs =
     (let last = zombie_last_dir (r_players r ! idx); reverse = last XOR 0x02 in
      case find (\<lambda>dir. \<not> (last \<noteq> 0xFF \<and> dir = reverse) \<and> dir_free dir r idx) dirs of
        Some dir \<Rightarrow> Some dir
      | None \<Rightarrow> find (\<lambda>dir. dir_free dir r idx) dirs)"

definition zombie_choose_pursuit_dir :: "room \<Rightarrow> nat \<Rightarrow> bool list \<Rightarrow> u8" where
  "zombie_choose_pursuit_dir r idx human_mask =
     (case fold (chase_step r idx human_mask) [0..<MAX_PLAYERS] (None, 0x7FFF, 0, 0) of
        (None, _, _, _) \<Rightarrow> 0xFF
      | (Some _, _, best_dx, best_dy) \<Rightarrow>
          (case chase_choices best_dx best_dy of
             [] \<Rightarrow> 0xFF
           | choice # others \<Rightarrow>
               (case first_free r idx (choice # others) of
                  Some dir \<Rightarrow> dir
                | None \<Rightarrow> (case first_free r idx [0, 1, 2, 3] of Some dir \<Rightarrow> dir | None \<Rightarrow> choice))))"

section \<open>One decision\<close>

text \<open>
  The \<open>zombie_mask[i] && can_act\<close> block of \<open>step_players\<close>: its result is \<open>action_joy\<close>,
  \<open>can_move\<close> and the room. The four alternatives are the windup in progress, the start of a
  windup, the release of a pending shot at a brick, and the pursuit.
\<close>

definition zombie_windup :: "u64 \<Rightarrow> bool list \<Rightarrow> nat \<Rightarrow> room \<Rightarrow> u8 \<times> bool \<times> room" where
  "zombie_windup now human_mask i r =
     (let z = r_players r ! i in
      case zombie_shot_target_valid r i human_mask (zombie_fire_target z) of
        None \<Rightarrow> (0x0F, False, upd_player i (\<lambda>p. p\<lparr>zombie_fire_windup_until_ms := 0,
            zombie_fire_target := 0xFF, zombie_commit_moves_left := 0\<rparr>) r)
      | Some fire_dir \<Rightarrow>
          if now \<ge> zombie_fire_windup_until_ms z
          then (stick_from_dir fire_dir OR 0x10, False,
                upd_player i (\<lambda>p. p\<lparr>zombie_fire_windup_until_ms := 0, zombie_fire_target := 0xFF,
                  zombie_fire_next_ms := now + ZOMBIE_FIRE_COOLDOWN_MS, zombie_last_dir := fire_dir\<rparr>) r)
          else (0x0F, False, r))"

definition zombie_take_aim :: "u64 \<Rightarrow> nat \<Rightarrow> u8 \<Rightarrow> nat \<Rightarrow> room \<Rightarrow> room" where
  "zombie_take_aim now target dir i r =
     upd_player i (\<lambda>p. p\<lparr>zombie_fire_target := of_nat target,
       zombie_fire_windup_until_ms := now + ZOMBIE_FIRE_WINDUP_MIN_MS +
         of_nat (room_rand r mod (ZOMBIE_FIRE_WINDUP_SPREAD_MS + 1)),
       p_joy := stick_from_dir dir\<rparr>) (room_rand_read r)"

definition zombie_brick_release :: "u64 \<Rightarrow> nat \<Rightarrow> room \<Rightarrow> u8 \<times> bool \<times> room" where
  "zombie_brick_release now i r =
     (let brick_joy = stick_from_dir (zombie_brick_fire_dir (r_players r ! i));
          r1 = upd_player i (\<lambda>p. p\<lparr>zombie_brick_fire_pending := False\<rparr>) r in
      if \<not> s_active (r_shots r1 ! i) \<and> zombie_attempts_breakable_brick r1 i brick_joy
      then (brick_joy OR 0x10, False, upd_player i (\<lambda>p. p\<lparr>p_joy := brick_joy,
              zombie_brick_fire_next_ms := now + ZOMBIE_BRICK_FIRE_COOLDOWN_MS\<rparr>) r1)
      else (0x0F, False, r1))"

text \<open>A fresh commitment: a direction and, unless there is none, how many moves to keep it.\<close>

definition zombie_commit :: "bool list \<Rightarrow> nat \<Rightarrow> room \<Rightarrow> room" where
  "zombie_commit human_mask i r =
     (let dir = zombie_choose_pursuit_dir r i human_mask;
          r1 = upd_player i (\<lambda>p. p\<lparr>zombie_dir := dir\<rparr>) r in
      if dir = 0xFF then upd_player i (\<lambda>p. p\<lparr>zombie_commit_moves_left := 0\<rparr>) r1
      else upd_player i (\<lambda>p. p\<lparr>zombie_commit_moves_left :=
             of_nat (ZOMBIE_DECISION_MIN_MOVES +
               room_rand r1 mod (ZOMBIE_DECISION_MAX_MOVES - ZOMBIE_DECISION_MIN_MOVES + 1))\<rparr>)
             (room_rand_read r1))"

definition zombie_pursue :: "bool list \<Rightarrow> nat \<Rightarrow> room \<Rightarrow> u8 \<times> bool \<times> room" where
  "zombie_pursue human_mask i r =
     (let z = r_players r ! i;
          r1 = (if zombie_commit_moves_left z = 0 \<or> zombie_dir z = 0xFF
                then zombie_commit human_mask i r else r);
          dir = zombie_dir (r_players r1 ! i) in
      if dir \<noteq> 0xFF
      then (stick_from_dir dir, True, upd_player i (\<lambda>p. p\<lparr>p_joy := stick_from_dir dir\<rparr>) r1)
      else (0x0F, False, r1))"

definition zombie_turn :: "u64 \<Rightarrow> bool list \<Rightarrow> nat \<Rightarrow> room \<Rightarrow> u8 \<times> bool \<times> room" where
  "zombie_turn now human_mask i r =
     (let z = r_players r ! i;
          seen = (if \<not> s_active (r_shots r ! i) \<and> now \<ge> zombie_fire_next_ms z
                  then zombie_find_shot_target r i human_mask else None) in
      if zombie_fire_windup_until_ms z \<noteq> 0 then zombie_windup now human_mask i r
      else case seen of
        Some (target, dir) \<Rightarrow> (0x0F, False, zombie_take_aim now target dir i r)
      | None \<Rightarrow>
          if zombie_brick_fire_pending z then zombie_brick_release now i r
          else if now \<ge> zombie_move_next_ms z then zombie_pursue human_mask i r
          else (0x0F, False, r))"

text \<open>
  The \<open>zombie_mask[i]\<close> block after a move: the next move's time, hesitation at a wall (with the
  chance of a shot at the brick), and the commitment. \<open>bx\<close>, \<open>by0\<close> are the position before it.
\<close>

definition zombie_brick_mind :: "u64 \<Rightarrow> nat \<Rightarrow> room \<Rightarrow> room" where
  "zombie_brick_mind now i r =
     (let r1 = (if zombie_stuck_moves (r_players r ! i) < 0xFF
                then upd_player i (\<lambda>p. p\<lparr>zombie_stuck_moves := zombie_stuck_moves p + 1\<rparr>) r else r);
          z = r_players r1 ! i in
      if \<not> zombie_brick_fire_pending z \<and> \<not> s_active (r_shots r1 ! i) \<and>
         zombie_stuck_moves z \<ge> ZOMBIE_BRICK_FIRE_STUCK_MOVES \<and> now \<ge> zombie_brick_fire_next_ms z
      then if room_rand r1 mod ZOMBIE_BRICK_FIRE_CHANCE_DENOMINATOR = 0
           then upd_player i (\<lambda>p. p\<lparr>zombie_brick_fire_pending := True,
                  zombie_brick_fire_dir := zombie_dir p\<rparr>) (room_rand_read r1)
           else room_rand_read r1
      else r1)"

definition zombie_after_move :: "u64 \<Rightarrow> u8 \<Rightarrow> u8 \<Rightarrow> u8 \<Rightarrow> nat \<Rightarrow> room \<Rightarrow> room" where
  "zombie_after_move now action_joy bx by0 i r =
     (let r1 = upd_player i (\<lambda>p. p\<lparr>zombie_move_next_ms := now + ZOMBIE_MOVE_INTERVAL_MS\<rparr>) r;
          moved = (p_x (r_players r1 ! i) \<noteq> bx \<or> p_y (r_players r1 ! i) \<noteq> by0) in
      if \<not> moved \<and> zombie_attempts_brick r1 i action_joy
      then let r2 = upd_player i (\<lambda>p. p\<lparr>zombie_move_next_ms := now + ZOMBIE_WALL_HESITATE_MS,
                      zombie_commit_moves_left := 0\<rparr>) r1 in
        (if zombie_attempts_breakable_brick r2 i action_joy then zombie_brick_mind now i r2 else r2)
      else if moved
      then upd_player i (\<lambda>p. p\<lparr>zombie_last_dir := zombie_dir p, zombie_stuck_moves := 0,
             zombie_commit_moves_left :=
               (if zombie_commit_moves_left p > 0 then zombie_commit_moves_left p - 1
                else zombie_commit_moves_left p)\<rparr>) r1
      else upd_player i (\<lambda>p. p\<lparr>zombie_commit_moves_left := 0\<rparr>) r1)"

section \<open>A decision changes the zombie's own record only\<close>

text \<open>
  \<open>q\<close> is \<open>r\<close> after updates of player \<open>i\<close> that keep position, score and respawn time, and after
  draws of random numbers.
\<close>

definition mental :: "(player_state \<Rightarrow> player_state) \<Rightarrow> bool" where
  "mental f \<longleftrightarrow> (\<forall>p. p_x (f p) = p_x p \<and> p_y (f p) = p_y p \<and> p_score (f p) = p_score p \<and>
     respawn_at_ms (f p) = respawn_at_ms p \<and> (p_joy (f p) = p_joy p \<or> p_joy (f p) \<in> joy_bytes))"

inductive thinks :: "nat \<Rightarrow> room \<Rightarrow> room \<Rightarrow> bool" for i where
  thinks_refl [simp, intro]: "thinks i r r"
| thinks_upd: "thinks i r q \<Longrightarrow> mental f \<Longrightarrow> thinks i r (upd_player i f q)"
| thinks_rand: "thinks i r q \<Longrightarrow> thinks i r (room_rand_read q)"

lemma stick_from_dir_joy [simp]: "stick_from_dir d \<in> joy_bytes"
  by (simp add: stick_from_dir_def joy_bytes_def Let_def)

lemma upd_player_rand: "r_players (room_rand_read r) = r_players r"
  by simp

lemma thinks_windup: "thinks i r (snd (snd (zombie_windup now hm i r)))"
  by (auto simp: zombie_windup_def Let_def mental_def intro!: thinks_upd split: option.split)

lemma thinks_take_aim: "thinks i r (zombie_take_aim now t d i r)"
  by (auto simp: zombie_take_aim_def mental_def intro!: thinks_upd thinks_rand)

lemma thinks_brick_release: "thinks i r (snd (snd (zombie_brick_release now i r)))"
  by (auto simp: zombie_brick_release_def Let_def mental_def intro!: thinks_upd)

lemma thinks_commit: "thinks i r (zombie_commit hm i r)"
  by (auto simp: zombie_commit_def Let_def mental_def intro!: thinks_upd thinks_rand)

lemma thinks_pursue: "thinks i r (snd (snd (zombie_pursue hm i r)))"
  by (auto simp: zombie_pursue_def Let_def mental_def intro!: thinks_upd thinks_commit)

lemma thinks_turn: "thinks i r (snd (snd (zombie_turn now hm i r)))"
  by (auto simp: zombie_turn_def Let_def thinks_windup thinks_take_aim thinks_brick_release thinks_pursue
      split: option.split)

lemma thinks_brick_mind: "thinks i r q \<Longrightarrow> thinks i r (zombie_brick_mind now i q)"
  by (auto simp: zombie_brick_mind_def Let_def mental_def intro!: thinks_upd thinks_rand)

lemma thinks_after_move: "thinks i r (zombie_after_move now joy bx by0 i r)"
  by (auto simp: zombie_after_move_def Let_def mental_def intro!: thinks_upd thinks_brick_mind)

lemma board_mental: "mental f \<Longrightarrow> slot_on_board (upd_player i f r) j = slot_on_board r j"
  by (rule on_board_upd_player) (simp add: mental_def)

lemma players_mental:
  "mental f \<Longrightarrow> p_x (r_players (upd_player i f r) ! j) = p_x (r_players r ! j) \<and>
     p_y (r_players (upd_player i f r) ! j) = p_y (r_players r ! j) \<and>
     respawn_at_ms (r_players (upd_player i f r) ! j) = respawn_at_ms (r_players r ! j)"
  by (cases "i < length (r_players r)")
    (auto simp: upd_player_def modify_def nth_list_update list_update_beyond mental_def)

lemma thinks_keeps:
  assumes "thinks i r q"
  shows "rkey q = rkey r" "rround q = rround r" "r_clients q = r_clients r" "r_shots q = r_shots r"
    "r_brick_bits q = r_brick_bits r" "r_occupied_mask q = r_occupied_mask r"
    "r_last_input_ms q = r_last_input_ms r" "slot_on_board q j = slot_on_board r j"
    "p_x (r_players q ! j) = p_x (r_players r ! j)" "p_y (r_players q ! j) = p_y (r_players r ! j)"
    "respawn_at_ms (r_players q ! j) = respawn_at_ms (r_players r ! j)"
  using assms
  by (induction rule: thinks.induct)
    (simp_all add: board_mental players_mental,
     simp_all add: upd_player_def room_rand_read_def slot_on_board_def)

lemma thinks_base_ok:
  assumes "thinks i r q" "base_ok r"
  shows "base_ok q"
  using assms
proof (induction rule: thinks.induct)
  case (thinks_upd r q f)
  from thinks_upd.hyps(2) have "player_ok (f p)" if "player_ok p" for p
    using that unfolding mental_def player_ok_def by metis
  then show ?case using thinks_upd by (intro base_ok_upd_player) simp_all
qed simp_all

lemma thinks_round_ok:
  assumes "thinks i r q" "base_ok r" "round_ok r"
  shows "round_ok q"
  using assms
proof (induction rule: thinks.induct)
  case (thinks_upd r q f)
  then show ?case by (intro round_ok_upd_player) (auto simp: mental_def dest: thinks_base_ok)
qed simp_all

lemma thinks_shots_open: "thinks i r q \<Longrightarrow> shots_open q = shots_open r"
  by (simp add: shots_open_def thinks_keeps)

lemma thinks_player_at: "thinks i r q \<Longrightarrow> is_player_at q x y ig = is_player_at r x y ig"
  by (simp add: is_player_at_def thinks_keeps)

lemma thinks_attempts:
  "thinks i r q \<Longrightarrow> zombie_attempts_breakable_brick q j joy = zombie_attempts_breakable_brick r j joy"
  by (simp add: zombie_attempts_breakable_brick_def thinks_keeps split: option.split)

lemma thinks_apart: "thinks i r q \<Longrightarrow> actors_apart q = actors_apart r"
  by (simp add: actors_apart_def thinks_keeps)

lemma thinks_other:
  assumes "thinks i r q" "j \<noteq> i"
  shows "r_players q ! j = r_players r ! j"
  using assms by (induction rule: thinks.induct) (simp_all, simp add: upd_player_def)

section \<open>Lines of fire\<close>

lemma stick_delta: "stick_to_cardinal_delta (stick_from_dir d) = Some (dir_delta d)"
proof -
  have small: "x = 0 \<or> x = 1 \<or> x = 2 \<or> x = 3" if "x \<le> 3" for x :: u8
    using that by unat_arith
  have "d AND 3 = 0 \<or> d AND 3 = 1 \<or> d AND 3 = 2 \<or> d AND 3 = 3"
    by (rule small) (rule word_and_le1)
  then show ?thesis by (auto simp: stick_from_dir_def dir_delta_def stick_to_cardinal_delta_def Let_def)
qed

text \<open>The cells a shot from \<open>idx\<close> crosses before it reaches \<open>p\<close>, \<open>n\<close> steps away, are open.\<close>

definition line_of_fire :: "room \<Rightarrow> nat \<Rightarrow> nat \<Rightarrow> u8 \<Rightarrow> bool" where
  "line_of_fire r idx p dir \<longleftrightarrow> (\<exists>n. 
     (case dir_delta dir of (dx, dy) \<Rightarrow>
        uint (p_x (r_players r ! p)) = uint (p_x (r_players r ! idx)) + int n * dx \<and>
        uint (p_y (r_players r ! p)) = uint (p_y (r_players r ! idx)) + int n * dy \<and>
        (\<forall>k. 0 < k \<and> k < n \<longrightarrow> \<not> is_brick (r_brick_bits r)
           (uint (p_x (r_players r ! idx)) + int k * dx) (uint (p_y (r_players r ! idx)) + int k * dy))))"

definition visible :: "room \<Rightarrow> nat \<Rightarrow> nat \<Rightarrow> bool" where
  "visible r idx p \<longleftrightarrow> same_row_open r idx p \<or> same_column_open r idx p"

definition aim_dir :: "room \<Rightarrow> nat \<Rightarrow> nat \<Rightarrow> u8" where
  "aim_dir r idx p = (if same_row_open r idx p then row_dir r idx p else column_dir r idx p)"

definition gap :: "room \<Rightarrow> nat \<Rightarrow> nat \<Rightarrow> int" where
  "gap r idx p = \<bar>uint (p_x (r_players r ! p)) - uint (p_x (r_players r ! idx))\<bar> +
     \<bar>uint (p_y (r_players r ! p)) - uint (p_y (r_players r ! idx))\<bar>"

lemma gap_bounds: "0 \<le> gap r idx p \<and> gap r idx p < 512"
proof -
  have "0 \<le> uint (w :: u8) \<and> uint w < 256" for w using uint_range_size [of w] by (simp add: word_size)
  from this [of "p_x (r_players r ! p)"] this [of "p_x (r_players r ! idx)"]
    this [of "p_y (r_players r ! p)"] this [of "p_y (r_players r ! idx)"]
  show ?thesis unfolding gap_def by linarith
qed

lemma visible_line:
  assumes "visible r idx p"
  shows "line_of_fire r idx p (aim_dir r idx p)"
proof -
  let ?x = "uint (p_x (r_players r ! idx))" and ?y = "uint (p_y (r_players r ! idx))"
  let ?tx = "uint (p_x (r_players r ! p))" and ?ty = "uint (p_y (r_players r ! p))"
  show ?thesis
  proof (cases "same_row_open r idx p")
    case True
    then have "?ty = ?y" "\<And>x. min ?x ?tx < x \<Longrightarrow> x < max ?x ?tx \<Longrightarrow> \<not> is_brick (r_brick_bits r) x ?y"
      by (auto simp: same_row_open_def clear_row_shot_iff)
    then show ?thesis using True
      unfolding line_of_fire_def aim_dir_def row_dir_def word_less_def
      by (intro exI [of _ "nat \<bar>?tx - ?x\<bar>"]) (auto simp: dir_delta_def Let_def)
  next
    case False
    then have "?tx = ?x" "\<And>y. min ?y ?ty < y \<Longrightarrow> y < max ?y ?ty \<Longrightarrow> \<not> is_brick (r_brick_bits r) ?x y"
      using assms by (auto simp: visible_def same_column_open_def clear_col_shot_iff)
    then show ?thesis using False
      unfolding line_of_fire_def aim_dir_def column_dir_def word_less_def
      by (intro exI [of _ "nat \<bar>?ty - ?y\<bar>"]) (auto simp: dir_delta_def Let_def)
  qed
qed

section \<open>The best target\<close>

definition prey :: "room \<Rightarrow> nat \<Rightarrow> bool list \<Rightarrow> nat \<Rightarrow> bool" where
  "prey r idx hm p \<longleftrightarrow> quarry r idx hm p \<and> visible r idx p"

text \<open>The loop invariant of the target search: \<open>best\<close> is a nearest one of the slots seen so far.\<close>

definition best_of :: "(nat \<Rightarrow> bool) \<Rightarrow> (nat \<Rightarrow> int) \<Rightarrow> (nat \<Rightarrow> 'd) \<Rightarrow> nat set \<Rightarrow> nat option \<times> int \<times> 'd \<Rightarrow> bool" where
  "best_of cand dist dir S best = (case best of
      (None, d, _) \<Rightarrow> d \<ge> 512 \<and> (\<forall>p \<in> S. \<not> cand p)
    | (Some b, d, e) \<Rightarrow> b \<in> S \<and> cand b \<and> d = dist b \<and> e = dir b \<and> (\<forall>p \<in> S. cand p \<longrightarrow> d \<le> dist p))"

lemma best_of_step:
  assumes "best_of cand dist dir S best" "dist p < 512"
  shows "best_of cand dist dir (insert p S)
    (if \<not> cand p then best else if dist p < fst (snd best) then (Some p, dist p, dir p) else best)"
  using assms unfolding best_of_def by (auto split: option.splits prod.splits intro: order.trans less_imp_le)

lemma best_of_fold:
  assumes "\<And>p best. step p best =
      (if \<not> cand p then best else if dist p < fst (snd best) then (Some p, dist p, dir p) else best)"
    and "\<And>p. dist p < 512" "best_of cand dist dir S best"
  shows "best_of cand dist dir (S \<union> set ps) (fold step ps best)"
  using assms(3)
proof (induction ps arbitrary: S best)
  case (Cons p ps)
  have "best_of cand dist dir (insert p S) (step p best)"
    unfolding assms(1) by (rule best_of_step [OF Cons.prems assms(2)])
  from Cons.IH [OF this] show ?case by simp
qed simp

lemma target_step_eq:
  "target_step r idx hm p best =
     (if \<not> prey r idx hm p then best
      else if gap r idx p < fst (snd best) then (Some p, gap r idx p, aim_dir r idx p) else best)"
proof -
  have row: "same_row_open r idx p \<Longrightarrow> \<bar>uint (p_x (r_players r ! p)) - uint (p_x (r_players r ! idx))\<bar> = gap r idx p"
    by (simp add: gap_def same_row_open_def)
  have col: "same_column_open r idx p \<Longrightarrow> \<bar>uint (p_y (r_players r ! p)) - uint (p_y (r_players r ! idx))\<bar> = gap r idx p"
    by (simp add: gap_def same_column_open_def)
  show ?thesis
    by (auto simp: target_step_def prey_def visible_def aim_dir_def nearer_def Let_def row col)
qed

text \<open>What the search returns: a visible human none of the others is nearer than, or nobody.\<close>

lemma find_target_cases:
  obtains (nobody) "zombie_find_shot_target r idx hm = None" "\<And>p. p < 4 \<Longrightarrow> \<not> prey r idx hm p"
    | (target) b where "zombie_find_shot_target r idx hm = Some (b, aim_dir r idx b)" "b < 4" "prey r idx hm b"
        "\<And>p. p < 4 \<Longrightarrow> prey r idx hm p \<Longrightarrow> gap r idx b \<le> gap r idx p"
proof -
  let ?best = "fold (target_step r idx hm) [0..<4] (None, INT_MAX, 0xFF)"
  have "best_of (prey r idx hm) (gap r idx) (aim_dir r idx) ({} \<union> set [0..<4]) ?best"
    by (rule best_of_fold [OF target_step_eq]) (simp_all add: gap_bounds best_of_def)
  then have best: "best_of (prey r idx hm) (gap r idx) (aim_dir r idx) {0..<4} ?best" by simp
  obtain b d e where eq: "?best = (b, d, e)" by (cases ?best) auto
  show thesis
  proof (cases b)
    case None
    then show thesis using best unfolding eq
      by (intro nobody) (simp_all add: zombie_find_shot_target_def eq best_of_def)
  next
    case (Some t)
    have "t < 4" "prey r idx hm t" "e = aim_dir r idx t" "\<And>p. p < 4 \<Longrightarrow> prey r idx hm p \<Longrightarrow> gap r idx t \<le> gap r idx p"
      using best unfolding eq Some by (auto simp: best_of_def)
    then show thesis using Some
      by (intro target [of t]) (simp_all add: zombie_find_shot_target_def eq)
  qed
qed

lemma target_valid:
  assumes "b < 4" "prey r idx hm b"
  shows "zombie_shot_target_valid r idx hm (of_nat b) = Some (aim_dir r idx b)"
proof -
  have "unat (of_nat b :: u8) = b" using assms(1) by (simp add: of_nat_eq_u8)
  then show ?thesis using assms
    by (auto simp: zombie_shot_target_valid_def prey_def quarry_def visible_def aim_dir_def)
qed

lemma valid_target:
  assumes "zombie_shot_target_valid r idx hm t = Some dir"
  shows "unat t < 4" "hm ! unat t" "respawn_at_ms (r_players r ! unat t) = 0" "visible r idx (unat t)"
    "dir = aim_dir r idx (unat t)"
  using assms by (auto simp: zombie_shot_target_valid_def Let_def visible_def aim_dir_def split: if_splits)

section \<open>The pursuit direction\<close>

lemma chase_step_eq:
  "chase_step r idx hm p best =
     (if \<not> quarry r idx hm p then best
      else if gap r idx p < fst (snd best)
        then (Some p, gap r idx p, uint (p_x (r_players r ! idx)) - uint (p_x (r_players r ! p)),
              uint (p_y (r_players r ! idx)) - uint (p_y (r_players r ! p)))
        else best)"
proof -
  have "(if a - b < 0 then - (a - b) else a - b) = \<bar>b - a\<bar>" for a b :: int by auto
  then show ?thesis by (simp add: chase_step_def gap_def Let_def)
qed

lemma first_free_sound:
  "first_free r idx dirs = Some d \<Longrightarrow> d \<in> set dirs \<and> dir_free d r idx"
  by (auto simp: first_free_def Let_def find_Some_iff split: option.splits)

lemma first_free_complete:
  "first_free r idx dirs = None \<Longrightarrow> d \<in> set dirs \<Longrightarrow> \<not> dir_free d r idx"
  by (auto simp: first_free_def Let_def find_None_iff split: option.splits)

text \<open>A reversal is only taken when no other of the candidates is free.\<close>

lemma first_free_reversal:
  assumes "first_free r idx dirs = Some d" "zombie_last_dir (r_players r ! idx) \<noteq> 0xFF"
    "d = zombie_last_dir (r_players r ! idx) XOR 0x02" "e \<in> set dirs" "dir_free e r idx"
  shows "e = d"
proof (rule ccontr)
  assume ne: "e \<noteq> d"
  let ?P = "\<lambda>x. \<not> (zombie_last_dir (r_players r ! idx) \<noteq> 0xFF \<and> x = zombie_last_dir (r_players r ! idx) XOR 0x02)
      \<and> dir_free x r idx"
  have "?P e" using ne assms by auto
  then have "find ?P dirs \<noteq> None" using assms(4) by (auto simp: find_None_iff)
  then obtain c where c: "find ?P dirs = Some c" by auto
  then have "?P c" by (auto simp: find_Some_iff)
  moreover have "c = d" using c assms(1) by (simp add: first_free_def Let_def)
  ultimately show False using assms(2,3) by auto
qed

lemma chase_choices_set:
  "set (chase_choices dx dy) \<subseteq> {0, 1, 2, 3}" "chase_choices dx dy = [] \<longleftrightarrow> dx = 0 \<and> dy = 0"
  by (auto simp: chase_choices_def Let_def)

definition same_cell :: "room \<Rightarrow> nat \<Rightarrow> nat \<Rightarrow> bool" where
  "same_cell r i p \<longleftrightarrow> p_x (r_players r ! p) = p_x (r_players r ! i) \<and> p_y (r_players r ! p) = p_y (r_players r ! i)"

lemma gap_zero: "gap r i p = 0 \<longleftrightarrow> same_cell r i p"
proof -
  have "gap r i p = 0 \<longleftrightarrow> uint (p_x (r_players r ! p)) = uint (p_x (r_players r ! i)) \<and>
      uint (p_y (r_players r ! p)) = uint (p_y (r_players r ! i))"
    unfolding gap_def by linarith
  then show ?thesis by (simp add: same_cell_def word_uint_eq_iff)
qed

lemma pursuit_cases:
  obtains (stay) "zombie_choose_pursuit_dir r idx hm = 0xFF"
        "(\<forall>p < 4. \<not> quarry r idx hm p) \<or> (\<exists>p < 4. quarry r idx hm p \<and> same_cell r idx p)"
    | (go) b dir where "zombie_choose_pursuit_dir r idx hm = dir" "dir \<in> {0, 1, 2, 3}"
        "b < 4" "quarry r idx hm b" "\<And>p. p < 4 \<Longrightarrow> quarry r idx hm p \<Longrightarrow> gap r idx b \<le> gap r idx p"
        "\<not> same_cell r idx b" "(\<exists>e \<in> {0, 1, 2, 3}. dir_free e r idx) \<Longrightarrow> dir_free dir r idx"
proof -
  let ?off = "\<lambda>p. (uint (p_x (r_players r ! idx)) - uint (p_x (r_players r ! p)),
              uint (p_y (r_players r ! idx)) - uint (p_y (r_players r ! p)))"
  let ?best = "fold (chase_step r idx hm) [0..<4] (None, 0x7FFF, 0, 0)"
  have "best_of (quarry r idx hm) (gap r idx) ?off ({} \<union> set [0..<4]) ?best"
    by (rule best_of_fold [OF chase_step_eq]) (simp_all add: gap_bounds best_of_def)
  then have best: "best_of (quarry r idx hm) (gap r idx) ?off {0..<4} ?best" by simp
  obtain b d dx dy where eq: "?best = (b, d, dx, dy)" by (cases ?best) auto
  show thesis
  proof (cases b)
    case None
    then show thesis using best unfolding eq
      by (intro stay) (simp_all add: zombie_choose_pursuit_dir_def eq best_of_def)
  next
    case (Some t)
    have t: "t < 4" "quarry r idx hm t" "dx = uint (p_x (r_players r ! idx)) - uint (p_x (r_players r ! t))"
      "dy = uint (p_y (r_players r ! idx)) - uint (p_y (r_players r ! t))"
      "\<And>p. p < 4 \<Longrightarrow> quarry r idx hm p \<Longrightarrow> gap r idx t \<le> gap r idx p"
      using best unfolding eq Some by (auto simp: best_of_def)
    show thesis
    proof (cases "chase_choices dx dy")
      case Nil
      then have "same_cell r idx t" using t(3,4) by (auto simp: chase_choices_set same_cell_def word_uint_eq_iff)
      then show thesis using Nil Some t(1,2)
        by (intro stay) (auto simp: zombie_choose_pursuit_dir_def eq)
    next
      case (Cons c cs)
      define dir where "dir = zombie_choose_pursuit_dir r idx hm"
      have run: "dir = (case first_free r idx (c # cs) of Some dir \<Rightarrow> dir
          | None \<Rightarrow> (case first_free r idx [0, 1, 2, 3] of Some dir \<Rightarrow> dir | None \<Rightarrow> c))"
        using Cons Some by (simp add: dir_def zombie_choose_pursuit_dir_def eq)
      have "c \<in> {0, 1, 2, 3}" "set (c # cs) \<subseteq> {0, 1, 2, 3}"
        using chase_choices_set(1) [of dx dy] Cons by auto
      then have "dir \<in> {0, 1, 2, 3}" "(\<exists>e \<in> {0, 1, 2, 3}. dir_free e r idx) \<Longrightarrow> dir_free dir r idx"
        using first_free_sound [of r idx "c # cs"] first_free_sound [of r idx "[0, 1, 2, 3]"]
          first_free_complete [of r idx "[0, 1, 2, 3]"] unfolding run
        by (auto split: option.split)
      moreover have "\<not> same_cell r idx t"
        using Cons t(3,4) chase_choices_set(2) [of dx dy] by (auto simp: same_cell_def)
      ultimately show thesis using t by (intro go [of dir t]) (simp_all add: dir_def)
    qed
  qed
qed

section \<open>Properties\<close>

text \<open>
  What a zombie shoots at. The search answers nobody exactly when no living human stands in an
  unobstructed row or column; otherwise its target is such a human, none is nearer, every cell
  between the two is open in the direction answered, and a recheck of an unchanged board accepts
  the target with the same direction.
\<close>

theorem zombie_aims_at_nearest:
  assumes "zombie_find_shot_target r idx hm = found"
  shows "(found = None \<longleftrightarrow> \<not> list_ex (prey r idx hm) [0..<MAX_PLAYERS]) \<and>
    (\<forall>b dir. found = Some (b, dir) \<longrightarrow> b < MAX_PLAYERS \<and> prey r idx hm b \<and> line_of_fire r idx b dir \<and>
       (\<forall>p < MAX_PLAYERS. prey r idx hm p \<longrightarrow> gap r idx b \<le> gap r idx p) \<and>
       zombie_shot_target_valid r idx hm (of_nat b) = Some dir)"
proof (rule find_target_cases [of r idx hm])
  assume "zombie_find_shot_target r idx hm = None" "\<And>p. p < 4 \<Longrightarrow> \<not> prey r idx hm p"
  then show ?thesis using assms by (auto simp: list_ex_iff)
next
  fix b
  assume b: "zombie_find_shot_target r idx hm = Some (b, aim_dir r idx b)" "b < 4" "prey r idx hm b"
    and least: "\<And>p. p < 4 \<Longrightarrow> prey r idx hm p \<Longrightarrow> gap r idx b \<le> gap r idx p"
  have "line_of_fire r idx b (aim_dir r idx b)" using b(3) by (intro visible_line) (simp add: prey_def)
  moreover have "list_ex (prey r idx hm) [0..<MAX_PLAYERS]" using b by (auto simp: list_ex_iff)
  ultimately show ?thesis using assms b least target_valid [OF b(2,3)] by auto
qed

theorem zombie_aims_at_nearest_witness:
  "zombie_find_shot_target demo_room 1 [True, False, False, False] = Some (0, 2) \<and> line_of_fire demo_room 1 0 2"
proof -
  have found: "zombie_find_shot_target demo_room 1 [True, False, False, False] = Some (0, 2)" by code_simp
  from zombie_aims_at_nearest [OF found] found show ?thesis by simp
qed

text \<open>
  Where a zombie walks. The answer is 0xFF exactly when there is nobody to chase or some human
  shares its cell; otherwise it is one of the four directions and it is free whenever any of the
  four is, so a zombie only pushes against a wall when it is boxed in.
\<close>

theorem pursuit_dir_free:
  "(zombie_choose_pursuit_dir r idx hm = 0xFF \<longleftrightarrow>
      \<not> list_ex (quarry r idx hm) [0..<MAX_PLAYERS] \<or>
      list_ex (\<lambda>p. quarry r idx hm p \<and> same_cell r idx p) [0..<MAX_PLAYERS]) \<and>
   zombie_choose_pursuit_dir r idx hm \<in> {0, 1, 2, 3, 0xFF} \<and>
   (zombie_choose_pursuit_dir r idx hm = 0xFF \<or>
    dir_free (zombie_choose_pursuit_dir r idx hm) r idx \<or>
    list_all (\<lambda>e. \<not> dir_free e r idx) [0, 1, 2, 3])"
proof (rule pursuit_cases [of r idx hm])
  assume "zombie_choose_pursuit_dir r idx hm = 0xFF"
    "(\<forall>p < 4. \<not> quarry r idx hm p) \<or> (\<exists>p < 4. quarry r idx hm p \<and> same_cell r idx p)"
  then show ?thesis by (auto simp: list_ex_iff)
next
  fix b dir
  assume dir: "zombie_choose_pursuit_dir r idx hm = dir" "dir \<in> {0, 1, 2, 3}"
    and b: "b < 4" "quarry r idx hm b" "\<And>p. p < 4 \<Longrightarrow> quarry r idx hm p \<Longrightarrow> gap r idx b \<le> gap r idx p"
      "\<not> same_cell r idx b"
    and free: "(\<exists>e \<in> {0, 1, 2, 3}. dir_free e r idx) \<Longrightarrow> dir_free dir r idx"
  have far: "\<not> same_cell r idx p" if "p < 4" "quarry r idx hm p" for p
    using b(3) [OF that] b(4) gap_bounds [of r idx b] unfolding gap_zero [symmetric] by linarith
  have ne: "dir \<noteq> 0xFF" using dir(2) by auto
  have "\<not> (\<not> list_ex (quarry r idx hm) [0..<MAX_PLAYERS] \<or>
      list_ex (\<lambda>p. quarry r idx hm p \<and> same_cell r idx p) [0..<MAX_PLAYERS])"
    using b(1,2) far by (auto simp: list_ex_iff)
  moreover have "dir_free dir r idx \<or> list_all (\<lambda>e. \<not> dir_free e r idx) [0, 1, 2, 3]"
    using free by auto
  ultimately show ?thesis unfolding dir(1) using ne dir(2) by blast
qed

text \<open>
  C40: A zombie never fires on a whim. When its decision carries the trigger it stands still, and
  either a windup has run out and its target is still a living human in an open line in that
  direction, or it releases an announced shot at a breakable brick next to it while no shot of
  its own is in flight; the matching cooldown starts now.
\<close>

theorem zombie_fires_deliberately:
  assumes "base_ok r" "i < MAX_PLAYERS" "zombie_turn now hm i r = (joy, can_move, q)" "joy AND 0x10 \<noteq> 0"
  shows "\<not> can_move \<and> (let z = r_players r ! i; t = unat (zombie_fire_target z) in
     (zombie_fire_windup_until_ms z \<noteq> 0 \<and> zombie_fire_windup_until_ms z \<le> now \<and>
      t < MAX_PLAYERS \<and> hm ! t \<and> respawn_at_ms (r_players r ! t) = 0 \<and>
      (\<exists>dir. joy = stick_from_dir dir OR 0x10 \<and> line_of_fire r i t dir) \<and>
      zombie_fire_next_ms (r_players q ! i) = now + 900) \<or>
     (zombie_brick_fire_pending z \<and> \<not> s_active (r_shots r ! i) \<and>
      zombie_attempts_breakable_brick r i (stick_from_dir (zombie_brick_fire_dir z)) \<and>
      joy = stick_from_dir (zombie_brick_fire_dir z) OR 0x10 \<and>
      zombie_brick_fire_next_ms (r_players q ! i) = now + 3000))"
proof -
  have len: "length (r_players r) = 4" using assms(1) by (rule base_ok_lengths)
  have still: "stick_from_dir d AND 0x10 = 0" for d by (simp add: stick_from_dir_def Let_def)
  let ?z = "r_players r ! i"
  show ?thesis
  proof (cases "zombie_fire_windup_until_ms ?z \<noteq> 0")
    case True
    then have run: "zombie_windup now hm i r = (joy, can_move, q)"
      using assms(3) by (simp add: zombie_turn_def Let_def)
    show ?thesis
    proof (cases "zombie_shot_target_valid r i hm (zombie_fire_target ?z)")
      case None
      then show ?thesis using run assms(4) by (auto simp: zombie_windup_def Let_def)
    next
      case (Some dir)
      note v = valid_target [OF Some]
      have line: "line_of_fire r i (unat (zombie_fire_target ?z)) dir"
        unfolding v(5) by (rule visible_line [OF v(4)])
      have due: "zombie_fire_windup_until_ms ?z \<le> now"
        using run Some assms(4) by (auto simp: zombie_windup_def Let_def split: if_splits)
      then have "joy = stick_from_dir dir OR 0x10" "\<not> can_move" "zombie_fire_next_ms (r_players q ! i) = now + 900"
        using run Some assms(2) len by (auto simp: zombie_windup_def Let_def upd_player_def nth_modify)
      then show ?thesis using True due v(1-3) line unfolding Let_def by blast
    qed
  next
    case calm: False
    show ?thesis
    proof (cases "zombie_brick_release now i r = (joy, can_move, q) \<and> zombie_brick_fire_pending ?z")
      case True
      let ?r1 = "upd_player i (\<lambda>p. p\<lparr>zombie_brick_fire_pending := False\<rparr>) r"
      let ?joy = "stick_from_dir (zombie_brick_fire_dir ?z)"
      have th: "thinks i r ?r1" by (rule thinks_upd) (simp_all add: mental_def)
      note same = thinks_keeps(4) [OF th] thinks_attempts [OF th, of i ?joy]
      have can: "\<not> s_active (r_shots r ! i) \<and> zombie_attempts_breakable_brick r i ?joy"
        using True assms(4) by (auto simp: zombie_brick_release_def Let_def same split: if_splits)
      then have "joy = ?joy OR 0x10" "\<not> can_move" "zombie_brick_fire_next_ms (r_players q ! i) = now + 3000"
        using True assms(2) len by (auto simp: zombie_brick_release_def Let_def same) (auto simp: upd_player_def nth_modify)
      then show ?thesis using True can by auto
    next
      case False
      then show ?thesis
        using calm assms(3,4) still
        by (auto simp: zombie_turn_def zombie_pursue_def Let_def split: option.splits if_splits prod.splits)
    qed
  qed
qed

text \<open>The zombie of slot 1 has announced a shot to its left at the player of slot 0, due at 40.\<close>

definition demo_windup :: room where
  "demo_windup = upd_player 1 (\<lambda>p. p\<lparr>zombie_fire_windup_until_ms := 40, zombie_fire_target := 0\<rparr>) demo_room"

theorem zombie_fires_deliberately_witness:
  "zombie_fire_next_ms (r_players (snd (snd (zombie_turn 50 [True, False, False, False] 1 demo_windup))) ! 1) = 950 \<and>
   fst (zombie_turn 50 [True, False, False, False] 1 demo_windup) = 0x1B"
proof -
  let ?hm = "[True, False, False, False]"
  have ok: "base_ok demo_windup"
    unfolding demo_windup_def by (rule base_ok_upd_player) (simp_all add: demo_room_base_ok player_ok_def)
  have joy: "fst (zombie_turn 50 ?hm 1 demo_windup) = 0x1B" by code_simp
  have pend: "zombie_brick_fire_pending (r_players demo_windup ! 1) = False" by code_simp
  obtain mv q where run: "zombie_turn 50 ?hm 1 demo_windup = (0x1B, mv, q)"
    using joy by (cases "zombie_turn 50 ?hm 1 demo_windup") auto
  have one: "(1 :: nat) < MAX_PLAYERS" and trig: "(0x1B :: u8) AND 0x10 \<noteq> 0" by simp_all
  show ?thesis
    using zombie_fires_deliberately [OF ok one run trig] joy run pend by (simp add: Let_def)
qed

end
