(* ===== verification/Players.thy ===== *)
theory Players
  imports Zombie
begin

text \<open>
  One authoritative step of all actors, \<open>step_players\<close> of \<^verbatim>\<open>server/main.c\<close>: who is driven by
  whom, expired respawns, the turn of each actor (decision, fire, move) and the flight of the
  shots. Lemmas: the step keeps the invariants and the seats, nobody moves further than one cell,
  and actors on the board never share a cell.
\<close>

section \<open>Definitions\<close>

text \<open>A slot counts as human while it is seated, and for a while after its last input.\<close>

definition human_mask :: "u64 \<Rightarrow> bool list \<Rightarrow> room \<Rightarrow> bool list" where
  "human_mask now zombie_mask r =
     map (\<lambda>i. if zombie_mask ! i then False
              else if in_use (r_clients r ! i) \<and> handshake_ok (r_clients r ! i) then True
              else if r_last_input_ms r ! i = 0 then False
              else if now - r_last_input_ms r ! i \<ge> CLIENT_TIMEOUT_MS then False
              else True) [0..<MAX_PLAYERS]"

definition tick_mask :: "bool list \<Rightarrow> bool list \<Rightarrow> u8" where
  "tick_mask zombie_mask hm =
     fold (\<lambda>i m. if zombie_mask ! i \<or> hm ! i then m OR slot_bit i else m) [0..<MAX_PLAYERS] 0"

definition finalize_respawn :: "u64 \<Rightarrow> nat \<Rightarrow> room \<Rightarrow> room" where
  "finalize_respawn now i r =
     (if respawn_at_ms (r_players r ! i) \<noteq> 0 \<and> now \<ge> respawn_at_ms (r_players r ! i)
      then let r1 = place_actor i r;
               r2 = upd_player i (\<lambda>p. p\<lparr>respawn_at_ms := 0, p_joy := 0x0F\<rparr>) r1;
               r3 = reset_zombie_schedule i now r2;
               p = r_players r3 ! i in
        announce_respawn i (p_x p) (p_y p) 0x03 (Some now) r3
      else r)"

text \<open>The actor of a slot whose client is gone stops on a stale input.\<close>

definition stale_neutral :: "u64 \<Rightarrow> bool list \<Rightarrow> nat \<Rightarrow> room \<Rightarrow> room" where
  "stale_neutral now zombie_mask i r =
     (if \<not> zombie_mask ! i \<and> \<not> in_use (r_clients r ! i) \<and>
         (r_last_input_ms r ! i = 0 \<or> now - r_last_input_ms r ! i > INPUT_STALE_MS)
      then upd_player i (\<lambda>p. p\<lparr>p_joy := 0x0F\<rparr>) r else r)"

text \<open>The move of the turn, and for a zombie what it makes of it.\<close>

definition actor_move :: "u64 \<Rightarrow> bool list \<Rightarrow> u8 \<Rightarrow> nat \<Rightarrow> room \<Rightarrow> room" where
  "actor_move now zombie_mask action_joy i r =
     (let before_x = p_x (r_players r ! i); before_y = p_y (r_players r ! i);
          r1 = apply_move_if_free i r in
      if zombie_mask ! i then zombie_after_move now action_joy before_x before_y i r1 else r1)"

text \<open>The body of the actor loop; \<open>True\<close> is the early return when a shot has ended the round.\<close>

definition actor_turn :: "u64 \<Rightarrow> bool list \<Rightarrow> bool list \<Rightarrow> nat \<Rightarrow> room \<Rightarrow> bool \<times> room" where
  "actor_turn now zombie_mask hm i r =
     (let r1 = stale_neutral now zombie_mask i r;
          can_act = (respawn_at_ms (r_players r1 ! i) = 0);
          (action_joy, can_move, r2) =
            (if zombie_mask ! i \<and> can_act then zombie_turn now hm i r1
             else (p_joy (r_players r1 ! i), can_act, r1));
          stick = action_joy AND 0x0F;
          trig = (action_joy AND 0x10 \<noteq> 0) in
      if \<not> can_act then (False, r2)
      else let r3 = start_shot i action_joy r2 in
        if r_round_state r3 \<noteq> ROUND_PLAYING then (True, r3)
        else if can_move \<and> \<not> (trig \<and> stick \<noteq> 0x0F)
        then (False, actor_move now zombie_mask action_joy i r3)
        else (False, r3))"

definition positions :: "room \<Rightarrow> (u8 \<times> u8) list" where
  "positions r = map (\<lambda>i. (p_x (r_players r ! i), p_y (r_players r ! i))) [0..<MAX_PLAYERS]"

text \<open>The first half of \<open>step_players\<close>: masks and respawns.\<close>

definition tick_start :: "u64 \<Rightarrow> bool list \<Rightarrow> bool list \<Rightarrow> room \<Rightarrow> room" where
  "tick_start now zombie_mask hm r =
     for_slots (finalize_respawn now) (r\<lparr>r_occupied_mask := tick_mask zombie_mask hm\<rparr>)"

definition step_players :: "room \<Rightarrow> room" where
  "step_players r =
     (let now = room_now r;
          r0 = room_now_read r;
          zombie_mask = room_zombies r0;
          hm = human_mask now zombie_mask r0;
          r1 = tick_start now zombie_mask hm r0;
          pre_move = positions r1;
          (ended, r2) = for_until (actor_turn now zombie_mask hm) [0..<MAX_PLAYERS] r1 in
      if ended then r2 else step_shots pre_move r2)"

section \<open>The invariants\<close>

text \<open>
  \<open>fit\<close>: the three invariants of the running game. \<open>gameplay r q\<close>: what every part of a tick
  guarantees of the room \<open>q\<close> it makes of \<open>r\<close>.
\<close>

definition fit :: "room \<Rightarrow> bool" where
  "fit r \<longleftrightarrow> base_ok r \<and> round_ok r \<and> shots_open r"

definition gameplay :: "room \<Rightarrow> room \<Rightarrow> bool" where
  "gameplay r q \<longleftrightarrow> (base_ok r \<longrightarrow> base_ok q) \<and> (fit r \<longrightarrow> fit q) \<and> rkey q = rkey r \<and> phase_ext r q"

lemma gameplay_refl [simp]: "gameplay r r"
  by (simp add: gameplay_def phase_ext_rround)

lemma gameplay_trans: "gameplay r q \<Longrightarrow> gameplay q u \<Longrightarrow> gameplay r u"
  using phase_ext_trans [of r q u] by (simp add: gameplay_def)

lemma gameplay_rround:
  "(base_ok r \<Longrightarrow> base_ok q) \<Longrightarrow> (fit r \<Longrightarrow> fit q) \<Longrightarrow> rkey q = rkey r \<Longrightarrow> rround q = rround r \<Longrightarrow> gameplay r q"
  by (simp add: gameplay_def phase_ext_rround)

lemma fit_base [simp]: "fit r \<Longrightarrow> base_ok r"
  by (simp add: fit_def)

lemma fit_rcore: "rcore q = rcore r \<Longrightarrow> net_ok q \<Longrightarrow> fit r \<Longrightarrow> fit q"
  unfolding fit_def using base_ok_quiet [of q r] round_ok_rcore [of q r] shots_open_rcore [of q r] by blast

lemma gameplay_rcore: "rcore q = rcore r \<Longrightarrow> (base_ok r \<Longrightarrow> net_ok q) \<Longrightarrow> gameplay r q"
  by (rule gameplay_rround) (blast intro: base_ok_quiet fit_rcore fit_base rkey_rcore rround_rcore)+

lemma gameplay_upd_player:
  assumes "\<And>p. player_ok p \<Longrightarrow> player_ok (f p)" "\<And>p. p_score (f p) = p_score p \<or> p_score (f p) = 0"
  shows "gameplay r (upd_player i f r)"
proof (rule gameplay_rround)
  assume "fit r"
  then show "fit (upd_player i f r)" unfolding fit_def
    using assms by (auto intro: base_ok_upd_player round_ok_upd_player)
qed (use assms(1) in \<open>auto intro: base_ok_upd_player\<close>)

lemma gameplay_thinks: "thinks i r q \<Longrightarrow> gameplay r q"
  by (rule gameplay_rround)
    (auto simp: fit_def thinks_keeps thinks_shots_open intro: thinks_base_ok thinks_round_ok)

lemma gameplay_occupied: "gameplay r (r\<lparr>r_occupied_mask := m\<rparr>)"
  by (rule gameplay_rround) (simp_all add: fit_def shots_open_def)

lemma gameplay_place_actor: "gameplay r (place_actor i r)"
proof (rule gameplay_rround)
  assume "fit r"
  moreover have "shots_open (place_actor i r) = shots_open r"
    by (simp add: place_actor_def split_beta shots_open_rcore [OF rcore_pick_spawn])
  ultimately show "fit (place_actor i r)" by (simp add: fit_def)
qed simp_all

lemma gameplay_schedule: "gameplay r (reset_zombie_schedule i now r)"
proof (rule gameplay_rround)
  have "shots_open (room_rand_read r) = shots_open r" by (rule shots_open_rcore) simp
  then have "shots_open (reset_zombie_schedule i now r) = shots_open r"
    by (simp add: reset_zombie_schedule_def)
  then show "fit r \<Longrightarrow> fit (reset_zombie_schedule i now r)" by (simp add: fit_def)
qed simp_all

lemma gameplay_finalize: "gameplay r (finalize_respawn now i r)"
proof -
  have up: "gameplay q (upd_player i (\<lambda>p. p\<lparr>respawn_at_ms := 0, p_joy := 0x0F\<rparr>) q)" for q
    by (rule gameplay_upd_player) (simp_all add: player_ok_def neutral_joy)
  have ann: "gameplay q (announce_respawn i x y fl at q)" for q x y fl at
    by (rule gameplay_rcore) simp_all
  note run = gameplay_trans [OF gameplay_place_actor [of r i] gameplay_trans [OF up gameplay_trans
      [OF gameplay_schedule ann]]]
  show ?thesis by (simp add: finalize_respawn_def Let_def run)
qed

lemma gameplay_stale: "gameplay r (stale_neutral now zm i r)"
  by (auto simp: stale_neutral_def player_ok_def neutral_joy intro!: gameplay_upd_player)

lemma gameplay_start_shot: "gameplay r (start_shot i joy r)"
  by (simp add: gameplay_def fit_def phase_ext_start_shot shots_open_start_shot)

lemma gameplay_step_shots: "gameplay r (step_shots pre r)"
  by (simp add: gameplay_def fit_def phase_ext_step_shots shots_open_step_shots)

lemma gameplay_move: "gameplay r (apply_move_if_free i r)"
proof (rule gameplay_rround)
  have "shots_open (apply_move_if_free i r) = shots_open r"
    by (auto simp: apply_move_if_free_def Let_def split: option.split)
  then show "fit r \<Longrightarrow> fit (apply_move_if_free i r)" by (simp add: fit_def)
qed simp_all

lemma gameplay_actor_move: "gameplay r (actor_move now zm joy i r)"
  using gameplay_trans [OF gameplay_move gameplay_thinks [OF thinks_after_move]]
  by (simp add: actor_move_def Let_def gameplay_move)

text \<open>The ways a turn can go: no action, a shot that ended the round, a shot or none, and a move.\<close>

lemma actor_turn_cases:
  obtains (rests) "actor_turn now zm hm i r = (False, stale_neutral now zm i r)"
        "respawn_at_ms (r_players (stale_neutral now zm i r) ! i) \<noteq> 0"
    | (acts) joy q where "thinks i (stale_neutral now zm i r) q" "respawn_at_ms (r_players (stale_neutral now zm i r) ! i) = 0"
        "actor_turn now zm hm i r = (r_round_state (start_shot i joy q) \<noteq> ROUND_PLAYING, start_shot i joy q)"
    | (moves) joy q where "thinks i (stale_neutral now zm i r) q" "respawn_at_ms (r_players (stale_neutral now zm i r) ! i) = 0"
        "r_round_state (start_shot i joy q) = ROUND_PLAYING"
        "actor_turn now zm hm i r = (False, actor_move now zm joy i (start_shot i joy q))"
proof -
  let ?r1 = "stale_neutral now zm i r"
  define d where "d = (if zm ! i \<and> respawn_at_ms (r_players ?r1 ! i) = 0 then zombie_turn now hm i ?r1
     else (p_joy (r_players ?r1 ! i), respawn_at_ms (r_players ?r1 ! i) = 0, ?r1))"
  obtain joy mv q where dq: "d = (joy, mv, q)" by (cases d) auto
  have th: "thinks i ?r1 q"
    using thinks_turn [of i ?r1 now hm] dq unfolding d_def by (auto split: if_splits)
  let ?q = "start_shot i joy q"
  have run: "actor_turn now zm hm i r =
      (if respawn_at_ms (r_players ?r1 ! i) \<noteq> 0 then (False, q)
       else if r_round_state ?q \<noteq> ROUND_PLAYING then (True, ?q)
       else if mv \<and> \<not> (joy AND 0x10 \<noteq> 0 \<and> joy AND 0x0F \<noteq> 0x0F)
       then (False, actor_move now zm joy i ?q) else (False, ?q))"
    unfolding actor_turn_def Let_def d_def [symmetric] dq by simp
  show thesis
  proof (cases "respawn_at_ms (r_players ?r1 ! i) = 0")
    case False
    then have "q = ?r1" using dq by (simp add: d_def)
    then show thesis using run False by (intro rests) simp_all
  next
    case True
    show thesis
    proof (cases "r_round_state ?q = ROUND_PLAYING \<and> mv \<and> \<not> (joy AND 0x10 \<noteq> 0 \<and> joy AND 0x0F \<noteq> 0x0F)")
      case go: True
      have "actor_turn now zm hm i r = (False, actor_move now zm joy i ?q)"
        unfolding run using True go by simp
      then show thesis using th True go by (intro moves) simp_all
    next
      case False
      have "actor_turn now zm hm i r = (r_round_state ?q \<noteq> ROUND_PLAYING, ?q)"
        unfolding run using True False by auto
      then show thesis using th True by (intro acts) simp_all
    qed
  qed
qed

lemma gameplay_actor_turn: "gameplay r (snd (actor_turn now zm hm i r))"
proof -
  have shot: "gameplay r (start_shot i joy q)" if "thinks i (stale_neutral now zm i r) q" for joy q
    by (rule gameplay_trans [OF gameplay_stale gameplay_trans [OF gameplay_thinks [OF that] gameplay_start_shot]])
  show ?thesis
    by (rule actor_turn_cases [of now zm hm i r])
      (simp_all add: gameplay_stale shot gameplay_trans [OF shot gameplay_actor_move])
qed

lemma gameplay_tick_start: "gameplay r (tick_start now zm hm r)"
proof -
  have "gameplay q (for_slots (finalize_respawn now) q)" for q
    by (rule for_slots_invariant [of "gameplay q"]) (auto intro: gameplay_trans gameplay_finalize)
  then show ?thesis unfolding tick_start_def by (rule gameplay_trans [OF gameplay_occupied])
qed

lemma gameplay_now_read: "gameplay r (room_now_read r)"
  by (rule gameplay_rcore) simp_all

lemma gameplay_actor_loop: "gameplay q (snd (for_until (actor_turn now zm hm) is q))"
  by (rule for_until_invariant [of _ "gameplay q"]) (auto intro: gameplay_trans gameplay_actor_turn)

lemma gameplay_step_players: "gameplay r (step_players r)"
proof -
  define now where "now = room_now r"
  define zm where "zm = room_zombies (room_now_read r)"
  define hm where "hm = human_mask now zm (room_now_read r)"
  define r1 where "r1 = tick_start now zm hm (room_now_read r)"
  define res where "res = for_until (actor_turn now zm hm) [0..<MAX_PLAYERS] r1"
  have "gameplay r r1" unfolding r1_def by (rule gameplay_trans [OF gameplay_now_read gameplay_tick_start])
  then have "gameplay r (snd res)" unfolding res_def by (rule gameplay_trans [OF _ gameplay_actor_loop])
  moreover have "step_players r = (if fst res then snd res else step_shots (positions r1) (snd res))"
    by (simp add: step_players_def Let_def split_beta now_def zm_def hm_def r1_def res_def)
  ultimately show ?thesis using gameplay_trans [OF _ gameplay_step_shots] by simp
qed

section \<open>Where the actors stand\<close>

definition spot :: "room \<Rightarrow> nat \<Rightarrow> u8 \<times> u8" where
  "spot r j = (p_x (r_players r ! j), p_y (r_players r ! j))"

text \<open>From \<open>r\<close> to \<open>q\<close> nobody moves, nobody appears on the board and bricks are only removed.\<close>

definition holds_ground :: "room \<Rightarrow> room \<Rightarrow> bool" where
  "holds_ground r q \<longleftrightarrow> (\<forall>j < 4. spot q j = spot r j \<and> (slot_on_board q j \<longrightarrow> slot_on_board r j)) \<and>
     (\<forall>x y. is_brick (r_brick_bits q) x y \<longrightarrow> is_brick (r_brick_bits r) x y)"

lemma holds_ground_refl [simp]: "holds_ground r r"
  by (simp add: holds_ground_def)

lemma holds_ground_trans: "holds_ground r q \<Longrightarrow> holds_ground q u \<Longrightarrow> holds_ground r u"
  by (auto simp: holds_ground_def)

lemma holds_ground_same:
  "r_players q = r_players r \<Longrightarrow> r_occupied_mask q = r_occupied_mask r \<Longrightarrow> r_brick_bits q = r_brick_bits r \<Longrightarrow>
   holds_ground r q"
  by (simp add: holds_ground_def spot_def slot_on_board_def)

lemma holds_ground_rcore: "rcore q = rcore r \<Longrightarrow> holds_ground r q"
  by (rule holds_ground_same) (rule rcoreD, assumption)+

lemma upd_player_nth:
  "r_players (upd_player i f r) ! j =
     (if j = i \<and> i < length (r_players r) then f (r_players r ! i) else r_players r ! j)"
  by (auto simp: upd_player_def modify_def nth_list_update list_update_beyond)

lemma holds_ground_upd_player:
  assumes "\<And>p. p_x (f p) = p_x p \<and> p_y (f p) = p_y p"
    and "\<And>p. respawn_at_ms (f p) = 0 \<Longrightarrow> respawn_at_ms p = 0 \<or> slot_on_board r i"
  shows "holds_ground r (upd_player i f r)"
proof -
  have other: "r_occupied_mask (upd_player i f r) = r_occupied_mask r" "r_brick_bits (upd_player i f r) = r_brick_bits r"
    by (simp_all add: upd_player_def)
  have "slot_on_board (upd_player i f r) j \<Longrightarrow> slot_on_board r j" for j
    using assms(2) [of "r_players r ! i"] unfolding slot_on_board_def upd_player_nth other by (auto split: if_splits)
  then show ?thesis using assms(1)
    by (simp add: holds_ground_def spot_def upd_player_nth other)
qed

lemma enter_round_over_board:
  "r_occupied_mask (enter_round_over w now r) = r_occupied_mask r"
  "r_brick_bits (enter_round_over w now r) = r_brick_bits r"
  by (simp_all add: enter_round_over_def Let_def freeze_match_result_def clear_transients_def)

lemma holds_ground_enter_over: "base_ok r \<Longrightarrow> holds_ground r (enter_round_over w now r)"
proof (cases "r_round_state r = ROUND_PLAYING")
  case True
  assume "base_ok r"
  then have len: "length (r_players r) = 4" by (rule base_ok_lengths)
  have pl: "r_players (enter_round_over w now r) = map (\<lambda>p. p\<lparr>p_joy := 0x0F\<rparr>) (r_players r)"
    by (rule enter_round_over_result(11) [OF True refl])
  show ?thesis
    by (simp add: holds_ground_def spot_def slot_on_board_def enter_round_over_board pl len)
qed (simp add: enter_round_over_not_playing)

lemma holds_ground_award:
  assumes "base_ok r"
  shows "holds_ground r (snd (award_score sh now r))"
proof -
  have up: "holds_ground q (upd_player sh (\<lambda>p. p\<lparr>p_score := f p\<rparr>) q)" for f q
    by (rule holds_ground_upd_player) simp_all
  have ok: "base_ok (upd_player sh (\<lambda>p. p\<lparr>p_score := f p\<rparr>) q)" if "base_ok q" for f q
    using that by (rule base_ok_upd_player) (simp_all add: player_ok_def)
  note two = holds_ground_trans [OF up up]
  note over = holds_ground_enter_over [OF ok [OF assms]] holds_ground_enter_over [OF ok [OF ok [OF assms]]]
  show ?thesis
    by (auto simp: award_score_def Let_def up intro: holds_ground_trans [OF up over(1)]
        holds_ground_trans [OF two over(2)])
qed

lemma holds_ground_hit:
  assumes "base_ok r" "slot_on_board r p"
  shows "holds_ground r (snd (hit_victim sh p now at r))"
proof -
  let ?r1 = "snd (award_score sh now r)"
  have one: "holds_ground r ?r1" by (rule holds_ground_award [OF assms(1)])
  let ?r2 = "upd_player p (\<lambda>v. v\<lparr>respawn_at_ms := now + 2000\<rparr>) ?r1"
  have sp: "r_occupied_mask ?r2 = r_occupied_mask ?r1" "r_brick_bits ?r2 = r_brick_bits ?r1" by (simp_all add: upd_player_def)
  have "holds_ground r ?r2"
    unfolding holds_ground_def
  proof (intro conjI allI impI)
    fix j assume j: "j < (4 :: nat)"
    show "spot ?r2 j = spot r j" using one j by (auto simp: holds_ground_def spot_def upd_player_nth)
    assume on: "slot_on_board ?r2 j"
    show "slot_on_board r j"
    proof (cases "j = p")
      case False
      then have "slot_on_board ?r1 j" using on unfolding slot_on_board_def upd_player_nth sp by (simp split: if_splits)
      then show ?thesis using one j by (simp add: holds_ground_def)
    qed (simp add: assms(2))
  next
    fix x y assume "is_brick (r_brick_bits ?r2) x y"
    then show "is_brick (r_brick_bits r) x y" using one unfolding sp by (simp add: holds_ground_def)
  qed
  moreover have "holds_ground q (announce_respawn p x y fl at q)" for q x y fl by (rule holds_ground_rcore) simp
  ultimately show ?thesis using one holds_ground_trans by (auto simp: hit_victim_def split_beta)
qed

lemma holds_ground_break:
  assumes "base_ok r"
  shows "holds_ground r (break_brick x y at r)"
proof -
  have "holds_ground r (r\<lparr>r_brick_bits := clear_brick (r_brick_bits r) x y\<rparr>)"
    using base_ok_lengths(4) [OF assms] by (simp add: holds_ground_def spot_def slot_on_board_def is_brick_clear_brick)
  moreover have "holds_ground q (announce_brick a b at q)" for q a b by (rule holds_ground_rcore) simp
  ultimately show ?thesis using holds_ground_trans by (auto simp: break_brick_def)
qed

lemma holds_ground_shot_ops:
  "holds_ground r (launch_shot i sx sy dx dy r)" "holds_ground r (upd_shot i f r)"
  by (rule holds_ground_same; simp add: launch_shot_def upd_shot_def)+

lemma holds_ground_announce_shot: "holds_ground r (announce_shot i x y a r)"
  by (rule holds_ground_rcore) simp

lemma holds_ground_retire: "holds_ground r (retire_shot i r)"
  unfolding retire_shot_def by (rule holds_ground_trans [OF holds_ground_shot_ops(2) holds_ground_announce_shot])

lemma holds_ground_advance: "holds_ground r (advance_shot i x y r)"
  unfolding advance_shot_def Let_def by (rule holds_ground_trans [OF holds_ground_shot_ops(2) holds_ground_announce_shot])

lemma holds_ground_start_shot:
  assumes "base_ok r"
  shows "holds_ground r (start_shot i joy r)"
proof (rule start_shot_cases [of i joy r])
  fix sx sy p
  assume at: "actor_at r p sx sy" and run: "start_shot i joy r =
      (let (ended, r1) = hit_victim i p (room_now r) None (room_now_read r) in
       if ended then r1 else announce_shot i 0 0 0 r1)"
  have "slot_on_board (room_now_read r) p" using at by (simp add: actor_at_def slot_on_board_def split: if_splits)
  then have "holds_ground (room_now_read r) (snd (hit_victim i p (room_now r) None (room_now_read r)))"
    using assms by (intro holds_ground_hit) simp_all
  then have "holds_ground r (snd (hit_victim i p (room_now r) None (room_now_read r)))"
    by (rule holds_ground_trans [OF holds_ground_rcore, rotated]) simp
  then show ?thesis unfolding run using holds_ground_trans [OF _ holds_ground_announce_shot] by (auto simp: split_beta)
qed (simp_all add: holds_ground_break holds_ground_shot_ops assms)

lemma holds_ground_step_shot:
  assumes "base_ok r"
  shows "holds_ground r (snd (step_shot now pre i r))"
proof (rule step_shot_cases [of r i now pre])
  fix nx ny p
  assume h: "shot_hits r pre i nx ny p" and run: "step_shot now pre i r =
      (let (ended, r1) = hit_victim i p now (Some now) r in
       if ended then (True, r1) else (False, retire_shot i r1))"
  have "holds_ground r (snd (hit_victim i p now (Some now) r))"
    using h by (intro holds_ground_hit [OF assms]) (simp add: shot_hits_def)
  then show ?thesis unfolding run using holds_ground_trans [OF _ holds_ground_retire] by (auto simp: split_beta)
qed (simp_all add: holds_ground_retire holds_ground_advance
    holds_ground_trans [OF holds_ground_break holds_ground_retire] assms)

lemma holds_ground_step_shots:
  assumes "base_ok r"
  shows "holds_ground r (step_shots pre r)"
proof -
  have clear: "holds_ground q (clear_burst_step i q)" for i q
    using holds_ground_trans [OF holds_ground_shot_ops(2) holds_ground_announce_shot]
    by (simp add: clear_burst_step_def)
  define res where "res = for_until (step_shot (room_now r) pre) [0..<MAX_PLAYERS] (room_now_read r)"
  let ?P = "\<lambda>q. holds_ground r q \<and> base_ok q"
  have "?P (snd res)" unfolding res_def
  proof (rule for_until_invariant [of _ ?P])
    show "?P (room_now_read r)" using assms by (auto intro: holds_ground_rcore)
  next
    fix i q assume "i \<in> set [0..<4]" "?P q"
    then show "?P (snd (step_shot (room_now r) pre i q))"
      using holds_ground_trans [OF _ holds_ground_step_shot] by auto
  qed
  moreover have "holds_ground r (for_slots clear_burst_step q)" if "holds_ground r q" for q
    by (rule for_slots_invariant [of "holds_ground r"]) (use that holds_ground_trans [OF _ clear] in auto)
  ultimately show ?thesis by (simp add: step_shots_def Let_def split_beta res_def)
qed

lemma actor_cell_spot: "actor_cell r i = (uint (fst (spot r i)), uint (snd (spot r i)))"
  by (simp add: actor_cell_def spot_def)

lemma no_meeting_holds: "holds_ground r q \<Longrightarrow> no_meeting r q"
  by (simp add: holds_ground_def no_meeting_def actor_cell_spot)

section \<open>The moves of one tick\<close>

text \<open>A free cell is left whenever one of the four slots is off the board.\<close>

lemma open_cells_free_but:
  assumes "open_cells (r_brick_bits r) cells" "k < 4" "\<not> slot_on_board r k"
  shows "\<exists>a b. spawn_cell_is_free r a b"
proof (rule ccontr)
  assume none: "\<nexists>a b. spawn_cell_is_free r a b"
  let ?at = "\<lambda>j. (uint (p_x (r_players r ! j)), uint (p_y (r_players r ! j)))"
  have "set cells \<subseteq> ?at ` ({..<4} - {k})"
  proof
    fix c assume c: "c \<in> set cells"
    obtain x y where xy: "c = (x, y)" by force
    have clear: "\<not> is_brick (r_brick_bits r) x y"
      using assms(1) c xy by (auto simp: open_cells_def list_all_iff)
    then have on: "on_map x y" using off_map_is_brick by blast
    obtain j where j: "j < 4" "slot_on_board r j" "p_x (r_players r ! j) = of_int x" "p_y (r_players r ! j) = of_int y"
      using none clear by (auto simp: spawn_cell_is_free_def is_player_at_iff)
    then have "?at j = (x, y)" using on by (simp add: on_map_def uint_of_int_cell)
    then show "c \<in> ?at ` ({..<4} - {k})" using xy j assms(3)
      by (intro image_eqI [of _ _ j]) auto
  qed
  then have "card (set cells) \<le> card (?at ` ({..<4} - {k}))" by (intro card_mono) simp_all
  also have "\<dots> \<le> card ({..<4 :: nat} - {k})" by (rule card_image_le) simp
  also have "\<dots> = 3" using assms(2) by simp
  finally show False using assms(1) by (simp add: open_cells_def distinct_card)
qed

text \<open>Only player \<open>i\<close> changes, it keeps its place on the board, and bricks are only removed.\<close>

definition one_cell :: "nat \<Rightarrow> room \<Rightarrow> room \<Rightarrow> bool" where
  "one_cell i r q \<longleftrightarrow> (\<forall>j < 4. (j \<noteq> i \<longrightarrow> spot q j = spot r j) \<and> (slot_on_board q j \<longrightarrow> slot_on_board r j)) \<and>
     \<bar>uint (fst (spot q i)) - uint (fst (spot r i))\<bar> + \<bar>uint (snd (spot q i)) - uint (snd (spot r i))\<bar> \<le> 1 \<and>
     (\<forall>x y. is_brick (r_brick_bits q) x y \<longrightarrow> is_brick (r_brick_bits r) x y)"

lemma holds_one_cell: "holds_ground r q \<Longrightarrow> i < 4 \<Longrightarrow> one_cell i r q"
  by (simp add: holds_ground_def one_cell_def)

lemma holds_then_one: "holds_ground r q \<Longrightarrow> i < 4 \<Longrightarrow> one_cell i q u \<Longrightarrow> one_cell i r u"
  by (auto simp: holds_ground_def one_cell_def)

lemma one_then_holds: "one_cell i r q \<Longrightarrow> i < 4 \<Longrightarrow> holds_ground q u \<Longrightarrow> one_cell i r u"
  by (auto simp: holds_ground_def one_cell_def)

lemma one_cell_move:
  assumes "base_ok r" "i < 4"
  shows "one_cell i r (apply_move_if_free i r)"
proof (rule move_cases [OF assms])
  assume "apply_move_if_free i r = r"
  then show ?thesis using assms(2) by (simp add: one_cell_def)
next
  fix nx ny
  let ?f = "\<lambda>p. p\<lparr>p_x := of_int nx, p_y := of_int ny\<rparr> :: player_state"
  assume on: "on_map nx ny" and run: "apply_move_if_free i r = upd_player i ?f r"
    and near: "\<bar>nx - uint (p_x (r_players r ! i))\<bar> + \<bar>ny - uint (p_y (r_players r ! i))\<bar> \<le> 1"
  have "slot_on_board (upd_player i ?f r) j = slot_on_board r j" for j by (rule on_board_upd_player) simp
  moreover have "uint (of_int nx :: u8) = nx" "uint (of_int ny :: u8) = ny"
    using on by (auto simp: on_map_def uint_of_int_cell)
  moreover have "r_brick_bits (upd_player i ?f r) = r_brick_bits r" by (simp add: upd_player_def)
  ultimately show ?thesis unfolding run
    using near assms(2) base_ok_lengths(2) [OF assms(1)] by (simp add: one_cell_def spot_def upd_player_nth)
qed

lemma holds_ground_thinks: "thinks i r q \<Longrightarrow> holds_ground r q"
  by (simp add: holds_ground_def spot_def thinks_keeps)

lemma thinks_stale: "thinks i r (stale_neutral now zm i r)"
  by (auto simp: stale_neutral_def mental_def neutral_joy intro: thinks_upd)

text \<open>One turn keeps the invariants, moves its own actor by at most one cell, and onto nobody else.\<close>

lemma actor_turn_board:
  assumes "base_ok r" "i < 4"
  shows "one_cell i r (snd (actor_turn now zm hm i r))"
    and "no_meeting r (snd (actor_turn now zm hm i r))"
proof -
  let ?s = "stale_neutral now zm i r" and ?q = "snd (actor_turn now zm hm i r)"
  have stale: "holds_ground r ?s" by (rule holds_ground_thinks [OF thinks_stale])
  have oks: "base_ok ?s" by (rule thinks_base_ok [OF thinks_stale assms(1)])
  have shot: "holds_ground r (start_shot i joy q) \<and> base_ok (start_shot i joy q)" if th: "thinks i ?s q" for joy q
  proof -
    have "base_ok q" by (rule thinks_base_ok [OF th oks])
    then show ?thesis
      using holds_ground_trans [OF stale holds_ground_trans [OF holds_ground_thinks [OF th] holds_ground_start_shot]]
      by simp
  qed
  have move: "one_cell i q (actor_move now zm joy i q)" "no_meeting q (actor_move now zm joy i q)"
    if ok: "base_ok q" for joy q
    using one_cell_move [OF ok assms(2)] no_meeting_move [OF ok assms(2)]
      one_then_holds [OF one_cell_move [OF ok assms(2)] assms(2) holds_ground_thinks [OF thinks_after_move]]
      no_meeting_trans [OF no_meeting_move [OF ok assms(2)] no_meeting_holds [OF holds_ground_thinks [OF thinks_after_move]]]
    by (auto simp: actor_move_def Let_def)
  have "one_cell i r ?q \<and> no_meeting r ?q"
  proof (rule actor_turn_cases [of now zm hm i r])
    assume "actor_turn now zm hm i r = (False, ?s)"
    then show ?thesis using holds_one_cell [OF stale assms(2)] no_meeting_holds [OF stale] by simp
  next
    fix joy q
    assume th: "thinks i ?s q" and "actor_turn now zm hm i r = (r_round_state (start_shot i joy q) \<noteq> ROUND_PLAYING, start_shot i joy q)"
    then show ?thesis
      using shot [OF th, of joy] holds_one_cell [OF _ assms(2), of r "start_shot i joy q"]
        no_meeting_holds [of r "start_shot i joy q"] by simp
  next
    fix joy q
    assume th: "thinks i ?s q" and run: "actor_turn now zm hm i r = (False, actor_move now zm joy i (start_shot i joy q))"
    have s: "holds_ground r (start_shot i joy q)" "base_ok (start_shot i joy q)" using shot [OF th, of joy] by simp_all
    show ?thesis
      using move [OF s(2), of joy] holds_then_one [OF s(1) assms(2)] no_meeting_trans [OF no_meeting_holds [OF s(1)]]
      unfolding run by simp
  qed
  then show "one_cell i r ?q" "no_meeting r ?q" by simp_all
qed

text \<open>Neutral stick, no shot announced at a human or at a brick.\<close>

definition at_ease :: "player_state \<Rightarrow> bool" where
  "at_ease p \<longleftrightarrow> p_joy p = 0x0F \<and> zombie_fire_windup_until_ms p = 0 \<and> \<not> zombie_brick_fire_pending p"

lemma finalize_fields:
  fixes now :: u64
  assumes "base_ok r" "i < 4"
  defines "due \<equiv> respawn_at_ms (r_players r ! i) \<noteq> 0 \<and> respawn_at_ms (r_players r ! i) \<le> now"
  shows "j \<noteq> i \<Longrightarrow> r_players (finalize_respawn now i r) ! j = r_players r ! j"
    and "\<not> due \<Longrightarrow> finalize_respawn now i r = r"
    and "due \<Longrightarrow> spot (finalize_respawn now i r) i = fst (pick_spawn r)"
    and "due \<Longrightarrow> respawn_at_ms (r_players (finalize_respawn now i r) ! i) = 0"
    and "r_occupied_mask (finalize_respawn now i r) = r_occupied_mask r"
    and "r_brick_bits (finalize_respawn now i r) = r_brick_bits r"
    and "due \<Longrightarrow> at_ease (r_players (finalize_respawn now i r) ! i)"
proof -
  have len: "i < length (r_players r)" using assms(2) base_ok_lengths(2) [OF assms(1)] by simp
  note p = place_actor_fields [OF len]
  have len': "i < length (r_players (place_actor i r))" using p(8) len by simp
  let ?r3 = "reset_zombie_schedule i now (upd_player i (\<lambda>p. p\<lparr>respawn_at_ms := 0, p_joy := 0x0F\<rparr>) (place_actor i r))"
  have r3: "j \<noteq> i \<Longrightarrow> r_players ?r3 ! j = r_players r ! j" "spot ?r3 i = fst (pick_spawn r)"
    "respawn_at_ms (r_players ?r3 ! i) = 0" "r_occupied_mask ?r3 = r_occupied_mask r" "r_brick_bits ?r3 = r_brick_bits r"
    "at_ease (r_players ?r3 ! i)" for j
    using len' p by (simp_all add: reset_zombie_schedule_def upd_player_nth spot_def zombie_schedule_def at_ease_def)
      (simp_all add: upd_player_def)
  have frame: "r_players (announce_respawn i x y fl at q) = r_players q"
    "r_occupied_mask (announce_respawn i x y fl at q) = r_occupied_mask q"
    "r_brick_bits (announce_respawn i x y fl at q) = r_brick_bits q" for x y fl at q
    by (rule rcoreD [OF rcore_announce_respawn])+
  have run: "finalize_respawn now i r =
      (if due then announce_respawn i (p_x (r_players ?r3 ! i)) (p_y (r_players ?r3 ! i)) 0x03 (Some now) ?r3 else r)"
    by (simp add: finalize_respawn_def Let_def due_def)
  show "j \<noteq> i \<Longrightarrow> r_players (finalize_respawn now i r) ! j = r_players r ! j"
    "\<not> due \<Longrightarrow> finalize_respawn now i r = r"
    "due \<Longrightarrow> spot (finalize_respawn now i r) i = fst (pick_spawn r)"
    "due \<Longrightarrow> respawn_at_ms (r_players (finalize_respawn now i r) ! i) = 0"
    "r_occupied_mask (finalize_respawn now i r) = r_occupied_mask r"
    "r_brick_bits (finalize_respawn now i r) = r_brick_bits r"
    "due \<Longrightarrow> at_ease (r_players (finalize_respawn now i r) ! i)"
    unfolding run using r3 by (simp_all add: spot_def frame)
qed

lemma no_meeting_finalize:
  assumes "base_ok r" "i < 4" "open_cells (r_brick_bits r) cells"
  shows "no_meeting r (finalize_respawn now i r)"
proof (cases "respawn_at_ms (r_players r ! i) \<noteq> 0 \<and> respawn_at_ms (r_players r ! i) \<le> now")
  case False
  then show ?thesis using finalize_fields(2) [OF assms(1,2) False] by simp
next
  case due: True
  note f = finalize_fields [OF assms(1,2), where now = now]
  let ?q = "finalize_respawn now i r"
  have "\<not> slot_on_board r i" using due by (simp add: slot_on_board_def)
  then have free: "\<exists>a b. spawn_cell_is_free r a b" by (rule open_cells_free_but [OF assms(3,2)])
  have other: "spot ?q j = spot r j" "slot_on_board ?q j = slot_on_board r j" if "j \<noteq> i" for j
    using f(1) [OF that] f(5) by (simp_all add: spot_def slot_on_board_def)
  have "spot ?q i \<noteq> spot r j" if "j < 4" "slot_on_board r j" for j
    using pick_spawn_avoids [OF free that] f(3) [OF due] by (auto simp: spot_def)
  then show ?thesis using other
    by (intro no_meeting_one [of i]) (auto simp: actor_cell_spot word_uint_eq_iff prod_eq_iff)
qed

section \<open>The tick as a whole\<close>

text \<open>The room after the masks, after the respawns and after the actors' turns.\<close>

definition tick_room_masks :: "room \<Rightarrow> room" where
  "tick_room_masks r = (let r0 = room_now_read r; zm = room_zombies r0 in
     r0\<lparr>r_occupied_mask := tick_mask zm (human_mask (room_now r) zm r0)\<rparr>)"

definition tick_respawned :: "room \<Rightarrow> room" where
  "tick_respawned r = for_slots (finalize_respawn (room_now r)) (tick_room_masks r)"

definition tick_moved :: "room \<Rightarrow> bool \<times> room" where
  "tick_moved r = (let zm = room_zombies (room_now_read r) in
     for_until (actor_turn (room_now r) zm (human_mask (room_now r) zm (room_now_read r))) [0..<MAX_PLAYERS]
       (tick_respawned r))"

lemma step_players_eq:
  "step_players r = (if fst (tick_moved r) then snd (tick_moved r)
     else step_shots (positions (tick_respawned r)) (snd (tick_moved r)))"
  by (simp add: step_players_def tick_start_def tick_moved_def tick_respawned_def tick_room_masks_def Let_def split_beta)

lemma tick_masks_ok: "base_ok r \<Longrightarrow> base_ok (tick_room_masks r)"
  by (simp add: tick_room_masks_def Let_def)

lemma finalize_base: "base_ok r \<Longrightarrow> base_ok (finalize_respawn now i r)"
  using gameplay_finalize [of r now i] by (simp add: gameplay_def)

lemma actor_turn_base: "base_ok r \<Longrightarrow> base_ok (snd (actor_turn now zm hm i r))"
  using gameplay_actor_turn [of r now zm hm i] by (simp add: gameplay_def)

lemma respawned_base: "base_ok r \<Longrightarrow> base_ok (tick_respawned r)"
  unfolding tick_respawned_def by (rule for_slots_invariant) (simp_all add: finalize_base tick_masks_ok)

text \<open>A respawn that is not due leaves its slot alone, and one slot's respawn leaves the others alone.\<close>

lemma respawned_player:
  assumes "base_ok r" "i < 4" "\<not> (respawn_at_ms (r_players r ! i) \<noteq> 0 \<and> respawn_at_ms (r_players r ! i) \<le> room_now r)"
  shows "r_players (tick_respawned r) ! i = r_players r ! i"
proof -
  let ?P = "\<lambda>q. base_ok q \<and> r_players q ! i = r_players r ! i"
  have "?P (tick_respawned r)"
    unfolding tick_respawned_def
  proof (rule for_slots_invariant [of ?P])
    show "?P (tick_room_masks r)" using tick_masks_ok [OF assms(1)] by (simp add: tick_room_masks_def Let_def)
  next
    fix k :: nat and q assume k: "k < 4" and q: "?P q"
    show "?P (finalize_respawn (room_now r) k q)"
    proof (cases "k = i")
      case True
      have "finalize_respawn (room_now r) i q = q"
        using q assms(2,3) by (intro finalize_fields(2)) auto
      then show ?thesis using True q by simp
    next
      case False
      then have "r_players (finalize_respawn (room_now r) k q) ! i = r_players q ! i"
        using q k by (intro finalize_fields(1)) auto
      then show ?thesis using q finalize_base by simp
    qed
  qed
  then show ?thesis by simp
qed

lemma respawned_no_meeting:
  assumes "base_ok r" "open_cells (r_brick_bits r) cells"
  shows "no_meeting (tick_room_masks r) (tick_respawned r)"
proof -
  let ?P = "\<lambda>q. base_ok q \<and> r_brick_bits q = r_brick_bits r \<and> no_meeting (tick_room_masks r) q"
  have "?P (tick_respawned r)"
    unfolding tick_respawned_def
  proof (rule for_slots_invariant [of ?P])
    show "?P (tick_room_masks r)"
      using tick_masks_ok [OF assms(1)] by (simp add: tick_room_masks_def Let_def)
  next
    fix k :: nat and q assume k: "k < 4" and q: "?P q"
    then show "?P (finalize_respawn (room_now r) k q)"
      using finalize_fields(6) [of q k "room_now r"] assms(2)
        no_meeting_trans [OF _ no_meeting_finalize [of q k cells "room_now r"], of "tick_room_masks r"]
      by (simp add: finalize_base)
  qed
  then show ?thesis by simp
qed

text \<open>Over all turns, an actor's displacement is that of its own turn.\<close>

lemma turns_displacement:
  assumes "distinct ks" "set ks \<subseteq> {..<4}" "base_ok q" "i < 4"
  shows "base_ok (snd (for_until (actor_turn now zm hm) ks q)) \<and>
    (i \<notin> set ks \<longrightarrow> spot (snd (for_until (actor_turn now zm hm) ks q)) i = spot q i) \<and>
    cell_distance (actor_cell q i) (actor_cell (snd (for_until (actor_turn now zm hm) ks q)) i) \<le> 1"
  using assms
proof (induction ks arbitrary: q)
  case Nil
  then show ?case by (simp add: cell_distance_def)
next
  case (Cons k ks)
  obtain stop u where u: "actor_turn now zm hm k q = (stop, u)" by force
  have okq: "base_ok q" and k: "k < 4" using Cons.prems by auto
  have oku: "base_ok u" using actor_turn_base [OF okq, of now zm hm k] u by simp
  have cell: "one_cell k q u" using actor_turn_board(1) [OF okq k, of now zm hm] u by simp
  have near: "cell_distance (actor_cell q k) (actor_cell u k) \<le> 1"
    using cell by (simp add: one_cell_def cell_distance_def actor_cell_def spot_def abs_minus_commute)
  have far: "spot u i = spot q i" if "i \<noteq> k" using cell that Cons.prems(4) by (simp add: one_cell_def)
  have at: "actor_cell a i = actor_cell b i" if "spot a i = spot b i" for a b
    using that by (simp add: actor_cell_def spot_def)
  show ?case
  proof (cases stop)
    case True
    then show ?thesis using u oku near far at [of u q] by (cases "i = k") (auto simp: cell_distance_def)
  next
    case False
    let ?v = "snd (for_until (actor_turn now zm hm) ks u)"
    have ih: "base_ok ?v" "i \<notin> set ks \<Longrightarrow> spot ?v i = spot u i" "cell_distance (actor_cell u i) (actor_cell ?v i) \<le> 1"
      using Cons.IH [OF _ _ oku Cons.prems(4)] Cons.prems(1,2) by auto
    have v: "snd (for_until (actor_turn now zm hm) (k # ks) q) = ?v" using u False by simp
    show ?thesis
    proof (cases "i = k")
      case True
      then have "spot ?v i = spot u i" using Cons.prems(1) ih(2) by simp
      then show ?thesis unfolding v using ih(1) True near at [of ?v u] by simp
    next
      case False
      then show ?thesis unfolding v using ih far at [of u q] by auto
    qed
  qed
qed

lemma turns_no_meeting:
  assumes "base_ok q"
  shows "no_meeting q (snd (for_until (actor_turn now zm hm) [0..<4] q))"
proof -
  let ?P = "\<lambda>u. base_ok u \<and> no_meeting q u"
  have "?P (snd (for_until (actor_turn now zm hm) [0..<4] q))"
    by (rule for_until_invariant [of _ ?P]) (use assms in \<open>auto intro: actor_turn_base no_meeting_trans actor_turn_board(2)\<close>)
  then show ?thesis by simp
qed

lemma moved_base: "base_ok r \<Longrightarrow> base_ok (snd (tick_moved r))"
  using gameplay_actor_loop [of "tick_respawned r"] respawned_base [of r]
  by (simp add: tick_moved_def Let_def gameplay_def)

lemma moved_holds: "base_ok r \<Longrightarrow> holds_ground (snd (tick_moved r)) (step_players r)"
  using holds_ground_step_shots [OF moved_base] by (simp add: step_players_eq)

section \<open>Properties\<close>

text \<open>
  Nobody jumps. Over a whole tick, whatever its input, its AI or the shots, an actor whose
  respawn is not due ends at most one cell, horizontally or vertically, from where it stood.
\<close>

theorem actor_speed_limit:
  assumes "base_ok r" "i < MAX_PLAYERS"
    and "\<not> (respawn_at_ms (r_players r ! i) \<noteq> 0 \<and> respawn_at_ms (r_players r ! i) \<le> room_now r)"
  shows "cell_distance (actor_cell r i) (actor_cell (step_players r) i) \<le> 1"
proof -
  let ?m = "snd (tick_moved r)"
  have "actor_cell (tick_respawned r) i = actor_cell r i"
    using respawned_player [OF assms] by (simp add: actor_cell_def)
  moreover have "cell_distance (actor_cell (tick_respawned r) i) (actor_cell ?m i) \<le> 1"
    unfolding tick_moved_def Let_def
    by (rule turns_displacement [THEN conjunct2, THEN conjunct2])
      (use respawned_base [OF assms(1)] assms(2) in auto)
  moreover have "spot (step_players r) i = spot ?m i"
    using moved_holds [OF assms(1)] assms(2) by (simp add: holds_ground_def)
  ultimately show ?thesis by (simp add: actor_cell_def spot_def)
qed

theorem actor_speed_limit_witness:
  "cell_distance (actor_cell demo_runner 0) (actor_cell (step_players demo_runner) 0) \<le> 1"
proof -
  have alive: "respawn_at_ms (r_players demo_runner ! 0) = 0"
    by (simp add: demo_runner_def upd_player_nth demo_room_def demo_player_def player_zero_def)
  have first: "(0 :: nat) < MAX_PLAYERS" by simp
  from actor_speed_limit [OF demo_runner_ok first] alive show ?thesis by simp
qed

text \<open>
  C23: A tick never brings two actors together. Respawns, moves, zombies and shots of a whole tick: if
  two actors on the board share a cell after it, then both were on the board of this tick's mask
  before it, on that very cell. So whoever stands alone is neither stepped on nor respawned upon. (The
  mask itself, drawn up anew each tick, can put a zombie on the board where its slot was left.) The
  maze needs four open cells, without which a respawn has nowhere to go.
\<close>

theorem tick_brings_nobody_together:
  assumes "base_ok r" "open_cells (r_brick_bits r) cells" "i < MAX_PLAYERS" "j < MAX_PLAYERS" "i \<noteq> j"
    and "q = step_players r"
  shows "slot_on_board q i \<and> slot_on_board q j \<and> actor_cell q i = actor_cell q j \<longrightarrow>
    slot_on_board (tick_room_masks r) i \<and> slot_on_board (tick_room_masks r) j \<and>
    actor_cell r i = actor_cell q i \<and> actor_cell r j = actor_cell q j"
proof -
  have "no_meeting (tick_respawned r) (snd (tick_moved r))"
    unfolding tick_moved_def Let_def by (rule turns_no_meeting [OF respawned_base [OF assms(1)]])
  from no_meeting_trans [OF this no_meeting_holds [OF moved_holds [OF assms(1)]]]
  have "no_meeting (tick_room_masks r) q"
    unfolding assms(6) by (rule no_meeting_trans [OF respawned_no_meeting [OF assms(1,2)]])
  moreover have "actor_cell (tick_room_masks r) k = actor_cell r k" for k
    by (simp add: tick_room_masks_def Let_def actor_cell_def)
  ultimately show ?thesis using assms(3-5) by (auto simp: no_meeting_def)
qed

text \<open>In the demonstration room the four actors stand apart, so they still do after a tick.\<close>

theorem tick_brings_nobody_together_witness:
  "\<not> (slot_on_board (step_players demo_room) 0 \<and> slot_on_board (step_players demo_room) 1 \<and>
      actor_cell (step_players demo_room) 0 = actor_cell (step_players demo_room) 1)"
proof -
  have cells: "open_cells (r_brick_bits demo_room) [(5, 5), (6, 5), (7, 5), (8, 5)]"
    using is_brick_zero by (simp add: open_cells_def demo_room_def on_map_def)
  have "actor_cell demo_room 0 \<noteq> actor_cell demo_room 1" by (simp add: actor_cell_def demo_room_def demo_player_def)
  then show ?thesis using tick_brings_nobody_together [OF demo_room_base_ok cells, of 0 1, OF _ _ _ refl] by auto
qed

text \<open>
  A respawn that has come due puts the actor back on a free cell: brick-free and with no other
  actor on it, alive, with a neutral stick and without any pending zombie action. One that is not
  due changes nothing.
\<close>

theorem respawn_returns_safely:
  assumes "base_ok r" "i < MAX_PLAYERS" "open_cells (r_brick_bits r) cells" "respawn_at_ms (r_players r ! i) \<noteq> 0"
  shows "if respawn_at_ms (r_players r ! i) \<le> now
    then (let q = finalize_respawn now i r in respawn_at_ms (r_players q ! i) = 0 \<and> at_ease (r_players q ! i) \<and>
        \<not> is_brick (r_brick_bits q) (uint (fst (spot q i))) (uint (snd (spot q i))) \<and>
        list_all (\<lambda>j. j = i \<or> \<not> slot_on_board q j \<or> spot q j \<noteq> spot q i) [0..<MAX_PLAYERS])
    else finalize_respawn now i r = r"
proof (cases "respawn_at_ms (r_players r ! i) \<le> now")
  case False
  then show ?thesis using finalize_fields(2) [OF assms(1,2)] by simp
next
  case le: True
  then have due: "respawn_at_ms (r_players r ! i) \<noteq> 0 \<and> respawn_at_ms (r_players r ! i) \<le> now" using assms(4) by simp
  note f = finalize_fields [OF assms(1,2), where now = now]
  let ?q = "finalize_respawn now i r"
  have "\<not> slot_on_board r i" using due by (simp add: slot_on_board_def)
  then have free: "\<exists>a b. spawn_cell_is_free r a b" by (rule open_cells_free_but [OF assms(3,2)])
  have "\<not> is_brick (r_brick_bits ?q) (uint (fst (spot ?q i))) (uint (snd (spot ?q i)))"
  proof (rule pick_spawn_cases [of r])
    fix x y
    assume on: "on_map x y" and xy: "fst (pick_spawn r) = (of_int x, of_int y)"
      and spec: "\<And>a b. spawn_cell_is_free r a b \<Longrightarrow> spawn_cell_is_free r x y \<and>
         (spawn_nearest_actor_distance r x y \<ge> SPAWN_MIN_DISTANCE \<or>
          spawn_nearest_actor_distance r a b \<le> spawn_nearest_actor_distance r x y)"
    have "spawn_cell_is_free r x y" using free spec by blast
    then show ?thesis using f(3) [OF due] f(6) xy on
      by (simp add: spawn_cell_is_free_def on_map_def uint_of_int_cell)
  qed
  moreover have "spot ?q j \<noteq> spot ?q i" if "j < 4" "j \<noteq> i" "slot_on_board ?q j" for j
  proof -
    have "slot_on_board r j" "spot ?q j = spot r j"
      using that(3) f(1) [OF that(2)] f(5) by (auto simp: slot_on_board_def spot_def split: if_splits)
    then show ?thesis using pick_spawn_avoids [OF free that(1)] f(3) [OF due] by (auto simp: spot_def)
  qed
  ultimately show ?thesis using le f(4) [OF due] f(7) [OF due] by (auto simp: Let_def list_all_iff)
qed

definition demo_dead :: room where
  "demo_dead = upd_player 2 (\<lambda>p. p\<lparr>respawn_at_ms := 5\<rparr>) demo_room"

theorem respawn_returns_safely_witness:
  "respawn_at_ms (r_players (finalize_respawn 10 2 demo_dead) ! 2) = 0 \<and>
   p_joy (r_players (finalize_respawn 10 2 demo_dead) ! 2) = 0x0F"
proof -
  have ok: "base_ok demo_dead" unfolding demo_dead_def by (rule base_ok_respawn_at [OF demo_room_base_ok])
  have cells: "open_cells (r_brick_bits demo_dead) [(5, 5), (6, 5), (7, 5), (8, 5)]"
    using is_brick_zero by (simp add: open_cells_def demo_dead_def upd_player_def demo_room_def on_map_def)
  have at: "respawn_at_ms (r_players demo_dead ! 2) = 5"
    by (simp add: demo_dead_def upd_player_nth demo_room_def)
  have slot: "(2 :: nat) < MAX_PLAYERS" and some: "respawn_at_ms (r_players demo_dead ! 2) \<noteq> 0" by (simp_all add: at)
  from respawn_returns_safely [OF ok slot cells some, of 10] show ?thesis
    by (simp add: at Let_def at_ease_def)
qed

end
