(* ===== verification/Phases.thy ===== *)
theory Phases
  imports Players
begin

text \<open>
  The phase of a room against who is seated. A dormant room has no seated human and no running
  grace period, and a running grace period means there is no seated human. \<open>sound\<close> joins this to
  the other invariants; lemmas: which room transitions keep it, and that everything a tick does
  keeps it.
\<close>

section \<open>The invariant\<close>

definition phase_ok :: "room \<Rightarrow> bool" where
  "phase_ok r \<longleftrightarrow>
     (r_round_state r = ROUND_DORMANT \<longrightarrow> room_human_count r = 0 \<and> r_no_human_deadline_ms r = 0) \<and>
     (r_no_human_deadline_ms r \<noteq> 0 \<longrightarrow> room_human_count r = 0)"

definition sound :: "room \<Rightarrow> bool" where
  "sound r \<longleftrightarrow> fit r \<and> phase_ok r"

lemma sound_fit [simp]: "sound r \<Longrightarrow> fit r" "sound r \<Longrightarrow> base_ok r"
  by (simp_all add: sound_def)

lemma soundI: "base_ok r \<Longrightarrow> round_ok r \<Longrightarrow> shots_open r \<Longrightarrow> phase_ok r \<Longrightarrow> sound r"
  unfolding sound_def fit_def by blast

lemma human_count_zero: "room_human_count r = 0 \<longleftrightarrow> (\<forall>i < 4. \<not> seated (r_clients r ! i))"
  by (auto simp: room_human_count_def filter_empty_conv)

lemma gameplay_humans:
  assumes "gameplay r q" "base_ok r"
  shows "room_human_count q = room_human_count r"
  using assms base_ok_lengths(1) by (intro rkey_humans) (auto simp: gameplay_def)

lemma gameplay_phase:
  assumes "gameplay r q" "base_ok r" "phase_ok r"
  shows "phase_ok q"
  using assms(1,3) gameplay_humans [OF assms(1,2)] by (auto simp: gameplay_def phase_ext_def phase_ok_def)

lemma sound_gameplay:
  assumes "gameplay r q" "sound r"
  shows "sound q"
proof -
  have "phase_ok q" using assms(2) by (intro gameplay_phase [OF assms(1)]) (simp_all add: sound_def)
  then show ?thesis using assms by (simp add: sound_def gameplay_def)
qed

section \<open>Shots across the round transitions\<close>

lemma shots_open_none: "r_shots r = replicate 4 shot_zero \<Longrightarrow> shots_open r"
  by (simp add: shots_open_def shot_zero_def)

lemma shots_open_fields [simp]:
  "shots_open (r\<lparr>r_occupied_mask := m\<rparr>) = shots_open r" "shots_open (r\<lparr>r_no_human_deadline_ms := t\<rparr>) = shots_open r"
  "shots_open (r\<lparr>r_last_input_ms := li\<rparr>) = shots_open r" "shots_open (r\<lparr>r_clients := cs\<rparr>) = shots_open r"
  "shots_open (upd_client i f r) = shots_open r" "shots_open (occupy i r) = shots_open r"
  "shots_open (room_rand_read r) = shots_open r" "shots_open (reset_zombie_schedule i now r) = shots_open r"
  "shots_open (r\<lparr>r_historical_zombie_mask := m\<rparr>) = shots_open r"
  by (simp_all add: shots_open_def upd_client_def occupy_def reset_zombie_schedule_def upd_player_def)

lemma shots_open_place_actor [simp]: "shots_open (place_actor i r) = shots_open r"
  by (simp add: place_actor_def split_beta shots_open_rcore [OF rcore_pick_spawn])

lemma shots_open_reset_slot: "shots_open r \<Longrightarrow> base_ok r \<Longrightarrow> shots_open (reset_slot_gameplay i now r)"
proof -
  assume "shots_open r" "base_ok r"
  then have "shots_open (upd_shot i (\<lambda>s. s\<lparr>s_active := False, s_clear_burst := 3\<rparr>) r)"
    by (rule shots_open_upd_shot) simp
  then show ?thesis using \<open>shots_open r\<close> by (simp add: reset_slot_gameplay_def Let_def)
qed

lemma shots_open_reset_round: "base_ok r \<Longrightarrow> shots_open (reset_round now r)"
  using reset_round_fresh [of r now "[]"] by (intro shots_open_none) (simp add: fresh_round_def)

lemma shots_open_send_round_state [simp]: "shots_open (send_round_state i now r) = shots_open r"
  by (rule shots_open_rcore) simp

lemma shots_open_wake_slot: "shots_open r \<Longrightarrow> base_ok r \<Longrightarrow> shots_open (wake_slot now zm i r)"
  by (simp add: wake_slot_def Let_def shots_open_reset_slot)

section \<open>Transitions\<close>

lemma fit_reset_round: "fit r \<Longrightarrow> fit (reset_round now r)"
  by (simp add: fit_def shots_open_reset_round)

lemma fit_enter_dormant: "fit r \<Longrightarrow> fit (enter_dormant now r)"
proof -
  assume "fit r"
  moreover have "r_shots (enter_dormant now r) = r_shots (reset_round now r)" by (simp add: enter_dormant_def)
  moreover have "r_shots (reset_round now r) = replicate 4 shot_zero" if "base_ok r"
    using reset_round_fresh [OF that, of now "[]"] by (simp add: fresh_round_def)
  ultimately show ?thesis using shots_open_none [of "enter_dormant now r"] by (simp add: fit_def)
qed

lemma fit_wake:
  assumes "fit r" "r_round_state r \<noteq> ROUND_OVER"
  shows "fit (wake_dormant_room now r)"
proof -
  let ?q = "r\<lparr>r_round_state := ROUND_PLAYING, r_occupied_mask := 0, r_historical_zombie_mask := 0\<rparr>"
  have "shots_open (for_slots (wake_slot now zm) ?q) \<and> base_ok (for_slots (wake_slot now zm) ?q)" for zm
  proof (rule for_slots_invariant [of "\<lambda>r. shots_open r \<and> base_ok r"])
    show "shots_open ?q \<and> base_ok ?q" using assms by (simp add: fit_def) (simp add: shots_open_def)
  qed (simp add: shots_open_wake_slot)
  then have "shots_open (wake_dormant_room now r)"
    by (simp add: wake_dormant_room_def Let_def shots_open_def)
  then show ?thesis using assms by (simp add: fit_def)
qed

lemma fit_reset_slot: "fit r \<Longrightarrow> fit (reset_slot_gameplay i now r)"
  by (simp add: fit_def shots_open_reset_slot)

lemma gameplay_reset_slot: "gameplay r (reset_slot_gameplay i now r)"
  by (rule gameplay_rround) (simp_all add: fit_reset_slot)

lemma gameplay_activate: "gameplay r (activate_joining_client i keep now r)"
proof (rule gameplay_rround)
  have "shots_open (activate_joining_client i keep now r) = shots_open r"
    by (simp add: activate_joining_client_def Let_def)
  then show "fit r \<Longrightarrow> fit (activate_joining_client i keep now r)" by (simp add: fit_def)
qed simp_all

lemma gameplay_send_round_state: "i < 4 \<Longrightarrow> gameplay r (send_round_state i now r)"
  by (rule gameplay_rcore) simp_all

lemma sound_enter_dormant:
  assumes "fit r" "room_human_count r = 0"
  shows "sound (enter_dormant now r)"
proof -
  have "room_human_count (enter_dormant now r) = room_human_count r"
    using assms(1) base_ok_lengths(1) [of r] by (intro rkey_humans) simp_all
  then show ?thesis using assms fit_enter_dormant by (simp add: sound_def phase_ok_def)
qed

lemma sound_reset_round:
  assumes "sound r"
  shows "sound (reset_round now r)"
proof -
  have "room_human_count (reset_round now r) = room_human_count r"
    using assms base_ok_lengths(1) [of r] by (intro rkey_humans) simp_all
  then show ?thesis using assms fit_reset_round by (simp add: sound_def phase_ok_def)
qed

text \<open>The start of the grace period, once the last human is gone.\<close>

lemma sound_grace:
  assumes "fit r" "room_human_count r = 0" "r_round_state r = ROUND_DORMANT \<Longrightarrow> r_no_human_deadline_ms r = 0"
  shows "sound (begin_no_human_grace now r)"
proof -
  have len: "length (r_clients r) = 4" using assms(1) by (simp add: base_ok_lengths)
  have humans: "room_human_count (begin_no_human_grace now r) = 0"
    using rkey_humans [OF rkey_grace len] assms(2) by simp
  have "fit (begin_no_human_grace now r)"
  proof -
    let ?q = "r\<lparr>r_no_human_deadline_ms := now + of_int (cfg_no_human_grace_ms (r_config r)),
                r_shots := replicate MAX_PLAYERS shot_zero\<rparr>"
    have "fit ?q" using assms(1) by (simp add: fit_def shots_open_none)
    then show ?thesis using assms(1) fit_reset_round by (simp add: begin_no_human_grace_def Let_def)
  qed
  moreover have "phase_ok (begin_no_human_grace now r)"
    using humans assms(3) by (auto simp: phase_ok_def begin_no_human_grace_def Let_def)
  ultimately show ?thesis by (simp add: sound_def)
qed

end
