(* ===== verification/Packets.thy ===== *)
theory Packets
  imports Phases
begin

text \<open>
  What the server does with the bytes of one client, from \<^verbatim>\<open>server/main.c\<close>:
  \<open>handle_client_packet\<close> with every packet type it accepts, and \<open>process_client_bytes\<close>, which
  feeds the framing layer and dispatches what it delivers. Lemmas: a socket that has not completed
  HELLO changes no game state, a leaving one changes nothing at all, and no packet sequence
  whatsoever breaks the invariants.
\<close>

section \<open>One client's link\<close>

definition on_client :: "nat \<Rightarrow> (client_slot \<Rightarrow> env \<Rightarrow> client_slot \<times> env) \<Rightarrow> room \<Rightarrow> room" where
  "on_client i f r =
     (let (c, e) = f (r_clients r ! i) (r_env r) in r\<lparr>r_clients := (r_clients r)[i := c], r_env := e\<rparr>)"

definition send_to :: "nat \<Rightarrow> bytes \<Rightarrow> room \<Rightarrow> room" where
  "send_to i pkt r = on_client i (\<lambda>c e. send_checked c pkt e) r"

text \<open>A counter kept both per client and for the room.\<close>

definition note_both :: "nat \<Rightarrow> (transport_counters \<Rightarrow> transport_counters) \<Rightarrow> room \<Rightarrow> room" where
  "note_both i f r = upd_client i (\<lambda>c. c\<lparr>c_transport := f (c_transport c)\<rparr>)
     (r\<lparr>r_global_transport := f (r_global_transport r)\<rparr>)"

section \<open>The packet types\<close>

abbreviation (input) DELTA_LEN :: nat where "DELTA_LEN \<equiv> 5"
abbreviation (input) RESPAWN_LEN :: nat where "RESPAWN_LEN \<equiv> 7"
abbreviation (input) BRICK_DELTA_LEN :: nat where "BRICK_DELTA_LEN \<equiv> 5"

definition packet_has_bad_joy_for_slot :: "bytes \<Rightarrow> nat \<Rightarrow> u8 \<Rightarrow> bool" where
  "packet_has_bad_joy_for_slot pkt len slot =
     (if len < 4 \<or> pkt ! 0 \<noteq> PKT_DELTA then False
      else if len = 4 \<and> pkt ! 2 = slot then sanitize_client_joy (pkt ! 3) = None
      else if len = 4 \<and> pkt ! 1 = slot then sanitize_client_joy (pkt ! 3) = None
      else if len = 5 \<and> pkt ! 1 = PKT_DELTA \<and> pkt ! 3 = slot then sanitize_client_joy (pkt ! 4) = None
      else False)"

text \<open>The block taken while \<open>handshake_ok\<close> is clear.\<close>

definition accept_hello :: "nat \<Rightarrow> u64 \<Rightarrow> room \<Rightarrow> room" where
  "accept_hello slot now r =
     (let zombie_mask = room_zombies r;
          keep_join_position = (r_round_state r = ROUND_DORMANT \<or> (zombie_mask ! slot \<and> slot_on_board r slot));
          r1 = upd_client slot (\<lambda>c. c\<lparr>handshake_ok := True, received_packet := True\<rparr>) r;
          r2 = (if r_round_state r1 = ROUND_DORMANT then wake_dormant_room now r1 else r1);
          r3 = (if r_no_human_deadline_ms r2 \<noteq> 0 then r2\<lparr>r_no_human_deadline_ms := 0\<rparr> else r2);
          r4 = send_to slot [PKT_WELCOME, PROTOCOL_VERSION, r_round_id r3, phase_byte (r_round_state r3),
                 of_int (cfg_kill_limit (r_config r3))] r3;
          r5 = send_round_state slot now r4 in
      activate_joining_client slot keep_join_position now r5)"

definition reject_hello :: "client_slot \<Rightarrow> env \<Rightarrow> client_slot \<times> env" where
  "reject_hello c e =
     (let (c1, e1) = send_checked c [PKT_REJECT, PROTOCOL_VERSION, 1] e;
          (ok, tx, e2) = tcp_tx_flush (c_fd c1) (c_tx c1) e1 in
      (c1\<lparr>c_tx := tx\<lparr>tx_failed := True\<rparr>\<rparr>, e2))"

definition before_handshake :: "nat \<Rightarrow> bytes \<Rightarrow> u64 \<Rightarrow> room \<Rightarrow> room" where
  "before_handshake slot pkt now r =
     (if length pkt = 2 \<and> pkt ! 0 = PKT_HELLO \<and> pkt ! 1 = PROTOCOL_VERSION then accept_hello slot now r
      else if length pkt > 0 \<and> pkt ! 0 = PKT_HELLO then on_client slot reject_hello r
      else r)"

definition handle_leave :: "nat \<Rightarrow> bytes \<Rightarrow> room \<Rightarrow> room" where
  "handle_leave slot pkt r =
     (let r1 = send_to slot [PKT_LEAVE_ACK, pkt ! 1] r in
      if \<not> leave_requested (r_clients r1 ! slot)
      then upd_client slot (\<lambda>c. c\<lparr>leave_requested := True, leave_seq := pkt ! 1\<rparr>) r1
      else r1)"

text \<open>A well-formed DELTA in an open round: freshness, the input queue and the counters.\<close>

definition accept_delta :: "nat \<Rightarrow> transport_delta_packet \<Rightarrow> u64 \<Rightarrow> room \<Rightarrow> room" where
  "accept_delta slot delta now r =
     (let r1 = note_both slot (transport_stats_note_delta (d_format delta)) r;
          (fresh, c) = delta_seq_is_fresh (r_clients r1 ! slot) (d_seq delta);
          r2 = upd_client slot (\<lambda>_. c) r1 in
      if \<not> fresh then note_both slot (\<lambda>t. t\<lparr>tc_drop_stale_seq := tc_drop_stale_seq t + 1\<rparr>) r2
      else let r3 = upd_client slot (queue_input (d_seq delta) (d_joy delta) now (cfg_lag_ms (r_config r2))) r2;
               r4 = r3\<lparr>r_last_input_ms := (r_last_input_ms r3)[slot := now]\<rparr> in
        note_both slot (\<lambda>t. t\<lparr>tc_accepted_delta := tc_accepted_delta t + 1\<rparr>) r4)"

definition handle_delta :: "nat \<Rightarrow> bytes \<Rightarrow> u64 \<Rightarrow> room \<Rightarrow> room" where
  "handle_delta slot pkt now r =
     (let pid = of_nat slot;
          delta = (if length pkt \<noteq> DELTA_LEN \<or> pkt ! 4 \<noteq> r_round_id r then None
                   else transport_decode_delta_for_slot pkt (DELTA_LEN - 1) pid) in
      case delta of
        None \<Rightarrow>
          if length pkt = DELTA_LEN \<and> packet_has_bad_joy_for_slot pkt (DELTA_LEN - 1) pid
          then note_both slot (\<lambda>t. t\<lparr>tc_drop_bad_joy := tc_drop_bad_joy t + 1\<rparr>) r else r
      | Some d \<Rightarrow> if r_round_state r \<noteq> ROUND_PLAYING then r else accept_delta slot d now r)"

definition handle_name :: "nat \<Rightarrow> bytes \<Rightarrow> u64 \<Rightarrow> room \<Rightarrow> room" where
  "handle_name slot pkt now r =
     (let r1 = upd_client slot (\<lambda>c. c\<lparr>c_name := sanitize_name (drop 3 pkt)\<rparr>) r;
          out = build_name (r_seq r1) (of_nat slot) (c_name (r_clients r1 ! slot)) in
      broadcast_reliable_event out now (broadcast out (next_seq r1)))"

definition handle_respawn :: "nat \<Rightarrow> u64 \<Rightarrow> room \<Rightarrow> room" where
  "handle_respawn slot now r =
     (let r1 = place_actor slot r; p = r_players r1 ! slot in
      announce_respawn slot (p_x p) (p_y p) 0x03 (Some now) r1)"

definition handle_brick_delta :: "bytes \<Rightarrow> u64 \<Rightarrow> room \<Rightarrow> room" where
  "handle_brick_delta pkt now r =
     (let x = pkt ! 2; y = pkt ! 3 in
      if x < 20 \<and> y < 19 \<and> \<not> is_outer_wall_cell (uint x) (uint y)
      then announce_brick x y (Some now) (r\<lparr>r_brick_bits := clear_brick (r_brick_bits r) (uint x) (uint y)\<rparr>)
      else r)"

definition handle_client_packet :: "nat \<Rightarrow> bytes \<Rightarrow> u64 \<Rightarrow> room \<Rightarrow> room" where
  "handle_client_packet slot pkt now r =
     (let client = r_clients r ! slot; len = length pkt in
      if \<not> handshake_ok client then before_handshake slot pkt now r
      else if len = 2 \<and> pkt ! 0 = PKT_LEAVE_ROOM then handle_leave slot pkt r
      else if leave_requested client then r
      else if len = 4 \<and> pkt ! 0 = PKT_RELIABLE_ACK
      then on_client slot (\<lambda>c e. reliable_ack c (ucast (pkt ! 2) OR push_bit 8 (ucast (pkt ! 3))) now e) r
      else if pkt ! 0 = PKT_DELTA then handle_delta slot pkt now r
      else if len = 3 + NAME_LEN \<and> pkt ! 0 = PKT_NAME then handle_name slot pkt now r
      else if r_round_state r = ROUND_PLAYING \<and> len = RESPAWN_LEN \<and> pkt ! 0 = PKT_RESPAWN \<and>
              pkt ! 6 = r_round_id r then handle_respawn slot now r
      else if r_round_state r = ROUND_PLAYING \<and> len = BRICK_DELTA_LEN \<and> pkt ! 0 = PKT_BRICK_DELTA \<and>
              pkt ! 4 = r_round_id r then handle_brick_delta pkt now r
      else r)"

section \<open>The byte loop\<close>

definition process_byte :: "nat \<Rightarrow> u64 \<Rightarrow> u8 \<Rightarrow> room \<Rightarrow> room" where
  "process_byte slot now byte r =
     (let (res, rx) = tcp_frame_push_byte (c_frame_rx (r_clients r ! slot)) byte 16;
          r1 = upd_client slot (\<lambda>c. c\<lparr>c_frame_rx := rx\<rparr>) r in
      case res of
        FrameInvalid \<Rightarrow> note_both slot (\<lambda>t. t\<lparr>tc_delta_resync := tc_delta_resync t + 1\<rparr>) r1
      | FrameIncomplete \<Rightarrow> r1
      | FramePayload pkt \<Rightarrow>
          handle_client_packet slot pkt now (upd_client slot (\<lambda>c. c\<lparr>received_packet := True\<rparr>) r1))"

definition process_client_bytes :: "nat \<Rightarrow> bytes \<Rightarrow> u64 \<Rightarrow> room \<Rightarrow> room" where
  "process_client_bytes slot buf now r = fold (process_byte slot now) buf r"

section \<open>Client records\<close>

lemma map_modify_at: "g (f (cs ! i)) = g (cs ! i) \<Longrightarrow> map g (modify i f cs) = map g cs"
  by (intro nth_equalityI) (auto simp: nth_modify)

lemma rkey_upd_client_at:
  assumes "in_use (f (r_clients r ! i)) = in_use (r_clients r ! i)"
    "handshake_ok (f (r_clients r ! i)) = handshake_ok (r_clients r ! i)"
    "c_fd (f (r_clients r ! i)) = c_fd (r_clients r ! i)"
  shows "rkey (upd_client i f r) = rkey r"
  using assms map_modify_at [of in_use f "r_clients r" i] map_modify_at [of handshake_ok f "r_clients r" i]
    map_modify_at [of c_fd f "r_clients r" i]
  by (simp add: rkey_def upd_client_def)

text \<open>An update of one client that keeps its seat, its well-formedness and its link.\<close>

lemma gameplay_upd_client:
  assumes "in_use (f (r_clients r ! i)) = in_use (r_clients r ! i)"
    "handshake_ok (f (r_clients r ! i)) = handshake_ok (r_clients r ! i)"
    "c_fd (f (r_clients r ! i)) = c_fd (r_clients r ! i)"
    "base_ok r \<Longrightarrow> i < 4 \<Longrightarrow> seat_ok (r_clients r ! i) \<Longrightarrow> link_ok (r_clients r ! i) \<Longrightarrow>
       seat_ok (f (r_clients r ! i)) \<and> link_ok (f (r_clients r ! i))"
  shows "gameplay r (upd_client i f r)"
proof (rule gameplay_rround)
  show base: "base_ok r \<Longrightarrow> base_ok (upd_client i f r)" by (rule base_ok_upd_client) (use assms(4) in auto)
  show "fit r \<Longrightarrow> fit (upd_client i f r)" using base by (simp add: fit_def)
  show "rkey (upd_client i f r) = rkey r" by (rule rkey_upd_client_at) (use assms in auto)
qed simp

lemma rcore_on_client:
  assumes "\<And>c e. core (fst (f c e)) = core c" "\<And>c e. e_closed (snd (f c e)) = e_closed e"
  shows "rcore (on_client i f r) = rcore r"
proof -
  have "map core ((r_clients r)[i := fst (f (r_clients r ! i) (r_env r))]) = map core (r_clients r)"
    by (rule core_list_update) (rule assms)
  moreover have "env_core (snd (f (r_clients r ! i) (r_env r))) = env_core (r_env r)"
    by (rule env_core_eq) (rule assms)
  ultimately show ?thesis by (simp add: on_client_def split_beta rcore_def)
qed

lemma gameplay_on_client:
  assumes "\<And>c e. core (fst (f c e)) = core c" "\<And>c e. e_closed (snd (f c e)) = e_closed e"
    and "\<And>c e. link_ok c \<Longrightarrow> in_use c \<or> \<not> u \<Longrightarrow> link_ok (fst (f c e))"
    and "u \<Longrightarrow> in_use (r_clients r ! i)" "i < 4"
  shows "gameplay r (on_client i f r)"
proof (rule gameplay_rcore)
  show "rcore (on_client i f r) = rcore r" by (rule rcore_on_client) (rule assms)+
  assume ok: "base_ok r"
  have "link_ok (r_clients r ! i)" by (rule base_ok_link [OF ok assms(5)])
  then have "link_ok (fst (f (r_clients r ! i) (r_env r)))" using assms(3,4) by blast
  then show "net_ok (on_client i f r)"
    using ok by (simp add: net_ok_def base_ok_def on_client_def split_beta links_ok_update)
qed

lemma gameplay_send_to: "i < 4 \<Longrightarrow> gameplay r (send_to i pkt r)"
  unfolding send_to_def by (rule gameplay_on_client [where u = False]) (simp_all add: link_ok_send_checked)

lemma rcore_send_to [simp]: "rcore (send_to i pkt r) = rcore r"
  unfolding send_to_def by (rule rcore_on_client) simp_all

lemma flush_tx_ok: "tx_ok tx \<Longrightarrow> tx_ok (fst (snd (tcp_tx_flush fd tx e)))"
  by (cases "tcp_tx_flush fd tx e") (use tcp_tx_flush_spec in auto)

lemma closed_flush [simp]: "e_closed (snd (snd (tcp_tx_flush fd tx e))) = e_closed e"
  by (cases "tcp_tx_flush fd tx e") (use tcp_tx_flush_spec in \<open>auto simp: same_outside_def\<close>)

lemma link_ok_tx: "link_ok c \<Longrightarrow> tx_ok tx \<Longrightarrow> link_ok (c\<lparr>c_tx := tx\<rparr>)"
  by (simp add: link_ok_def ring_shape_def numbered_def outbox_def pending_events_def)

lemma closed_reject: "e_closed (snd (reject_hello c e)) = e_closed e"
  by (simp add: reject_hello_def split_beta Let_def)

lemma gameplay_reject: "i < 4 \<Longrightarrow> gameplay r (on_client i reject_hello r)"
proof (rule gameplay_on_client [where u = False])
  fix c e
  show "e_closed (snd (reject_hello c e)) = e_closed e" by (rule closed_reject)
  show "core (fst (reject_hello c e)) = core c" by (simp add: reject_hello_def split_beta Let_def)
  assume ok: "link_ok c"
  let ?c1 = "fst (send_checked c [PKT_REJECT, PROTOCOL_VERSION, 1] e)"
  have c1: "link_ok ?c1" by (rule link_ok_send_checked [OF ok])
  then have "tx_ok (fst (snd (tcp_tx_flush (c_fd ?c1) (c_tx ?c1) e1)))" for e1
    by (intro flush_tx_ok) (simp add: link_ok_def)
  then show "link_ok (fst (reject_hello c e))"
    using c1 by (simp add: reject_hello_def split_beta Let_def link_ok_tx tx_ok_def)
qed simp_all

lemma seat_ok_same:
  "handshake_ok c = handshake_ok d \<Longrightarrow> in_use c = in_use d \<Longrightarrow> leave_requested c = leave_requested d \<Longrightarrow>
   c_fd c = c_fd d \<Longrightarrow> c_name c = c_name d \<Longrightarrow> input_q c = input_q d \<Longrightarrow> input_head c = input_head d \<Longrightarrow>
   input_count c = input_count d \<Longrightarrow> seat_ok c = seat_ok d"
  by (simp add: seat_ok_def input_ok_def input_shape_def pending_inputs_def)

section \<open>The handlers keep the invariants\<close>

lemma gameplay_global: "gameplay r (r\<lparr>r_global_transport := t\<rparr>)"
  by (rule gameplay_rround) (simp_all add: fit_def rkey_def rround_def shots_open_def)

lemma gameplay_note_both: "gameplay r (note_both i f r)"
  unfolding note_both_def
proof (rule gameplay_trans [OF gameplay_global gameplay_upd_client])
  show "seat_ok c \<Longrightarrow> link_ok c \<Longrightarrow> seat_ok (c\<lparr>c_transport := t\<rparr>) \<and> link_ok (c\<lparr>c_transport := t\<rparr>)" for t c
    using seat_ok_same [of "c\<lparr>c_transport := t\<rparr>" c] core_link_cong [of "c\<lparr>c_transport := t\<rparr>" c] by simp
qed simp_all


lemma sanitized_joy: "sanitize_client_joy b = Some j \<Longrightarrow> j \<in> joy_bytes"
  by (simp add: sanitize_client_joy_iff)

lemma decoded_joy:
  "transport_decode_delta_for_slot pkt len slot = Some d \<Longrightarrow> d_joy d \<in> joy_bytes"
  using sanitized_joy by (auto simp: transport_decode_delta_for_slot_def split: if_splits)

lemma fresh_keeps:
  "in_use (snd (delta_seq_is_fresh c s)) = in_use c" "handshake_ok (snd (delta_seq_is_fresh c s)) = handshake_ok c"
  "seat_ok (snd (delta_seq_is_fresh c s)) = seat_ok c" "c_fd (snd (delta_seq_is_fresh c s)) = c_fd c"
  using seat_ok_same [of "snd (delta_seq_is_fresh c s)" c] by (auto simp: delta_seq_is_fresh_def Let_def)

lemma queue_keeps:
  "in_use (queue_input s j now lag c) = in_use c" "handshake_ok (queue_input s j now lag c) = handshake_ok c"
  "leave_requested (queue_input s j now lag c) = leave_requested c" "c_fd (queue_input s j now lag c) = c_fd c"
  "c_name (queue_input s j now lag c) = c_name c"
  by (simp_all add: queue_input_def input_push_def Let_def)

lemma gameplay_fresh: "gameplay r (upd_client i (\<lambda>_. snd (delta_seq_is_fresh (r_clients r ! i) s)) r)"
  by (rule gameplay_upd_client) (simp_all add: fresh_keeps)

lemma gameplay_queue: "j \<in> joy_bytes \<Longrightarrow> gameplay r (upd_client i (queue_input s j now lag) r)"
  by (rule gameplay_upd_client) (auto simp: queue_keeps seat_ok_def input_ok_queue)

lemma gameplay_last_input: "gameplay r (r\<lparr>r_last_input_ms := (r_last_input_ms r)[i := now]\<rparr>)"
  by (rule gameplay_rround) (simp_all add: fit_def base_ok_lengths)

lemma gameplay_if: "gameplay r x \<Longrightarrow> gameplay r y \<Longrightarrow> gameplay r (if b then x else y)"
  by simp

lemma gameplay_accept_delta:
  assumes "d_joy d \<in> joy_bytes"
  shows "gameplay r (accept_delta slot d now r)"
proof -
  let ?r1 = "note_both slot (transport_stats_note_delta (d_format d)) r"
  let ?r2 = "upd_client slot (\<lambda>_. snd (delta_seq_is_fresh (r_clients ?r1 ! slot) (d_seq d))) ?r1"
  have two: "gameplay r ?r2" by (rule gameplay_trans [OF gameplay_note_both gameplay_fresh])
  have three: "gameplay ?r2 (upd_client slot (queue_input (d_seq d) (d_joy d) now lag) ?r2)" for lag
    by (rule gameplay_queue [OF assms])
  note rest = gameplay_trans [OF two gameplay_trans [OF three gameplay_trans [OF gameplay_last_input gameplay_note_both]]]
  show ?thesis unfolding accept_delta_def Let_def split_beta
    by (rule gameplay_if [OF gameplay_trans [OF two gameplay_note_both] rest])
qed

lemma gameplay_handle_delta: "gameplay r (handle_delta slot pkt now r)"
  by (auto simp: handle_delta_def Let_def gameplay_note_both gameplay_accept_delta decoded_joy
      split: option.split)

lemma gameplay_broadcast: "gameplay r (broadcast pkt r)" "gameplay r (next_seq r)"
  "gameplay r (broadcast_reliable_event pkt now r)" "gameplay r (announce_respawn pid x y fl at r)"
  "gameplay r (announce_brick bx by0 at r)"
  by (rule gameplay_rcore; simp)+

lemma gameplay_handle_name: "gameplay r (handle_name slot pkt now r)"
proof -
  have name: "gameplay r (upd_client slot (\<lambda>c. c\<lparr>c_name := sanitize_name n\<rparr>) r)" for n
  proof (rule gameplay_upd_client)
    show "seat_ok c \<Longrightarrow> link_ok c \<Longrightarrow>
        seat_ok (c\<lparr>c_name := sanitize_name n\<rparr>) \<and> link_ok (c\<lparr>c_name := sanitize_name n\<rparr>)" for c
      using core_link_cong [of "c\<lparr>c_name := sanitize_name n\<rparr>" c] sanitize_name_chars [of n]
      by (auto simp: seat_ok_def name_ok_def input_ok_def input_shape_def pending_inputs_def)
  qed simp_all
  show ?thesis unfolding handle_name_def Let_def
    by (rule gameplay_trans [OF name gameplay_trans [OF gameplay_broadcast(2) gameplay_trans
          [OF gameplay_broadcast(1) gameplay_broadcast(3)]]])
qed

lemma gameplay_handle_respawn: "gameplay r (handle_respawn slot now r)"
  unfolding handle_respawn_def Let_def by (rule gameplay_trans [OF gameplay_place_actor gameplay_broadcast(4)])

lemma gameplay_handle_brick: "gameplay r (handle_brick_delta pkt now r)"
proof -
  have "gameplay r (r\<lparr>r_brick_bits := clear_brick (r_brick_bits r) x y\<rparr>)" if "\<not> is_outer_wall_cell x y" for x y
    by (rule gameplay_rround) (use that in \<open>simp_all add: fit_def base_ok_clear_brick shots_open_clear base_ok_lengths\<close>)
  then show ?thesis
    using gameplay_trans [OF _ gameplay_broadcast(5)] by (simp add: handle_brick_delta_def Let_def)
qed

lemma seat_ok_leaving:
  "seat_ok c \<Longrightarrow> handshake_ok c \<Longrightarrow> seat_ok (c\<lparr>leave_requested := True, leave_seq := q\<rparr>)"
  by (auto simp: seat_ok_def input_ok_def input_shape_def pending_inputs_def)

lemma gameplay_handle_leave:
  assumes "handshake_ok (r_clients r ! slot)" "slot < 4"
  shows "gameplay r (handle_leave slot pkt r)"
proof -
  let ?r1 = "send_to slot [PKT_LEAVE_ACK, pkt ! 1] r"
  have one: "gameplay r ?r1" by (rule gameplay_send_to [OF assms(2)])
  have hs: "handshake_ok (r_clients ?r1 ! slot)" if "length (r_clients ?r1) = 4"
  proof -
    have "core (r_clients ?r1 ! slot) = core (r_clients r ! slot)"
      by (rule core_nthD [OF rcoreD(23) [OF rcore_send_to]]) (use that assms(2) in simp)
    from coreD(6) [OF this] show ?thesis using assms(1) by simp
  qed
  have two: "gameplay ?r1 (upd_client slot (\<lambda>c. c\<lparr>leave_requested := True, leave_seq := q\<rparr>) ?r1)" for q
  proof (rule gameplay_upd_client)
    let ?c = "r_clients ?r1 ! slot" and ?f = "\<lambda>c. c\<lparr>leave_requested := True, leave_seq := q\<rparr> :: client_slot"
    assume "base_ok ?r1" and ok: "seat_ok ?c" "link_ok ?c"
    then have "handshake_ok ?c" by (intro hs base_ok_lengths)
    then have "seat_ok (?f ?c)" using ok(1) by (intro seat_ok_leaving)
    moreover have "link_ok (?f ?c)" using core_link_cong [of "?f ?c" ?c] ok(2) by simp
    ultimately show "seat_ok (?f ?c) \<and> link_ok (?f ?c)" by simp
  qed simp_all
  show ?thesis using one gameplay_trans [OF one two] by (simp add: handle_leave_def Let_def)
qed

section \<open>The dispatcher keeps the invariants\<close>

text \<open>What even a HELLO leaves alone: the configuration and everything about descriptors.\<close>

definition used :: "room \<Rightarrow> bool list \<times> int list \<times> departing_connection list \<times> int list \<times>
    room_config \<times> bytes \<times> u64 \<times> int" where
  "used r = (map in_use (r_clients r), map c_fd (r_clients r), r_departing r, e_closed (r_env r),
     r_config r, r_brick_reset_bits r, r_tick_ms r, r_listener_fd r)"

lemma used_rkey: "rkey q = rkey r \<Longrightarrow> used q = used r"
  by (simp add: rkey_def used_def)

lemma used_nth: "used q = used r \<Longrightarrow> i < length (r_clients r) \<Longrightarrow> in_use (r_clients q ! i) = in_use (r_clients r ! i)"
  unfolding used_def prod.inject by (metis length_map nth_map)

lemma used_gameplay: "gameplay r q \<Longrightarrow> used q = used r"
  unfolding gameplay_def by (blast intro: used_rkey)

lemma rkey_deadline [simp]: "rkey (r\<lparr>r_no_human_deadline_ms := t\<rparr>) = rkey r"
  by (simp add: rkey_def)

lemma fit_shake:
  assumes "fit r" "slot < 4" "in_use (r_clients r ! slot)"
  shows "fit (upd_client slot (\<lambda>c. c\<lparr>handshake_ok := True, received_packet := True\<rparr>) r)"
proof -
  have "base_ok (upd_client slot (\<lambda>c. c\<lparr>handshake_ok := True, received_packet := True\<rparr>) r)"
  proof (rule base_ok_upd_client)
    let ?c = "r_clients r ! slot" and ?f = "\<lambda>c. c\<lparr>handshake_ok := True, received_packet := True\<rparr> :: client_slot"
    assume "seat_ok ?c" "link_ok ?c"
    then show "seat_ok (?f ?c) \<and> link_ok (?f ?c)"
      using core_link_cong [of "?f ?c" ?c] assms(3)
      by (auto simp: seat_ok_def input_ok_def input_shape_def pending_inputs_def)
  qed (use assms in simp)
  then show ?thesis using assms by (simp add: fit_def)
qed

text \<open>The room right after a HELLO has been accepted: an open round without a running grace period.\<close>

definition hello_room :: "nat \<Rightarrow> u64 \<Rightarrow> room \<Rightarrow> room" where
  "hello_room slot now r =
     (let r1 = upd_client slot (\<lambda>c. c\<lparr>handshake_ok := True, received_packet := True\<rparr>) r;
          r2 = (if r_round_state r1 = ROUND_DORMANT then wake_dormant_room now r1 else r1) in
      if r_no_human_deadline_ms r2 \<noteq> 0 then r2\<lparr>r_no_human_deadline_ms := 0\<rparr> else r2)"

lemma hello_room_sound:
  assumes "sound r" "slot < 4" "in_use (r_clients r ! slot)"
  shows "sound (hello_room slot now r)" "r_round_state (hello_room slot now r) \<noteq> ROUND_DORMANT"
    "r_no_human_deadline_ms (hello_room slot now r) = 0" "used (hello_room slot now r) = used r"
    "seated (r_clients (hello_room slot now r) ! slot)"
proof -
  let ?r1 = "upd_client slot (\<lambda>c. c\<lparr>handshake_ok := True, received_packet := True\<rparr>) r"
  let ?r2 = "if r_round_state ?r1 = ROUND_DORMANT then wake_dormant_room now ?r1 else ?r1"
  let ?q = "hello_room slot now r"
  have q: "?q = (if r_no_human_deadline_ms ?r2 \<noteq> 0 then ?r2\<lparr>r_no_human_deadline_ms := 0\<rparr> else ?r2)"
    by (simp add: hello_room_def Let_def)
  have one: "fit ?r1" by (rule fit_shake) (use assms in simp_all)
  have two: "fit ?r2" "r_round_state ?r2 \<noteq> ROUND_DORMANT" using one fit_wake [of ?r1 now] by auto
  have "fit (?r2\<lparr>r_no_human_deadline_ms := 0\<rparr>)" using two(1) by (simp add: fit_def)
  then have "fit ?q" using two(1) q by simp
  moreover show three: "r_round_state ?q \<noteq> ROUND_DORMANT" "r_no_human_deadline_ms ?q = 0"
    using two(2) q by auto
  ultimately show "sound ?q" by (simp add: sound_def phase_ok_def)
  have key: "rkey ?q = rkey ?r1" unfolding q by simp
  have len: "length (r_clients ?r1) = 4" using one by (simp add: base_ok_lengths)
  have "used ?r1 = used r" by (auto simp: used_def upd_client_def intro: map_modify)
  then show "used ?q = used r" using used_rkey [OF key] by simp
  have "seated (r_clients ?r1 ! slot)" using assms(2,3) len by (simp add: seated_def upd_client_def nth_modify)
  then show "seated (r_clients ?q ! slot)" using rkeyD(4) [OF key, of slot] len assms(2) by simp
qed

lemma accept_hello_eq:
  "\<exists>pkt keep. accept_hello slot now r =
     activate_joining_client slot keep now (send_round_state slot now (send_to slot pkt (hello_room slot now r)))"
  by (auto simp: accept_hello_def hello_room_def Let_def)

lemma accept_hello_gameplay: "slot < 4 \<Longrightarrow> gameplay (hello_room slot now r) (accept_hello slot now r)"
  using accept_hello_eq [of slot now r]
  by (auto intro!: gameplay_trans [OF gameplay_send_to gameplay_trans [OF gameplay_send_round_state gameplay_activate]])

text \<open>Every packet of a seated client is gameplay; before the handshake only HELLO matters.\<close>

lemma packet_gameplay:
  assumes "slot < 4" "in_use (r_clients r ! slot)" "handshake_ok (r_clients r ! slot)"
  shows "gameplay r (handle_client_packet slot pkt now r)"
proof -
  have ack: "gameplay r (on_client slot (\<lambda>c e. reliable_ack c a now e) r)" for a
    by (rule gameplay_on_client [where u = True]) (use assms ack_spec in auto)
  show ?thesis
    using assms ack gameplay_handle_leave gameplay_handle_delta gameplay_handle_name
      gameplay_handle_respawn gameplay_handle_brick
    by (simp add: handle_client_packet_def Let_def)
qed

lemma packet_sound:
  assumes "sound r" "slot < 4" "in_use (r_clients r ! slot)"
  shows "sound (handle_client_packet slot pkt now r) \<and> used (handle_client_packet slot pkt now r) = used r"
proof (cases "handshake_ok (r_clients r ! slot)")
  case True
  have "gameplay r (handle_client_packet slot pkt now r)" by (rule packet_gameplay [OF assms(2,3) True])
  then show ?thesis using sound_gameplay used_gameplay assms(1) by blast
next
  case False
  then have run: "handle_client_packet slot pkt now r = before_handshake slot pkt now r"
    by (simp add: handle_client_packet_def Let_def)
  have "sound (accept_hello slot now r) \<and> used (accept_hello slot now r) = used r"
    using accept_hello_gameplay [OF assms(2)] hello_room_sound [OF assms] sound_gameplay used_gameplay by metis
  moreover have "sound (on_client slot reject_hello r) \<and> used (on_client slot reject_hello r) = used r"
    using gameplay_reject [OF assms(2)] sound_gameplay used_gameplay assms(1) by blast
  ultimately show ?thesis unfolding run using assms(1) by (simp add: before_handshake_def)
qed

lemma gameplay_rx: "gameplay r (upd_client i (\<lambda>c. c\<lparr>c_frame_rx := x\<rparr>) r)"
  "gameplay r (upd_client i (\<lambda>c. c\<lparr>received_packet := b\<rparr>) r)"
  "gameplay r (upd_client i (\<lambda>c. c\<lparr>last_seen_ms := t\<rparr>) r)"
proof -
  show "gameplay r (upd_client i (\<lambda>c. c\<lparr>c_frame_rx := x\<rparr>) r)"
    by (rule gameplay_upd_client)
      (use seat_ok_same [of "(r_clients r ! i)\<lparr>c_frame_rx := x\<rparr>" "r_clients r ! i"]
        core_link_cong [of "(r_clients r ! i)\<lparr>c_frame_rx := x\<rparr>" "r_clients r ! i"] in auto)
  show "gameplay r (upd_client i (\<lambda>c. c\<lparr>received_packet := b\<rparr>) r)"
    by (rule gameplay_upd_client)
      (use seat_ok_same [of "(r_clients r ! i)\<lparr>received_packet := b\<rparr>" "r_clients r ! i"]
        core_link_cong [of "(r_clients r ! i)\<lparr>received_packet := b\<rparr>" "r_clients r ! i"] in auto)
  show "gameplay r (upd_client i (\<lambda>c. c\<lparr>last_seen_ms := t\<rparr>) r)"
    by (rule gameplay_upd_client)
      (use seat_ok_same [of "(r_clients r ! i)\<lparr>last_seen_ms := t\<rparr>" "r_clients r ! i"]
        core_link_cong [of "(r_clients r ! i)\<lparr>last_seen_ms := t\<rparr>" "r_clients r ! i"] in auto)
qed

lemma byte_sound:
  assumes "sound r" "slot < 4" "in_use (r_clients r ! slot)"
  shows "sound (process_byte slot now byte r) \<and> used (process_byte slot now byte r) = used r"
proof -
  obtain res rx where push: "tcp_frame_push_byte (c_frame_rx (r_clients r ! slot)) byte 16 = (res, rx)" by force
  let ?r1 = "upd_client slot (\<lambda>c. c\<lparr>c_frame_rx := rx\<rparr>) r"
  let ?r2 = "upd_client slot (\<lambda>c. c\<lparr>received_packet := True\<rparr>) ?r1"
  have one: "sound ?r1" "used ?r1 = used r"
    using gameplay_rx(1) sound_gameplay used_gameplay assms(1) by blast+
  have two: "sound ?r2" "used ?r2 = used r"
    using gameplay_rx(2) [of ?r1] sound_gameplay used_gameplay one by metis+
  have bad: "sound (note_both slot f ?r1)" "used (note_both slot f ?r1) = used r" for f
    using gameplay_note_both [of ?r1] sound_gameplay used_gameplay one by metis+
  have "in_use (r_clients ?r2 ! slot)"
    using used_nth [OF two(2), of slot] assms base_ok_lengths(1) [of r] by simp
  from packet_sound [OF two(1) assms(2) this] show ?thesis
    using one two(2) bad push by (simp add: process_byte_def Let_def split: frame_result.split)
qed

lemma bytes_sound:
  assumes "sound r" "slot < 4" "in_use (r_clients r ! slot)"
  shows "sound (process_client_bytes slot buf now r) \<and> used (process_client_bytes slot buf now r) = used r"
  unfolding process_client_bytes_def
proof (rule fold_invariant_on [of _ "\<lambda>q. sound q \<and> used q = used r"])
  fix b q assume q: "sound q \<and> used q = used r"
  then have "in_use (r_clients q ! slot)"
    using used_nth [of q r slot] assms base_ok_lengths(1) [of r] by simp
  from byte_sound [OF _ assms(2) this] q show "sound (process_byte slot now b q) \<and> used (process_byte slot now b q) = used r"
    by metis
qed (use assms(1) in simp)

section \<open>Frames of the handlers\<close>

lemma on_client_other [simp]: "j \<noteq> i \<Longrightarrow> r_clients (on_client i f r) ! j = r_clients r ! j"
  by (simp add: on_client_def split_beta)

lemma send_to_other [simp]: "j \<noteq> i \<Longrightarrow> r_clients (send_to i pkt r) ! j = r_clients r ! j"
  by (simp add: send_to_def)

lemma upd_client_other [simp]: "j \<noteq> i \<Longrightarrow> r_clients (upd_client i f r) ! j = r_clients r ! j"
  by (simp add: upd_client_def)

lemma core_reject: "core (fst (reject_hello c e)) = core c"
  by (simp add: reject_hello_def split_beta Let_def)

text \<open>What the game itself consists of: \<open>arena r = arena q\<close> when a packet changed none of it.\<close>

definition arena :: "room \<Rightarrow> player_state list \<times> shot_state list \<times> bytes \<times> u8 \<times> u64 list \<times> u8 \<times> round_phase" where
  "arena r = (r_players r, r_shots r, r_brick_bits r, r_occupied_mask r, r_last_input_ms r, r_round_id r, r_round_state r)"

lemma arena_rcore:
  assumes "rcore q = rcore r"
  shows "arena q = arena r"
  unfolding arena_def rcoreD [OF assms] by (rule refl)

lemma arena_upd_client [simp]: "arena (upd_client i f r) = arena r"
  by (simp add: arena_def upd_client_def)

lemma arena_note_both [simp]: "arena (note_both i f r) = arena r"
  by (simp add: note_both_def) (simp add: arena_def)

lemma arena_handle_leave [simp]: "arena (handle_leave slot pkt r) = arena r"
  by (simp add: handle_leave_def Let_def arena_rcore [OF rcore_send_to])

text \<open>The part of the arena that belongs to a slot, and the client's own inputs.\<close>

lemma note_both_client:
  "j \<noteq> i \<Longrightarrow> r_clients (note_both i f r) ! j = r_clients r ! j"
  by (simp add: note_both_def)

lemma note_both_inputs:
  assumes "i < length (r_clients r)"
  shows "pending_inputs (r_clients (note_both i f r) ! i) = pending_inputs (r_clients r ! i)"
    "last_delta_seq (r_clients (note_both i f r) ! i) = last_delta_seq (r_clients r ! i)"
    "have_delta_seq (r_clients (note_both i f r) ! i) = have_delta_seq (r_clients r ! i)"
  using assms by (simp_all add: note_both_def upd_client_def nth_modify pending_inputs_def)

text \<open>Everything outside slot \<open>i\<close>, the shots, the scores and the round are as before.\<close>

definition own_seat :: "nat \<Rightarrow> room \<Rightarrow> room \<Rightarrow> bool" where
  "own_seat i r q \<longleftrightarrow> length (r_clients q) = length (r_clients r) \<and>
     (\<forall>j. j \<noteq> i \<longrightarrow> (j < length (r_clients r) \<longrightarrow> core (r_clients q ! j) = core (r_clients r ! j)) \<and>
        r_players q ! j = r_players r ! j \<and> r_last_input_ms q ! j = r_last_input_ms r ! j) \<and>
     p_score (r_players q ! i) = p_score (r_players r ! i) \<and> r_shots q = r_shots r \<and>
     r_round_state q = r_round_state r \<and> r_round_id q = r_round_id r \<and> r_occupied_mask q = r_occupied_mask r"

lemma own_seat_trans: "own_seat i r q \<Longrightarrow> own_seat i q u \<Longrightarrow> own_seat i r u"
  by (simp add: own_seat_def)

lemma own_seat_rcore:
  assumes "rcore q = rcore r"
  shows "own_seat i r q"
proof -
  have "core (r_clients q ! j) = core (r_clients r ! j)" if "j < length (r_clients r)" for j
    by (rule core_nthD [OF rcoreD(23) [OF assms]]) (use that rcoreD(24) [OF assms] in simp)
  then show ?thesis unfolding own_seat_def rcoreD [OF assms] by simp
qed

lemma own_seat_same:
  "r_clients q = r_clients r \<Longrightarrow> r_players q = r_players r \<Longrightarrow> r_last_input_ms q = r_last_input_ms r \<Longrightarrow>
   r_shots q = r_shots r \<Longrightarrow> r_round_state q = r_round_state r \<Longrightarrow> r_round_id q = r_round_id r \<Longrightarrow>
   r_occupied_mask q = r_occupied_mask r \<Longrightarrow> own_seat i r q"
  by (simp add: own_seat_def)

lemma own_seat_upd_client: "own_seat i r (upd_client i f r)"
  by (simp add: own_seat_def) (simp add: upd_client_def)

lemma own_seat_note_both: "own_seat i r (note_both i f r)"
  unfolding note_both_def by (rule own_seat_trans [OF own_seat_same own_seat_upd_client]) simp_all

lemma own_seat_last_input: "own_seat i r (r\<lparr>r_last_input_ms := (r_last_input_ms r)[i := now]\<rparr>)"
  by (simp add: own_seat_def)

lemma own_seat_accept_delta: "own_seat slot r (accept_delta slot d now r)"
proof -
  let ?r1 = "note_both slot (transport_stats_note_delta (d_format d)) r"
  let ?r2 = "upd_client slot (\<lambda>_. snd (delta_seq_is_fresh (r_clients ?r1 ! slot) (d_seq d))) ?r1"
  have two: "own_seat slot r ?r2" by (rule own_seat_trans [OF own_seat_note_both own_seat_upd_client])
  note rest = own_seat_trans [OF two own_seat_trans [OF own_seat_upd_client own_seat_trans
        [OF own_seat_last_input own_seat_note_both]]]
  have pick: "own_seat slot r (if b then x else y)" if "own_seat slot r x" "own_seat slot r y" for b x y
    using that by simp
  show ?thesis unfolding accept_delta_def Let_def split_beta
    by (rule pick [OF own_seat_trans [OF two own_seat_note_both] rest])
qed

lemma own_seat_handle_delta: "own_seat slot r (handle_delta slot pkt now r)"
  by (auto simp: handle_delta_def Let_def own_seat_note_both own_seat_accept_delta own_seat_rcore split: option.split)

lemma own_seat_handle_name: "own_seat slot r (handle_name slot pkt now r)"
  unfolding handle_name_def Let_def by (rule own_seat_trans [OF own_seat_upd_client own_seat_rcore]) simp

lemma own_seat_place_actor:
  assumes "i < length (r_players r)"
  shows "own_seat i r (place_actor i r)"
proof -
  note p = place_actor_fields [OF assms]
  have "rround (place_actor i r) = rround r" by simp
  from rroundD [OF this] show ?thesis using p by (simp add: own_seat_def)
qed

lemma own_seat_handle_respawn: "slot < length (r_players r) \<Longrightarrow> own_seat slot r (handle_respawn slot now r)"
  unfolding handle_respawn_def Let_def by (rule own_seat_trans [OF own_seat_place_actor own_seat_rcore]) simp_all

lemma own_seat_handle_brick: "own_seat slot r (handle_brick_delta pkt now r)"
proof -
  have "own_seat slot r (announce_brick x y at (r\<lparr>r_brick_bits := bb\<rparr>))" for x y at bb
    by (rule own_seat_trans [OF own_seat_same own_seat_rcore]) simp_all
  then show ?thesis by (simp add: handle_brick_delta_def Let_def own_seat_rcore)
qed

lemma own_seat_handle_leave: "own_seat slot r (handle_leave slot pkt r)"
  using own_seat_trans [OF own_seat_rcore [OF rcore_send_to] own_seat_upd_client] own_seat_rcore [OF rcore_send_to]
  by (simp add: handle_leave_def Let_def)

section \<open>Properties\<close>

text \<open>
  C3: A socket without a seat cannot touch the game. Whatever packet arrives on a connection that
  has not completed HELLO (other than a valid HELLO), or on one that has asked to leave, nothing
  changes but the link of that connection and, for a repeated leave, its own leave record: the
  arena, every other client, the configuration and the round are as before.
\<close>

theorem seatless_socket_harmless:
  assumes "\<not> handshake_ok (r_clients r ! slot) \<and> \<not> (length pkt = 2 \<and> pkt ! 0 = PKT_HELLO \<and> pkt ! 1 = PROTOCOL_VERSION) \<or>
      handshake_ok (r_clients r ! slot) \<and> leave_requested (r_clients r ! slot)"
    and "slot < length (r_clients r)"
  shows "rcore (handle_client_packet slot pkt now r) = rcore r \<and> r_seq (handle_client_packet slot pkt now r) = r_seq r \<and>
    (\<forall>j. j \<noteq> slot \<longrightarrow> r_clients (handle_client_packet slot pkt now r) ! j = r_clients r ! j)"
  using assms(1)
proof
  assume a: "\<not> handshake_ok (r_clients r ! slot) \<and> \<not> (length pkt = 2 \<and> pkt ! 0 = PKT_HELLO \<and> pkt ! 1 = PROTOCOL_VERSION)"
  then have "handle_client_packet slot pkt now r = (if length pkt > 0 \<and> pkt ! 0 = PKT_HELLO then on_client slot reject_hello r else r)"
    by (auto simp: handle_client_packet_def before_handshake_def Let_def)
  moreover have "rcore (on_client slot reject_hello r) = rcore r" by (rule rcore_on_client [OF core_reject closed_reject])
  moreover have "r_seq (on_client slot reject_hello r) = r_seq r" by (simp add: on_client_def split_beta)
  ultimately show ?thesis by simp
next
  assume b: "handshake_ok (r_clients r ! slot) \<and> leave_requested (r_clients r ! slot)"
  have "core (r_clients (send_to slot p r) ! slot) = core (r_clients r ! slot)" for p
    by (rule core_nthD [OF rcoreD(23) [OF rcore_send_to]]) (use assms(2) rcoreD(24) [OF rcore_send_to] in simp)
  from coreD(17) [OF this] have "leave_requested (r_clients (send_to slot p r) ! slot)" for p using b by simp
  then have "handle_leave slot pkt r = send_to slot [PKT_LEAVE_ACK, pkt ! 1] r"
    by (simp add: handle_leave_def Let_def)
  then have "handle_client_packet slot pkt now r = send_to slot [PKT_LEAVE_ACK, pkt ! 1] r \<or> handle_client_packet slot pkt now r = r"
    using b by (simp add: handle_client_packet_def Let_def)
  moreover have "r_seq (send_to slot p r) = r_seq r" for p by (simp add: send_to_def on_client_def split_beta)
  ultimately show ?thesis by auto
qed

theorem seatless_socket_harmless_witness:
  "rcore (handle_client_packet 2 [PKT_DELTA, 1, 2, 0x07, 1] 5 demo_room) = rcore demo_room"
proof -
  have "\<not> handshake_ok (r_clients demo_room ! 2)" "2 < length (r_clients demo_room)"
    by (simp_all add: demo_room_def client_free_def)
  then show ?thesis using seatless_socket_harmless [of demo_room 2 "[PKT_DELTA, 1, 2, 0x07, 1]" 5] by simp
qed

text \<open>
  C4: A seated client moves nothing but itself. Whatever packet it sends, every other player's
  record, every other client (apart from what is queued for transmission to it), the shots in
  flight, all scores, who is on the board and the state of the round are unchanged.
\<close>

theorem client_touches_own_seat:
  assumes "base_ok r" "slot < MAX_PLAYERS" "handshake_ok (r_clients r ! slot)"
  shows "own_seat slot r (handle_client_packet slot pkt now r)"
proof -
  have len: "slot < length (r_players r)" using assms(1,2) by (simp add: base_ok_lengths)
  have ack: "own_seat slot r (on_client slot (\<lambda>c e. reliable_ack c a now e) r)" for a
    by (rule own_seat_rcore [OF rcore_on_client]) simp_all
  show ?thesis
    using assms(3) own_seat_handle_respawn [OF len] own_seat_rcore [OF refl]
    by (simp add: handle_client_packet_def Let_def ack own_seat_handle_leave own_seat_handle_delta
        own_seat_handle_name own_seat_handle_brick)
qed

theorem client_touches_own_seat_witness:
  "own_seat 1 demo_joined (handle_client_packet 1 [PKT_RESPAWN, 0, 3, 9, 9, 0, 1] 5 demo_joined)"
proof -
  have "handshake_ok (r_clients demo_joined ! 1)" using demo_joined_ok(2) by (simp add: seated_def)
  from client_touches_own_seat [OF demo_joined_ok(1) _ this] show ?thesis by simp
qed

text \<open>
  Input from another round is void. A DELTA, RESPAWN or BRICK_DELTA of a seated client whose
  round number is not the current one leaves the arena, the client's input queue and its replay
  window as they are.
\<close>

theorem stale_round_ignored:
  fixes now :: u64
  assumes "slot < length (r_clients r)" "handshake_ok (r_clients r ! slot)"
    and "pkt ! 0 = PKT_DELTA \<and> pkt ! 4 \<noteq> r_round_id r \<or> pkt ! 0 = PKT_RESPAWN \<and> pkt ! 6 \<noteq> r_round_id r \<or>
      pkt ! 0 = PKT_BRICK_DELTA \<and> pkt ! 4 \<noteq> r_round_id r"
  defines "q \<equiv> handle_client_packet slot pkt now r"
  shows "arena q = arena r \<and> pending_inputs (r_clients q ! slot) = pending_inputs (r_clients r ! slot) \<and>
    last_delta_seq (r_clients q ! slot) = last_delta_seq (r_clients r ! slot)"
proof -
  have "handle_delta slot pkt now r = r \<or> (\<exists>f. handle_delta slot pkt now r = note_both slot f r)"
    if "pkt ! 4 \<noteq> r_round_id r" using that by (auto simp: handle_delta_def Let_def)
  then have "q = r \<or> (\<exists>f. q = note_both slot f r)"
    using assms(2,3) unfolding q_def by (auto simp: handle_client_packet_def Let_def)
  then show ?thesis using note_both_inputs [OF assms(1)] by auto
qed

theorem stale_round_ignored_witness:
  "arena (handle_client_packet 1 [PKT_DELTA, 9, 1, 0x07, 77] 5 demo_joined) = arena demo_joined"
proof -
  have hs: "handshake_ok (r_clients demo_joined ! 1)" using demo_joined_ok(2) by (simp add: seated_def)
  have len: "1 < length (r_clients demo_joined)" using demo_joined_ok(1) by (simp add: base_ok_lengths)
  have rid: "r_round_id demo_joined = 1" by (simp add: demo_joined_def upd_client_def demo_room_def)
  show ?thesis using stale_round_ignored [OF len hs, where pkt = "[PKT_DELTA, 9, 1, 0x07, 77]" and now = 5] rid by simp
qed

text \<open>
  No input can break a room. After any bytes at all on any connected socket the room satisfies
  every invariant: well-formed records and links, scores below the limit, shots over open cells,
  and a phase that agrees with who is seated.
\<close>

theorem bytes_never_break_room:
  assumes "sound r" "slot < MAX_PLAYERS" "in_use (r_clients r ! slot)"
  shows "sound (process_client_bytes slot buf now r)"
  using bytes_sound [OF assms] by blast

lemma demo_joined_sound: "sound demo_joined" "in_use (r_clients demo_joined ! 1)"
proof -
  have "round_ok demo_joined" "r_shots demo_joined = replicate 4 shot_zero"
    using demo_room_round_ok by (simp_all add: demo_joined_def) (simp add: upd_client_def demo_room_def)
  moreover have "r_round_state demo_joined = ROUND_PLAYING" "r_no_human_deadline_ms demo_joined = 0"
    by (simp_all add: demo_joined_def upd_client_def demo_room_def)
  ultimately show "sound demo_joined"
    using demo_joined_ok(1) shots_open_none by (intro soundI) (auto simp: phase_ok_def)
  show "in_use (r_clients demo_joined ! 1)" using demo_joined_ok(2) by (simp add: seated_def)
qed

theorem bytes_never_break_room_witness:
  "sound (process_client_bytes 1 [0, 1, 0xFF, 0x41, 0, 2, 0x46, 0, 0, 0x13] 5 demo_joined)"
  using bytes_never_break_room [OF demo_joined_sound(1) _ demo_joined_sound(2)] by simp

text \<open>
  What HELLO achieves. On any room, a valid HELLO from a connected socket seats the client,
  wakes a dormant room and cancels a running grace period; during an open round the client's actor
  is then on the board.
\<close>

theorem hello_seats_client:
  fixes now :: u64
  assumes "sound r" "slot < MAX_PLAYERS" "in_use (r_clients r ! slot)" "\<not> handshake_ok (r_clients r ! slot)"
  defines "q \<equiv> handle_client_packet slot [PKT_HELLO, PROTOCOL_VERSION] now r"
  shows "seated (r_clients q ! slot) \<and> r_round_state q \<noteq> ROUND_DORMANT \<and> r_no_human_deadline_ms q = 0 \<and>
    (r_round_state q = ROUND_PLAYING \<longrightarrow> slot_on_board q slot)"
proof -
  let ?h = "hello_room slot now r"
  have q: "q = accept_hello slot now r"
    using assms(4) by (simp add: q_def handle_client_packet_def before_handshake_def Let_def)
  note h = hello_room_sound [OF assms(1-3), where now = now]
  have g: "gameplay ?h q" unfolding q by (rule accept_hello_gameplay) (use assms(2) in simp)
  then have key: "rkey q = rkey ?h" and ph: "phase_ext ?h q" by (simp_all add: gameplay_def)
  have len: "length (r_clients ?h) = 4" using h(1) by (simp add: base_ok_lengths)
  have seat: "seated (r_clients q ! slot)" using rkeyD(4) [OF key, of slot] len assms(2) h(5) by simp
  obtain pkt keep where run: "q = activate_joining_client slot keep now (send_round_state slot now (send_to slot pkt ?h))"
    using accept_hello_eq q by blast
  define m where "m = send_round_state slot now (send_to slot pkt ?h)"
  have "gameplay ?h m" unfolding m_def
    by (rule gameplay_trans [OF gameplay_send_to gameplay_send_round_state]) (use assms(2) in simp_all)
  then have "sound m" by (rule sound_gameplay [OF _ h(1)])
  then have lenp: "slot < length (r_players m)" using assms(2) by (simp add: base_ok_lengths)
  have board: "slot_on_board q slot" if open_round: "r_round_state m = ROUND_PLAYING"
  proof -
    have "slot < length (r_players (place_actor slot m))" using place_actor_fields(8) [OF lenp] lenp by simp
    then have "respawn_at_ms (r_players q ! slot) = 0 \<and> bit (r_occupied_mask q) slot"
      using open_round assms(2) lenp unfolding run m_def [symmetric]
      by (cases keep) (simp_all add: activate_joining_client_def Let_def rcoreD [OF rcore_announce_respawn] upd_player_nth)
    then show ?thesis by (simp add: slot_on_board_def)
  qed
  have "r_round_state q = r_round_state m" using rroundD(2) [of q m] run m_def by simp
  then show ?thesis using seat h(2,3) ph board by (auto simp: phase_ext_def)
qed

text \<open>A connection on seat 2 that has not said HELLO.\<close>

definition demo_guest :: room where
  "demo_guest = upd_client 2 (\<lambda>_. demo_link\<lparr>handshake_ok := False\<rparr>) demo_room"

lemma demo_guest_ok: "sound demo_guest" "in_use (r_clients demo_guest ! 2)" "\<not> handshake_ok (r_clients demo_guest ! 2)"
proof -
  have "seat_ok (demo_link\<lparr>handshake_ok := False\<rparr>)"
    using demo_link_seat_ok demo_link_ok(2)
    by (simp add: seat_ok_def input_ok_def input_shape_def pending_inputs_def demo_link_def client_free_def)
  moreover have "link_ok (demo_link\<lparr>handshake_ok := False\<rparr>)"
    using demo_link_ok(1) core_link_cong [of "demo_link\<lparr>handshake_ok := False\<rparr>" demo_link] by simp
  ultimately have "base_ok demo_guest"
    unfolding demo_guest_def by (intro base_ok_upd_client) (simp_all add: demo_room_base_ok)
  moreover have "round_ok demo_guest" "r_shots demo_guest = replicate 4 shot_zero"
    using demo_room_round_ok by (simp_all add: demo_guest_def) (simp add: upd_client_def demo_room_def)
  moreover have "r_round_state demo_guest = ROUND_PLAYING" "r_no_human_deadline_ms demo_guest = 0"
    by (simp_all add: demo_guest_def upd_client_def demo_room_def)
  ultimately show "sound demo_guest" using shots_open_none by (intro soundI) (auto simp: phase_ok_def)
  show "in_use (r_clients demo_guest ! 2)" "\<not> handshake_ok (r_clients demo_guest ! 2)"
    using demo_link_ok(2) by (simp_all add: demo_guest_def upd_client_def demo_room_def nth_modify)
qed

theorem hello_seats_client_witness:
  "seated (r_clients (handle_client_packet 2 [PKT_HELLO, 1] 9 demo_guest) ! 2)"
  using hello_seats_client [OF demo_guest_ok(1) _ demo_guest_ok(2,3)] by simp

end
