(* ===== verification/Session.thy ===== *)
theory Session
  imports Packets "HOL-Library.Multiset"
begin

text \<open>
  Connections of \<^verbatim>\<open>server/main.c\<close>: which seat an accepted socket gets, how a client is dropped,
  detached or times out, the drain of leaving connections, and who owns which descriptor. Lemmas:
  every one of these keeps the room sound, and no descriptor is leaked or closed twice.
\<close>

section \<open>Seats\<close>

text \<open>The answer is the slot and \<open>*replace_pending\<close>; \<open>None\<close> is -1.\<close>

definition alloc_client_slot :: "client_slot list \<Rightarrow> int \<Rightarrow> (nat \<times> bool) option" where
  "alloc_client_slot clients zombies =
     (let zombie_mask = compute_zombie_mask clients zombies in
      case find (\<lambda>i. \<not> in_use (clients ! i) \<and> \<not> zombie_mask ! i) [0..<MAX_PLAYERS] of
        Some i \<Rightarrow> Some (i, False)
      | None \<Rightarrow>
        (case find (\<lambda>i. \<not> zombie_mask ! i \<and> in_use (clients ! i) \<and> \<not> handshake_ok (clients ! i))
                [0..<MAX_PLAYERS] of
           Some i \<Rightarrow> Some (i, True)
         | None \<Rightarrow>
           (case find (\<lambda>i. \<not> in_use (clients ! i)) [0..<MAX_PLAYERS] of
              Some i \<Rightarrow> Some (i, False)
            | None \<Rightarrow> None)))"

definition init_client_slot :: "int \<Rightarrow> u64 \<Rightarrow> client_slot \<Rightarrow> client_slot" where
  "init_client_slot fd now c = c\<lparr>in_use := True, c_fd := fd, last_seen_ms := now,
     connected_ms := now, sent_bricks := False, handshake_ok := False, have_delta_seq := False,
     last_delta_seq := 0, have_applied_input_seq := False, applied_input_seq := 0, input_head := 0,
     input_count := 0, reliable_next_rev := 1, reliable_acked_rev := 0, reliable_sent_rev := 0,
     reliable_last_send_ms := 0, reliable_last_fast_ms := 0, reliable_head := 0,
     reliable_count := 0, reliable_q := replicate RELIABLE_QUEUE_MAX reliable_entry_zero,
     c_name := replicate NAME_LEN 0\<rparr>"

definition reset_client_slot :: "nat \<Rightarrow> room \<Rightarrow> room" where
  "reset_client_slot i r =
     (let fd = c_fd (r_clients r ! i) in
      r\<lparr>r_clients := (r_clients r)[i := client_free],
        r_env := (if fd \<ge> 0 then c_close fd (r_env r) else r_env r)\<rparr>)"

section \<open>The end of a connection\<close>

definition drop_client :: "nat \<Rightarrow> u64 \<Rightarrow> room \<Rightarrow> room" where
  "drop_client i now r =
     (let was_human = handshake_ok (r_clients r ! i);
          r1 = reset_slot_gameplay i now (reset_client_slot i r) in
      if was_human \<and> room_human_count r1 = 0 then begin_no_human_grace now r1 else r1)"

definition reset_departing :: "nat \<Rightarrow> room \<Rightarrow> room" where
  "reset_departing i r =
     (let fd = dc_fd (r_departing r ! i) in
      r\<lparr>r_departing := (r_departing r)[i := departing_free],
        r_env := (if fd \<ge> 0 then c_close fd (r_env r) else r_env r)\<rparr>)"

text \<open>The hand-over of a leaving connection to the first free drain record, or its close.\<close>

definition start_departing :: "client_slot \<Rightarrow> u64 \<Rightarrow> room \<Rightarrow> room" where
  "start_departing client now r =
     (case find (\<lambda>i. \<not> dc_in_use (r_departing r ! i)) [0..<MAX_DEPARTING] of
        Some d \<Rightarrow> r\<lparr>r_departing := (r_departing r)[d :=
          \<lparr>dc_in_use = True, dc_fd = c_fd client, dc_tx = c_tx client,
           dc_frame_rx = c_frame_rx client, dc_leave_seq = leave_seq client,
           dc_deadline_ms = now + LEAVE_DRAIN_MS\<rparr>]\<rparr>
      | None \<Rightarrow> r\<lparr>r_env := c_close (c_fd client) (r_env r)\<rparr>)"

definition detach_voluntary_client :: "nat \<Rightarrow> u64 \<Rightarrow> room \<Rightarrow> room" where
  "detach_voluntary_client slot now r =
     (let client = r_clients r ! slot;
          r1 = r\<lparr>r_clients := (r_clients r)[slot := client_free]\<rparr>;
          r2 = start_departing client now (reset_slot_gameplay slot now r1) in
      if room_human_count r2 = 0 then enter_dormant now r2 else r2)"

text \<open>One step of \<open>reap_timed_out_clients\<close>, and the loop. The differences wrap, as in the source.\<close>

definition client_alive :: "u64 \<Rightarrow> client_slot \<Rightarrow> bool" where
  "client_alive now c \<longleftrightarrow>
     (\<not> handshake_ok c \<and> now - connected_ms c < CLIENT_HANDSHAKE_MS) \<or>
     (handshake_ok c \<and> now - last_seen_ms c < CLIENT_TIMEOUT_MS)"

definition reap_client :: "u64 \<Rightarrow> nat \<Rightarrow> room \<Rightarrow> room" where
  "reap_client now i r =
     (let c = r_clients r ! i in
      if \<not> in_use c then r
      else if \<not> tx_failed (c_tx c) \<and> client_alive now c then r
      else drop_client i now r)"

definition reap_timed_out_clients :: "u64 \<Rightarrow> room \<Rightarrow> room" where
  "reap_timed_out_clients now r = for_slots (reap_client now) r"

section \<open>Leaving connections\<close>

definition departing_byte :: "u8 \<Rightarrow> departing_connection \<times> env \<Rightarrow> departing_connection \<times> env" where
  "departing_byte byte s =
     (let (d, e) = s; (res, rx) = tcp_frame_push_byte (dc_frame_rx d) byte 16;
          d1 = d\<lparr>dc_frame_rx := rx\<rparr> in
      case res of
        FramePayload pkt \<Rightarrow>
          if length pkt = 2 \<and> pkt ! 0 = PKT_LEAVE_ROOM
          then let (n, tx, e1) = send_frame (dc_fd d1) (dc_tx d1) [PKT_LEAVE_ACK, pkt ! 1] e in
            (d1\<lparr>dc_tx := tx\<rparr>, e1)
          else (d1, e)
      | FrameIncomplete \<Rightarrow> (d1, e)
      | FrameInvalid \<Rightarrow> (d1, e))"

definition process_departing_bytes ::
  "bytes \<Rightarrow> departing_connection \<times> env \<Rightarrow> departing_connection \<times> env" where
  "process_departing_bytes buf s = fold departing_byte buf s"

definition departing_done :: "departing_connection \<Rightarrow> bool" where
  "departing_done d \<longleftrightarrow> tx_failed (dc_tx d) \<or> tx_data (dc_tx d) = []"

definition reap_departing :: "u64 \<Rightarrow> nat \<Rightarrow> room \<Rightarrow> room" where
  "reap_departing now i r =
     (let d = r_departing r ! i in
      if \<not> dc_in_use d then r
      else if departing_done d \<or> now \<ge> dc_deadline_ms d then reset_departing i r
      else r)"

definition reap_departing_connections :: "u64 \<Rightarrow> room \<Rightarrow> room" where
  "reap_departing_connections now r = fold (reap_departing now) [0..<MAX_DEPARTING] r"

section \<open>Accepting\<close>

text \<open>
  \<open>fd\<close> is what \<open>accept\<close> returned and \<open>configured\<close> whether \<open>tcp_configure\<close> succeeded on it.
\<close>

definition seat_connection :: "int \<Rightarrow> nat \<Rightarrow> bool \<Rightarrow> u64 \<Rightarrow> room \<Rightarrow> room" where
  "seat_connection fd slot replace_pending now r =
     (let r1 = (if replace_pending then reset_slot_gameplay slot now (reset_client_slot slot r) else r) in
      reset_slot_gameplay slot now (upd_client slot (init_client_slot fd now) r1))"

definition accept_room_client :: "int \<Rightarrow> bool \<Rightarrow> u64 \<Rightarrow> room \<Rightarrow> room" where
  "accept_room_client fd configured now r =
     (if fd < 0 then r
      else case alloc_client_slot (r_clients r) (cfg_zombies (r_config r)) of
          None \<Rightarrow> r\<lparr>r_env := c_close fd (r_env r)\<rparr>
        | Some (slot, replace_pending) \<Rightarrow>
            if \<not> configured then r\<lparr>r_env := c_close fd (r_env r)\<rparr>
            else seat_connection fd slot replace_pending now r)"

section \<open>Replacing a client record\<close>

lemma client_free_ok: "seat_ok client_free" "link_ok client_free" "\<not> seated client_free"
  by (simp_all add: seat_ok_def client_free_def name_ok_def input_ok_def input_shape_def
      pending_inputs_def link_ok_def ring_shape_def tx_ok_def tcp_tx_zero_def seated_def)

lemma base_ok_swap:
  assumes "base_ok r" "seat_ok c" "link_ok c"
  shows "base_ok (r\<lparr>r_clients := (r_clients r)[i := c], r_env := e\<rparr>)"
proof -
  have "base_ok (upd_client i (\<lambda>_. c) r)" by (rule base_ok_upd_client [OF assms(1)]) (simp add: assms)
  then have "base_ok ((upd_client i (\<lambda>_. c) r)\<lparr>r_env := e\<rparr>)" by simp
  then show ?thesis by (simp add: upd_client_def modify_def)
qed

lemma fit_swap:
  assumes "fit r" "seat_ok c" "link_ok c"
  shows "fit (r\<lparr>r_clients := (r_clients r)[i := c], r_env := e\<rparr>)"
proof -
  let ?q = "r\<lparr>r_clients := (r_clients r)[i := c], r_env := e\<rparr>"
  have "base_ok ?q" using base_ok_swap assms fit_base by blast
  moreover have "round_ok ?q" using assms(1) by (simp add: fit_def)
  moreover have "shots_open ?q" using assms(1) by (simp add: fit_def shots_open_def)
  ultimately show ?thesis by (simp add: fit_def)
qed

lemma swap_humans:
  assumes "\<not> seated c" "room_human_count r = 0" "length (r_clients r) = 4"
  shows "room_human_count (r\<lparr>r_clients := (r_clients r)[i := c], r_env := e\<rparr>) = 0"
proof -
  have "\<not> seated ((r_clients r)[i := c] ! j)" if "j < 4" for j
    using assms that by (cases "i = j") (simp_all add: human_count_zero)
  then show ?thesis by (simp add: human_count_zero)
qed

text \<open>Losing humans keeps the phase invariant, as long as the last one starts no new phase.\<close>

lemma phase_ok_fewer:
  assumes "phase_ok r" "r_round_state q = r_round_state r"
    and "r_no_human_deadline_ms q = r_no_human_deadline_ms r"
    and "room_human_count r = 0 \<Longrightarrow> room_human_count q = 0"
  shows "phase_ok q"
  using assms by (auto simp: phase_ok_def)

lemma sound_fewer:
  assumes "sound r" "fit q" "r_round_state q = r_round_state r"
    and "r_no_human_deadline_ms q = r_no_human_deadline_ms r"
    and "room_human_count r = 0 \<Longrightarrow> room_human_count q = 0"
  shows "sound q"
proof -
  have "phase_ok q" using assms by (intro phase_ok_fewer [of r q]) (simp_all add: sound_def)
  then show ?thesis using assms(2) by (simp add: sound_def)
qed

section \<open>Sessions keep the room sound\<close>

lemma reset_slot_facts:
  assumes "length (r_clients r) = 4"
  shows "room_human_count (reset_slot_gameplay i now r) = room_human_count r"
    "r_round_state (reset_slot_gameplay i now r) = r_round_state r"
    "r_no_human_deadline_ms (reset_slot_gameplay i now r) = r_no_human_deadline_ms r"
  using rkey_humans [OF rkey_reset_slot assms, of i now] rroundD [OF rround_slot_ops(1) [of i now r]]
  by simp_all

text \<open>A slot emptied, or given to a socket that is not seated, with the gameplay reset after it.\<close>

lemma vacate:
  assumes "fit r" "seat_ok c" "link_ok c" "\<not> seated c"
    and "q = reset_slot_gameplay i now (r\<lparr>r_clients := (r_clients r)[j := c], r_env := e\<rparr>)"
  shows "fit q" "r_round_state q = r_round_state r" "r_no_human_deadline_ms q = r_no_human_deadline_ms r"
    "room_human_count r = 0 \<Longrightarrow> room_human_count q = 0"
proof -
  have len: "length (r_clients r) = 4" using assms(1) by (simp add: base_ok_lengths)
  then have len': "length (r_clients (r\<lparr>r_clients := (r_clients r)[j := c], r_env := e\<rparr>)) = 4" by simp
  note facts = reset_slot_facts [OF len', of i now]
  show "fit q" unfolding assms(5) by (intro fit_reset_slot fit_swap assms(1-3))
  show "r_round_state q = r_round_state r" "r_no_human_deadline_ms q = r_no_human_deadline_ms r"
    using facts(2,3) by (simp_all add: assms(5))
  show "room_human_count r = 0 \<Longrightarrow> room_human_count q = 0"
    using swap_humans [OF assms(4) _ len] facts(1) by (simp add: assms(5))
qed

lemma seated_open:
  assumes "sound r" "i < 4" "handshake_ok (r_clients r ! i)"
  shows "room_human_count r \<noteq> 0" "r_round_state r \<noteq> ROUND_DORMANT" "r_no_human_deadline_ms r = 0"
proof -
  have "seat_ok (r_clients r ! i)" using assms(1,2) by (simp add: base_ok_seat)
  then have "seated (r_clients r ! i)" using assms(3) by (simp add: seat_ok_def seated_def)
  then show "room_human_count r \<noteq> 0" using assms(2) by (auto simp: human_count_zero)
  then show "r_round_state r \<noteq> ROUND_DORMANT" "r_no_human_deadline_ms r = 0"
    using assms(1) by (auto simp: sound_def phase_ok_def)
qed

lemma sound_drop:
  assumes "sound r" "i < 4"
  shows "sound (drop_client i now r)"
proof -
  let ?q = "reset_slot_gameplay i now (reset_client_slot i r)"
  have eq: "?q = reset_slot_gameplay i now (r\<lparr>r_clients := (r_clients r)[i := client_free],
      r_env := (if c_fd (r_clients r ! i) \<ge> 0 then c_close (c_fd (r_clients r ! i)) (r_env r) else r_env r)\<rparr>)"
    by (simp add: reset_client_slot_def Let_def)
  have "fit r" using assms(1) by simp
  note v = vacate [OF this client_free_ok eq]
  have "sound (begin_no_human_grace now ?q)" if "handshake_ok (r_clients r ! i)" "room_human_count ?q = 0"
    using v seated_open [OF assms that(1)] that(2) by (intro sound_grace) simp_all
  moreover have "sound ?q" by (rule sound_fewer [OF assms(1) v])
  ultimately show ?thesis by (simp add: drop_client_def Let_def)
qed

lemma fit_departing [simp]: "fit (r\<lparr>r_departing := ds\<rparr>) = fit r" if "length ds = length (r_departing r)"
  using that by (auto simp: fit_def base_ok_def board_ok_def seats_ok_def net_ok_def shots_open_def)

lemma fit_env [simp]: "fit (r\<lparr>r_env := e\<rparr>) = fit r"
  by (simp add: fit_def shots_open_def)

lemma humans_fields [simp]:
  "room_human_count (r\<lparr>r_departing := ds\<rparr>) = room_human_count r"
  "room_human_count (r\<lparr>r_env := e\<rparr>) = room_human_count r"
  by (simp_all add: room_human_count_def)

lemma start_departing_facts:
  "fit (start_departing c now r) = fit r" "r_round_state (start_departing c now r) = r_round_state r"
  "r_no_human_deadline_ms (start_departing c now r) = r_no_human_deadline_ms r"
  "room_human_count (start_departing c now r) = room_human_count r"
  by (simp_all add: start_departing_def split: option.split)

lemma sound_detach:
  assumes "sound r" "i < 4"
  shows "sound (detach_voluntary_client i now r)"
proof -
  let ?q = "reset_slot_gameplay i now (r\<lparr>r_clients := (r_clients r)[i := client_free]\<rparr>)"
  let ?u = "start_departing (r_clients r ! i) now ?q"
  have eq: "?q = reset_slot_gameplay i now (r\<lparr>r_clients := (r_clients r)[i := client_free], r_env := r_env r\<rparr>)"
    by simp
  have "fit r" using assms(1) by simp
  note v = vacate [OF this client_free_ok eq]
  have u: "fit ?u" "r_round_state ?u = r_round_state r" "r_no_human_deadline_ms ?u = r_no_human_deadline_ms r"
    "room_human_count r = 0 \<Longrightarrow> room_human_count ?u = 0"
    using v by (simp_all add: start_departing_facts)
  have "sound ?u" by (rule sound_fewer [OF assms(1) u])
  moreover have "sound (enter_dormant now ?u)" if "room_human_count ?u = 0"
    by (rule sound_enter_dormant [OF u(1) that])
  ultimately show ?thesis by (simp add: detach_voluntary_client_def Let_def)
qed

lemma sound_reap_client: "sound r \<Longrightarrow> i < 4 \<Longrightarrow> sound (reap_client now i r)"
  by (simp add: reap_client_def Let_def sound_drop)

lemma sound_reap: "sound r \<Longrightarrow> sound (reap_timed_out_clients now r)"
  unfolding reap_timed_out_clients_def by (rule for_slots_invariant) (simp_all add: sound_reap_client)

lemma phase_ok_fields:
  "phase_ok (r\<lparr>r_departing := ds\<rparr>) = phase_ok r" "phase_ok (r\<lparr>r_env := e\<rparr>) = phase_ok r"
  by (simp_all add: phase_ok_def)

lemma sound_departing:
  "length ds = length (r_departing r) \<Longrightarrow> sound (r\<lparr>r_departing := ds\<rparr>) = sound r"
  "sound (r\<lparr>r_env := e\<rparr>) = sound r"
  by (simp_all add: sound_def phase_ok_fields)

lemma sound_reset_departing: "sound r \<Longrightarrow> sound (reset_departing i r)"
  by (simp add: reset_departing_def Let_def sound_departing)

lemma sound_reap_departing: "sound r \<Longrightarrow> sound (reap_departing_connections now r)"
  unfolding reap_departing_connections_def
  by (rule fold_invariant_on) (simp_all add: reap_departing_def Let_def sound_reset_departing)

section \<open>Accepting keeps the room sound\<close>

lemma init_slot_fields [simp]:
  "in_use (init_client_slot fd now c) = True" "c_fd (init_client_slot fd now c) = fd"
  "handshake_ok (init_client_slot fd now c) = False"
  "leave_requested (init_client_slot fd now c) = leave_requested c"
  "c_name (init_client_slot fd now c) = replicate NAME_LEN 0"
  "input_head (init_client_slot fd now c) = 0" "input_count (init_client_slot fd now c) = 0"
  "input_q (init_client_slot fd now c) = input_q c" "c_tx (init_client_slot fd now c) = c_tx c"
  by (simp_all add: init_client_slot_def)

lemma init_slot_ok:
  assumes "seat_ok c" "link_ok c" "\<not> handshake_ok c" "0 \<le> fd"
  shows "seat_ok (init_client_slot fd now c)" "link_ok (init_client_slot fd now c)"
    "\<not> seated (init_client_slot fd now c)"
proof -
  have calm: "\<not> leave_requested c" using assms(1,3) unfolding seat_ok_def by blast
  have "input_ok c" using assms(1) by (simp add: seat_ok_def)
  then have "input_ok (init_client_slot fd now c)" by (rule input_ok_empty) simp_all
  moreover have "name_ok (replicate NAME_LEN 0)" unfolding name_ok_def by simp
  ultimately show "seat_ok (init_client_slot fd now c)"
    using calm assms(4) unfolding seat_ok_def init_slot_fields by blast
  show "link_ok (init_client_slot fd now c)"
    using assms(2) by (simp add: link_ok_def init_client_slot_def ring_shape_def numbered_def
        outbox_def pending_events_def)
  show "\<not> seated (init_client_slot fd now c)" by (simp add: seated_def init_client_slot_def)
qed

lemma find_slot_Some: "find P [0..<n] = Some i \<Longrightarrow> i < n \<and> P i"
  by (auto simp: find_Some_iff)

lemma find_slot_None: "find P [0..<n] = None \<Longrightarrow> \<forall>j < n. \<not> P j"
  by (simp add: find_None_iff)

lemma alloc_cases:
  assumes "alloc_client_slot cs z = Some (i, rep)"
  shows "i < 4" "rep \<Longrightarrow> in_use (cs ! i) \<and> \<not> handshake_ok (cs ! i) \<and> \<not> compute_zombie_mask cs z ! i"
    "\<not> rep \<Longrightarrow> \<not> in_use (cs ! i)"
    "rep \<or> compute_zombie_mask cs z ! i \<Longrightarrow> j < 4 \<Longrightarrow> \<not> compute_zombie_mask cs z ! j \<Longrightarrow> in_use (cs ! j)"
    "compute_zombie_mask cs z ! i \<Longrightarrow> j < 4 \<Longrightarrow> \<not> compute_zombie_mask cs z ! j \<Longrightarrow> handshake_ok (cs ! j)"
proof -
  let ?m = "compute_zombie_mask cs z"
  let ?P1 = "\<lambda>i. \<not> in_use (cs ! i) \<and> \<not> ?m ! i"
  let ?P2 = "\<lambda>i. \<not> ?m ! i \<and> in_use (cs ! i) \<and> \<not> handshake_ok (cs ! i)"
  let ?P3 = "\<lambda>i. \<not> in_use (cs ! i)"
  have alloc: "(case find ?P1 [0..<4] of Some i \<Rightarrow> Some (i, False)
     | None \<Rightarrow> (case find ?P2 [0..<4] of Some i \<Rightarrow> Some (i, True)
     | None \<Rightarrow> (case find ?P3 [0..<4] of Some i \<Rightarrow> Some (i, False) | None \<Rightarrow> None))) = Some (i, rep)"
    using assms unfolding alloc_client_slot_def Let_def .
  consider (free) "find ?P1 [0..<4] = Some i" "\<not> rep"
    | (pending) "find ?P1 [0..<4] = None" "find ?P2 [0..<4] = Some i" "rep"
    | (zombie) "find ?P1 [0..<4] = None" "find ?P2 [0..<4] = None" "find ?P3 [0..<4] = Some i" "\<not> rep"
    using alloc by (cases "find ?P1 [0..<4]"; cases "find ?P2 [0..<4]"; cases "find ?P3 [0..<4]"; simp)
  then have "i < 4 \<and> (rep \<longrightarrow> in_use (cs ! i) \<and> \<not> handshake_ok (cs ! i) \<and> \<not> ?m ! i) \<and>
    (\<not> rep \<longrightarrow> \<not> in_use (cs ! i)) \<and>
    (rep \<or> ?m ! i \<longrightarrow> (\<forall>j < 4. \<not> ?m ! j \<longrightarrow> in_use (cs ! j))) \<and>
    (?m ! i \<longrightarrow> (\<forall>j < 4. \<not> ?m ! j \<longrightarrow> handshake_ok (cs ! j)))"
  proof cases
    case free
    then show ?thesis using find_slot_Some [OF free(1)] by blast
  next
    case pending
    then show ?thesis using find_slot_Some [OF pending(2)] find_slot_None [OF pending(1)] by blast
  next
    case zombie
    then show ?thesis
      using find_slot_Some [OF zombie(3)] find_slot_None [OF zombie(1)] find_slot_None [OF zombie(2)] by blast
  qed
  then show "i < 4" "rep \<Longrightarrow> in_use (cs ! i) \<and> \<not> handshake_ok (cs ! i) \<and> \<not> ?m ! i"
    "\<not> rep \<Longrightarrow> \<not> in_use (cs ! i)"
    "rep \<or> ?m ! i \<Longrightarrow> j < 4 \<Longrightarrow> \<not> ?m ! j \<Longrightarrow> in_use (cs ! j)"
    "?m ! i \<Longrightarrow> j < 4 \<Longrightarrow> \<not> ?m ! j \<Longrightarrow> handshake_ok (cs ! j)" by blast+
qed

lemma alloc_none:
  assumes "alloc_client_slot cs z = None"
  shows "j < 4 \<Longrightarrow> in_use (cs ! j)" "j < 4 \<Longrightarrow> \<not> compute_zombie_mask cs z ! j \<Longrightarrow> handshake_ok (cs ! j)"
proof -
  let ?m = "compute_zombie_mask cs z"
  let ?P2 = "\<lambda>i. \<not> ?m ! i \<and> in_use (cs ! i) \<and> \<not> handshake_ok (cs ! i)"
  let ?P1 = "\<lambda>i. \<not> in_use (cs ! i) \<and> \<not> ?m ! i"
  let ?P3 = "\<lambda>i. \<not> in_use (cs ! i)"
  have alloc: "(case find ?P1 [0..<4] of Some i \<Rightarrow> Some (i, False)
     | None \<Rightarrow> (case find ?P2 [0..<4] of Some i \<Rightarrow> Some (i, True)
     | None \<Rightarrow> (case find ?P3 [0..<4] of Some i \<Rightarrow> Some (i, False) | None \<Rightarrow> None))) = None"
    using assms unfolding alloc_client_slot_def Let_def .
  have none: "find ?P2 [0..<4] = None" "find ?P3 [0..<4] = None"
    using alloc by (cases "find ?P1 [0..<4]"; cases "find ?P2 [0..<4]"; cases "find ?P3 [0..<4]"; simp)+
  show "j < 4 \<Longrightarrow> in_use (cs ! j)" "j < 4 \<Longrightarrow> \<not> ?m ! j \<Longrightarrow> handshake_ok (cs ! j)"
    using find_slot_None [OF none(1)] find_slot_None [OF none(2)] by blast+
qed

lemma alloc_unauthenticated:
  assumes "alloc_client_slot (r_clients r) z = Some (i, rep)" "base_ok r"
  shows "\<not> handshake_ok (r_clients r ! i)"
  using alloc_cases(1-3) [OF assms(1)] base_ok_seat [OF assms(2), of i] by (auto simp: seat_ok_def)

lemma clients_reset_slot [simp]: "r_clients (reset_slot_gameplay i now r) = r_clients r"
  by (simp add: reset_slot_gameplay_def Let_def upd_shot_def upd_player_def reset_zombie_schedule_def
      room_rand_read_def)

lemma sound_seat_connection:
  assumes "sound r" "i < 4" "\<not> handshake_ok (r_clients r ! i)" "0 \<le> fd"
  shows "sound (seat_connection fd i rep now r)"
proof -
  define q where "q = (if rep then reset_slot_gameplay i now (reset_client_slot i r) else r)"
  have len: "length (r_clients r) = 4" using assms(1) by (simp add: base_ok_lengths)
  have q: "sound q" "\<not> handshake_ok (r_clients q ! i)"
  proof -
    let ?d = "reset_slot_gameplay i now (reset_client_slot i r)"
    have "?d = drop_client i now r" using assms(3) by (simp add: drop_client_def)
    then have "sound ?d" using sound_drop [OF assms(1,2)] by simp
    then show "sound q" using assms(1) by (simp add: q_def)
    have "\<not> handshake_ok (r_clients ?d ! i)" using len assms(2)
      by (simp add: reset_client_slot_def Let_def client_free_def)
    then show "\<not> handshake_ok (r_clients q ! i)" using assms(3) by (simp add: q_def)
  qed
  let ?c = "init_client_slot fd now (r_clients q ! i)"
  have "seat_ok (r_clients q ! i)" "link_ok (r_clients q ! i)" using q(1) assms(2)
    by (simp_all add: base_ok_seat base_ok_link)
  note c = init_slot_ok [OF this q(2) assms(4)]
  have eq: "seat_connection fd i rep now r =
      reset_slot_gameplay i now (q\<lparr>r_clients := (r_clients q)[i := ?c], r_env := r_env q\<rparr>)"
    by (simp add: seat_connection_def Let_def q_def upd_client_def modify_def)
  have "fit q" using q(1) by simp
  from vacate [OF this c eq] show ?thesis by (rule sound_fewer [OF q(1)])
qed

lemma sound_accept:
  assumes "sound r"
  shows "sound (accept_room_client fd ok now r)"
proof -
  have "sound (seat_connection fd i rep now r)"
    if "alloc_client_slot (r_clients r) z = Some (i, rep)" "\<not> fd < 0" for i rep z
    using alloc_cases(1) [OF that(1)] alloc_unauthenticated [OF that(1)] assms that(2)
    by (intro sound_seat_connection) simp_all
  then show ?thesis using assms
    by (auto simp: accept_room_client_def sound_departing split: option.split)
qed

section \<open>Who owns which descriptor\<close>

definition fd_cell :: "int \<Rightarrow> int multiset" where
  "fd_cell fd = (if 0 \<le> fd then {#fd#} else {#})"

definition fds_of :: "('a \<Rightarrow> int) \<Rightarrow> 'a list \<Rightarrow> int multiset" where
  "fds_of f xs = sum_list (map (\<lambda>x. fd_cell (f x)) xs)"

definition open_fds :: "room \<Rightarrow> int multiset" where
  "open_fds r = fds_of c_fd (r_clients r) + fds_of dc_fd (r_departing r)"

text \<open>Every descriptor handed to the room, whether it is still open or has been closed.\<close>

definition ledger :: "room \<Rightarrow> int multiset" where
  "ledger r = open_fds r + mset (e_closed (r_env r))"

definition drain_ok :: "departing_connection \<Rightarrow> bool" where
  "drain_ok d \<longleftrightarrow> (dc_in_use d \<longleftrightarrow> 0 \<le> dc_fd d) \<and> tx_ok (dc_tx d)"

definition drains_ok :: "room \<Rightarrow> bool" where
  "drains_ok r \<longleftrightarrow> list_all drain_ok (r_departing r)"

lemma fd_cell_simps [simp]: "0 \<le> fd \<Longrightarrow> fd_cell fd = {#fd#}" "fd < 0 \<Longrightarrow> fd_cell fd = {#}"
  by (simp_all add: fd_cell_def)

lemma fds_of_update:
  "i < length xs \<Longrightarrow> fds_of f (xs[i := x]) + fd_cell (f (xs ! i)) = fds_of f xs + fd_cell (f x)"
proof (induction xs arbitrary: i)
  case Nil
  then show ?case by simp
next
  case (Cons y ys)
  then show ?case by (cases i) (auto simp: fds_of_def add.assoc add.commute add.left_commute)
qed

lemma fds_of_map: "map f xs = map f ys \<Longrightarrow> fds_of f xs = fds_of f ys"
  unfolding fds_of_def by (metis (mono_tags, lifting) comp_apply list.map_comp map_eq_conv)

lemma fds_of_none [simp]: "fds_of f (xs[i := x]) = fds_of f xs" if "length xs \<le> i"
  using that by (simp add: list_update_beyond)

text \<open>What keeps descriptors, departing records and closes alone keeps the ledger.\<close>

definition closed_fds :: "room \<Rightarrow> int multiset" where
  "closed_fds r = mset (e_closed (r_env r))"

lemma closed_used: "used q = used r \<Longrightarrow> closed_fds q = closed_fds r"
  by (simp add: used_def closed_fds_def)

lemma closed_rkey: "rkey q = rkey r \<Longrightarrow> closed_fds q = closed_fds r"
  by (intro closed_used used_rkey)

lemmas closed_ops [simp] = closed_rkey [OF rkey_reset_slot] closed_rkey [OF rkey_grace] closed_rkey [OF rkey_enter_dormant]

lemma ledger_used: "used q = used r \<Longrightarrow> ledger q = ledger r \<and> drains_ok q = drains_ok r"
  using fds_of_map [of c_fd "r_clients q" "r_clients r"]
  by (simp add: used_def ledger_def open_fds_def drains_ok_def)

lemma ledger_rkey: "rkey q = rkey r \<Longrightarrow> ledger q = ledger r \<and> drains_ok q = drains_ok r"
  by (intro ledger_used used_rkey)

lemma ledger_gameplay: "gameplay r q \<Longrightarrow> ledger q = ledger r \<and> drains_ok q = drains_ok r"
  by (intro ledger_used used_gameplay)

lemmas ledger_ops [simp] =
  ledger_rkey [OF rkey_reset_slot, THEN conjunct1] ledger_rkey [OF rkey_grace, THEN conjunct1]
  ledger_rkey [OF rkey_enter_dormant, THEN conjunct1]
lemmas drains_ops [simp] =
  ledger_rkey [OF rkey_reset_slot, THEN conjunct2] ledger_rkey [OF rkey_grace, THEN conjunct2]
  ledger_rkey [OF rkey_enter_dormant, THEN conjunct2]

lemma closed_close [simp]: "e_closed (c_close fd e) = fd # e_closed e"
  by (simp add: c_close_def)

lemma ledger_close: "ledger (r\<lparr>r_env := c_close fd (r_env r)\<rparr>) = add_mset fd (ledger r)"
  by (simp add: ledger_def open_fds_def)

text \<open>A client record replaced, with and without closing what it held.\<close>

lemma ledger_swap:
  assumes "i < length (r_clients r)"
  shows "ledger (r\<lparr>r_clients := (r_clients r)[i := c]\<rparr>) + fd_cell (c_fd (r_clients r ! i)) =
    ledger r + fd_cell (c_fd c)"
  using fds_of_update [OF assms, of c_fd c]
  by (simp add: ledger_def open_fds_def add.assoc add.commute add.left_commute)

lemma ledger_swap_close:
  assumes "i < length (r_clients r)" "0 \<le> c_fd (r_clients r ! i)" "c_fd c < 0"
  shows "ledger (r\<lparr>r_clients := (r_clients r)[i := c], r_env := c_close (c_fd (r_clients r ! i)) (r_env r)\<rparr>) = ledger r"
  using ledger_swap [OF assms(1), of c] assms(2,3) ledger_close [where r = "r\<lparr>r_clients := (r_clients r)[i := c]\<rparr>"]
  by simp

lemma free_fd [simp]: "c_fd client_free = -1" "dc_fd departing_free = -1"
  by (simp_all add: client_free_def departing_free_def)

lemma ledger_reset_client [simp]: "i < length (r_clients r) \<Longrightarrow> ledger (reset_client_slot i r) = ledger r"
  using ledger_swap [of i r client_free] ledger_swap_close [of i r client_free]
  by (auto simp: reset_client_slot_def Let_def fd_cell_def)

lemma closed_fields [simp]:
  "closed_fds (r\<lparr>r_clients := cs\<rparr>) = closed_fds r" "closed_fds (r\<lparr>r_departing := ds\<rparr>) = closed_fds r"
  "closed_fds (r\<lparr>r_env := c_close fd (r_env r)\<rparr>) = add_mset fd (closed_fds r)"
  by (simp_all add: closed_fds_def)

lemma closed_drop: "closed_fds r \<subseteq># closed_fds (drop_client i now r)"
  by (simp add: drop_client_def Let_def) (simp add: reset_client_slot_def Let_def closed_fds_def)

lemma closed_reset_departing: "closed_fds r \<subseteq># closed_fds (reset_departing i r)"
  by (simp add: reset_departing_def Let_def closed_fds_def)

lemma closed_start_departing: "closed_fds r \<subseteq># closed_fds (start_departing c now r)"
  by (auto simp: start_departing_def split: option.split)

lemma closed_detach: "closed_fds r \<subseteq># closed_fds (detach_voluntary_client i now r)"
proof -
  let ?q = "reset_slot_gameplay i now (r\<lparr>r_clients := (r_clients r)[i := client_free]\<rparr>)"
  have "closed_fds ?q \<subseteq># closed_fds (start_departing (r_clients r ! i) now ?q)" by (rule closed_start_departing)
  then show ?thesis by (simp add: detach_voluntary_client_def Let_def)
qed

lemma ledger_drop: "i < length (r_clients r) \<Longrightarrow> ledger (drop_client i now r) = ledger r"
  by (simp add: drop_client_def Let_def)

lemma drains_fields [simp]:
  "drains_ok (r\<lparr>r_clients := cs\<rparr>) = drains_ok r" "drains_ok (r\<lparr>r_env := e\<rparr>) = drains_ok r"
  "drains_ok (reset_client_slot i r) = drains_ok r"
  by (simp_all add: drains_ok_def reset_client_slot_def Let_def)

lemma drains_drop [simp]: "drains_ok (drop_client i now r) = drains_ok r"
  by (simp add: drop_client_def Let_def)

text \<open>The same for a departing record.\<close>

lemma ledger_drain_swap:
  assumes "i < length (r_departing r)"
  shows "ledger (r\<lparr>r_departing := (r_departing r)[i := d]\<rparr>) + fd_cell (dc_fd (r_departing r ! i)) =
    ledger r + fd_cell (dc_fd d)"
  using fds_of_update [OF assms, of dc_fd d]
  by (simp add: ledger_def open_fds_def add.assoc add.commute add.left_commute)

lemma drain_free_ok: "drain_ok departing_free"
  by (simp add: drain_ok_def departing_free_def tx_ok_def tcp_tx_zero_def)

lemma reset_departing_ledger:
  "ledger (reset_departing i r) = ledger r" "drains_ok r \<Longrightarrow> drains_ok (reset_departing i r)" if "i < length (r_departing r)"
proof -
  let ?q = "r\<lparr>r_departing := (r_departing r)[i := departing_free]\<rparr>"
  show "ledger (reset_departing i r) = ledger r"
    using ledger_drain_swap [OF that, of departing_free] ledger_close [where r = ?q]
    by (simp add: reset_departing_def Let_def fd_cell_def split: if_splits)
  show "drains_ok r \<Longrightarrow> drains_ok (reset_departing i r)"
    by (simp add: drains_ok_def reset_departing_def Let_def list_all_update drain_free_ok)
qed

lemma start_departing_ledger:
  assumes "0 \<le> c_fd c" "drains_ok r" "length (r_departing r) = 4" "tx_ok (c_tx c)"
  shows "ledger (start_departing c now r) = add_mset (c_fd c) (ledger r)" "drains_ok (start_departing c now r)"
proof -
  let ?d = "\<lparr>dc_in_use = True, dc_fd = c_fd c, dc_tx = c_tx c, dc_frame_rx = c_frame_rx c,
    dc_leave_seq = leave_seq c, dc_deadline_ms = now + LEAVE_DRAIN_MS\<rparr>"
  have d: "drain_ok ?d" using assms(1,4) by (simp add: drain_ok_def)
  have put: "ledger (r\<lparr>r_departing := (r_departing r)[i := ?d]\<rparr>) = add_mset (c_fd c) (ledger r)"
    if "i < 4" "\<not> dc_in_use (r_departing r ! i)" for i
  proof -
    have i: "i < length (r_departing r)" using that(1) assms(3) by simp
    then have "drain_ok (r_departing r ! i)" using assms(2) by (simp add: drains_ok_def list_all_nthD)
    then have "dc_fd (r_departing r ! i) < 0" using that(2) unfolding drain_ok_def by linarith
    then show ?thesis using ledger_drain_swap [OF i, of ?d] assms(1) by simp
  qed
  show "ledger (start_departing c now r) = add_mset (c_fd c) (ledger r)"
    using put find_slot_Some by (auto simp: start_departing_def ledger_close split: option.split)
  show "drains_ok (start_departing c now r)"
    using assms(2) d by (auto simp: start_departing_def drains_ok_def list_all_update split: option.split)
qed

section \<open>Descriptors are conserved\<close>

text \<open>\<open>sound\<close> with the drain records.\<close>

definition server_ok :: "room \<Rightarrow> bool" where
  "server_ok r \<longleftrightarrow> sound r \<and> drains_ok r"

lemma server_ok_lengths:
  assumes "server_ok r"
  shows "length (r_clients r) = 4" "length (r_departing r) = 4"
  using assms base_ok_lengths [of r] by (simp_all add: server_ok_def)

lemma sound_clients_fd: "sound r \<Longrightarrow> i < 4 \<Longrightarrow> in_use (r_clients r ! i) \<longleftrightarrow> 0 \<le> c_fd (r_clients r ! i)"
  using base_ok_seat [of r i] unfolding seat_ok_def by simp

lemma ledger_detach:
  assumes "server_ok r" "i < 4" "in_use (r_clients r ! i)"
  shows "ledger (detach_voluntary_client i now r) = ledger r" "drains_ok (detach_voluntary_client i now r)"
proof -
  let ?c = "r_clients r ! i"
  let ?r1 = "r\<lparr>r_clients := (r_clients r)[i := client_free]\<rparr>"
  let ?q = "reset_slot_gameplay i now ?r1"
  have fd: "0 \<le> c_fd ?c" and tx: "tx_ok (c_tx ?c)"
    using assms sound_clients_fd [of r i] base_ok_link [of r i] by (simp_all add: server_ok_def link_ok_def)
  have len: "length (r_departing ?q) = 4"
    using rkey_reset_slot [of i now ?r1] server_ok_lengths [OF assms(1)] by (simp add: rkey_def)
  have drains: "drains_ok ?q" using assms(1) by (simp add: server_ok_def)
  have "add_mset (c_fd ?c) (ledger ?r1) = ledger r"
    using ledger_swap [of i r client_free] server_ok_lengths [OF assms(1)] assms(2) fd by simp
  then show "ledger (detach_voluntary_client i now r) = ledger r"
    using start_departing_ledger(1) [OF fd drains len tx, of now]
    by (simp add: detach_voluntary_client_def Let_def)
  show "drains_ok (detach_voluntary_client i now r)"
    using start_departing_ledger(2) [OF fd drains len tx, of now]
    by (simp add: detach_voluntary_client_def Let_def)
qed

text \<open>An operation that keeps the room sound and every descriptor accounted for, and re-opens none.\<close>

definition keeps :: "room \<Rightarrow> room \<Rightarrow> bool" where
  "keeps r q \<longleftrightarrow> (server_ok r \<longrightarrow> server_ok q \<and> ledger q = ledger r \<and> closed_fds r \<subseteq># closed_fds q)"

lemma keeps_refl [simp]: "keeps r r"
  by (simp add: keeps_def)

lemma keeps_trans: "keeps r q \<Longrightarrow> keeps q u \<Longrightarrow> keeps r u"
  unfolding keeps_def by (metis subset_mset.order_trans)

lemma keeps_if: "(b \<Longrightarrow> keeps r x) \<Longrightarrow> (\<not> b \<Longrightarrow> keeps r y) \<Longrightarrow> keeps r (if b then x else y)"
  by simp

lemma keeps_gameplay: "gameplay r q \<Longrightarrow> keeps r q"
proof -
  assume g: "gameplay r q"
  then have "closed_fds q = closed_fds r" by (intro closed_used used_gameplay)
  then show ?thesis using ledger_gameplay [OF g] sound_gameplay [OF g] by (simp add: keeps_def server_ok_def)
qed

lemma keeps_rcore: "rcore q = rcore r \<Longrightarrow> (base_ok r \<Longrightarrow> net_ok q) \<Longrightarrow> keeps r q"
  by (intro keeps_gameplay gameplay_rcore)

lemma keeps_drop: "i < 4 \<Longrightarrow> keeps r (drop_client i now r)"
  by (auto simp: keeps_def server_ok_def sound_drop server_ok_lengths intro!: ledger_drop closed_drop)

lemma keeps_detach: "i < 4 \<Longrightarrow> in_use (r_clients r ! i) \<Longrightarrow> keeps r (detach_voluntary_client i now r)"
  using ledger_detach [of r i now] sound_detach [of r i now] closed_detach [of r i now]
  by (simp add: keeps_def server_ok_def)

lemma keeps_for_slots:
  assumes "\<And>i r. i < 4 \<Longrightarrow> keeps r (f i r)"
  shows "keeps r (for_slots f r)"
proof (rule for_slots_invariant [of "keeps r"])
  fix i q assume "i < MAX_PLAYERS" "keeps r q"
  then show "keeps r (f i q)" using keeps_trans [of r q "f i q"] assms [of i q] by simp
qed simp

lemma keeps_reap: "keeps r (reap_timed_out_clients now r)"
  unfolding reap_timed_out_clients_def
  by (rule keeps_for_slots) (simp add: reap_client_def Let_def keeps_drop)

lemma keeps_reset_departing: "i < 4 \<Longrightarrow> keeps r (reset_departing i r)"
  using reset_departing_ledger [of i r] sound_reset_departing [of r i] server_ok_lengths [of r]
    closed_reset_departing [of r i]
  by (simp add: keeps_def server_ok_def)

lemma keeps_reap_departing: "keeps r (reap_departing_connections now r)"
proof -
  have "reap_departing_connections now r = for_slots (reap_departing now) r"
    by (simp add: reap_departing_connections_def for_slots_def)
  then show ?thesis
    by (auto intro!: keeps_for_slots simp: reap_departing_def Let_def keeps_reset_departing)
qed

text \<open>A new connection enters the ledger exactly once, whether it is seated or refused.\<close>

lemma seat_connection_ledger:
  assumes "server_ok r" "i < 4" "\<not> handshake_ok (r_clients r ! i)" "0 \<le> fd" "\<not> rep \<Longrightarrow> \<not> in_use (r_clients r ! i)"
  shows "ledger (seat_connection fd i rep now r) = add_mset fd (ledger r)"
    "drains_ok (seat_connection fd i rep now r)"
proof -
  define q where "q = (if rep then reset_slot_gameplay i now (reset_client_slot i r) else r)"
  have len: "i < length (r_clients r)" using server_ok_lengths(1) [OF assms(1)] assms(2) by simp
  have q: "ledger q = ledger r" "drains_ok q" "c_fd (r_clients q ! i) < 0" "i < length (r_clients q)"
  proof -
    show "ledger q = ledger r" "drains_ok q" using assms(1) len by (simp_all add: q_def server_ok_def)
    have "\<not> rep \<Longrightarrow> c_fd (r_clients r ! i) < 0"
      using assms(1,2,5) sound_clients_fd [of r i] by (simp add: server_ok_def)
    then show "c_fd (r_clients q ! i) < 0" "i < length (r_clients q)"
      using len by (simp_all add: q_def reset_client_slot_def Let_def)
  qed
  have eq: "seat_connection fd i rep now r = reset_slot_gameplay i now
      (q\<lparr>r_clients := (r_clients q)[i := init_client_slot fd now (r_clients q ! i)]\<rparr>)"
    by (simp add: seat_connection_def Let_def q_def upd_client_def modify_def)
  show "ledger (seat_connection fd i rep now r) = add_mset fd (ledger r)"
    using ledger_swap [OF q(4), of "init_client_slot fd now (r_clients q ! i)"] q assms(4)
    by (simp add: eq)
  show "drains_ok (seat_connection fd i rep now r)" using q(2) by (simp add: eq)
qed

lemma accept_ledger:
  assumes "server_ok r"
  shows "server_ok (accept_room_client fd ok now r)"
    "ledger (accept_room_client fd ok now r) = ledger r + fd_cell fd"
    "closed_fds r \<subseteq># closed_fds (accept_room_client fd ok now r)"
proof -
  have "closed_fds r \<subseteq># closed_fds (seat_connection fd i rep now r)" for i rep
    by (simp add: seat_connection_def Let_def upd_client_def) (simp add: reset_client_slot_def Let_def closed_fds_def)
  then show "closed_fds r \<subseteq># closed_fds (accept_room_client fd ok now r)"
    by (auto simp: accept_room_client_def split: option.split)
  have seat: "ledger (seat_connection fd i rep now r) = add_mset fd (ledger r) \<and>
      drains_ok (seat_connection fd i rep now r)"
    if "alloc_client_slot (r_clients r) z = Some (i, rep)" "\<not> fd < 0" for i rep z
    using seat_connection_ledger [OF assms alloc_cases(1) [OF that(1)], of fd rep now]
      alloc_unauthenticated [OF that(1)] alloc_cases(3) [OF that(1)] that(2) assms
    by (simp add: server_ok_def)
  have drains: "drains_ok r" using assms by (simp add: server_ok_def)
  have "drains_ok (accept_room_client fd ok now r)"
    using seat drains by (auto simp: accept_room_client_def split: option.split)
  then show "server_ok (accept_room_client fd ok now r)"
    using assms sound_accept [of r fd ok now] by (simp add: server_ok_def)
  show "ledger (accept_room_client fd ok now r) = ledger r + fd_cell fd"
    using seat by (auto simp: accept_room_client_def ledger_close split: option.split)
qed

section \<open>Draining\<close>

lemma departing_byte_keeps:
  assumes "departing_byte b (d, e) = (d', e')"
  shows "dc_fd d' = dc_fd d" "dc_in_use d' = dc_in_use d" "e_closed e' = e_closed e"
    "tx_ok (dc_tx d) \<Longrightarrow> tx_ok (dc_tx d')"
proof -
  obtain res rx where push: "tcp_frame_push_byte (dc_frame_rx d) b 16 = (res, rx)" by force
  let ?d1 = "d\<lparr>dc_frame_rx := rx\<rparr>"
  have closed: "e_closed e1 = e_closed e" and tx: "tx_ok (dc_tx d) \<Longrightarrow> tx_ok t"
    if "send_frame (dc_fd d) (dc_tx d) p e = (n, t, e1)" for p n t e1
    using send_frame_spec(1,2) [OF that] by (simp_all add: same_outside_def)
  have "(d', e') = (?d1, e) \<or> (\<exists>p n t e1. send_frame (dc_fd d) (dc_tx d) p e = (n, t, e1) \<and>
      (d', e') = (?d1\<lparr>dc_tx := t\<rparr>, e1))"
    using assms push
    by (auto simp: departing_byte_def Let_def split: frame_result.splits if_splits prod.splits)
  then show "dc_fd d' = dc_fd d" "dc_in_use d' = dc_in_use d" "e_closed e' = e_closed e"
    "tx_ok (dc_tx d) \<Longrightarrow> tx_ok (dc_tx d')"
    using closed tx by auto
qed

lemma departing_bytes_keep:
  assumes "process_departing_bytes buf (d, e) = (d', e')" "drain_ok d"
  shows "drain_ok d' \<and> dc_fd d' = dc_fd d \<and> e_closed e' = e_closed e"
proof -
  let ?P = "\<lambda>s. drain_ok (fst s) \<and> dc_fd (fst s) = dc_fd d \<and> e_closed (snd s) = e_closed e"
  have step: "?P (departing_byte b s)" if "?P s" for b s
  proof -
    obtain d1 e1 where s: "s = (d1, e1)" by force
    obtain d2 e2 where o: "departing_byte b (d1, e1) = (d2, e2)" by force
    show ?thesis using departing_byte_keeps [OF o] that unfolding s o
      by (simp add: drain_ok_def)
  qed
  have "?P (process_departing_bytes buf (d, e))"
    unfolding process_departing_bytes_def by (rule fold_invariant_on) (use step assms(2) in auto)
  then show ?thesis using assms(1) by simp
qed

section \<open>Properties\<close>

text \<open>
  C20: Seats for new connections. An authenticated player is never displaced. A seat the AI is
  driving is given away only when authenticated players sit on all the others; a pending
  handshake is replaced only when every seat that is not the AI's is taken; and a connection is refused only when
  all four seats are taken and no pending handshake could be replaced.
\<close>

theorem alloc_protects_players:
  assumes "list_all seat_ok cs" "length cs = 4"
  shows "case alloc_client_slot cs z of
      None \<Rightarrow> list_all (\<lambda>j. in_use (cs ! j) \<and> (handshake_ok (cs ! j) \<or> compute_zombie_mask cs z ! j)) [0..<4]
    | Some (i, replace) \<Rightarrow> i < 4 \<and> \<not> handshake_ok (cs ! i) \<and> (replace = in_use (cs ! i)) \<and>
        (compute_zombie_mask cs z ! i \<longrightarrow>
           list_all (\<lambda>j. compute_zombie_mask cs z ! j \<or> seated (cs ! j)) [0..<4]) \<and>
        (replace \<longrightarrow> list_all (\<lambda>j. compute_zombie_mask cs z ! j \<or> in_use (cs ! j)) [0..<4])"
proof (cases "alloc_client_slot cs z")
  case None
  then show ?thesis using alloc_none [OF None] by (auto simp: list_all_iff)
next
  case (Some got)
  obtain i rep where got: "got = (i, rep)" by force
  note alloc = alloc_cases [OF Some [unfolded got]]
  have ok: "seat_ok (cs ! i)" using alloc(1) assms by (simp add: list_all_nthD)
  have "\<not> handshake_ok (cs ! i)" "rep = in_use (cs ! i)"
    using alloc(2,3) ok unfolding seat_ok_def by blast+
  moreover have "list_all (\<lambda>j. compute_zombie_mask cs z ! j \<or> seated (cs ! j)) [0..<4]"
    if "compute_zombie_mask cs z ! i"
    unfolding list_all_iff seated_def using alloc(4,5) that by (metis atLeastLessThan_iff set_upt)
  moreover have "list_all (\<lambda>j. compute_zombie_mask cs z ! j \<or> in_use (cs ! j)) [0..<4]" if rep
    unfolding list_all_iff using alloc(4) that by (metis atLeastLessThan_iff set_upt)
  ultimately show ?thesis using alloc(1) unfolding Some got by simp
qed

theorem alloc_protects_players_witness:
  "\<not> handshake_ok (r_clients demo_joined ! fst (the (alloc_client_slot (r_clients demo_joined) 1)))"
proof -
  let ?cs = "r_clients demo_joined"
  have ok: "list_all seat_ok ?cs" "length ?cs = 4"
    using demo_joined_ok(1) by (simp_all add: base_ok_def seats_ok_def net_ok_def)
  obtain i rep where some: "alloc_client_slot ?cs 1 = Some (i, rep)"
  proof (cases "alloc_client_slot ?cs 1")
    case None
    from alloc_none(1) [OF None, of 0] have "in_use (?cs ! 0)" by simp
    then show ?thesis by (simp add: demo_joined_def demo_room_def upd_client_def modify_def client_free_def)
  qed auto
  show ?thesis using alloc_protects_players [OF ok, of 1] by (simp add: some)
qed

text \<open>What the timeouts look at in a client.\<close>

definition pulse :: "client_slot \<Rightarrow> bool \<times> bool \<times> u64 \<times> u64 \<times> tcp_tx" where
  "pulse c = (in_use c, handshake_ok c, connected_ms c, last_seen_ms c, c_tx c)"

definition client_stays :: "u64 \<Rightarrow> client_slot \<Rightarrow> bool" where
  "client_stays now c \<longleftrightarrow> in_use c \<and> \<not> tx_failed (c_tx c) \<and> client_alive now c"

lemma pulse_stays: "pulse c = pulse d \<Longrightarrow> in_use c = in_use d \<and> client_stays now c = client_stays now d"
  by (simp add: pulse_def client_stays_def client_alive_def)

lemma pulse_reset_round_slot: "map pulse (r_clients (reset_round_slot now zm i r)) = map pulse (r_clients r)"
proof -
  have "map pulse (modify i round_client_reset cs) = map pulse cs" for cs
    by (rule map_modify) (simp add: pulse_def round_client_reset_def)
  then show ?thesis
    by (simp add: reset_round_slot_def Let_def occupy_def place_actor_def split_beta upd_player_def
        upd_client_def reset_zombie_schedule_def room_rand_read_def)
qed

lemma send_round_state_unseated: "\<not> seated (r_clients r ! i) \<Longrightarrow> send_round_state i now r = r"
  by (auto simp: send_round_state_def seated_def Let_def)

lemma map_seated_pulse: "map pulse cs = map pulse ds \<Longrightarrow> map seated cs = map seated ds"
proof -
  assume "map pulse cs = map pulse ds"
  then have "map (\<lambda>p. fst p \<and> fst (snd p)) (map pulse cs) = map (\<lambda>p. fst p \<and> fst (snd p)) (map pulse ds)" by simp
  moreover have "seated = (\<lambda>c. in_use c \<and> handshake_ok c)" by (rule ext) (simp add: seated_def)
  ultimately show ?thesis by (simp add: pulse_def comp_def)
qed

text \<open>A round that starts with nobody seated sends nothing and leaves every connection as it was.\<close>

lemma pulse_reset_round:
  assumes "room_human_count r = 0" "length (r_clients r) = 4"
  shows "map pulse (r_clients (reset_round now r)) = map pulse (r_clients r)"
proof -
  let ?P = "\<lambda>q :: room. map pulse (r_clients q) = map pulse (r_clients r)"
  have quiet: "send_round_state i now q = q" if "?P q" "i < 4" for q i
  proof (rule send_round_state_unseated)
    have "map seated (r_clients q) = map seated (r_clients r)" using that(1) by (rule map_seated_pulse)
    moreover have "length (r_clients q) = 4" using that(1) assms(2) by (metis length_map)
    ultimately have "seated (r_clients q ! i) = seated (r_clients r ! i)" using that(2) assms(2) by (metis nth_map)
    then show "\<not> seated (r_clients q ! i)" using assms(1) that(2) by (simp add: human_count_zero)
  qed
  have loop: "?P (for_slots (reset_round_slot now zm) q)" if "?P q" for zm q
  proof (rule for_slots_invariant [of ?P, OF _ that])
    fix i s assume "?P s"
    then show "?P (reset_round_slot now zm i s)" using pulse_reset_round_slot [of now zm i s] by simp
  qed
  have "?P (for_slots (\<lambda>i. send_round_state i now) (for_slots (reset_round_slot now zm) q))" if "?P q" for zm q
    by (rule for_slots_invariant [of ?P, OF _ loop [OF that]]) (simp add: quiet)
  then show ?thesis by (simp add: reset_round_def Let_def clear_transients_def)
qed

lemma pulse_grace:
  assumes "room_human_count r = 0" "length (r_clients r) = 4"
  shows "map pulse (r_clients (begin_no_human_grace now r)) = map pulse (r_clients r)"
proof -
  have "room_human_count (r\<lparr>r_no_human_deadline_ms := t, r_shots := ss\<rparr>) = room_human_count r" for t ss
    by (simp add: room_human_count_def)
  then show ?thesis
    using assms by (simp add: begin_no_human_grace_def Let_def pulse_reset_round)
qed

lemma pulse_drop:
  assumes "length (r_clients r) = 4" "i < 4"
  shows "map pulse (r_clients (drop_client i now r)) = map pulse ((r_clients r)[i := client_free])"
  using assms pulse_grace by (simp add: drop_client_def Let_def) (simp add: reset_client_slot_def Let_def)

lemma pulse_nth:
  assumes "map pulse cs = map pulse ds" "j < length ds"
  shows "pulse (cs ! j) = pulse (ds ! j)"
  using assms by (metis length_map nth_map)

lemma pulse_reap_client:
  assumes "length (r_clients r) = 4" "i < 4" "j < 4"
  shows "length (r_clients (reap_client now i r)) = 4"
    "j \<noteq> i \<Longrightarrow> pulse (r_clients (reap_client now i r) ! j) = pulse (r_clients r ! j)"
    "in_use (r_clients (reap_client now i r) ! i) = client_stays now (r_clients r ! i)"
proof -
  note drop = pulse_drop [OF assms(1,2), of now]
  have len: "length (r_clients (drop_client i now r)) = 4"
    using arg_cong [OF drop, of length] assms(1) by simp
  then show "length (r_clients (reap_client now i r)) = 4"
    using assms(1) by (simp add: reap_client_def Let_def)
  show "j \<noteq> i \<Longrightarrow> pulse (r_clients (reap_client now i r) ! j) = pulse (r_clients r ! j)"
    using pulse_nth [OF drop, of j] assms by (simp add: reap_client_def Let_def)
  have "pulse (r_clients (drop_client i now r) ! i) = pulse client_free"
    using pulse_nth [OF drop, of i] assms by simp
  then have "\<not> in_use (r_clients (drop_client i now r) ! i)"
    using pulse_stays [of "r_clients (drop_client i now r) ! i" client_free] by (simp add: client_free_def)
  then show "in_use (r_clients (reap_client now i r) ! i) = client_stays now (r_clients r ! i)"
    by (auto simp: reap_client_def Let_def client_stays_def)
qed

text \<open>
  C32: Timeouts. After a reaping pass a slot is in use exactly if it was in use before, its
  connection had not failed, and either it completed HELLO and was heard from less than 15 s ago
  or it has not and connected less than 3 s ago; the surviving connections keep their handshake, their clocks and
  what is queued for them. Dropping one client, even the last human, reaps nobody else.
\<close>

theorem reaping_exact:
  assumes "length (r_clients r) = 4" "j < MAX_PLAYERS"
  shows "in_use (r_clients (reap_timed_out_clients now r) ! j) = client_stays now (r_clients r ! j) \<and>
    (client_stays now (r_clients r ! j) \<longrightarrow>
       pulse (r_clients (reap_timed_out_clients now r) ! j) = pulse (r_clients r ! j))"
proof -
  let ?P = "\<lambda>i (q :: room). length (r_clients q) = 4 \<and> (\<forall>j < 4.
      if i \<le> j then pulse (r_clients q ! j) = pulse (r_clients r ! j)
      else in_use (r_clients q ! j) = client_stays now (r_clients r ! j) \<and>
        (client_stays now (r_clients r ! j) \<longrightarrow> pulse (r_clients q ! j) = pulse (r_clients r ! j)))"
  have "?P MAX_PLAYERS (for_slots (reap_client now) r)"
  proof (rule for_slots_index [of ?P])
    show "?P 0 r" using assms(1) by simp
    fix i and q :: room
    assume i: "i < MAX_PLAYERS" and q: "?P i q"
    have same: "pulse (r_clients q ! i) = pulse (r_clients r ! i)" using q i by simp
    note reap = pulse_reap_client [of q i _ now, OF _ i]
    have use: "in_use (r_clients (reap_client now i q) ! i) = client_stays now (r_clients r ! i)"
      using reap(3) [of i] q i pulse_stays [OF same] by simp
    have stay: "pulse (r_clients (reap_client now i q) ! i) = pulse (r_clients r ! i)"
      if "client_stays now (r_clients r ! i)"
      using that same pulse_stays [OF same, of now]
      by (auto simp: reap_client_def Let_def client_stays_def)
    show "?P (Suc i) (reap_client now i q)"
    proof (intro conjI allI impI)
      show "length (r_clients (reap_client now i q)) = 4" using reap(1) [of i] q i by simp
      fix j :: nat assume j: "j < 4"
      show "if Suc i \<le> j then pulse (r_clients (reap_client now i q) ! j) = pulse (r_clients r ! j)
        else in_use (r_clients (reap_client now i q) ! j) = client_stays now (r_clients r ! j) \<and>
          (client_stays now (r_clients r ! j) \<longrightarrow>
             pulse (r_clients (reap_client now i q) ! j) = pulse (r_clients r ! j))"
      proof (cases "j = i")
        case True
        then show ?thesis using use stay by simp
      next
        case False
        have p: "pulse (r_clients (reap_client now i q) ! j) = pulse (r_clients q ! j)"
          using reap(2) [of j] q j False by simp
        show ?thesis
          using p q j False pulse_stays [OF p, of now] by (cases "i \<le> j") auto
      qed
    qed
  qed
  then show ?thesis using assms(2) by (simp add: reap_timed_out_clients_def)
qed

theorem reaping_exact_witness:
  "\<not> in_use (r_clients (reap_timed_out_clients 20000 demo_joined) ! 1)"
proof -
  have len: "length (r_clients demo_joined) = 4" using demo_joined_ok(1) by (simp add: base_ok_lengths)
  have "\<not> client_stays 20000 (r_clients demo_joined ! 1)"
    by (simp add: demo_joined_def upd_client_def modify_def demo_room_def client_stays_def client_alive_def
        client_free_def demo_link_def)
  then show ?thesis using reaping_exact [OF len, of 1 20000] by simp
qed

text \<open>What is left of the leaving client.\<close>

definition drain_of :: "client_slot \<Rightarrow> u64 \<Rightarrow> departing_connection" where
  "drain_of c now = \<lparr>dc_in_use = True, dc_fd = c_fd c, dc_tx = c_tx c, dc_frame_rx = c_frame_rx c,
     dc_leave_seq = leave_seq c, dc_deadline_ms = now + LEAVE_DRAIN_MS\<rparr>"

lemma detach_rkey:
  "rkey (detach_voluntary_client i now r) = rkey (start_departing (r_clients r ! i) now
     (reset_slot_gameplay i now (r\<lparr>r_clients := (r_clients r)[i := client_free]\<rparr>)))"
  by (simp add: detach_voluntary_client_def Let_def)

lemma start_departing_cases:
  obtains (drain) d where "d < 4" "\<not> dc_in_use (r_departing r ! d)"
      "start_departing c now r = r\<lparr>r_departing := (r_departing r)[d := drain_of c now]\<rparr>"
    | (full) "\<forall>d < 4. dc_in_use (r_departing r ! d)"
      "start_departing c now r = r\<lparr>r_env := c_close (c_fd c) (r_env r)\<rparr>"
proof (cases "find (\<lambda>i. \<not> dc_in_use (r_departing r ! i)) [0..<4]")
  case None
  then show thesis using full find_slot_None [OF None] by (simp add: start_departing_def)
next
  case (Some d)
  then show thesis using drain [of d] find_slot_Some [OF Some] by (simp add: start_departing_def drain_of_def)
qed

lemma detach_humans:
  assumes "length (r_clients r) = 4"
  shows "room_human_count (detach_voluntary_client i now r) =
    room_human_count (r\<lparr>r_clients := (r_clients r)[i := client_free]\<rparr>)"
proof -
  let ?r1 = "r\<lparr>r_clients := (r_clients r)[i := client_free]\<rparr>"
  let ?q = "start_departing (r_clients r ! i) now (reset_slot_gameplay i now ?r1)"
  have "length (r_clients ?q) = 4"
    by (rule start_departing_cases [of "reset_slot_gameplay i now ?r1" "r_clients r ! i" now]) (use assms in simp_all)
  then have "room_human_count (detach_voluntary_client i now r) = room_human_count ?q"
    by (rule rkey_humans [OF detach_rkey])
  moreover have "room_human_count (reset_slot_gameplay i now ?r1) = room_human_count ?r1"
    by (rule reset_slot_facts(1)) (use assms in simp)
  ultimately show ?thesis by (simp add: start_departing_facts)
qed

text \<open>
  C31: A voluntary LEAVE. The seat is empty at once. With no human left the room goes dormant
  immediately, vacated and without a grace period; otherwise the phase of the round does not
  change. The connection, with the acknowledgement queued on it, moves to a free drain record that expires
  one second later, and nothing is closed; only when all four drain records are busy is the
  descriptor closed, exactly once.
\<close>

theorem leave_frees_seat:
  assumes "server_ok r" "i < MAX_PLAYERS" "q = detach_voluntary_client i now r"
  shows "\<not> in_use (r_clients q ! i) \<and> c_fd (r_clients q ! i) = -1 \<and>
    (if room_human_count (r\<lparr>r_clients := (r_clients r)[i := client_free]\<rparr>) = 0
     then r_round_state q = ROUND_DORMANT \<and> r_no_human_deadline_ms q = 0 \<and> r_occupied_mask q = 0
     else r_round_state q = r_round_state r \<and> r_no_human_deadline_ms q = r_no_human_deadline_ms r) \<and>
    (if list_all dc_in_use (r_departing r)
     then e_closed (r_env q) = c_fd (r_clients r ! i) # e_closed (r_env r) \<and> r_departing q = r_departing r
     else e_closed (r_env q) = e_closed (r_env r) \<and>
       drain_of (r_clients r ! i) now \<in> set (r_departing q))"
proof -
  let ?c = "r_clients r ! i" and ?r1 = "r\<lparr>r_clients := (r_clients r)[i := client_free]\<rparr>"
  let ?p = "reset_slot_gameplay i now ?r1"
  let ?u = "start_departing ?c now ?p"
  note len = server_ok_lengths [OF assms(1)]
  have p: "r_departing ?p = r_departing r" "e_closed (r_env ?p) = e_closed (r_env r)"
    using rkey_reset_slot [of i now ?r1] by (simp_all add: rkey_def)
  have key: "rkey q = rkey ?u" unfolding assms(3) by (rule detach_rkey)
  then have k: "map in_use (r_clients q) = map in_use (r_clients ?u)" "map c_fd (r_clients q) = map c_fd (r_clients ?u)"
    "r_departing q = r_departing ?u" "e_closed (r_env q) = e_closed (r_env ?u)"
    by (simp_all add: rkey_def)
  have cs: "r_clients ?u = (r_clients r)[i := client_free]"
    by (rule start_departing_cases [of ?p ?c now]) simp_all
  have "map in_use (r_clients q) ! i = False" "map c_fd (r_clients q) ! i = -1"
    using k(1,2) cs len assms(2) by (simp_all add: map_update client_free_def)
  moreover have "length (r_clients q) = 4" using arg_cong [OF k(1), of length] cs len by simp
  ultimately have seat: "\<not> in_use (r_clients q ! i)" "c_fd (r_clients q ! i) = -1"
    using assms(2) by simp_all
  have humans: "room_human_count ?u = room_human_count ?r1"
    using len by (simp add: start_departing_facts reset_slot_facts)
  have state: "r_round_state ?u = r_round_state r" "r_no_human_deadline_ms ?u = r_no_human_deadline_ms r"
    using len by (simp_all add: start_departing_facts reset_slot_facts)
  have q: "q = (if room_human_count ?u = 0 then enter_dormant now ?u else ?u)"
    unfolding assms(3) detach_voluntary_client_def Let_def ..
  have "if room_human_count ?r1 = 0
     then r_round_state q = ROUND_DORMANT \<and> r_no_human_deadline_ms q = 0 \<and> r_occupied_mask q = 0
     else r_round_state q = r_round_state r \<and> r_no_human_deadline_ms q = r_no_human_deadline_ms r"
    using q humans state by simp
  moreover have "if list_all dc_in_use (r_departing r)
     then e_closed (r_env q) = c_fd ?c # e_closed (r_env r) \<and> r_departing q = r_departing r
     else e_closed (r_env q) = e_closed (r_env r) \<and> drain_of ?c now \<in> set (r_departing q)"
  proof (rule start_departing_cases [of ?p ?c now])
    fix d assume d: "d < 4" "\<not> dc_in_use (r_departing ?p ! d)"
      "?u = ?p\<lparr>r_departing := (r_departing ?p)[d := drain_of ?c now]\<rparr>"
    have "\<not> list_all dc_in_use (r_departing r)" using d(1,2) p len by (auto simp: list_all_length)
    moreover have "drain_of ?c now \<in> set ((r_departing r)[d := drain_of ?c now])"
      using d(1) len by (simp add: set_update_memI)
    ultimately show ?thesis using k(3,4) d(3) p by simp
  next
    assume f: "\<forall>d < 4. dc_in_use (r_departing ?p ! d)" "?u = ?p\<lparr>r_env := c_close (c_fd ?c) (r_env ?p)\<rparr>"
    have "list_all dc_in_use (r_departing r)" using f(1) p len by (simp add: list_all_length)
    then show ?thesis using k(3,4) f(2) p by simp
  qed
  ultimately show ?thesis using seat by blast
qed

lemma demo_joined_server_ok: "server_ok demo_joined"
  using demo_joined_sound(1)
  by (simp add: server_ok_def drains_ok_def demo_joined_def upd_client_def demo_room_def list_all_iff drain_free_ok)

theorem leave_frees_seat_witness:
  "\<not> in_use (r_clients (detach_voluntary_client 1 7 demo_joined) ! 1)"
  using leave_frees_seat [OF demo_joined_server_ok _ refl, of 1 7] by simp

end
