(* ===== verification/Server.thy ===== *)
theory Server
  imports Session
begin

text \<open>
  The server loop of \<^verbatim>\<open>server/main.c\<close>: creating and destroying a room, the timers, the tick, the
  poll events of clients, leaving connections and the listener, and one pass over a room. Lemmas:
  every event keeps the room sound and its descriptors accounted for, whatever the sockets do.
\<close>

section \<open>Creating and destroying a room\<close>

text \<open>The room after \<open>memset\<close>, the configuration and the layout, before anyone is placed.\<close>

definition empty_room :: "room_config \<Rightarrow> bytes \<Rightarrow> env \<Rightarrow> room" where
  "empty_room cfg bits e = \<lparr>r_config = cfg, r_listener_fd = -1,
     r_clients = replicate MAX_PLAYERS client_free, r_departing = replicate MAX_DEPARTING departing_free,
     r_players = replicate MAX_PLAYERS player_zero, r_shots = replicate MAX_PLAYERS shot_zero,
     r_brick_bits = bits, r_brick_reset_bits = bits, r_last_input_ms = replicate MAX_PLAYERS 0,
     r_global_transport = counters_zero, r_brick_echo = replicate BRICK_ECHO_MAX brick_echo_zero,
     r_respawn_echo = replicate MAX_PLAYERS respawn_echo_zero, r_occupied_mask = 0, r_seq = 0,
     r_tick_ms = 0, r_next_tick = 0, r_last_transport_summary_ms = 0, r_last_brick_resync_ms = 0,
     r_last_name_rotate_ms = 0, r_last_seat_ms = 0, r_last_seat_mask = 0, r_name_rotate = 0,
     r_round_id = 0, r_round_state = ROUND_PLAYING, r_historical_zombie_mask = 0,
     r_final_active_mask = 0, r_final_zombie_mask = 0, r_winner_pid = 0,
     r_final_scores = replicate MAX_PLAYERS 0,
     r_frozen_names = replicate MAX_PLAYERS (replicate NAME_LEN 0), r_frozen_match = replicate 43 0,
     r_intermission_deadline_ms = 0, r_no_human_deadline_ms = 0, r_env = e\<rparr>"

definition init_slot :: "u64 \<Rightarrow> nat \<Rightarrow> room \<Rightarrow> room" where
  "init_slot now i r =
     reset_zombie_schedule i now (upd_player i (\<lambda>p. p\<lparr>p_joy := 0x0F\<rparr>) (place_actor i r))"

text \<open>
  \<open>file\<close> is the layout file as \<open>load_brick_layout\<close> finds it and \<open>listener\<close> what
  \<open>create_listener\<close> returned. The flag is the return value 0.
\<close>

definition room_tick_ms :: "room_config \<Rightarrow> u64" where
  "room_tick_ms cfg = (let t = 1000 div of_int (cfg_tick_hz cfg) :: u64 in if t = 0 then 1 else t)"

definition init_room :: "room_config \<Rightarrow> string option \<Rightarrow> int \<Rightarrow> u64 \<Rightarrow> env \<Rightarrow> bool \<times> room" where
  "init_room cfg file listener now e =
     (let bits = (case load_brick_layout file of Some b \<Rightarrow> b | None \<Rightarrow> replicate 48 0);
          r1 = for_slots (init_slot now) (empty_room cfg bits e);
          r2 = r1\<lparr>r_tick_ms := room_tick_ms cfg, r_next_tick := now, r_last_transport_summary_ms := now,
                  r_last_brick_resync_ms := now, r_last_name_rotate_ms := now, r_last_seat_mask := 0xFF,
                  r_round_id := 1, r_round_state := ROUND_DORMANT\<rparr>;
          r3 = r2\<lparr>r_historical_zombie_mask := r_historical_zombie_mask r2 OR mask_bits (room_zombies r2),
                  r_listener_fd := listener\<rparr> in
      (listener \<ge> 0, r3))"

definition destroy_slot :: "nat \<Rightarrow> room \<Rightarrow> room" where
  "destroy_slot i r = reset_departing i (reset_client_slot i r)"

definition destroy_room :: "room \<Rightarrow> room" where
  "destroy_room r =
     (let r1 = for_slots destroy_slot r in
      if r_listener_fd r1 \<ge> 0
      then r1\<lparr>r_env := c_close (r_listener_fd r1) (r_env r1), r_listener_fd := -1\<rparr>
      else r1)"

section \<open>Timers\<close>

definition rotate_names :: "u64 \<Rightarrow> room \<Rightarrow> room" where
  "rotate_names now r =
     (if now - r_last_name_rotate_ms r \<ge> NAME_ROTATE_MS
      then broadcast_next_name (r\<lparr>r_last_name_rotate_ms := now\<rparr>) else r)"

definition resync_bricks :: "u64 \<Rightarrow> room \<Rightarrow> room" where
  "resync_bricks now r =
     (if now - r_last_brick_resync_ms r \<ge> BRICK_RESYNC_MS
      then let r1 = r\<lparr>r_last_brick_resync_ms := now\<rparr> in
        broadcast (build_brick_full (r_seq r1) (r_brick_bits r1) (r_round_id r1)) (next_seq r1)
      else r)"

definition repeat_seats :: "u64 \<Rightarrow> room \<Rightarrow> room" where
  "repeat_seats now r =
     (let seat_mask = compute_seat_mask (r_clients r) in
      if seat_mask \<noteq> r_last_seat_mask r \<or> now - r_last_seat_ms r \<ge> SEAT_REPEAT_MS
      then let r1 = r\<lparr>r_last_seat_mask := seat_mask, r_last_seat_ms := now\<rparr> in
        broadcast (build_seats (r_seq r1) seat_mask) (next_seq r1)
      else r)"

definition note_summary :: "bool \<Rightarrow> u64 \<Rightarrow> room \<Rightarrow> room" where
  "note_summary debug now r =
     (if debug \<and> now - r_last_transport_summary_ms r \<ge> TRANSPORT_SUMMARY_MS
      then r\<lparr>r_last_transport_summary_ms := now\<rparr> else r)"

text \<open>The first part decides the phase, the second talks to the clients.\<close>

definition phase_timers :: "u64 \<Rightarrow> room \<Rightarrow> room" where
  "phase_timers now r =
     (let r1 = (if r_no_human_deadline_ms r \<noteq> 0 \<and> now \<ge> r_no_human_deadline_ms r
                then enter_dormant now r else r) in
      if r_round_state r1 = ROUND_OVER \<and> now \<ge> r_intermission_deadline_ms r1
      then reset_round now r1 else r1)"

definition service_room_timers :: "bool \<Rightarrow> u64 \<Rightarrow> room \<Rightarrow> room" where
  "service_room_timers debug now r =
     (let r1 = reap_departing_connections now (reap_timed_out_clients now r);
          r2 = phase_timers now r1 in
      if r_round_state r2 = ROUND_DORMANT then r2
      else note_summary debug now (repeat_seats now (resync_bricks now
             (reliable_tick now (rotate_names now r2)))))"

section \<open>The tick\<close>

definition snapshot_flags :: "nat \<Rightarrow> u8 \<Rightarrow> client_slot \<Rightarrow> u8" where
  "snapshot_flags i zombie_bits c =
     (let b = 0x01 OR push_bit 1 (of_nat i) OR push_bit 3 (zombie_bits AND 0x0F) in
      if have_applied_input_seq c then b OR 0x80 else b)"

definition snapshot_for :: "u8 \<Rightarrow> u8 \<Rightarrow> nat \<Rightarrow> room \<Rightarrow> bytes" where
  "snapshot_for seq zombie_bits i r =
     (let c = r_clients r ! i in
      (build_snapshot seq (r_players r) (applied_input_seq c) (r_round_id r))
        [2 := snapshot_flags i zombie_bits c])"

definition snapshot_step :: "u8 \<Rightarrow> u8 \<Rightarrow> nat \<Rightarrow> room \<Rightarrow> room" where
  "snapshot_step seq zombie_bits i r =
     (if \<not> in_use (r_clients r ! i) \<or> \<not> handshake_ok (r_clients r ! i) then r
      else send_to i (snapshot_for seq zombie_bits i r) r)"

text \<open>The loop that catches up at most \<open>n\<close> ticks, and the deadline arithmetic.\<close>

fun catch_up :: "nat \<Rightarrow> u64 \<Rightarrow> u64 \<Rightarrow> u64 \<Rightarrow> u64" where
  "catch_up 0 now tick_ms next_tick = next_tick"
| "catch_up (Suc n) now tick_ms next_tick =
     (if next_tick \<le> now then catch_up n now tick_ms (next_tick + tick_ms) else next_tick)"

definition next_deadline :: "u64 \<Rightarrow> u64 \<Rightarrow> u64 \<Rightarrow> u64" where
  "next_deadline now tick_deadline tick_ms =
     (let next_tick = tick_deadline + tick_ms in
      if next_tick \<le> now
      then let caught = catch_up 4 now tick_ms next_tick in
        if caught \<le> now then now + tick_ms else caught
      else next_tick)"

definition advance_game :: "u64 \<Rightarrow> room \<Rightarrow> room" where
  "advance_game now r =
     (if r_round_state r = ROUND_PLAYING
      then step_players (apply_queued_input now (flush_respawn_echo (flush_brick_echo r)))
      else r)"

definition tick_room :: "u64 \<Rightarrow> room \<Rightarrow> room" where
  "tick_room now r =
     (let tick_deadline = r_next_tick r;
          r1 = advance_game now r;
          snapshot_seq = r_seq r1;
          r2 = next_seq r1;
          zombie_bits = mask_bits (room_zombies r2);
          r3 = (if r_round_state r2 = ROUND_PLAYING
                then r2\<lparr>r_historical_zombie_mask := r_historical_zombie_mask r2 OR zombie_bits\<rparr> else r2);
          r4 = for_slots (snapshot_step snapshot_seq zombie_bits) r3 in
      r4\<lparr>r_next_tick := next_deadline now tick_deadline (r_tick_ms r4)\<rparr>)"

section \<open>Poll events\<close>

text \<open>The bits of \<open>revents\<close>, and what \<open>recv\<close> answers: bytes (none at the end of the stream), a
  retryable error, or another error.\<close>

record revents =
  pollin :: bool
  pollhup :: bool
  pollout :: bool
  pollerr :: bool
  pollnval :: bool

datatype recv_outcome = RecvBytes bytes | RecvRetry | RecvError

definition no_revents :: "revents \<Rightarrow> bool" where
  "no_revents ev \<longleftrightarrow> \<not> pollin ev \<and> \<not> pollhup ev \<and> \<not> pollout ev \<and> \<not> pollerr ev \<and> \<not> pollnval ev"

text \<open>The \<open>recv\<close> of a client; the flag is \<open>failed\<close>.\<close>

definition client_input :: "nat \<Rightarrow> recv_outcome \<Rightarrow> u64 \<Rightarrow> room \<Rightarrow> bool \<times> room" where
  "client_input i got now r = (case got of
      RecvBytes bytes \<Rightarrow>
        (let buf = take 256 bytes in
         if buf = [] then (True, r)
         else (False, process_client_bytes i buf now
                 (note_both i (transport_stats_note_raw_bytes (length buf))
                   (upd_client i (\<lambda>c. c\<lparr>last_seen_ms := now\<rparr>) r))))
    | RecvRetry \<Rightarrow> (False, r)
    | RecvError \<Rightarrow> (True, r))"

definition flush_client :: "client_slot \<Rightarrow> env \<Rightarrow> client_slot \<times> env" where
  "flush_client c e = (let (ok, tx, e1) = tcp_tx_flush (c_fd c) (c_tx c) e in (c\<lparr>c_tx := tx\<rparr>, e1))"

definition flush_fails :: "nat \<Rightarrow> room \<Rightarrow> bool" where
  "flush_fails i r \<longleftrightarrow>
     \<not> fst (tcp_tx_flush (c_fd (r_clients r ! i)) (c_tx (r_clients r ! i)) (r_env r))"

text \<open>\<open>fd\<close> is the descriptor recorded when the poll set was built.\<close>

definition serve_client :: "nat \<Rightarrow> int \<Rightarrow> revents \<Rightarrow> recv_outcome \<Rightarrow> u64 \<Rightarrow> room \<Rightarrow> room" where
  "serve_client i fd ev got now r =
     (if no_revents ev \<or> \<not> in_use (r_clients r ! i) \<or> c_fd (r_clients r ! i) \<noteq> fd then r
      else let failed = (pollerr ev \<or> pollnval ev);
               (failed1, r1) = (if \<not> failed \<and> (pollin ev \<or> pollhup ev)
                                then client_input i got now r else (failed, r)) in
        if leave_requested (r_clients r1 ! i) then detach_voluntary_client i now r1
        else let (failed2, r2) = (if \<not> failed1 \<and> pollout ev
                                  then (flush_fails i r1, on_client i flush_client r1)
                                  else (failed1, r1)) in
          if failed2 \<or> tx_failed (c_tx (r_clients r2 ! i)) then drop_client i now r2 else r2)"

definition departing_input :: "recv_outcome \<Rightarrow> departing_connection \<times> env \<Rightarrow> bool \<times> departing_connection \<times> env" where
  "departing_input got s = (case got of
      RecvBytes bytes \<Rightarrow>
        (let buf = take 64 bytes in
         if buf = [] then (True, s) else (False, process_departing_bytes buf s))
    | RecvRetry \<Rightarrow> (False, s)
    | RecvError \<Rightarrow> (True, s))"

definition serve_departing :: "nat \<Rightarrow> int \<Rightarrow> revents \<Rightarrow> recv_outcome \<Rightarrow> room \<Rightarrow> room" where
  "serve_departing i fd ev got r =
     (let d = r_departing r ! i in
      if no_revents ev \<or> \<not> dc_in_use d \<or> dc_fd d \<noteq> fd then r
      else let failed = (pollerr ev \<or> pollnval ev);
               (failed1, d1, e1) = (if \<not> failed \<and> (pollin ev \<or> pollhup ev)
                                    then departing_input got (d, r_env r) else (failed, d, r_env r));
               (failed2, d2, e2) = (if \<not> failed1 \<and> pollout ev
                                    then (let (ok, tx, e) = tcp_tx_flush (dc_fd d1) (dc_tx d1) e1 in
                                          (\<not> ok, d1\<lparr>dc_tx := tx\<rparr>, e))
                                    else (failed1, d1, e1));
               r1 = r\<lparr>r_departing := (r_departing r)[i := d2], r_env := e2\<rparr> in
        if failed2 \<or> departing_done d2 then reset_departing i r1 else r1)"

section \<open>One pass\<close>

datatype room_event =
    Reap u64
  | ClientReady nat int revents recv_outcome u64
  | DepartingReady nat int revents recv_outcome
  | Incoming int bool u64
  | Timers bool u64
  | Tick u64

text \<open>Poll references only name existing slots.\<close>

fun room_step :: "room_event \<Rightarrow> room \<Rightarrow> room" where
  "room_step (Reap now) r = reap_timed_out_clients now r"
| "room_step (ClientReady i fd ev got now) r = (if i < MAX_PLAYERS then serve_client i fd ev got now r else r)"
| "room_step (DepartingReady i fd ev got) r = (if i < MAX_DEPARTING then serve_departing i fd ev got r else r)"
| "room_step (Incoming fd configured now) r = accept_room_client fd configured now r"
| "room_step (Timers debug now) r = service_room_timers debug now r"
| "room_step (Tick now) r = (if now \<ge> r_next_tick r then tick_room now r else r)"

text \<open>What the outside world does in one pass of the loop in \<open>main\<close>, as far as this room sees it.\<close>

record pass_input =
  pi_debug :: bool
  pi_start :: u64
  pi_clients :: "(revents \<times> recv_outcome) list"
  pi_departing :: "(revents \<times> recv_outcome) list"
  pi_incoming :: "(int \<times> bool) option"
  pi_now :: u64
  pi_later :: u64

text \<open>The events of a pass, with the descriptors recorded for the poll.\<close>

definition client_events :: "pass_input \<Rightarrow> room \<Rightarrow> room_event list" where
  "client_events inp r =
     map (\<lambda>i. let c = r_clients r ! i in
        ClientReady i (if in_use c then c_fd c else -1) (fst (pi_clients inp ! i)) (snd (pi_clients inp ! i))
          (pi_now inp)) [0..<MAX_PLAYERS]"

definition departing_events :: "pass_input \<Rightarrow> room \<Rightarrow> room_event list" where
  "departing_events inp r =
     map (\<lambda>i. let d = r_departing r ! i in
        DepartingReady i (if dc_in_use d then dc_fd d else -1) (fst (pi_departing inp ! i))
          (snd (pi_departing inp ! i))) [0..<MAX_DEPARTING]"

definition incoming_events :: "pass_input \<Rightarrow> room_event list" where
  "incoming_events inp =
     (case pi_incoming inp of Some (fd, configured) \<Rightarrow> [Incoming fd configured (pi_now inp)] | None \<Rightarrow> [])"

definition pass_events :: "pass_input \<Rightarrow> room \<Rightarrow> room_event list" where
  "pass_events inp r =
     client_events inp r @ departing_events inp r @ incoming_events inp @
     [Timers (pi_debug inp) (pi_later inp), Tick (pi_later inp)]"

definition room_pass :: "pass_input \<Rightarrow> room \<Rightarrow> room" where
  "room_pass inp r =
     (let r1 = room_step (Reap (pi_start inp)) r in fold room_step (pass_events inp r1) r1)"

text \<open>How long \<open>poll\<close> may wait, in milliseconds.\<close>

definition poll_timeout :: "u64 \<Rightarrow> u64 list \<Rightarrow> nat" where
  "poll_timeout now next_ticks =
     (let earliest = fold min (tl next_ticks) (hd next_ticks);
          wait = (if earliest > now then earliest - now else 0) in
      if wait > 1000 then 1000 else unat wait)"

section \<open>The tick keeps the room sound\<close>

lemma apply_input_keeps:
  "in_use (fst (apply_input now c)) = in_use c" "handshake_ok (fst (apply_input now c)) = handshake_ok c"
  "leave_requested (fst (apply_input now c)) = leave_requested c" "c_fd (fst (apply_input now c)) = c_fd c"
  "c_name (fst (apply_input now c)) = c_name c"
  by (simp_all add: apply_input_def input_pop_def Let_def)

lemma seat_ok_apply: "seat_ok c \<Longrightarrow> seat_ok (fst (apply_input now c))"
  using input_ok_apply(1) [of c now] unfolding seat_ok_def apply_input_keeps by blast

lemma gameplay_apply_step: "gameplay r (apply_input_step now i r)" if "i < 4"
proof -
  obtain c joy where a: "apply_input now (r_clients r ! i) = (c, joy)" by force
  let ?q = "upd_client i (\<lambda>_. c) r"
  have client: "gameplay r ?q"
  proof (rule gameplay_upd_client)
    assume "seat_ok (r_clients r ! i)" "link_ok (r_clients r ! i)"
    then show "seat_ok c \<and> link_ok c"
      using seat_ok_apply [of "r_clients r ! i" now] link_ok_apply_input [of now "r_clients r ! i"] a by simp
  qed (use apply_input_keeps [of now "r_clients r ! i"] a in simp_all)
  have legal: "joy \<in> joy_bytes" if "base_ok r"
    using base_ok_seat [OF that \<open>i < 4\<close>] input_ok_apply(2) [of "r_clients r ! i" now] a
    by (simp add: seat_ok_def)
  have "gameplay r (upd_player i (\<lambda>p. p\<lparr>p_joy := joy\<rparr>) ?q)"
  proof (rule gameplay_rround)
    show base: "base_ok (upd_player i (\<lambda>p. p\<lparr>p_joy := joy\<rparr>) ?q)" if "base_ok r"
      using client that legal [OF that]
      by (intro base_ok_upd_player) (simp_all add: gameplay_def player_ok_def)
    show "fit (upd_player i (\<lambda>p. p\<lparr>p_joy := joy\<rparr>) ?q)" if f: "fit r"
    proof -
      have "fit ?q" using client f by (simp add: gameplay_def)
      then have "round_ok (upd_player i (\<lambda>p. p\<lparr>p_joy := joy\<rparr>) ?q)"
        by (intro round_ok_upd_player) (simp_all add: fit_def)
      then show ?thesis using base [OF fit_base [OF f]] \<open>fit ?q\<close> by (simp add: fit_def)
    qed
    show "rkey (upd_player i (\<lambda>p. p\<lparr>p_joy := joy\<rparr>) ?q) = rkey r"
      using client by (simp add: gameplay_def)
  qed simp
  then show ?thesis by (simp add: apply_input_step_def a)
qed

lemma gameplay_for_slots:
  assumes "\<And>i r. i < 4 \<Longrightarrow> gameplay r (f i r)"
  shows "gameplay r (for_slots f r)"
  by (rule for_slots_invariant [of "gameplay r"]) (use assms gameplay_trans in \<open>blast intro: gameplay_refl\<close>)+

lemma gameplay_advance: "gameplay r (advance_game now r)"
proof -
  have "gameplay r (flush_respawn_echo (flush_brick_echo r))"
    by (rule gameplay_trans [of _ "flush_brick_echo r"]; rule gameplay_rcore; simp)
  moreover have "gameplay q (apply_queued_input now q)" for q
    unfolding apply_queued_input_def by (rule gameplay_for_slots) (rule gameplay_apply_step)
  ultimately have "gameplay r (step_players (apply_queued_input now (flush_respawn_echo (flush_brick_echo r))))"
    using gameplay_trans gameplay_step_players by blast
  then show ?thesis by (simp add: advance_game_def)
qed

text \<open>Bookkeeping fields that none of the invariants read.\<close>

lemma gameplay_clockwork:
  "gameplay r (r\<lparr>r_next_tick := t\<rparr>)" "gameplay r (r\<lparr>r_last_name_rotate_ms := t\<rparr>)"
  "gameplay r (r\<lparr>r_last_brick_resync_ms := t\<rparr>)" "gameplay r (r\<lparr>r_last_seat_mask := m, r_last_seat_ms := t\<rparr>)"
  "gameplay r (r\<lparr>r_last_transport_summary_ms := t\<rparr>)"
  by (rule gameplay_rround; simp add: fit_def rkey_def rround_def shots_open_def)+

lemma gameplay_historical:
  assumes "r_round_state r = ROUND_PLAYING"
  shows "gameplay r (r\<lparr>r_historical_zombie_mask := m\<rparr>)"
  by (rule gameplay_rround) (use assms in \<open>simp_all add: fit_def round_ok_historical rkey_def\<close>)

lemma gameplay_snapshot_step: "i < 4 \<Longrightarrow> gameplay r (snapshot_step seq zb i r)"
  by (simp add: snapshot_step_def gameplay_send_to)

lemma gameplay_tick_room: "gameplay r (tick_room now r)"
proof -
  let ?r2 = "next_seq (advance_game now r)"
  define r3 where "r3 = (if r_round_state ?r2 = ROUND_PLAYING
      then ?r2\<lparr>r_historical_zombie_mask := r_historical_zombie_mask ?r2 OR mask_bits (room_zombies ?r2)\<rparr> else ?r2)"
  have one: "gameplay r ?r2"
    by (rule gameplay_trans [OF gameplay_advance gameplay_broadcast(2)])
  have "gameplay ?r2 r3" by (simp add: r3_def gameplay_historical)
  moreover have "gameplay r3 (for_slots (snapshot_step sq zb) r3)" for sq zb
    by (rule gameplay_for_slots) (rule gameplay_snapshot_step)
  ultimately have "gameplay r ((for_slots (snapshot_step sq zb) r3)\<lparr>r_next_tick := t\<rparr>)" for sq zb t
    using one gameplay_trans gameplay_clockwork(1) by meson
  then show ?thesis unfolding tick_room_def Let_def r3_def by simp
qed

section \<open>The timers keep the room sound\<close>

lemma gameplay_rotate: "gameplay r (rotate_names now r)"
proof -
  have name: "gameplay q (broadcast_next_name q)" for q by (rule gameplay_rcore) simp_all
  show ?thesis unfolding rotate_names_def
    by (rule gameplay_if [OF gameplay_trans [OF gameplay_clockwork(2) name] gameplay_refl])
qed

lemma gameplay_resync: "gameplay r (resync_bricks now r)"
  unfolding resync_bricks_def Let_def
  by (rule gameplay_if [OF gameplay_trans [OF gameplay_clockwork(3)
        gameplay_trans [OF gameplay_broadcast(2) gameplay_broadcast(1)]] gameplay_refl])

lemma gameplay_repeat_seats: "gameplay r (repeat_seats now r)"
  unfolding repeat_seats_def Let_def
  by (rule gameplay_if [OF gameplay_trans [OF gameplay_clockwork(4)
        gameplay_trans [OF gameplay_broadcast(2) gameplay_broadcast(1)]] gameplay_refl])

lemma gameplay_reliable_tick: "gameplay r (reliable_tick now r)"
  by (rule gameplay_rcore) simp_all

lemma gameplay_summary: "gameplay r (note_summary debug now r)"
  by (simp add: note_summary_def gameplay_clockwork(5))

lemma keeps_phase_timers: "keeps r (phase_timers now r)"
proof -
  define r1 where "r1 = (if r_no_human_deadline_ms r \<noteq> 0 \<and> now \<ge> r_no_human_deadline_ms r
      then enter_dormant now r else r)"
  have "rkey (phase_timers now r) = rkey r" by (simp add: phase_timers_def Let_def)
  note led = ledger_rkey [OF this] closed_rkey [OF this]
  show ?thesis unfolding keeps_def
  proof (intro impI)
    assume ok: "server_ok r"
    have "sound (enter_dormant now r)" if "r_no_human_deadline_ms r \<noteq> 0"
    proof (rule sound_enter_dormant)
      show "fit r" using ok by (simp add: server_ok_def)
      show "room_human_count r = 0" using ok that by (simp add: server_ok_def sound_def phase_ok_def)
    qed
    then have "sound r1" using ok by (simp add: r1_def server_ok_def)
    then have "sound (phase_timers now r)"
      using sound_reset_round [of r1 now] unfolding phase_timers_def Let_def r1_def by simp
    then show "server_ok (phase_timers now r) \<and> ledger (phase_timers now r) = ledger r \<and>
        closed_fds r \<subseteq># closed_fds (phase_timers now r)"
      using ok led by (simp add: server_ok_def)
  qed
qed

lemma keeps_timers: "keeps r (service_room_timers debug now r)"
proof -
  let ?r2 = "phase_timers now (reap_departing_connections now (reap_timed_out_clients now r))"
  have "keeps r ?r2" using keeps_trans keeps_reap keeps_reap_departing keeps_phase_timers by meson
  moreover have "gameplay q (note_summary debug now (repeat_seats now (resync_bricks now
      (reliable_tick now (rotate_names now q)))))" for q
    using gameplay_trans gameplay_rotate gameplay_reliable_tick gameplay_resync gameplay_repeat_seats
      gameplay_summary by meson
  ultimately show ?thesis
    using keeps_trans [OF _ keeps_gameplay] by (simp add: service_room_timers_def Let_def)
qed

section \<open>The poll events keep the room sound\<close>

text \<open>What reading from a client may do: everything but its descriptors and its place.\<close>

lemma used_server:
  assumes "server_ok r" "sound q" "used q = used r"
  shows "server_ok q \<and> ledger q = ledger r \<and> closed_fds q = closed_fds r"
  using assms ledger_used [OF assms(3)] closed_used [OF assms(3)] by (simp add: server_ok_def)

lemma client_input_sound:
  assumes "sound r" "i < 4" "in_use (r_clients r ! i)"
  shows "sound (snd (client_input i got now r)) \<and> used (snd (client_input i got now r)) = used r"
proof -
  let ?r1 = "upd_client i (\<lambda>c. c\<lparr>last_seen_ms := now\<rparr>) r"
  have one: "gameplay r (note_both i f ?r1)" for f
    by (rule gameplay_trans [OF gameplay_rx(3) gameplay_note_both])
  have len: "i < length (r_clients r)" using assms(1,2) base_ok_lengths(1) [of r] by simp
  have "sound (process_client_bytes i buf now (note_both i f ?r1)) \<and>
      used (process_client_bytes i buf now (note_both i f ?r1)) = used r" for buf f
  proof -
    have s: "sound (note_both i f ?r1)" "used (note_both i f ?r1) = used r"
      using one sound_gameplay used_gameplay assms(1) by blast+
    have "in_use (r_clients (note_both i f ?r1) ! i)" using used_nth [OF s(2) len] assms(3) by simp
    from bytes_sound [OF s(1) assms(2) this] show ?thesis using s(2) by simp
  qed
  then show ?thesis using assms(1)
    by (cases got) (simp_all add: client_input_def Let_def)
qed

lemma core_flush_client [simp]: "core (fst (flush_client c e)) = core c"
  by (simp add: flush_client_def split_beta)

lemma gameplay_flush_client: "i < 4 \<Longrightarrow> gameplay r (on_client i flush_client r)"
proof (rule gameplay_on_client [where u = False])
  fix c e assume ok: "link_ok c"
  then have "tx_ok (fst (snd (tcp_tx_flush (c_fd c) (c_tx c) e)))"
    by (intro flush_tx_ok) (simp add: link_ok_def)
  from link_ok_tx [OF ok this] show "link_ok (fst (flush_client c e))"
    by (simp add: flush_client_def split_beta)
qed (simp_all add: flush_client_def split_beta)

lemma keeps_serve_client:
  assumes "i < 4"
  shows "keeps r (serve_client i fd ev got now r)"
proof (cases "no_revents ev \<or> \<not> in_use (r_clients r ! i) \<or> c_fd (r_clients r ! i) \<noteq> fd")
  case True
  then show ?thesis by (simp add: serve_client_def)
next
  case False
  then have use: "in_use (r_clients r ! i)" by simp
  let ?failed = "pollerr ev \<or> pollnval ev"
  obtain failed1 r1 where r1: "(if \<not> ?failed \<and> (pollin ev \<or> pollhup ev) then client_input i got now r
      else (?failed, r)) = (failed1, r1)" by force
  obtain failed2 r2 where r2: "(if \<not> failed1 \<and> pollout ev
      then (flush_fails i r1, on_client i flush_client r1) else (failed1, r1)) = (failed2, r2)" by force
  have eq: "serve_client i fd ev got now r =
      (if leave_requested (r_clients r1 ! i) then detach_voluntary_client i now r1
       else if failed2 \<or> tx_failed (c_tx (r_clients r2 ! i)) then drop_client i now r2 else r2)"
    using False r1 r2 by (simp add: serve_client_def Let_def)
  show ?thesis unfolding keeps_def
  proof (intro impI)
    assume ok: "server_ok r"
    have read: "sound r1" "used r1 = used r"
      using client_input_sound [of r i got now] ok assms use r1
      by (auto simp: server_ok_def split: if_splits)
    have k1: "server_ok r1 \<and> ledger r1 = ledger r \<and> closed_fds r1 = closed_fds r" by (rule used_server [OF ok read])
    have use1: "in_use (r_clients r1 ! i)"
      using used_nth [OF read(2), of i] server_ok_lengths(1) [OF ok] assms use by simp
    have "gameplay r1 r2" using r2 gameplay_flush_client [OF assms, of r1] by (auto split: if_splits)
    then have "keeps r1 r2" by (rule keeps_gameplay)
    then have "keeps r1 (serve_client i fd ev got now r)"
      using keeps_detach [OF assms use1, of now] keeps_trans [OF _ keeps_drop [OF assms, of r2 now]]
      by (simp add: eq)
    then show "server_ok (serve_client i fd ev got now r) \<and> ledger (serve_client i fd ev got now r) = ledger r \<and>
        closed_fds r \<subseteq># closed_fds (serve_client i fd ev got now r)"
      using k1 by (simp add: keeps_def)
  qed
qed

lemma keeps_set_departing:
  assumes "i < 4" "server_ok r" "drain_ok d" "dc_fd d = dc_fd (r_departing r ! i)" "e_closed e = e_closed (r_env r)"
  shows "server_ok (r\<lparr>r_departing := (r_departing r)[i := d], r_env := e\<rparr>)"
    "ledger (r\<lparr>r_departing := (r_departing r)[i := d], r_env := e\<rparr>) = ledger r"
    "closed_fds (r\<lparr>r_departing := (r_departing r)[i := d], r_env := e\<rparr>) = closed_fds r"
proof -
  show "closed_fds (r\<lparr>r_departing := (r_departing r)[i := d], r_env := e\<rparr>) = closed_fds r"
    using assms(5) by (simp add: closed_fds_def)
  have i: "i < length (r_departing r)" using server_ok_lengths [OF assms(2)] assms(1) by simp
  have "drains_ok (r\<lparr>r_departing := (r_departing r)[i := d]\<rparr>)"
    using assms(2,3) by (simp add: server_ok_def drains_ok_def list_all_update)
  then show "server_ok (r\<lparr>r_departing := (r_departing r)[i := d], r_env := e\<rparr>)"
    using assms(2) by (simp add: server_ok_def sound_departing)
  have "ledger (r\<lparr>r_departing := (r_departing r)[i := d]\<rparr>) = ledger r"
    using ledger_drain_swap [OF i, of d] assms(4) by simp
  then show "ledger (r\<lparr>r_departing := (r_departing r)[i := d], r_env := e\<rparr>) = ledger r"
    using assms(5) by (simp add: ledger_def open_fds_def)
qed

lemma departing_input_keeps:
  assumes "departing_input got (d, e) = (failed, d', e')" "drain_ok d"
  shows "drain_ok d' \<and> dc_fd d' = dc_fd d \<and> e_closed e' = e_closed e"
  using assms departing_bytes_keep
  by (cases got) (auto simp: departing_input_def Let_def split: if_splits)

lemma departing_flush_keeps:
  assumes "tcp_tx_flush (dc_fd d) (dc_tx d) e = (ok, tx, e')" "drain_ok d"
  shows "drain_ok (d\<lparr>dc_tx := tx\<rparr>) \<and> e_closed e' = e_closed e"
  using tcp_tx_flush_spec(1,2) [OF assms(1)] assms(2) by (simp add: drain_ok_def same_outside_def)

lemma keeps_serve_departing:
  assumes "i < 4"
  shows "keeps r (serve_departing i fd ev got r)"
proof -
  let ?d = "r_departing r ! i" and ?failed = "pollerr ev \<or> pollnval ev"
  obtain failed1 d1 e1 where one: "(if \<not> ?failed \<and> (pollin ev \<or> pollhup ev)
      then departing_input got (?d, r_env r) else (?failed, ?d, r_env r)) = (failed1, d1, e1)"
    by (metis prod_cases3)
  obtain failed2 d2 e2 where two: "(if \<not> failed1 \<and> pollout ev
      then (let (ok, tx, e) = tcp_tx_flush (dc_fd d1) (dc_tx d1) e1 in (\<not> ok, d1\<lparr>dc_tx := tx\<rparr>, e))
      else (failed1, d1, e1)) = (failed2, d2, e2)"
    by (metis prod_cases3)
  let ?q = "r\<lparr>r_departing := (r_departing r)[i := d2], r_env := e2\<rparr>"
  have eq: "serve_departing i fd ev got r = (if no_revents ev \<or> \<not> dc_in_use ?d \<or> dc_fd ?d \<noteq> fd then r
      else if failed2 \<or> departing_done d2 then reset_departing i ?q else ?q)"
    using one two by (simp add: serve_departing_def Let_def)
  have "keeps r ?q" unfolding keeps_def
  proof (intro impI)
    assume ok: "server_ok r"
    have "drain_ok ?d" using ok assms server_ok_lengths [OF ok] by (simp add: server_ok_def drains_ok_def list_all_nthD)
    then have 1: "drain_ok d1 \<and> dc_fd d1 = dc_fd ?d \<and> e_closed e1 = e_closed (r_env r)"
      using one departing_input_keeps by (auto split: if_splits)
    then have "drain_ok d2 \<and> dc_fd d2 = dc_fd ?d \<and> e_closed e2 = e_closed (r_env r)"
      using two departing_flush_keeps [of d1 e1] by (auto simp: Let_def split: if_splits prod.splits)
    then show "server_ok ?q \<and> ledger ?q = ledger r \<and> closed_fds r \<subseteq># closed_fds ?q" using keeps_set_departing [OF assms ok] by simp
  qed
  then show ?thesis
    using keeps_trans [OF _ keeps_reset_departing [OF assms]] by (simp add: eq)
qed

section \<open>The room as a machine\<close>

text \<open>The descriptors an event hands to the room.\<close>

fun handed :: "room_event \<Rightarrow> int multiset" where
  "handed (Incoming fd configured now) = fd_cell fd"
| "handed ev = {#}"

lemma room_step_keeps:
  assumes "server_ok r"
  shows "server_ok (room_step ev r)" "ledger (room_step ev r) = ledger r + handed ev"
    "closed_fds r \<subseteq># closed_fds (room_step ev r)"
proof -
  have k: "keeps r q \<Longrightarrow> server_ok q \<and> ledger q = ledger r \<and> closed_fds r \<subseteq># closed_fds q" for q
    using assms by (simp add: keeps_def)
  have "server_ok (room_step ev r) \<and> ledger (room_step ev r) = ledger r + handed ev \<and>
      closed_fds r \<subseteq># closed_fds (room_step ev r)"
  proof (cases ev)
    case (Reap now)
    then show ?thesis using k [OF keeps_reap] by simp
  next
    case (ClientReady i fd rev got now)
    then show ?thesis using k [OF keeps_serve_client] assms by simp
  next
    case (DepartingReady i fd rev got)
    then show ?thesis using k [OF keeps_serve_departing] assms by simp
  next
    case (Incoming fd configured now)
    then show ?thesis using accept_ledger [OF assms] by simp
  next
    case (Timers debug now)
    then show ?thesis using k [OF keeps_timers] by simp
  next
    case (Tick now)
    then show ?thesis using k [OF keeps_gameplay [OF gameplay_tick_room]] assms by simp
  qed
  then show "server_ok (room_step ev r)" "ledger (room_step ev r) = ledger r + handed ev"
    "closed_fds r \<subseteq># closed_fds (room_step ev r)" by simp_all
qed

lemma room_run_keeps:
  assumes "server_ok r"
  shows "server_ok (fold room_step evs r) \<and> ledger (fold room_step evs r) = ledger r + sum_list (map handed evs)"
  using assms
proof (induction evs arbitrary: r)
  case (Cons ev evs)
  then show ?case using room_step_keeps [OF Cons.prems, of ev] by (simp add: add.assoc)
qed simp

subsection \<open>What a room never changes\<close>

definition house :: "room \<Rightarrow> room_config \<times> bytes \<times> u64 \<times> int" where
  "house r = (r_config r, r_brick_reset_bits r, r_tick_ms r, r_listener_fd r)"

lemma house_used: "used q = used r \<Longrightarrow> house q = house r"
  by (simp add: used_def house_def)

lemmas house_rkey = house_used [OF used_rkey]

lemma house_gameplay: "gameplay r q \<Longrightarrow> house q = house r"
  by (intro house_used used_gameplay)

lemma house_ops [simp]:
  "house (reset_client_slot i r) = house r" "house (reset_departing i r) = house r"
  "house (start_departing c now r) = house r" "house (reset_slot_gameplay i now r) = house r"
  "house (begin_no_human_grace now r) = house r" "house (enter_dormant now r) = house r"
  "house (r\<lparr>r_clients := cs\<rparr>) = house r" "house (r\<lparr>r_departing := ds\<rparr>) = house r" "house (r\<lparr>r_env := e\<rparr>) = house r"
  "house (r\<lparr>r_departing := ds, r_env := e\<rparr>) = house r"
proof -
  show "house (reset_slot_gameplay i now r) = house r" "house (begin_no_human_grace now r) = house r"
    "house (enter_dormant now r) = house r"
    by (rule house_rkey; simp)+
qed (simp_all add: house_def reset_client_slot_def reset_departing_def start_departing_def Let_def split: option.split)

lemma house_drop [simp]: "house (drop_client i now r) = house r"
  by (simp add: drop_client_def Let_def)

lemma house_detach [simp]: "house (detach_voluntary_client i now r) = house r"
  by (simp add: detach_voluntary_client_def Let_def)

lemma house_reap [simp]: "house (reap_timed_out_clients now r) = house r"
  unfolding reap_timed_out_clients_def by (rule for_slots_preserves) (simp add: reap_client_def Let_def)

lemma house_reap_departing [simp]: "house (reap_departing_connections now r) = house r"
  unfolding reap_departing_connections_def by (rule fold_preserves) (simp add: reap_departing_def Let_def)

lemma house_accept [simp]: "house (accept_room_client fd configured now r) = house r"
proof -
  have upd: "house (upd_client slot f q) = house q" for slot f q by (simp add: upd_client_def)
  show ?thesis
    by (simp add: accept_room_client_def seat_connection_def Let_def upd split: option.split)
qed

lemma house_timers [simp]: "house (service_room_timers debug now r) = house r"
proof -
  have phase: "house (phase_timers now q) = house q" for q by (rule house_rkey) (simp add: phase_timers_def Let_def)
  have gameplay: "house (note_summary debug now (repeat_seats now (resync_bricks now
      (reliable_tick now (rotate_names now q))))) = house q" for q
    using house_gameplay gameplay_rotate gameplay_reliable_tick gameplay_resync gameplay_repeat_seats
      gameplay_summary by metis
  show ?thesis by (simp add: service_room_timers_def Let_def phase gameplay)
qed

lemma house_serve_departing [simp]: "house (serve_departing i fd ev got r) = house r"
  by (simp add: serve_departing_def Let_def case_prod_beta)

lemma house_serve_client:
  assumes "server_ok r" "i < MAX_PLAYERS"
  shows "house (serve_client i fd ev got now r) = house r"
proof (cases "no_revents ev \<or> \<not> in_use (r_clients r ! i) \<or> c_fd (r_clients r ! i) \<noteq> fd")
  case False
  then have "used (snd (client_input i got now r)) = used r"
    using client_input_sound [of r i got now] assms by (simp add: server_ok_def)
  then have "house (snd (client_input i got now r)) = house r" by (rule house_used)
  moreover have "house (on_client i flush_client q) = house q" for q
    by (rule house_gameplay [OF gameplay_flush_client [OF assms(2)]])
  ultimately show ?thesis by (simp add: serve_client_def Let_def case_prod_beta)
qed (simp add: serve_client_def)

text \<open>The configuration, the layout, the period and the listener of a room stay as they were.\<close>

lemma room_step_house: "server_ok r \<Longrightarrow> house (room_step ev r) = house r"
  by (cases ev) (simp_all add: house_serve_client house_gameplay [OF gameplay_tick_room])

lemma room_run_house:
  assumes "server_ok r"
  shows "house (fold room_step evs r) = house r"
  using assms
proof (induction evs arbitrary: r)
  case (Cons ev evs)
  from Cons.IH [OF room_step_keeps(1) [OF Cons.prems]] room_step_house [OF Cons.prems] show ?case by simp
qed simp

section \<open>The initial room\<close>

lemma length_load_row: "load_row cs x y bits = Some bits' \<Longrightarrow> length bits' = length bits"
  by (induction cs x y bits rule: load_row.induct) (auto split: if_splits)

lemma length_load_rows: "load_rows ls y bits = Some (y', bits') \<Longrightarrow> length bits' = length bits"
  by (induction ls y bits rule: load_rows.induct)
    (auto split: if_splits option.splits dest: length_load_row)

lemma length_layout: "load_brick_layout file = Some bits \<Longrightarrow> length bits = 48"
  by (auto simp: load_brick_layout_def split: option.splits if_splits dest: length_load_rows)

lemma init_slot_shape:
  assumes "i < length (r_players r)" "p_score (r_players r ! i) = 0"
  shows "\<exists>p e. init_slot now i r = r\<lparr>r_players := (r_players r)[i := p], r_env := e\<rparr> \<and>
    player_ok p \<and> p_score p = 0 \<and> e_closed e = e_closed (r_env r)"
proof -
  obtain sx sy q where pick: "pick_spawn r = ((sx, sy), q)" by (metis prod.collapse)
  have cell: "cell_ok sx sy" using pick_spawn_cell_ok [of r] pick by simp
  obtain e where q: "q = r\<lparr>r_env := e\<rparr>"
    using pick by (auto simp: pick_spawn_def split: prod.splits option.splits)
  have closed: "e_closed e = e_closed (r_env r)"
    using rcoreD(25) [OF rcore_pick_spawn [of r]] pick q by simp
  let ?p = "zombie_schedule now (fst (c_rand e)) ((r_players r ! i)\<lparr>p_x := sx, p_y := sy, p_joy := 0x0F\<rparr>)"
  have "init_slot now i r = r\<lparr>r_players := (r_players r)[i := ?p], r_env := snd (c_rand e)\<rparr>"
    using assms(1) by (simp add: init_slot_def place_actor_def pick q upd_player_def modify_def
        reset_zombie_schedule_def room_rand_def room_rand_read_def)
  moreover have "player_ok ((r_players r ! i)\<lparr>p_x := sx, p_y := sy, p_joy := 0x0F\<rparr>)"
    using cell by (simp add: player_ok_def neutral_joy)
  then have "player_ok ?p" by simp
  moreover have "p_score ?p = 0" using assms(2) by simp
  ultimately show ?thesis using closed by fastforce
qed

lemma init_slots_shape:
  assumes "length (r_players r) = 4" "list_all (\<lambda>p. p_score p = 0) (r_players r)"
  shows "\<exists>ps e. for_slots (init_slot now) r = r\<lparr>r_players := ps, r_env := e\<rparr> \<and> length ps = 4 \<and>
    list_all (\<lambda>p. player_ok p \<and> p_score p = 0) ps \<and> e_closed e = e_closed (r_env r)"
proof -
  let ?P = "\<lambda>i q. \<exists>ps e. q = r\<lparr>r_players := ps, r_env := e\<rparr> \<and> length ps = 4 \<and>
    list_all (\<lambda>p. p_score p = 0) ps \<and> (\<forall>j < i. player_ok (ps ! j)) \<and> e_closed e = e_closed (r_env r)"
  have "?P MAX_PLAYERS (for_slots (init_slot now) r)"
  proof (rule for_slots_index [of ?P])
    show "?P 0 r" using assms by (intro exI [of _ "r_players r"] exI [of _ "r_env r"]) simp
    fix i q assume i: "i < MAX_PLAYERS" and "?P i q"
    then obtain ps e where q: "q = r\<lparr>r_players := ps, r_env := e\<rparr>" "length ps = 4"
      "list_all (\<lambda>p. p_score p = 0) ps" "\<forall>j < i. player_ok (ps ! j)" "e_closed e = e_closed (r_env r)" by blast
    have "p_score (ps ! i) = 0" using list_all_nthD [OF q(3), of i] q(2) i by simp
    then obtain p e' where p: "init_slot now i q = q\<lparr>r_players := (r_players q)[i := p], r_env := e'\<rparr>"
      "player_ok p" "p_score p = 0" "e_closed e' = e_closed (r_env q)"
      using init_slot_shape [of i q now] i q(1,2) by auto
    have "list_all (\<lambda>p. p_score p = 0) (ps[i := p])" using q(3) p(3) by (rule list_all_update)
    moreover have "player_ok (ps[i := p] ! j)" if "j < Suc i" for j
      using that q(2,4) p(2) i by (cases "j = i") simp_all
    ultimately show "?P (Suc i) (init_slot now i q)"
      using p(1,4) q(1,2,5) by (intro exI [of _ "ps[i := p]"] exI [of _ e']) simp
  qed
  then obtain ps e where "for_slots (init_slot now) r = r\<lparr>r_players := ps, r_env := e\<rparr>" "length ps = 4"
    "list_all (\<lambda>p. p_score p = 0) ps" "\<forall>j < 4. player_ok (ps ! j)" "e_closed e = e_closed (r_env r)" by blast
  then show ?thesis by (intro exI [of _ ps] exI [of _ e]) (simp add: list_all_length)
qed

lemma demo_link_free: "links_ok (replicate 4 client_free)"
  using client_free_ok(2) by (simp add: links_ok_def list_all_iff)

lemma empty_room_ok:
  assumes "config_ok cfg" "length bits = 48" "list_all (\<lambda>p. player_ok p \<and> p_score p = 0) ps" "length ps = 4"
    and "e_closed e = []"
  shows "base_ok ((empty_room cfg bits e0)\<lparr>r_players := ps, r_env := e\<rparr>)"
    "ledger ((empty_room cfg bits e0)\<lparr>r_players := ps, r_env := e\<rparr>) = {#}"
    "drains_ok ((empty_room cfg bits e0)\<lparr>r_players := ps, r_env := e\<rparr>)"
    "room_human_count ((empty_room cfg bits e0)\<lparr>r_players := ps, r_env := e\<rparr>) = 0"
proof -
  let ?r = "(empty_room cfg bits e0)\<lparr>r_players := ps, r_env := e\<rparr>"
  have players: "list_all player_ok ps" using assms(3) by (simp add: list_all_iff)
  show "base_ok ?r"
    using assms(1,2,4) players demo_link_free client_free_ok(1) shot_zero_ok
    by (simp add: base_ok_def net_ok_def board_ok_def seats_ok_def empty_room_def list_all_iff
        brick_echo_zero_def respawn_echo_zero_def)
  show "ledger ?r = {#}"
    using assms(5) by (simp add: ledger_def open_fds_def fds_of_def empty_room_def numeral_eq_Suc)
  show "drains_ok ?r" by (simp add: drains_ok_def empty_room_def list_all_iff drain_free_ok)
  show "room_human_count ?r = 0"
    by (auto simp: human_count_zero empty_room_def client_free_ok(3))
qed

lemma init_room_ok:
  assumes "config_ok cfg" "e_closed e = []"
  shows "server_ok (snd (init_room cfg file listener now e))" "ledger (snd (init_room cfg file listener now e)) = {#}"
    "r_round_state (snd (init_room cfg file listener now e)) = ROUND_DORMANT"
    "r_config (snd (init_room cfg file listener now e)) = cfg"
    "r_tick_ms (snd (init_room cfg file listener now e)) = room_tick_ms cfg"
proof -
  define bits where "bits = (case load_brick_layout file of Some b \<Rightarrow> b | None \<Rightarrow> replicate 48 0)"
  have len: "length bits = 48" by (auto simp: bits_def length_layout split: option.split)
  have start: "length (r_players (empty_room cfg bits e)) = 4"
    "list_all (\<lambda>p. p_score p = 0) (r_players (empty_room cfg bits e))"
    by (simp_all add: empty_room_def player_zero_def list_all_iff)
  obtain ps e1 where loop: "for_slots (init_slot now) (empty_room cfg bits e) =
      (empty_room cfg bits e)\<lparr>r_players := ps, r_env := e1\<rparr>" "length ps = 4"
    "list_all (\<lambda>p. player_ok p \<and> p_score p = 0) ps" "e_closed e1 = e_closed (r_env (empty_room cfg bits e))"
    using init_slots_shape [OF start] by blast
  have closed: "e_closed e1 = []" using loop(4) assms(2) by (simp add: empty_room_def)
  note made = empty_room_ok [OF assms(1) len loop(3,2) closed, of e]
  let ?r1 = "(empty_room cfg bits e)\<lparr>r_players := ps, r_env := e1\<rparr>"
  let ?r2 = "?r1\<lparr>r_tick_ms := room_tick_ms cfg, r_next_tick := now, r_last_transport_summary_ms := now,
      r_last_brick_resync_ms := now, r_last_name_rotate_ms := now, r_last_seat_mask := 0xFF,
      r_round_id := 1, r_round_state := ROUND_DORMANT\<rparr>"
  let ?q = "?r2\<lparr>r_historical_zombie_mask := r_historical_zombie_mask ?r2 OR mask_bits (room_zombies ?r2),
      r_listener_fd := listener\<rparr>"
  have q: "snd (init_room cfg file listener now e) = ?q"
    unfolding init_room_def Let_def bits_def [symmetric] loop(1) by simp
  have base: "base_ok ?q" using made(1) by (simp add: base_ok_def net_ok_def board_ok_def seats_ok_def)
  have pos: "0 < kill_limit ?q" by (rule kill_limit_unat(2) [OF base])
  have "list_all (score_fine (kill_limit ?q) ROUND_DORMANT) ps"
    using loop(3) pos by (simp add: list_all_iff score_fine_def)
  then have "round_ok ?q" by (simp add: round_ok_def result_ok_def)
  moreover have "shots_open ?q" by (rule shots_open_none) (simp add: empty_room_def)
  moreover have "phase_ok ?q" using made(4) by (simp add: phase_ok_def room_human_count_def empty_room_def)
  ultimately have "sound ?q" using base by (intro soundI)
  moreover have "drains_ok ?q" using made(3) by (simp add: drains_ok_def)
  ultimately show "server_ok (snd (init_room cfg file listener now e))" by (simp only: q server_ok_def simp_thms)
  show "ledger (snd (init_room cfg file listener now e)) = {#}" using made(2) by (simp add: q ledger_def open_fds_def)
  show "r_round_state (snd (init_room cfg file listener now e)) = ROUND_DORMANT"
    "r_config (snd (init_room cfg file listener now e)) = cfg"
    "r_tick_ms (snd (init_room cfg file listener now e)) = room_tick_ms cfg"
    by (simp_all add: q empty_room_def)
qed

text \<open>The rooms the server can start with: a configuration \<open>main\<close> lets through, any layout file.\<close>

definition started :: "room \<Rightarrow> bool" where
  "started r \<longleftrightarrow> (\<exists>cfg file listener now e. config_ok cfg \<and> e_closed e = [] \<and>
     r = snd (init_room cfg file listener now e))"

interpretation served: invariant_machine started room_step server_ok
proof unfold_locales
  show "started r \<Longrightarrow> server_ok r" for r using init_room_ok(1) by (auto simp: started_def)
  show "server_ok r \<Longrightarrow> server_ok (room_step e r)" for r e by (rule room_step_keeps(1))
qed

text \<open>A pass is a run of the machine.\<close>

lemma room_pass_run: "\<exists>evs. room_pass inp r = fold room_step evs r"
proof
  show "room_pass inp r = fold room_step (Reap (pi_start inp) # pass_events inp (room_step (Reap (pi_start inp)) r)) r"
    by (simp add: room_pass_def Let_def)
qed

section \<open>Deadlines\<close>

lemma unat_step: "unat x + unat t < 2 ^ 64 \<Longrightarrow> unat (x + t) = unat x + unat t" for x t :: u64
  by (simp add: unat_word_ariths)

lemma catch_up_spec:
  "unat x + n * unat t < 2 ^ 64 \<Longrightarrow>
   \<exists>k \<le> n. unat (catch_up n now t x) = unat x + k * unat t \<and>
     (k = n \<or> now < catch_up n now t x) \<and> (0 < k \<longrightarrow> unat x + (k - 1) * unat t \<le> unat now)"
proof (induction n arbitrary: x)
  case 0
  then show ?case by simp
next
  case (Suc n)
  show ?case
  proof (cases "x \<le> now")
    case False
    then show ?thesis by (intro exI [of _ 0]) simp
  next
    case True
    have xt: "unat (x + t) = unat x + unat t" using Suc.prems by (intro unat_step) simp
    then have "unat (x + t) + n * unat t < 2 ^ 64" using Suc.prems by simp
    from Suc.IH [OF this] obtain k where k: "k \<le> n"
      "unat (catch_up n now t (x + t)) = unat (x + t) + k * unat t"
      "k = n \<or> now < catch_up n now t (x + t)" "0 < k \<longrightarrow> unat (x + t) + (k - 1) * unat t \<le> unat now" by blast
    have "unat x + k * unat t \<le> unat now"
    proof (cases k)
      case 0
      then show ?thesis using True by (simp add: word_le_nat_alt)
    next
      case (Suc m)
      then show ?thesis using k(4) xt by simp
    qed
    then show ?thesis using True k xt by (intro exI [of _ "Suc k"]) simp
  qed
qed

lemma next_deadline_spec:
  assumes "0 < t" "d \<le> now" "unat now + 6 * unat t < 2 ^ 64"
  shows "now < next_deadline now d t" "unat (next_deadline now d t) \<le> unat now + unat t"
    "if unat d + 5 * unat t \<le> unat now then next_deadline now d t = now + t
     else \<exists>k. 1 \<le> k \<and> k \<le> 5 \<and> unat (next_deadline now d t) = unat d + k * unat t"
proof -
  let ?q = "next_deadline now d t"
  have t: "0 < unat t" using assms(1) by (simp add: word_less_nat_alt)
  have d: "unat d \<le> unat now" using assms(2) by (simp add: word_le_nat_alt)
  have dt: "unat (d + t) = unat d + unat t" using d assms(3) by (intro unat_step) simp
  have nt: "unat (now + t) = unat now + unat t" using assms(3) by (intro unat_step) simp
  have "unat (d + t) + 4 * unat t < 2 ^ 64" using dt d assms(3) by simp
  from catch_up_spec [OF this, of now] obtain k where k: "k \<le> 4"
    "unat (catch_up 4 now t (d + t)) = unat d + unat t + k * unat t"
    "k = 4 \<or> now < catch_up 4 now t (d + t)" "0 < k \<longrightarrow> unat d + unat t + (k - 1) * unat t \<le> unat now"
    using dt by auto
  consider (near) "now < d + t" "?q = d + t"
    | (far) "d + t \<le> now" "catch_up 4 now t (d + t) \<le> now" "?q = now + t"
    | (grid) "d + t \<le> now" "now < catch_up 4 now t (d + t)" "?q = catch_up 4 now t (d + t)"
    by (auto simp: next_deadline_def Let_def not_le split: if_splits) (meson not_le)+
  then have "now < ?q \<and> unat ?q \<le> unat now + unat t \<and>
    (if unat d + 5 * unat t \<le> unat now then ?q = now + t
     else \<exists>k. 1 \<le> k \<and> k \<le> 5 \<and> unat ?q = unat d + k * unat t)"
  proof cases
    case near
    then have "unat now < unat d + unat t" using dt by (simp add: word_less_nat_alt)
    then have "\<not> unat d + 5 * unat t \<le> unat now" by simp
    moreover have "\<exists>k. 1 \<le> k \<and> k \<le> 5 \<and> unat ?q = unat d + k * unat t" using near(2) dt by (intro exI [of _ 1]) simp
    ultimately show ?thesis using near d dt by simp
  next
    case far
    then have "k = 4" using k(3) by auto
    then have "unat d + 5 * unat t \<le> unat now" using far(2) k(2) by (simp add: word_le_nat_alt)
    moreover have "now < now + t" using nt t by (simp add: word_less_nat_alt)
    ultimately show ?thesis using far(3) nt by simp
  next
    case grid
    have now: "unat now < unat d + unat t + k * unat t" using grid(2) k(2) by (simp add: word_less_nat_alt)
    have "unat d + unat t \<le> unat now" using grid(1) dt by (simp add: word_le_nat_alt)
    then have "k \<noteq> 0" using now by (intro notI) simp
    then obtain m where m: "k = Suc m" by (cases k) auto
    then have le: "unat d + unat t + m * unat t \<le> unat now" using k(4) by simp
    have "k * unat t \<le> 4 * unat t" using k(1) by simp
    then have "\<not> unat d + 5 * unat t \<le> unat now" using now by linarith
    moreover have "\<exists>j. 1 \<le> j \<and> j \<le> 5 \<and> unat ?q = unat d + j * unat t"
      using grid(3) k(1,2) by (intro exI [of _ "Suc k"]) simp
    ultimately show ?thesis using grid(2,3) k(2) le m by simp
  qed
  then show "now < ?q" "unat ?q \<le> unat now + unat t"
    "if unat d + 5 * unat t \<le> unat now then ?q = now + t
     else \<exists>k. 1 \<le> k \<and> k \<le> 5 \<and> unat ?q = unat d + k * unat t" by blast+
qed

lemma tick_room_deadline: "r_next_tick (tick_room now r) = next_deadline now (r_next_tick r) (r_tick_ms r)"
proof -
  have "gameplay r (next_seq (advance_game now r))"
    by (rule gameplay_trans [OF gameplay_advance gameplay_broadcast(2)])
  then have "r_tick_ms (advance_game now r) = r_tick_ms r" by (simp add: gameplay_def rkey_def)
  moreover have "r_tick_ms (for_slots (snapshot_step sq zb) q) = r_tick_ms q" for sq zb q
    by (rule for_slots_preserves) (simp add: snapshot_step_def rcoreD [OF rcore_send_to])
  ultimately show ?thesis by (simp add: tick_room_def Let_def)
qed

section \<open>Waiting for nobody\<close>

text \<open>An event that brings no byte from a client.\<close>

fun quiet :: "room_event \<Rightarrow> bool" where
  "quiet (ClientReady i fd ev (RecvBytes bytes) now) = (bytes = [])"
| "quiet ev = True"

text \<open>A room whose grace period ends at \<open>D\<close>, or which has gone dormant.\<close>

definition waiting :: "u64 \<Rightarrow> room \<Rightarrow> bool" where
  "waiting D r \<longleftrightarrow> server_ok r \<and> D \<noteq> 0 \<and> (r_round_state r = ROUND_DORMANT \<or> r_no_human_deadline_ms r = D)"

lemma waiting_empty:
  assumes "waiting D r" "i < 4"
  shows "\<not> handshake_ok (r_clients r ! i)"
proof
  assume "handshake_ok (r_clients r ! i)"
  with assms have "r_round_state r \<noteq> ROUND_DORMANT" "r_no_human_deadline_ms r = 0"
    using seated_open [of r i] by (simp_all add: waiting_def server_ok_def)
  then show False using assms(1) by (simp add: waiting_def)
qed

lemma waiting_keeps:
  assumes "waiting D r" "keeps r q"
    and "r_round_state r = ROUND_DORMANT \<Longrightarrow> r_round_state q = ROUND_DORMANT"
    and "r_round_state q = ROUND_DORMANT \<or> r_no_human_deadline_ms q = r_no_human_deadline_ms r"
  shows "waiting D q"
  using assms by (auto simp: waiting_def keeps_def)

lemma waiting_gameplay:
  assumes "waiting D r" "gameplay r q"
  shows "waiting D q"
  by (rule waiting_keeps [OF assms(1) keeps_gameplay [OF assms(2)]])
    (use assms(2) in \<open>auto simp: gameplay_def phase_ext_def\<close>)

lemma waiting_drop:
  assumes "waiting D r" "i < 4"
  shows "waiting D (drop_client i now r)"
proof (rule waiting_keeps [OF assms(1) keeps_drop [OF assms(2)]])
  have "length (r_clients (reset_client_slot i r)) = 4"
    using assms(1) server_ok_lengths [of r] by (simp add: waiting_def reset_client_slot_def Let_def)
  note facts = reset_slot_facts [OF this, of i now]
  have eq: "drop_client i now r = reset_slot_gameplay i now (reset_client_slot i r)"
    using waiting_empty [OF assms] by (simp add: drop_client_def)
  show "r_round_state r = ROUND_DORMANT \<Longrightarrow> r_round_state (drop_client i now r) = ROUND_DORMANT"
    "r_round_state (drop_client i now r) = ROUND_DORMANT \<or>
     r_no_human_deadline_ms (drop_client i now r) = r_no_human_deadline_ms r"
    using facts by (simp_all add: eq) (simp_all add: reset_client_slot_def Let_def)
qed

lemma waiting_reap: "waiting D r \<Longrightarrow> waiting D (reap_timed_out_clients now r)"
  unfolding reap_timed_out_clients_def
  by (rule for_slots_invariant [of "waiting D"]) (simp_all add: reap_client_def Let_def waiting_drop)

lemma waiting_client:
  assumes "waiting D r" "i < 4" "quiet (ClientReady i fd ev got now)"
  shows "waiting D (serve_client i fd ev got now r)"
proof -
  have quiet: "snd (client_input i got now r) = r" using assms(3) by (cases got) (auto simp: client_input_def)
  have hs: "\<not> handshake_ok (r_clients r ! i)" by (rule waiting_empty [OF assms(1,2)])
  have "seat_ok (r_clients r ! i)" using assms(1,2) by (simp add: waiting_def server_ok_def base_ok_seat)
  then have stays: "\<not> leave_requested (r_clients r ! i)" using hs unfolding seat_ok_def by blast
  let ?f = "on_client i flush_client r"
  have flushed: "waiting D ?f" using assms gameplay_flush_client waiting_gameplay by blast
  have dropped: "waiting D (drop_client i now r)" "waiting D (drop_client i now ?f)"
    using waiting_drop [OF assms(1,2)] waiting_drop [OF flushed assms(2)] .
  obtain failed r1 where one: "(if \<not> (pollerr ev \<or> pollnval ev) \<and> (pollin ev \<or> pollhup ev)
      then client_input i got now r else (pollerr ev \<or> pollnval ev, r)) = (failed, r1)" by force
  then have r1: "r1 = r" using quiet by (auto split: if_splits)
  show ?thesis
    using assms(1) flushed dropped stays unfolding serve_client_def Let_def one r1 by simp
qed

lemma waiting_step:
  assumes "waiting D r" "quiet ev"
  shows "waiting D (room_step ev r)"
proof (cases ev)
  case (Reap now)
  then show ?thesis using waiting_reap assms by simp
next
  case (ClientReady i fd rev got now)
  then show ?thesis using waiting_client [OF assms(1)] assms by auto
next
  case (DepartingReady i fd rev got)
  have "r_round_state (serve_departing i fd rev got r) = r_round_state r"
    "r_no_human_deadline_ms (serve_departing i fd rev got r) = r_no_human_deadline_ms r"
    by (simp_all add: serve_departing_def Let_def split_beta reset_departing_def)
  then have "waiting D (serve_departing i fd rev got r)" if "i < 4"
    by (intro waiting_keeps [OF assms(1) keeps_serve_departing [OF that]]) simp_all
  then show ?thesis using DepartingReady assms(1) by simp
next
  case (Incoming fd configured now)
  have ok: "server_ok r" using assms(1) by (simp add: waiting_def)
  have "r_round_state (seat_connection fd i rep now r) = r_round_state r \<and>
      r_no_human_deadline_ms (seat_connection fd i rep now r) = r_no_human_deadline_ms r" for i rep
    by (simp add: seat_connection_def Let_def reset_client_slot_def upd_client_def
        rroundD(2,3) [OF rround_slot_ops(1)])
  then have "r_round_state (accept_room_client fd configured now r) = r_round_state r \<and>
      r_no_human_deadline_ms (accept_room_client fd configured now r) = r_no_human_deadline_ms r"
    by (simp add: accept_room_client_def split: option.split)
  then show ?thesis using Incoming assms(1) accept_ledger(1) [OF ok] by (simp add: waiting_def)
next
  case (Timers debug now)
  let ?r1 = "reap_departing_connections now (reap_timed_out_clients now r)"
  have frame: "r_round_state (reap_departing_connections now q) = r_round_state q"
    "r_no_human_deadline_ms (reap_departing_connections now q) = r_no_human_deadline_ms q" for q
    unfolding reap_departing_connections_def
    by (rule fold_preserves, simp add: reap_departing_def reset_departing_def Let_def)+
  have "waiting D ?r1"
    by (rule waiting_keeps [OF waiting_reap [OF assms(1)] keeps_reap_departing]) (simp_all add: frame)
  then have two: "waiting D (phase_timers now ?r1)"
    by (rule waiting_keeps [OF _ keeps_phase_timers]) (auto simp: phase_timers_def Let_def)
  have "gameplay q (note_summary debug now (repeat_seats now (resync_bricks now
      (reliable_tick now (rotate_names now q)))))" for q
    using gameplay_trans gameplay_rotate gameplay_reliable_tick gameplay_resync gameplay_repeat_seats
      gameplay_summary by meson
  then show ?thesis using two waiting_gameplay Timers by (simp add: service_room_timers_def Let_def)
next
  case (Tick now)
  then show ?thesis using waiting_gameplay [OF assms(1) gameplay_tick_room] assms(1) by simp
qed

lemma waiting_run: "waiting D r \<Longrightarrow> list_all quiet evs \<Longrightarrow> waiting D (fold room_step evs r)"
  by (induction evs arbitrary: r) (simp_all add: waiting_step)

text \<open>The timers at or after the end of the grace period.\<close>

lemma waiting_expires:
  assumes "waiting D r" "D \<le> now"
  shows "r_round_state (service_room_timers debug now r) = ROUND_DORMANT"
proof -
  let ?r1 = "reap_departing_connections now (reap_timed_out_clients now r)"
  have frame: "r_round_state (reap_departing_connections now q) = r_round_state q"
    "r_no_human_deadline_ms (reap_departing_connections now q) = r_no_human_deadline_ms q" for q
    unfolding reap_departing_connections_def
    by (rule fold_preserves, simp add: reap_departing_def reset_departing_def Let_def)+
  have "waiting D ?r1"
    by (rule waiting_keeps [OF waiting_reap [OF assms(1)] keeps_reap_departing]) (simp_all add: frame)
  then have "r_round_state (phase_timers now ?r1) = ROUND_DORMANT"
    using assms(2) by (auto simp: waiting_def phase_timers_def Let_def)
  then show ?thesis by (simp add: service_room_timers_def Let_def)
qed

lemma waiting_start:
  assumes "server_ok r" "i < 4" "handshake_ok (r_clients r ! i)" "room_human_count (drop_client i t r) = 0"
    and "D = t + of_int (cfg_no_human_grace_ms (r_config r))" "D \<noteq> 0"
  shows "waiting D (drop_client i t r)"
proof -
  let ?q = "reset_slot_gameplay i t (reset_client_slot i r)"
  have len: "length (r_clients (reset_client_slot i r)) = 4"
    using server_ok_lengths [OF assms(1)] by (simp add: reset_client_slot_def Let_def)
  note facts = reset_slot_facts [OF this, of i t]
  have len': "length (r_clients ?q) = 4" using len by simp
  have "r_config ?q = r_config r"
    using rkeyD(1) [OF rkey_reset_slot [of i t "reset_client_slot i r"]] by (simp add: reset_client_slot_def Let_def)
  moreover have "r_round_state ?q \<noteq> ROUND_DORMANT" "r_no_human_deadline_ms ?q = 0"
    using seated_open(2,3) [of r i] assms(1-3) facts(2,3)
    by (simp_all add: server_ok_def) (simp_all add: reset_client_slot_def Let_def)
  ultimately have grace: "r_no_human_deadline_ms (begin_no_human_grace t ?q) = D"
    using assms(5) by (simp add: begin_no_human_grace_def Let_def)
  have "drop_client i t r = begin_no_human_grace t ?q"
  proof (cases "room_human_count ?q = 0")
    case True
    then show ?thesis using assms(3) by (simp add: drop_client_def Let_def)
  next
    case False
    then have "drop_client i t r = ?q" by (simp add: drop_client_def Let_def)
    then show ?thesis using False assms(4) by simp
  qed
  moreover have "server_ok (drop_client i t r)" using keeps_drop [OF assms(2), of r t] assms(1) by (simp add: keeps_def)
  ultimately show ?thesis using grace assms(6) by (simp add: waiting_def)
qed

section \<open>Properties\<close>

text \<open>
  C1: Every room the server can reach is sound. From any start \<open>main\<close> allows, whatever the
  sockets deliver, in whatever order and at whatever times, and whatever \<open>rand\<close> returns: the
  outer wall stands exactly as the layout has it, no brick appears that the layout does not have, every player is on the map
  with a legal joystick byte and a score within the kill limit (below it while the round is open), live shots are over open cells,
  and a dormant room has nobody seated.
\<close>

theorem reachable_rooms_sound:
  assumes "reach started room_step r" "i < MAX_PLAYERS"
  shows "(\<forall>x y. is_brick (r_brick_bits r) x y \<noteq> is_brick (r_brick_reset_bits r) x y \<longrightarrow>
      is_brick (r_brick_reset_bits r) x y \<and> \<not> is_outer_wall_cell x y) \<and>
    cell_ok (p_x (r_players r ! i)) (p_y (r_players r ! i)) \<and> p_joy (r_players r ! i) \<in> joy_bytes \<and>
    score_fine (kill_limit r) (r_round_state r) (r_players r ! i) \<and>
    (s_active (r_shots r ! i) \<longrightarrow>
       \<not> is_brick (r_brick_bits r) (uint (s_x (r_shots r ! i))) (uint (s_y (r_shots r ! i)))) \<and>
    (r_round_state r = ROUND_DORMANT \<longrightarrow> \<not> seated (r_clients r ! i))"
proof -
  have sound: "sound r" using served.inv_reach [OF assms(1)] by (simp add: server_ok_def)
  then have base: "base_ok r" and round: "round_ok r" and shots: "shots_open r" and phase: "phase_ok r"
    unfolding sound_def fit_def by blast+
  have "bricks_below (r_brick_bits r) (r_brick_reset_bits r)" using base by (simp add: base_ok_def board_ok_def)
  then have "\<forall>x y. is_brick (r_brick_bits r) x y \<noteq> is_brick (r_brick_reset_bits r) x y \<longrightarrow>
      is_brick (r_brick_reset_bits r) x y \<and> \<not> is_outer_wall_cell x y"
    unfolding bricks_below_def by blast
  moreover have "player_ok (r_players r ! i)" by (rule base_ok_player [OF base assms(2)])
  moreover have "score_fine (kill_limit r) (r_round_state r) (r_players r ! i)"
    using round assms(2) base_ok_lengths(2) [OF base] by (simp add: round_ok_def list_all_nthD)
  moreover have "r_round_state r = ROUND_DORMANT \<longrightarrow> \<not> seated (r_clients r ! i)"
    using phase assms(2) by (simp add: phase_ok_def human_count_zero)
  moreover have "s_active (r_shots r ! i) \<longrightarrow>
      \<not> is_brick (r_brick_bits r) (uint (s_x (r_shots r ! i))) (uint (s_y (r_shots r ! i)))"
    using shots assms(2) by (simp add: shots_open_def)
  ultimately show ?thesis unfolding player_ok_def by blast
qed

definition demo_start :: room where
  "demo_start = snd (init_room demo_config None 3 0 demo_env)"

lemma demo_config_ok: "config_ok demo_config"
  by (simp add: config_ok_def demo_config_def)

lemma demo_start_started: "started demo_start"
proof -
  have "config_ok demo_config \<and> e_closed demo_env = [] \<and> demo_start = snd (init_room demo_config None 3 0 demo_env)"
    by (simp add: demo_config_ok demo_start_def demo_env_def)
  then show ?thesis unfolding started_def by blast
qed

theorem reachable_rooms_sound_witness:
  "cell_ok (p_x (r_players (room_step (Incoming 5 True 9) demo_start) ! 2))
    (p_y (r_players (room_step (Incoming 5 True 9) demo_start) ! 2))"
proof -
  have "reach started room_step demo_start" by (rule reach_init) (rule demo_start_started)
  then have "reach started room_step (room_step (Incoming 5 True 9) demo_start)" by (rule reach_step)
  from reachable_rooms_sound [OF this, of 2] show ?thesis by simp
qed

lemma fds_of_closed: "list_all (\<lambda>x. f x < 0) xs \<Longrightarrow> fds_of f xs = {#}"
  by (induction xs) (simp_all add: fds_of_def)

lemma destroy_room_ledger:
  assumes "server_ok r"
  shows "closed_fds (destroy_room r) = ledger r + fd_cell (r_listener_fd r)" "open_fds (destroy_room r) = {#}"
proof -
  let ?P = "\<lambda>i q. length (r_clients q) = 4 \<and> length (r_departing q) = 4 \<and> ledger q = ledger r \<and>
    r_listener_fd q = r_listener_fd r \<and> (\<forall>j < i. c_fd (r_clients q ! j) = -1 \<and> dc_fd (r_departing q ! j) = -1)"
  have "?P MAX_PLAYERS (for_slots destroy_slot r)"
  proof (rule for_slots_index [of ?P])
    show "?P 0 r" using server_ok_lengths [OF assms] by simp
    fix i q assume i: "i < MAX_PLAYERS" and q: "?P i q"
    let ?u = "reset_client_slot i q"
    have u: "length (r_clients ?u) = 4" "length (r_departing ?u) = 4" "ledger ?u = ledger r"
      using q i by simp_all (simp_all add: reset_client_slot_def Let_def)
    then have "ledger (destroy_slot i q) = ledger r"
      using reset_departing_ledger(1) [of i ?u] i by (simp add: destroy_slot_def)
    then show "?P (Suc i) (destroy_slot i q)"
      using q i by (simp add: destroy_slot_def reset_departing_def reset_client_slot_def Let_def less_Suc_eq)
  qed
  then obtain q where q: "q = for_slots destroy_slot r" "ledger q = ledger r" "r_listener_fd q = r_listener_fd r"
    "length (r_clients q) = 4" "length (r_departing q) = 4"
    "\<forall>j < 4. c_fd (r_clients q ! j) = -1 \<and> dc_fd (r_departing q ! j) = -1" by blast
  have none: "open_fds q = {#}"
    unfolding open_fds_def using q(4-6) fds_of_closed [of c_fd "r_clients q"] fds_of_closed [of dc_fd "r_departing q"]
    by (simp add: list_all_length)
  have d: "destroy_room r = (if r_listener_fd q \<ge> 0
      then q\<lparr>r_env := c_close (r_listener_fd q) (r_env q), r_listener_fd := -1\<rparr> else q)"
    by (simp add: destroy_room_def Let_def q(1))
  have "closed_fds q = ledger r" using none q(2) by (simp add: ledger_def closed_fds_def)
  then show "closed_fds (destroy_room r) = ledger r + fd_cell (r_listener_fd r)"
    using q(3) unfolding d by (simp add: closed_fds_def fd_cell_def)
  show "open_fds (destroy_room r) = {#}" using none unfolding d by (simp add: open_fds_def)
qed

text \<open>
  C5: No descriptor is lost and none is closed twice. Over any run of a room, the descriptors \<open>accept\<close>
  handed to it are exactly those closed so far together with those its clients and drain
  records hold; and shutting the room down closes each of the rest exactly once, and the listener.
\<close>

theorem descriptors_conserved:
  assumes "config_ok cfg" "e_closed e = []"
    and "r = fold room_step evs (snd (init_room cfg file listener now e))"
  shows "closed_fds r + open_fds r = sum_list (map handed evs) \<and>
    closed_fds (destroy_room r) = sum_list (map handed evs) + fd_cell (r_listener_fd r) \<and>
    open_fds (destroy_room r) = {#}"
proof -
  note start = init_room_ok [OF assms(1,2)]
  have run: "server_ok r" "ledger r = sum_list (map handed evs)"
    using room_run_keeps [OF start(1), where evs = evs] start(2) assms(3) by simp_all
  have "closed_fds r + open_fds r = sum_list (map handed evs)"
    using run(2) by (simp add: ledger_def closed_fds_def add.commute)
  then show ?thesis using destroy_room_ledger [OF run(1)] run(2) by simp
qed

theorem descriptors_conserved_witness:
  "closed_fds (destroy_room (fold room_step [Incoming 5 True 9, Incoming 6 False 9, Reap 9000] demo_start)) =
   {#5, 6#} + fd_cell (r_listener_fd (fold room_step [Incoming 5 True 9, Incoming 6 False 9, Reap 9000] demo_start))"
  using descriptors_conserved [OF demo_config_ok _ refl, of demo_env "[Incoming 5 True 9, Incoming 6 False 9, Reap 9000]" None 3 0]
  by (simp add: demo_start_def demo_env_def)

text \<open>
  The documented behaviour of \<open>accept\<close>: it never returns a descriptor that is still open.
\<close>

fun fresh_event :: "room_event \<Rightarrow> room \<Rightarrow> bool" where
  "fresh_event (Incoming fd configured now) r = (fd < 0 \<or> fd \<notin># open_fds r)"
| "fresh_event ev r = True"

inductive kernel_run :: "room \<Rightarrow> room \<Rightarrow> bool" for start where
  run_start: "kernel_run start start"
| run_event: "kernel_run start r \<Longrightarrow> fresh_event ev r \<Longrightarrow> kernel_run start (room_step ev r)"

inductive_cases run_eventE: "kernel_run start r"

definition unshared :: "room \<Rightarrow> bool" where
  "unshared r \<longleftrightarrow> (\<forall>fd. count (open_fds r) fd \<le> 1)"

text \<open>An event opens at most the descriptor it was handed.\<close>

lemma open_fds_step:
  assumes "server_ok r"
  shows "open_fds (room_step ev r) \<subseteq># open_fds r + handed ev"
proof -
  have "open_fds (room_step ev r) + closed_fds (room_step ev r) = open_fds r + handed ev + closed_fds r"
    using room_step_keeps(2) [OF assms, of ev] by (simp add: ledger_def closed_fds_def add.assoc add.commute)
  then show ?thesis using room_step_keeps(3) [OF assms, of ev]
    by (metis add_le_cancel_right mset_subset_eq_add_left subset_mset.add_left_mono subset_mset.dual_order.trans subset_mset.add_le_cancel_right)
qed

lemma unshared_step:
  assumes "server_ok r" "unshared r" "fresh_event ev r"
  shows "unshared (room_step ev r)"
proof -
  have "count (open_fds r + handed ev) fd \<le> 1" for fd
    using assms(2,3) by (cases ev) (auto simp: unshared_def fd_cell_def not_in_iff)
  moreover have "count (open_fds (room_step ev r)) fd \<le> count (open_fds r + handed ev) fd" for fd
    using open_fds_step [OF assms(1), of ev] by (rule mset_subset_eq_count)
  ultimately show ?thesis unfolding unshared_def by (meson le_trans)
qed

lemma kernel_run_keeps: "kernel_run start r \<Longrightarrow> server_ok start \<Longrightarrow> unshared start \<Longrightarrow> server_ok r \<and> unshared r"
  by (induction rule: kernel_run.induct) (simp_all add: room_step_keeps(1) unshared_step)

lemma distinct_fds_of:
  assumes "\<forall>fd. count (fds_of f xs) fd \<le> 1"
  shows "i < length xs \<Longrightarrow> j < length xs \<Longrightarrow> 0 \<le> f (xs ! i) \<Longrightarrow> f (xs ! i) = f (xs ! j) \<Longrightarrow> i = j"
  using assms
proof (induction xs arbitrary: i j)
  case (Cons x xs)
  have tail: "\<forall>fd. count (fds_of f xs) fd \<le> 1"
  proof
    fix fd show "count (fds_of f xs) fd \<le> 1" using Cons.prems(5) [rule_format, of fd] by (simp add: fds_of_def)
  qed
  have mem: "0 < count (fds_of f ys) (f (ys ! k))" if "k < length ys" "0 \<le> f (ys ! k)" for k and ys
    using that by (induction ys arbitrary: k) (auto simp: fds_of_def nth_Cons split: nat.splits)
  have head: "k = 0" if "k < length (x # xs)" "0 \<le> f x" "f ((x # xs) ! k) = f x" for k
  proof (rule ccontr)
    assume "k \<noteq> 0"
    then obtain m where m: "k = Suc m" by (cases k) auto
    have "0 < count (fds_of f xs) (f x)" using mem [of m xs] that m by simp
    moreover have "count (fds_of f (x # xs)) (f x) = count (fd_cell (f x)) (f x) + count (fds_of f xs) (f x)"
      by (simp add: fds_of_def)
    moreover have "count (fd_cell (f x)) (f x) = 1" using that(2) by simp
    ultimately show False using Cons.prems(5) [rule_format, of "f x"] by linarith
  qed
  show ?case
  proof (cases "i = 0 \<or> j = 0")
    case True
    then show ?thesis
    proof
      assume i: "i = 0"
      then have "j = 0" using Cons.prems(2-4) by (intro head) simp_all
      then show ?thesis using i by simp
    next
      assume j: "j = 0"
      then have "i = 0" using Cons.prems(1,3,4) by (intro head) simp_all
      then show ?thesis using j by simp
    qed
  next
    case False
    then obtain a b where ab: "i = Suc a" "j = Suc b" using not0_implies_Suc by blast
    have "a = b" using Cons.prems(1-4) tail unfolding ab by (intro Cons.IH) simp_all
    then show ?thesis using ab by simp
  qed
qed simp

lemma fds_of_member: "i < length xs \<Longrightarrow> 0 \<le> f (xs ! i) \<Longrightarrow> 1 \<le> count (fds_of f xs) (f (xs ! i))"
proof (induction xs arbitrary: i)
  case (Cons x xs)
  show ?case
  proof (cases i)
    case 0
    then show ?thesis using Cons.prems by (simp add: fds_of_def)
  next
    case (Suc k)
    then have "1 \<le> count (fds_of f xs) (f (xs ! k))" using Cons.prems by (intro Cons.IH) simp_all
    moreover have "count (fds_of f (x # xs)) (f (xs ! k)) =
        count (fd_cell (f x)) (f (xs ! k)) + count (fds_of f xs) (f (xs ! k))" by (simp add: fds_of_def)
    ultimately show ?thesis unfolding Suc nth_Cons_Suc by linarith
  qed
qed simp

text \<open>
  C6: Connections never share a descriptor. As long as the kernel does not hand out a descriptor that is still
  open, two seats never hold the same one, nor two drain records, nor a seat and a drain record, so no
  event, byte or close meant for one connection can reach another.
\<close>

theorem connections_never_share:
  assumes "config_ok cfg" "e_closed e = []" "kernel_run (snd (init_room cfg file listener now e)) r"
    and "i < MAX_PLAYERS" "j < MAX_PLAYERS"
  shows "(0 \<le> c_fd (r_clients r ! i) \<longrightarrow>
      (c_fd (r_clients r ! i) = c_fd (r_clients r ! j) \<longrightarrow> i = j) \<and> c_fd (r_clients r ! i) \<noteq> dc_fd (r_departing r ! j)) \<and>
    (0 \<le> dc_fd (r_departing r ! i) \<and> dc_fd (r_departing r ! i) = dc_fd (r_departing r ! j) \<longrightarrow> i = j)"
proof -
  note start = init_room_ok [OF assms(1,2)]
  have "unshared (snd (init_room cfg file listener now e))"
    using start(2) by (simp add: unshared_def ledger_def)
  then have run: "server_ok r" "unshared r" using kernel_run_keeps [OF assms(3) start(1)] by simp_all
  note len = server_ok_lengths [OF run(1)]
  have total: "count (fds_of c_fd (r_clients r)) fd + count (fds_of dc_fd (r_departing r)) fd \<le> 1" for fd
    using run(2) by (simp add: unshared_def open_fds_def)
  have "\<forall>fd. count (fds_of c_fd (r_clients r)) fd \<le> 1" "\<forall>fd. count (fds_of dc_fd (r_departing r)) fd \<le> 1"
    using total by (meson add_leD1 add_leD2)+
  then have seats: "0 \<le> c_fd (r_clients r ! i) \<Longrightarrow> c_fd (r_clients r ! i) = c_fd (r_clients r ! j) \<Longrightarrow> i = j"
    and drains: "0 \<le> dc_fd (r_departing r ! i) \<Longrightarrow> dc_fd (r_departing r ! i) = dc_fd (r_departing r ! j) \<Longrightarrow> i = j"
    using distinct_fds_of [of c_fd "r_clients r" i j] distinct_fds_of [of dc_fd "r_departing r" i j] len assms(4,5) by simp_all
  have "c_fd (r_clients r ! i) \<noteq> dc_fd (r_departing r ! j)" if "0 \<le> c_fd (r_clients r ! i)"
  proof
    assume same: "c_fd (r_clients r ! i) = dc_fd (r_departing r ! j)"
    have "1 \<le> count (fds_of c_fd (r_clients r)) (c_fd (r_clients r ! i))"
      using fds_of_member [of i "r_clients r" c_fd] len assms(4) that by simp
    moreover have "1 \<le> count (fds_of dc_fd (r_departing r)) (c_fd (r_clients r ! i))"
      using fds_of_member [of j "r_departing r" dc_fd] len assms(5) that same by simp
    ultimately show False using total [of "c_fd (r_clients r ! i)"] by linarith
  qed
  then show ?thesis using seats drains by blast
qed

lemma seated_after_accept:
  "c_fd (r_clients (room_step (Incoming 5 True 9) demo_start) ! 0) = 5"
proof -
  have free: "r_clients demo_start = replicate 4 client_free"
  proof -
    have "r_clients (for_slots (init_slot 0) q) = r_clients q" for q
      by (rule for_slots_preserves) (simp add: init_slot_def place_actor_def split_beta upd_player_def
          reset_zombie_schedule_def room_rand_read_def)
    then show ?thesis by (simp add: demo_start_def init_room_def Let_def empty_room_def)
  qed
  have "alloc_client_slot (replicate 4 client_free) z = Some (0, False)" for z
    by (simp add: alloc_client_slot_def Let_def upt_conv_Cons zombie_mask_cases client_free_def)
  then show ?thesis
    by (simp add: accept_room_client_def free seat_connection_def upd_client_def modify_def)
qed

theorem connections_never_share_witness:
  "c_fd (r_clients (room_step (Incoming 5 True 9) demo_start) ! 0) \<noteq>
    dc_fd (r_departing (room_step (Incoming 5 True 9) demo_start) ! 2)"
proof -
  have empty: "open_fds demo_start = {#}"
    using init_room_ok(2) [OF demo_config_ok, where e = demo_env]
    by (simp add: demo_start_def demo_env_def ledger_def)
  have "kernel_run demo_start demo_start" by (rule run_start)
  then have run: "kernel_run (snd (init_room demo_config None 3 0 demo_env)) (room_step (Incoming 5 True 9) demo_start)"
    unfolding demo_start_def [symmetric] by (rule run_event) (simp add: empty)
  have "e_closed demo_env = []" by (simp add: demo_env_def)
  from connections_never_share [OF demo_config_ok this run, of 0 2] show ?thesis
    using seated_after_accept by simp
qed

text \<open>
  C7: Liveness of the no-human grace. When the last seated human is dropped, then whatever else
  happens short of a client sending bytes (timeouts, new connections, drains, ticks, timer
  passes), the first timer pass at or after the end of the grace period finds or makes the room dormant.
\<close>

theorem abandoned_room_sleeps:
  assumes "server_ok r" "i < MAX_PLAYERS" "handshake_ok (r_clients r ! i)"
    and "room_human_count (drop_client i t r) = 0"
    and "t + of_int (cfg_no_human_grace_ms (r_config r)) \<noteq> 0" "list_all quiet evs"
    and "t + of_int (cfg_no_human_grace_ms (r_config r)) \<le> now"
  shows "r_round_state (room_step (Timers debug now) (fold room_step evs (drop_client i t r))) = ROUND_DORMANT"
proof -
  have "waiting (t + of_int (cfg_no_human_grace_ms (r_config r))) (drop_client i t r)"
    by (rule waiting_start [OF assms(1-4) refl assms(5)])
  from waiting_expires [OF waiting_run [OF this assms(6)] assms(7)] show ?thesis by simp
qed

lemma demo_drop_empty: "room_human_count (drop_client 1 7 demo_joined) = 0"
proof -
  have "map pulse (r_clients (drop_client 1 7 demo_joined)) = map pulse ((r_clients demo_joined)[1 := client_free])"
    using demo_joined_ok(1) by (intro pulse_drop) (simp_all add: base_ok_lengths)
  then have "map seated (r_clients (drop_client 1 7 demo_joined)) = map seated ((r_clients demo_joined)[1 := client_free])"
    by (rule map_seated_pulse)
  also have "\<dots> = replicate 4 False"
    by (simp add: demo_joined_def upd_client_def modify_def demo_room_def client_free_def seated_def numeral_eq_Suc)
  finally have s: "map seated (r_clients (drop_client 1 7 demo_joined)) = replicate 4 False" .
  then have len: "length (r_clients (drop_client 1 7 demo_joined)) = 4" by (metis length_map length_replicate)
  have "\<not> seated (r_clients (drop_client 1 7 demo_joined) ! i)" if "i < 4" for i
    using s that len by (metis nth_map nth_replicate)
  then show ?thesis by (simp add: human_count_zero)
qed

theorem abandoned_room_sleeps_witness:
  "r_round_state (room_step (Timers False 700000)
     (fold room_step [Tick 100, Incoming 9 True 120] (drop_client 1 7 demo_joined))) = ROUND_DORMANT"
proof -
  have hs: "handshake_ok (r_clients demo_joined ! 1)" using demo_joined_ok(2) by (simp add: seated_def)
  have cfg: "r_config demo_joined = demo_config" by (simp add: demo_joined_def upd_client_def demo_room_def)
  have slot: "(1::nat) < MAX_PLAYERS" by simp
  have grace: "(7::u64) + of_int (cfg_no_human_grace_ms (r_config demo_joined)) \<noteq> 0"
    "(7::u64) + of_int (cfg_no_human_grace_ms (r_config demo_joined)) \<le> 700000"
    by (simp_all add: cfg demo_config_def)
  have quiet: "list_all quiet [Tick 100, Incoming 9 True 120]" by simp
  show ?thesis
    by (rule abandoned_room_sleeps [OF demo_joined_server_ok slot hs demo_drop_empty grace(1) quiet grace(2)])
qed

text \<open>
  The tick clock. A due tick moves the deadline strictly past the current time and at most
  one period ahead of it. It stays on the grid of whole periods when the server is less than five periods late,
  and otherwise restarts the grid from now, so a late server neither spins nor bursts.
\<close>

theorem tick_deadline_advances:
  assumes "0 < r_tick_ms r" "r_next_tick r \<le> now" "unat now + 6 * unat (r_tick_ms r) < 2 ^ 64"
  shows "now < r_next_tick (tick_room now r) \<and>
    unat (r_next_tick (tick_room now r)) \<le> unat now + unat (r_tick_ms r) \<and>
    (if unat (r_next_tick r) + 5 * unat (r_tick_ms r) \<le> unat now
     then r_next_tick (tick_room now r) = now + r_tick_ms r
     else \<exists>k. 1 \<le> k \<and> k \<le> 5 \<and> unat (r_next_tick (tick_room now r)) = unat (r_next_tick r) + k * unat (r_tick_ms r))"
  unfolding tick_room_deadline using next_deadline_spec [OF assms] by blast

theorem tick_deadline_advances_witness:
  "1234 < r_next_tick (tick_room 1234 demo_room)"
  using tick_deadline_advances [of demo_room 1234] by (simp add: demo_room_def)

end
