(* ===== verification/Options.thy ===== *)
theory Options
  imports Wellformed
begin

text \<open>
  The command line of \<^verbatim>\<open>server/main.c\<close>: the number and text parsers, the option loop, the range
  checks, the lobby settings and the configuration of every room. Lemmas: numbers in range can be
  written, and every accepted command line yields configurations the rest of the program relies on.
\<close>

section \<open>Numbers\<close>

text \<open>Characters as the unsigned codes the C code compares.\<close>

abbreviation (input) code :: "char \<Rightarrow> nat" where "code c \<equiv> of_char c"

definition c_space :: "char \<Rightarrow> bool" where
  "c_space c \<longleftrightarrow> code c = 0x20 \<or> (0x09 \<le> code c \<and> code c \<le> 0x0D)"

definition digit_in :: "nat \<Rightarrow> char \<Rightarrow> nat option" where
  "digit_in base c =
     (let n = code c;
          d = (if 0x30 \<le> n \<and> n \<le> 0x39 then n - 0x30
               else if 0x61 \<le> n \<and> n \<le> 0x7A then n - 0x57
               else if 0x41 \<le> n \<and> n \<le> 0x5A then n - 0x37 else 36) in
      if d < base then Some d else None)"

fun digits :: "nat \<Rightarrow> string \<Rightarrow> int \<Rightarrow> int \<times> string" where
  "digits base [] acc = (acc, [])"
| "digits base (c # cs) acc =
     (case digit_in base c of Some d \<Rightarrow> digits base cs (acc * int base + int d) | None \<Rightarrow> (acc, c # cs))"

definition sign_of :: "string \<Rightarrow> bool \<times> string" where
  "sign_of t = (case t of [] \<Rightarrow> (False, [])
     | c # cs \<Rightarrow> if c = CHR ''-'' then (True, cs) else if c = CHR ''+'' then (False, cs) else (False, t))"

text \<open>Base 0 lets the prefix choose between 16, 8 and 10.\<close>

definition radix :: "nat \<Rightarrow> string \<Rightarrow> nat \<times> string" where
  "radix base t =
     (if base \<noteq> 0 then (base, t)
      else case t of
          CHR ''0'' # x # d # cs \<Rightarrow>
            if x \<in> {CHR ''x'', CHR ''X''} \<and> digit_in 16 d \<noteq> None then (16, d # cs) else (8, t)
        | CHR ''0'' # cs \<Rightarrow> (8, t)
        | _ \<Rightarrow> (10, t))"

text \<open>\<open>strtol\<close>: the value and the text at \<open>end\<close>, or \<open>None\<close> when nothing was converted.\<close>

definition strtol :: "nat \<Rightarrow> string \<Rightarrow> (int \<times> string) option" where
  "strtol base text =
     (let (negative, t) = sign_of (dropWhile c_space text); (b, u) = radix base t in
      if u = [] \<or> digit_in b (hd u) = None then None
      else let (v, rest) = digits b u 0 in Some (if negative then - v else v, rest))"

text \<open>Outside the range of \<open>long\<close> it sets \<open>errno\<close>.\<close>

definition long_range :: "int \<Rightarrow> bool" where
  "long_range v \<longleftrightarrow> - (2 ^ 63) \<le> v \<and> v < 2 ^ 63"

definition parse_int_arg :: "string \<Rightarrow> int option" where
  "parse_int_arg text =
     (case strtol 10 text of
        None \<Rightarrow> None
      | Some (v, rest) \<Rightarrow>
          if \<not> long_range v \<or> rest \<noteq> [] \<or> v < 0 \<or> v > 2147483647 then None else Some v)"

definition parse_hex_or_decimal_arg :: "string \<Rightarrow> int option" where
  "parse_hex_or_decimal_arg text =
     (case strtol 0 text of
        None \<Rightarrow> None
      | Some (v, rest) \<Rightarrow>
          if \<not> long_range v \<or> rest \<noteq> [] \<or> v < 0 \<or> v > 2147483647 then None else Some v)"

fun parse_room_zombies :: "string \<Rightarrow> nat \<Rightarrow> int list option" where
  "parse_room_zombies p 0 = None"
| "parse_room_zombies p (Suc more_rooms) =
     (case strtol 10 p of
        None \<Rightarrow> None
      | Some (v, rest) \<Rightarrow>
          if \<not> long_range v \<or> v < 0 \<or> v \<ge> int MAX_PLAYERS then None
          else if more_rooms = 0 then (if rest = [] then Some [v] else None)
          else (case rest of
              c # cs \<Rightarrow> if c \<noteq> CHR '','' then None else map_option (Cons v) (parse_room_zombies cs more_rooms)
            | [] \<Rightarrow> None))"

section \<open>Text\<close>

definition printable :: "char \<Rightarrow> bool" where
  "printable c \<longleftrightarrow> \<not> (code c < 0x20 \<or> code c > 0x7E)"

text \<open>\<open>out_len\<close> is the size of the buffer, with the place of the final zero.\<close>

definition copy_printable :: "nat \<Rightarrow> string \<Rightarrow> nat \<Rightarrow> string option" where
  "copy_printable out_len text min_len =
     (if length text < min_len \<or> length text \<ge> out_len then None
      else if \<not> list_all printable text then None
      else Some text)"

definition valid_lobby_base :: "string \<Rightarrow> bool" where
  "valid_lobby_base text \<longleftrightarrow> take 8 text = ''https://'' \<or> take 7 text = ''http://''"

definition lobby_host_char :: "char \<Rightarrow> bool" where
  "lobby_host_char c \<longleftrightarrow> c = CHR ''.'' \<or> c = CHR ''-'' \<or> (0x30 \<le> code c \<and> code c \<le> 0x39) \<or>
     (0x41 \<le> code c \<and> code c \<le> 0x5A) \<or> (0x61 \<le> code c \<and> code c \<le> 0x7A)"

definition valid_lobby_host :: "string \<Rightarrow> bool" where
  "valid_lobby_host text \<longleftrightarrow> \<not> (length text = 0 \<or> length text > 63) \<and> list_all lobby_host_char text"

text \<open>\<open>strchr (at, ',')\<close> and \<open>strstr (text, "://")\<close>.\<close>

definition before_comma :: "string \<Rightarrow> string" where
  "before_comma t = takeWhile (\<lambda>c. c \<noteq> CHR '','') t"

definition after_comma :: "string \<Rightarrow> string option" where
  "after_comma t = (case dropWhile (\<lambda>c. c \<noteq> CHR '','') t of [] \<Rightarrow> None | c # cs \<Rightarrow> Some cs)"

fun has_scheme_mark :: "string \<Rightarrow> bool" where
  "has_scheme_mark [] = False"
| "has_scheme_mark (c # cs) = (take 3 (c # cs) = ''://'' \<or> has_scheme_mark cs)"

fun parse_lobby_room_names :: "string \<Rightarrow> nat \<Rightarrow> string list option" where
  "parse_lobby_room_names t 0 = None"
| "parse_lobby_room_names t (Suc more_rooms) =
     (let name = before_comma t in
      if length name < 2 \<or> length name > 32 then None
      else if \<not> list_all printable name then None
      else if more_rooms = 0 then (if after_comma t = None then Some [name] else None)
      else (case after_comma t of
          None \<Rightarrow> None
        | Some rest \<Rightarrow> map_option (Cons name) (parse_lobby_room_names rest more_rooms)))"

section \<open>The option loop\<close>

text \<open>The locals of \<open>main\<close>; an option not given is \<open>None\<close> where the C pointer is null.\<close>

record options =
  o_port_base :: int
  o_room_count :: int
  o_tick_hz :: int
  o_debug :: bool
  o_zombies :: int
  o_lag_ms :: int
  o_kill_limit :: int
  o_intermission_ms :: int
  o_no_human_grace_ms :: int
  o_brick_path :: string
  o_bind_addr :: "string option"
  o_room_zombies :: "string option"
  o_lobby_base :: "string option"
  o_lobby_client_url :: "string option"
  o_lobby_public_host :: "string option"
  o_lobby_game :: string
  o_lobby_region :: string
  o_lobby_room_names :: "string option"
  o_lobby_enabled :: bool
  o_lobby_creator_id :: int
  o_lobby_app_id :: int
  o_lobby_refresh_ms :: int
  o_lobby_timeout_ms :: int
  o_lobby_shutdown_ms :: int
  o_lobby_options_seen :: bool
  o_saw_port :: bool
  o_saw_port_base :: bool
  o_saw_zombies :: bool

definition default_options :: options where
  "default_options = \<lparr>o_port_base = 9000, o_room_count = 1, o_tick_hz = 10, o_debug = False,
     o_zombies = 1, o_lag_ms = 0, o_kill_limit = 5, o_intermission_ms = 15000,
     o_no_human_grace_ms = 60000, o_brick_path = ''server/brick_layout.txt'', o_bind_addr = None,
     o_room_zombies = None, o_lobby_base = None, o_lobby_client_url = None,
     o_lobby_public_host = None, o_lobby_game = ''Maze War'', o_lobby_region = ''us'',
     o_lobby_room_names = None, o_lobby_enabled = False, o_lobby_creator_id = 0x3022,
     o_lobby_app_id = 0x0F, o_lobby_refresh_ms = 240000, o_lobby_timeout_ms = 1500,
     o_lobby_shutdown_ms = 2000, o_lobby_options_seen = False, o_saw_port = False,
     o_saw_port_base = False, o_saw_zombies = False\<rparr>"

text \<open>How an option with a value ends: unknown option, bad value, or the new settings.\<close>

datatype option_result = NotAnOption | BadValue | Settings options

definition int_option :: "string \<Rightarrow> (int \<Rightarrow> options) \<Rightarrow> option_result" where
  "int_option v put = (case parse_int_arg v of None \<Rightarrow> BadValue | Some n \<Rightarrow> Settings (put n))"

definition hex_option :: "string \<Rightarrow> (int \<Rightarrow> options) \<Rightarrow> option_result" where
  "hex_option v put = (case parse_hex_or_decimal_arg v of None \<Rightarrow> BadValue | Some n \<Rightarrow> Settings (put n))"

definition game_option :: "string \<Rightarrow> string \<Rightarrow> options \<Rightarrow> option_result" where
  "game_option a v o1 =
     (if a = ''--port'' then int_option v (\<lambda>n. o1\<lparr>o_saw_port := True, o_port_base := n\<rparr>)
      else if a = ''--port-base'' then int_option v (\<lambda>n. o1\<lparr>o_saw_port_base := True, o_port_base := n\<rparr>)
      else if a = ''--room-count'' then int_option v (\<lambda>n. o1\<lparr>o_room_count := n\<rparr>)
      else if a = ''--bind'' then Settings (o1\<lparr>o_bind_addr := Some v\<rparr>)
      else if a = ''--tick-hz'' then int_option v (\<lambda>n. o1\<lparr>o_tick_hz := n\<rparr>)
      else if a = ''--zombies'' then int_option v (\<lambda>n. o1\<lparr>o_saw_zombies := True, o_zombies := n\<rparr>)
      else if a = ''--room-zombies'' then Settings (o1\<lparr>o_room_zombies := Some v\<rparr>)
      else if a = ''--brick'' then Settings (o1\<lparr>o_brick_path := v\<rparr>)
      else if a = ''--lag-ms'' then int_option v (\<lambda>n. o1\<lparr>o_lag_ms := n\<rparr>)
      else if a = ''--kill-limit'' then int_option v (\<lambda>n. o1\<lparr>o_kill_limit := n\<rparr>)
      else if a = ''--intermission-ms'' then int_option v (\<lambda>n. o1\<lparr>o_intermission_ms := n\<rparr>)
      else if a = ''--no-human-grace-ms'' then int_option v (\<lambda>n. o1\<lparr>o_no_human_grace_ms := n\<rparr>)
      else NotAnOption)"

definition lobby_option :: "string \<Rightarrow> string \<Rightarrow> options \<Rightarrow> option_result" where
  "lobby_option a v o0 =
     (let o1 = o0\<lparr>o_lobby_options_seen := True\<rparr> in
      if a = ''--lobby-base'' then Settings (o1\<lparr>o_lobby_base := Some v\<rparr>)
      else if a = ''--lobby-app-id'' \<or> a = ''--lobby-appkey'' then hex_option v (\<lambda>n. o1\<lparr>o_lobby_app_id := n\<rparr>)
      else if a = ''--lobby-creator-id'' then hex_option v (\<lambda>n. o1\<lparr>o_lobby_creator_id := n\<rparr>)
      else if a = ''--lobby-client-url'' then Settings (o1\<lparr>o_lobby_client_url := Some v\<rparr>)
      else if a = ''--lobby-public-host'' then Settings (o1\<lparr>o_lobby_public_host := Some v\<rparr>)
      else if a = ''--lobby-game'' then Settings (o1\<lparr>o_lobby_game := v\<rparr>)
      else if a = ''--lobby-region'' then Settings (o1\<lparr>o_lobby_region := v\<rparr>)
      else if a = ''--lobby-room-names'' then Settings (o1\<lparr>o_lobby_room_names := Some v\<rparr>)
      else if a = ''--lobby-refresh-ms'' then int_option v (\<lambda>n. o1\<lparr>o_lobby_refresh_ms := n\<rparr>)
      else if a = ''--lobby-timeout-ms'' then int_option v (\<lambda>n. o1\<lparr>o_lobby_timeout_ms := n\<rparr>)
      else if a = ''--lobby-shutdown-ms'' then int_option v (\<lambda>n. o1\<lparr>o_lobby_shutdown_ms := n\<rparr>)
      else NotAnOption)"

definition value_option :: "string \<Rightarrow> string \<Rightarrow> options \<Rightarrow> option_result" where
  "value_option a v o1 = (case game_option a v o1 of NotAnOption \<Rightarrow> lobby_option a v o1 | res \<Rightarrow> res)"

text \<open>The outcome of the loop: the usage text and status 1, the help text, or the settings.\<close>

datatype parse_outcome = BadArgs | ShowHelp | Parsed options

definition flag_option :: "string \<Rightarrow> options \<Rightarrow> parse_outcome" where
  "flag_option a o1 =
     (if a = ''--lobby-enabled'' then Parsed (o1\<lparr>o_lobby_enabled := True\<rparr>)
      else if a = ''--debug'' then Parsed (o1\<lparr>o_debug := True\<rparr>)
      else if a = ''--help'' then ShowHelp
      else BadArgs)"

fun parse_args :: "string list \<Rightarrow> options \<Rightarrow> parse_outcome" where
  "parse_args [] o1 = Parsed o1"
| "parse_args [a] o1 = flag_option a o1"
| "parse_args (a # v # rest) o1 =
     (case value_option a v o1 of
        Settings o2 \<Rightarrow> parse_args rest o2
      | BadValue \<Rightarrow> BadArgs
      | NotAnOption \<Rightarrow> (case flag_option a o1 of Parsed o2 \<Rightarrow> parse_args (v # rest) o2 | res \<Rightarrow> res))"

section \<open>Checks and configurations\<close>

definition out_of_range :: "options \<Rightarrow> bool" where
  "out_of_range o1 \<longleftrightarrow>
     o_room_count o1 < 1 \<or> o_room_count o1 > 64 \<or> o_port_base o1 < 1 \<or>
     o_port_base o1 > 65535 \<or> o_room_count o1 - 1 > 65535 - o_port_base o1 \<or>
     o_tick_hz o1 < 1 \<or> o_tick_hz o1 > 1000 \<or> o_zombies o1 < 0 \<or>
     o_zombies o1 \<ge> int MAX_PLAYERS \<or> o_kill_limit o1 < 1 \<or> o_kill_limit o1 > 10 \<or>
     o_intermission_ms o1 < 100 \<or> o_intermission_ms o1 > 600000 \<or>
     o_no_human_grace_ms o1 < 100 \<or> o_no_human_grace_ms o1 > 600000 \<or>
     o_lobby_refresh_ms o1 < 1000 \<or> o_lobby_refresh_ms o1 > 3600000 \<or>
     o_lobby_timeout_ms o1 < 100 \<or> o_lobby_timeout_ms o1 > 60000 \<or>
     o_lobby_shutdown_ms o1 < 100 \<or> o_lobby_shutdown_ms o1 > 60000 \<or>
     (o_saw_port o1 \<and> (o_saw_port_base o1 \<or> o_room_count o1 \<noteq> 1)) \<or>
     (o_saw_zombies o1 \<and> o_room_zombies o1 \<noteq> None) \<or>
     (\<not> o_lobby_enabled o1 \<and> o_lobby_options_seen o1)"

record lobby_config =
  lc_creator_id :: nat
  lc_app_id :: nat
  lc_refresh_ms :: int
  lc_timeout_ms :: int
  lc_shutdown_ms :: int
  lc_base_url :: string
  lc_public_host :: string
  lc_game :: string
  lc_client_url :: string
  lc_region :: string
  lc_room_names :: "string list"

text \<open>A decimal number as \<open>%d\<close> and \<open>%u\<close> print it.\<close>

definition digit_char :: "nat \<Rightarrow> char" where
  "digit_char d = char_of (0x30 + d)"

fun decimal :: "nat \<Rightarrow> string" where
  "decimal n = (if n < 10 then [digit_char n] else decimal (n div 10) @ [digit_char (n mod 10)])"

declare decimal.simps [simp del]

definition default_room_name :: "nat \<Rightarrow> string" where
  "default_room_name i = take 32 (''Maze War Room '' @ decimal (i + 1))"

definition lobby_texts :: "options \<Rightarrow> (string \<times> string \<times> string \<times> string \<times> string) option" where
  "lobby_texts o1 =
     (case (o_lobby_base o1, o_lobby_client_url o1, o_lobby_public_host o1) of
        (Some base, Some client_url, Some host) \<Rightarrow>
          if o_lobby_creator_id o1 < 1 \<or> o_lobby_creator_id o1 > 65535 \<or>
             o_lobby_app_id o1 < 1 \<or> o_lobby_app_id o1 > 255 \<or>
             \<not> valid_lobby_base base \<or> \<not> valid_lobby_host host \<or> \<not> has_scheme_mark client_url
          then None
          else (case (copy_printable 257 base 8, copy_printable 64 host 1, copy_printable 65 client_url 1,
                      copy_printable 17 (o_lobby_game o1) 2, copy_printable 3 (o_lobby_region o1) 2) of
              (Some b, Some h, Some c, Some g, Some r) \<Rightarrow> Some (b, h, c, g, r)
            | _ \<Rightarrow> None)
      | _ \<Rightarrow> None)"

definition lobby_names :: "options \<Rightarrow> string list option" where
  "lobby_names o1 =
     (let rooms = nat (o_room_count o1) in
      case o_lobby_room_names o1 of
        Some text \<Rightarrow> parse_lobby_room_names text rooms
      | None \<Rightarrow> Some (map default_room_name [0..<rooms]))"

definition lobby_setup :: "options \<Rightarrow> lobby_config option" where
  "lobby_setup o1 =
     (case (lobby_texts o1, lobby_names o1) of
        (Some (b, h, c, g, r), Some names) \<Rightarrow>
          Some \<lparr>lc_creator_id = nat (o_lobby_creator_id o1), lc_app_id = nat (o_lobby_app_id o1),
            lc_refresh_ms = o_lobby_refresh_ms o1, lc_timeout_ms = o_lobby_timeout_ms o1,
            lc_shutdown_ms = o_lobby_shutdown_ms o1, lc_base_url = b, lc_public_host = h, lc_game = g,
            lc_client_url = c, lc_region = r, lc_room_names = names\<rparr>
      | _ \<Rightarrow> None)"

definition room_zombie_counts :: "options \<Rightarrow> int list option" where
  "room_zombie_counts o1 =
     (case o_room_zombies o1 of
        None \<Rightarrow> Some (replicate (nat (o_room_count o1)) (o_zombies o1))
      | Some text \<Rightarrow> parse_room_zombies text (nat (o_room_count o1)))"

definition room_config_of :: "options \<Rightarrow> int list \<Rightarrow> nat \<Rightarrow> room_config" where
  "room_config_of o1 zs i = \<lparr>cfg_port = o_port_base o1 + int i, cfg_zombies = zs ! i,
     cfg_tick_hz = o_tick_hz o1, cfg_lag_ms = o_lag_ms o1, cfg_kill_limit = o_kill_limit o1,
     cfg_intermission_ms = o_intermission_ms o1, cfg_no_human_grace_ms = o_no_human_grace_ms o1\<rparr>"

text \<open>
  What \<open>main\<close> does up to the first \<open>init_room\<close>: exit with a status, or serve. \<open>bind_ok\<close> is the
  answer of \<open>inet_pton\<close>. Allocation is taken to succeed.
\<close>

datatype startup = ExitWith nat | Serve "room_config list" "lobby_config option"

definition startup_of :: "(string \<Rightarrow> bool) \<Rightarrow> options \<Rightarrow> startup" where
  "startup_of bind_ok o1 =
     (if out_of_range o1 then ExitWith 1
      else if o_lobby_enabled o1 \<and> lobby_setup o1 = None then ExitWith 1
      else case room_zombie_counts o1 of
          None \<Rightarrow> ExitWith 1
        | Some zs \<Rightarrow>
            (case o_bind_addr o1 of
               Some addr \<Rightarrow> if \<not> bind_ok addr then ExitWith 1
                 else Serve (map (room_config_of o1 zs) [0..<nat (o_room_count o1)])
                        (if o_lobby_enabled o1 then lobby_setup o1 else None)
             | None \<Rightarrow> Serve (map (room_config_of o1 zs) [0..<nat (o_room_count o1)])
                        (if o_lobby_enabled o1 then lobby_setup o1 else None)))"

definition server_startup :: "(string \<Rightarrow> bool) \<Rightarrow> string list \<Rightarrow> startup" where
  "server_startup bind_ok args =
     (case parse_args args default_options of
        BadArgs \<Rightarrow> ExitWith 1
      | ShowHelp \<Rightarrow> ExitWith 0
      | Parsed o1 \<Rightarrow> startup_of bind_ok o1)"


section \<open>Numbers can be written\<close>

lemma digit_in_char: "d < 10 \<Longrightarrow> digit_in 10 (digit_char d) = Some d"
  by (simp add: digit_in_def digit_char_def Let_def of_char_of)

lemma digits_append_one:
  "digits b xs acc = (v, []) \<Longrightarrow> digit_in b c = Some d \<Longrightarrow> digits b (xs @ [c]) acc = (v * int b + int d, [])"
  by (induction xs arbitrary: acc) (auto split: option.splits)

lemma digits_decimal: "digits 10 (decimal n) 0 = (int n, [])"
proof (induction n rule: decimal.induct)
  case (1 n)
  show ?case
  proof (cases "n < 10")
    case True
    then show ?thesis by (subst decimal.simps) (simp add: digit_in_char)
  next
    case False
    have "digits 10 (decimal (n div 10) @ [digit_char (n mod 10)]) 0 = (int (n div 10) * int 10 + int (n mod 10), [])"
      by (rule digits_append_one [OF 1 [OF False]]) (simp add: digit_in_char)
    moreover have "int (n div 10) * int 10 + int (n mod 10) = int n" by (simp add: zdiv_int zmod_int)
    ultimately show ?thesis using False by (subst decimal.simps) simp
  qed
qed

lemma decimal_head: "\<exists>d cs. d < 10 \<and> decimal n = digit_char d # cs"
proof (induction n rule: decimal.induct)
  case (1 n)
  show ?case
  proof (cases "n < 10")
    case True
    then show ?thesis by (subst decimal.simps) auto
  next
    case False
    with 1 obtain d cs where "d < 10" "decimal (n div 10) = digit_char d # cs" by blast
    then show ?thesis using False by (subst decimal.simps) auto
  qed
qed

lemma digit_char_plain:
  assumes "d < 10"
  shows "\<not> c_space (digit_char d)" "digit_char d \<noteq> CHR ''-''" "digit_char d \<noteq> CHR ''+''" "printable (digit_char d)"
proof -
  have n: "code (digit_char d) = 0x30 + d" using assms by (simp add: digit_char_def of_char_of)
  show "\<not> c_space (digit_char d)" "printable (digit_char d)"
    using assms by (simp_all add: n c_space_def printable_def)
  have "code (CHR ''-'') = 45" "code (CHR ''+'') = 43" by simp_all
  then show "digit_char d \<noteq> CHR ''-''" "digit_char d \<noteq> CHR ''+''" using n by auto
qed

lemma digits_stop:
  "digits b xs acc = (v, []) \<Longrightarrow> rest = [] \<or> digit_in b (hd rest) = None \<Longrightarrow> digits b (xs @ rest) acc = (v, rest)"
proof (induction xs arbitrary: acc)
  case Nil
  then show ?case by (cases rest) simp_all
qed (auto split: option.splits)

lemma strtol_decimal:
  assumes "rest = [] \<or> digit_in 10 (hd rest) = None"
  shows "strtol 10 (decimal n @ rest) = Some (int n, rest)"
proof -
  obtain d cs where d: "d < 10" and t: "decimal n = digit_char d # cs" using decimal_head by blast
  have "sign_of (dropWhile c_space (decimal n @ rest)) = (False, decimal n @ rest)"
    using digit_char_plain [OF d] by (simp add: t sign_of_def)
  moreover have "digit_in 10 (hd (decimal n @ rest)) = Some d" "decimal n @ rest \<noteq> []"
    by (simp_all add: t digit_in_char d)
  ultimately show ?thesis using digits_stop [OF digits_decimal assms] by (simp add: strtol_def radix_def)
qed

lemmas strtol_decimal_end = strtol_decimal [of "[]", simplified]

text \<open>A list of zombie counts as the usage text describes it.\<close>

fun comma_list :: "nat list \<Rightarrow> string" where
  "comma_list [] = []"
| "comma_list [z] = decimal z"
| "comma_list (z # zs) = decimal z @ CHR '','' # comma_list zs"

lemma parse_room_zombies_comma_list:
  "zs \<noteq> [] \<Longrightarrow> list_all (\<lambda>z. z < 4) zs \<Longrightarrow> parse_room_zombies (comma_list zs) (length zs) = Some (map int zs)"
proof (induction zs rule: comma_list.induct)
  case (3 z y zs)
  have "strtol 10 (decimal z @ CHR '','' # comma_list (y # zs)) = Some (int z, CHR '','' # comma_list (y # zs))"
    by (rule strtol_decimal) (simp add: digit_in_def)
  with 3 show ?case by (simp add: long_range_def)
qed (simp_all add: strtol_decimal_end long_range_def)

lemma parse_int_arg_decimal:
  "parse_int_arg (decimal n) = (if n \<le> 2147483647 then Some (int n) else None)"
  by (simp add: parse_int_arg_def strtol_decimal_end long_range_def)

lemma decimal_printable: "list_all printable (decimal n)"
proof (induction n rule: decimal.induct)
  case (1 n)
  show ?case
  proof (cases "n < 10")
    case True
    then show ?thesis by (subst decimal.simps) (simp add: digit_char_plain)
  next
    case False
    with 1 show ?thesis by (subst decimal.simps) (simp add: digit_char_plain)
  qed
qed

lemma decimal_length_less: "n < 10 ^ k \<Longrightarrow> 0 < k \<Longrightarrow> length (decimal n) \<le> k"
proof (induction k arbitrary: n)
  case (Suc k)
  show ?case
  proof (cases "n < 10")
    case True
    then show ?thesis by (subst decimal.simps) simp
  next
    case False
    then have "0 < k" using Suc.prems(1) by (cases k) simp_all
    moreover have "n div 10 < 10 ^ k" using Suc.prems(1) by simp
    ultimately show ?thesis using False Suc.IH by (subst decimal.simps) simp
  qed
qed simp

section \<open>Accepted settings\<close>

text \<open>What the lobby publisher relies on, for \<open>n\<close> rooms.\<close>

definition lobby_ok :: "nat \<Rightarrow> lobby_config \<Rightarrow> bool" where
  "lobby_ok n l \<longleftrightarrow>
     8 \<le> length (lc_base_url l) \<and> length (lc_base_url l) \<le> 256 \<and> list_all printable (lc_base_url l) \<and>
     length (lc_public_host l) \<le> 63 \<and> list_all printable (lc_public_host l) \<and>
     length (lc_client_url l) \<le> 64 \<and> list_all printable (lc_client_url l) \<and>
     length (lc_game l) \<le> 16 \<and> list_all printable (lc_game l) \<and>
     length (lc_region l) = 2 \<and> list_all printable (lc_region l) \<and>
     1 \<le> lc_app_id l \<and> lc_app_id l \<le> 255 \<and> 1000 \<le> lc_refresh_ms l \<and> 100 \<le> lc_timeout_ms l \<and>
     lc_timeout_ms l \<le> 60000 \<and> 100 \<le> lc_shutdown_ms l \<and> lc_shutdown_ms l \<le> 60000 \<and>
     length (lc_room_names l) = n \<and>
     list_all (\<lambda>t. 2 \<le> length t \<and> length t \<le> 32 \<and> list_all printable t) (lc_room_names l)"

lemma copy_printable_Some:
  "copy_printable n t k = Some u \<longleftrightarrow> u = t \<and> k \<le> length t \<and> length t < n \<and> list_all printable t"
  by (auto simp: copy_printable_def)

lemma parse_lobby_room_names_ok:
  "parse_lobby_room_names t n = Some names \<Longrightarrow> length names = n \<and>
     list_all (\<lambda>t. 2 \<le> length t \<and> length t \<le> 32 \<and> list_all printable t) names"
  by (induction t n arbitrary: names rule: parse_lobby_room_names.induct)
    (auto simp: Let_def split: if_splits option.splits)

lemma parse_room_zombies_ok:
  "parse_room_zombies t n = Some zs \<Longrightarrow> length zs = n \<and> list_all (\<lambda>z. 0 \<le> z \<and> z < 4) zs"
  by (induction t n arbitrary: zs rule: parse_room_zombies.induct)
    (auto split: if_splits option.splits list.splits)

lemma default_room_name_ok: "2 \<le> length (default_room_name i) \<and> length (default_room_name i) \<le> 32 \<and>
    list_all printable (default_room_name i)"
proof -
  have "list_all printable (''Maze War Room '' @ decimal (i + 1))"
    using decimal_printable [of "i + 1"] by (simp add: printable_def)
  then have "list_all printable (default_room_name i)"
    unfolding default_room_name_def list_all_iff using in_set_takeD by metis
  then show ?thesis by (simp add: default_room_name_def)
qed

lemma lobby_names_ok:
  "lobby_names o1 = Some names \<Longrightarrow> length names = nat (o_room_count o1) \<and>
     list_all (\<lambda>t. 2 \<le> length t \<and> length t \<le> 32 \<and> list_all printable t) names"
  using parse_lobby_room_names_ok default_room_name_ok
  by (auto simp: lobby_names_def Let_def list_all_iff split: option.splits)

lemma lobby_texts_ok:
  assumes "lobby_texts o1 = Some (b, h, c, g, r)"
  shows "8 \<le> length b \<and> length b \<le> 256 \<and> list_all printable b \<and> length h \<le> 63 \<and> list_all printable h \<and>
    length c \<le> 64 \<and> list_all printable c \<and> length g \<le> 16 \<and> list_all printable g \<and>
    length r = 2 \<and> list_all printable r \<and> 1 \<le> nat (o_lobby_app_id o1) \<and> nat (o_lobby_app_id o1) \<le> 255"
  using assms by (auto simp: lobby_texts_def copy_printable_Some split: option.splits if_splits)

lemma lobby_setup_ok:
  assumes "lobby_setup o1 = Some l" "\<not> out_of_range o1"
  shows "lobby_ok (nat (o_room_count o1)) l"
proof -
  obtain b h c g r names where t: "lobby_texts o1 = Some (b, h, c, g, r)" and n: "lobby_names o1 = Some names"
    using assms(1) by (auto simp: lobby_setup_def split: option.splits prod.splits)
  then have "l = \<lparr>lc_creator_id = nat (o_lobby_creator_id o1), lc_app_id = nat (o_lobby_app_id o1),
      lc_refresh_ms = o_lobby_refresh_ms o1, lc_timeout_ms = o_lobby_timeout_ms o1,
      lc_shutdown_ms = o_lobby_shutdown_ms o1, lc_base_url = b, lc_public_host = h, lc_game = g,
      lc_client_url = c, lc_region = r, lc_room_names = names\<rparr>"
    using assms(1) by (simp add: lobby_setup_def)
  then show ?thesis
    using lobby_texts_ok [OF t] lobby_names_ok [OF n] assms(2) by (simp add: lobby_ok_def out_of_range_def)
qed

lemma room_zombie_counts_ok:
  assumes "room_zombie_counts o1 = Some zs" "\<not> out_of_range o1" "i < nat (o_room_count o1)"
  shows "0 \<le> zs ! i \<and> zs ! i < 4"
  using assms parse_room_zombies_ok [of _ _ zs]
  by (auto simp: room_zombie_counts_def out_of_range_def list_all_length split: option.splits)

lemma startup_of_Serve:
  assumes "startup_of bind_ok o1 = Serve cfgs lobby"
  obtains zs where "\<not> out_of_range o1" "room_zombie_counts o1 = Some zs"
    "cfgs = map (room_config_of o1 zs) [0..<nat (o_room_count o1)]"
    "lobby = (if o_lobby_enabled o1 then lobby_setup o1 else None)"
    "o_lobby_enabled o1 \<Longrightarrow> lobby_setup o1 \<noteq> None"
  using assms by (auto simp: startup_of_def split: if_splits option.splits)

text \<open>
  C19: Only sound settings are served. Whatever the command line, if the server starts then there are
  1 to 64 rooms, every room's zombies, kill limit, tick rate and periods are in the ranges the game
  relies on, the rooms listen on distinct valid ports, and the lobby texts fit their buffers with
  one name per room.
\<close>

theorem accepted_options_sound:
  assumes "server_startup bind_ok args = Serve cfgs lobby"
  shows "cfgs \<noteq> [] \<and> length cfgs \<le> 64 \<and>
    list_all (\<lambda>cfg. config_ok cfg \<and> 1 \<le> cfg_tick_hz cfg \<and> cfg_tick_hz cfg \<le> 1000 \<and>
      1 \<le> cfg_port cfg \<and> cfg_port cfg \<le> 65535) cfgs \<and>
    distinct (map cfg_port cfgs) \<and> pred_option (lobby_ok (length cfgs)) lobby"
proof -
  obtain o1 where run: "startup_of bind_ok o1 = Serve cfgs lobby"
    using assms by (auto simp: server_startup_def split: parse_outcome.splits)
  obtain zs where o1: "\<not> out_of_range o1" and zs: "room_zombie_counts o1 = Some zs"
    and cfgs: "cfgs = map (room_config_of o1 zs) [0..<nat (o_room_count o1)]"
    and lobby: "lobby = (if o_lobby_enabled o1 then lobby_setup o1 else None)"
    using startup_of_Serve [OF run] by metis
  have "config_ok (room_config_of o1 zs i) \<and> 1 \<le> cfg_tick_hz (room_config_of o1 zs i) \<and>
      cfg_tick_hz (room_config_of o1 zs i) \<le> 1000 \<and> 1 \<le> cfg_port (room_config_of o1 zs i) \<and>
      cfg_port (room_config_of o1 zs i) \<le> 65535" if "i < nat (o_room_count o1)" for i
  proof -
    have "int i < o_room_count o1" using that by simp
    then show ?thesis using o1 room_zombie_counts_ok [OF zs o1 that]
      by (simp add: config_ok_def room_config_of_def out_of_range_def)
  qed
  then have "list_all (\<lambda>cfg. config_ok cfg \<and> 1 \<le> cfg_tick_hz cfg \<and> cfg_tick_hz cfg \<le> 1000 \<and>
      1 \<le> cfg_port cfg \<and> cfg_port cfg \<le> 65535) cfgs"
    by (simp add: cfgs list_all_iff)
  moreover have "distinct (map cfg_port cfgs)"
    by (simp add: cfgs o_def room_config_of_def distinct_map inj_on_def)
  moreover have "pred_option (lobby_ok (length cfgs)) lobby"
    using lobby_setup_ok o1 by (auto simp: lobby cfgs pred_option_def)
  moreover have "cfgs \<noteq> [] \<and> length cfgs \<le> 64" using o1 by (simp add: cfgs out_of_range_def nat_le_iff)
  ultimately show ?thesis by blast
qed

theorem accepted_options_sound_witness:
  "list_all config_ok [room_config_of (default_options\<lparr>o_saw_zombies := True, o_zombies := 3\<rparr>) [3] 0]"
proof -
  have "server_startup (\<lambda>_. True) [''--zombies'', decimal 3] =
      Serve [room_config_of (default_options\<lparr>o_saw_zombies := True, o_zombies := 3\<rparr>) [3] 0] None"
    by (simp add: server_startup_def value_option_def game_option_def int_option_def
        parse_int_arg_decimal startup_of_def out_of_range_def default_options_def room_zombie_counts_def)
  from accepted_options_sound [OF this] show ?thesis by simp
qed

text \<open>
  Settings are read as written. A decimal number is accepted, with its own value, exactly when it
  fits in a C int; and a list of zombie counts separated by commas is read back room by room.
\<close>

theorem settings_read_back:
  assumes "zs \<noteq> []" "list_all (\<lambda>z. z < 4) zs"
  shows "parse_int_arg (decimal n) = (if n \<le> 2147483647 then Some (int n) else None) \<and>
    parse_room_zombies (comma_list zs) (length zs) = Some (map int zs)"
  using parse_int_arg_decimal parse_room_zombies_comma_list [OF assms] by simp

theorem settings_read_back_witness:
  "parse_room_zombies (comma_list [2, 0, 3]) (length [2 :: nat, 0, 3]) = Some (map int [2, 0, 3])"
proof -
  have "[2 :: nat, 0, 3] \<noteq> []" "list_all (\<lambda>z. z < 4) [2 :: nat, 0, 3]" by simp_all
  from settings_read_back [OF this] show ?thesis by (rule conjunct2)
qed

end
