(* ===== verification/Lobby.thy ===== *)
theory Lobby
  imports Options "HOL-Library.Monad_Syntax"
begin

text \<open>
  The lobby publisher of \<^verbatim>\<open>server/lobby_publisher.c\<close>: the JSON request it builds, the choice of
  the next room, the retry periods, and the worker thread beside the game loop. \<^verbatim>\<open>curl\<close> is the
  answer to a request. Lemmas: requests always fit and read back, the worker publishes the latest
  counts, keeps its retry period in bounds and ends after a stop.
\<close>

section \<open>The request\<close>

abbreviation (input) LOBBY_JSON_MAX :: nat where "LOBBY_JSON_MAX \<equiv> 1024"
abbreviation (input) LOBBY_RETRY_MIN_MS :: "32 word" where "LOBBY_RETRY_MIN_MS \<equiv> 1000"
abbreviation (input) LOBBY_RETRY_MAX_MS :: "32 word" where "LOBBY_RETRY_MAX_MS \<equiv> 30000"

definition quote :: char where "quote = CHR 0x22"
definition backslash :: char where "backslash = CHR 0x5C"

text \<open>The C literals, with a back-quote in the place of each escaped quote.\<close>

definition quoted :: "string \<Rightarrow> string" where
  "quoted t = map (\<lambda>c. if c = CHR ''`'' then quote else c) t"

definition hex_char :: "nat \<Rightarrow> char" where
  "hex_char d = (if d < 10 then char_of (0x30 + d) else char_of (0x57 + d))"

definition json_escape :: "char \<Rightarrow> string" where
  "json_escape c =
     (if c = quote then [backslash, quote]
      else if c = backslash then [backslash, backslash]
      else if code c = 0x08 then [backslash, CHR ''b'']
      else if code c = 0x0C then [backslash, CHR ''f'']
      else if code c = 0x0A then [backslash, CHR ''n'']
      else if code c = 0x0D then [backslash, CHR ''r'']
      else if code c = 0x09 then [backslash, CHR ''t'']
      else if code c < 0x20
      then [backslash, CHR ''u'', CHR ''0'', CHR ''0'', hex_char (code c div 16), hex_char (code c mod 16)]
      else [c])"

text \<open>\<open>out\<close> is the text up to \<open>used\<close>; \<open>None\<close> is the answer -1.\<close>

fun json_append :: "nat \<Rightarrow> string \<Rightarrow> string \<Rightarrow> string option" where
  "json_append out_len out [] = Some out"
| "json_append out_len out (c # cs) =
     (let escaped = json_escape c in
      if length out + length escaped \<ge> out_len then None
      else json_append out_len (out @ escaped) cs)"

definition json_field :: "nat \<Rightarrow> string \<Rightarrow> string \<Rightarrow> string \<Rightarrow> string option" where
  "json_field out_len out pre v =
     (if length out + length pre \<ge> out_len then None else json_append out_len (out @ pre) v)"

text \<open>\<open>snprintf\<close> at the end of the text, which fails when the text would not fit.\<close>

definition json_printf :: "nat \<Rightarrow> string \<Rightarrow> string \<Rightarrow> string option" where
  "json_printf out_len out text = (if length text \<ge> out_len - length out then None else Some (out @ text))"

definition lobby_url :: "lobby_config \<Rightarrow> string" where
  "lobby_url cfg = lc_base_url cfg @ (if last (lc_base_url cfg) = CHR ''/'' then ''server'' else ''/server'')"

definition lobby_serverurl :: "lobby_config \<Rightarrow> nat \<Rightarrow> string" where
  "lobby_serverurl cfg port = ''tcp://'' @ lc_public_host cfg @ '':'' @ decimal port"

definition make_request :: "lobby_config \<Rightarrow> nat \<Rightarrow> nat \<Rightarrow> nat \<Rightarrow> bool \<Rightarrow> nat \<Rightarrow> nat \<Rightarrow> (string \<times> string) option" where
  "make_request cfg room_index port curplayers offline url_len json_len =
     (let url = lobby_url cfg; serverurl = lobby_serverurl cfg port in
      if length url \<ge> url_len then None
      else if length serverurl \<ge> 87 then None
      else do {
        j1 \<leftarrow> json_field json_len [] (quoted ''{`game`:`'') (lc_game cfg);
        j2 \<leftarrow> json_field json_len j1 (quoted ''`,`appkey`:'') [];
        j3 \<leftarrow> json_printf json_len j2 (decimal (lc_app_id cfg) @ quoted '',`server`:`'');
        j4 \<leftarrow> json_append json_len j3 (lc_room_names cfg ! room_index);
        j5 \<leftarrow> json_field json_len j4 (quoted ''`,`region`:`'') (lc_region cfg);
        j6 \<leftarrow> json_field json_len j5 (quoted ''`,`serverurl`:`'') serverurl;
        j7 \<leftarrow> json_field json_len j6 (quoted ''`,`status`:`'') (if offline then ''offline'' else ''online'');
        j8 \<leftarrow> json_printf json_len j7 (quoted ''`,`maxplayers`:4,`curplayers`:'' @
          decimal (if offline then 0 else curplayers) @ quoted '',`clients`:[{`platform`:`atari`,`url`:`'');
        j9 \<leftarrow> json_append json_len j8 (lc_client_url cfg);
        (if length j9 + 4 \<ge> json_len then None else Some (url, j9 @ quoted ''`}]}''))
      })"

section \<open>The rooms of the publisher\<close>

record lobby_room =
  lr_port :: int
  lr_curplayers :: int
  lr_dirty :: bool
  lr_offline_sent :: bool
  lr_next_attempt_ms :: u64
  lr_retry_ms :: "32 word"

text \<open>\<open>room_count\<close> is the length of the list of rooms.\<close>

record publisher =
  pb_config :: lobby_config
  pb_rooms :: "lobby_room list"
  pb_started :: bool
  pb_stopping :: bool
  pb_shutdown_deadline_ms :: u64

definition upd_lobby_room :: "nat \<Rightarrow> (lobby_room \<Rightarrow> lobby_room) \<Rightarrow> publisher \<Rightarrow> publisher" where
  "upd_lobby_room i f p = p\<lparr>pb_rooms := modify i f (pb_rooms p)\<rparr>"

text \<open>\<open>thread_ok\<close> is the answer of the thread library.\<close>

definition lobby_publisher_start :: "lobby_config \<Rightarrow> int list \<Rightarrow> bool \<Rightarrow> publisher option" where
  "lobby_publisher_start cfg ports thread_ok =
     (if length ports < 1 \<or> length ports > 64 \<or> \<not> thread_ok then None
      else Some \<lparr>pb_config = cfg,
        pb_rooms = map (\<lambda>port. \<lparr>lr_port = port, lr_curplayers = 0, lr_dirty = True, lr_offline_sent = False,
                                 lr_next_attempt_ms = 0, lr_retry_ms = LOBBY_RETRY_MIN_MS\<rparr>) ports,
        pb_started = True, pb_stopping = False, pb_shutdown_deadline_ms = 0\<rparr>)"

definition lobby_publisher_submit :: "int \<Rightarrow> int \<Rightarrow> publisher \<Rightarrow> publisher" where
  "lobby_publisher_submit room_index curplayers p =
     (if \<not> pb_started p \<or> room_index < 0 \<or> room_index \<ge> int (length (pb_rooms p)) then p
      else let c0 = (if curplayers < 0 then 0 else curplayers);
               c = (if c0 > 4 then 4 else c0); i = nat room_index in
        if \<not> pb_stopping p \<and> lr_curplayers (pb_rooms p ! i) \<noteq> c
        then upd_lobby_room i (\<lambda>r. r\<lparr>lr_curplayers := c, lr_dirty := True\<rparr>) p
        else p)"

text \<open>\<open>lobby_publisher_stop\<close> up to its wait for the worker, and after it.\<close>

definition lobby_publisher_stop :: "u64 \<Rightarrow> publisher \<Rightarrow> publisher" where
  "lobby_publisher_stop now p =
     (if \<not> pb_started p then p
      else p\<lparr>pb_stopping := True, pb_shutdown_deadline_ms := now + of_int (lc_shutdown_ms (pb_config p))\<rparr>)"

definition lobby_publisher_joined :: "publisher \<Rightarrow> publisher" where
  "lobby_publisher_joined p = p\<lparr>pb_started := False\<rparr>"

fun first_index :: "('a \<Rightarrow> bool) \<Rightarrow> 'a list \<Rightarrow> nat option" where
  "first_index P [] = None"
| "first_index P (x # xs) = (if P x then Some 0 else map_option Suc (first_index P xs))"

definition pick_online_request :: "u64 \<Rightarrow> publisher \<Rightarrow> (nat \<times> publisher) option" where
  "pick_online_request now p =
     map_option (\<lambda>i. (i, upd_lobby_room i (\<lambda>r. r\<lparr>lr_dirty := False\<rparr>) p))
       (first_index (\<lambda>r. lr_dirty r \<or> now \<ge> lr_next_attempt_ms r) (pb_rooms p))"

section \<open>The worker thread\<close>

text \<open>
  Between its two critical sections the worker holds a request: the room, the count and status
  it carries, the time limit, and the text if it could be built.
\<close>

record request =
  rq_room :: nat
  rq_curplayers :: int
  rq_offline :: bool
  rq_timeout_ms :: int
  rq_text :: "(string \<times> string) option"

datatype worker = Waiting | Posting request | Ended

definition request_for :: "publisher \<Rightarrow> nat \<Rightarrow> bool \<Rightarrow> int \<Rightarrow> request" where
  "request_for p i offline timeout =
     (let r = pb_rooms p ! i in
      \<lparr>rq_room = i, rq_curplayers = lr_curplayers r, rq_offline = offline, rq_timeout_ms = timeout,
       rq_text = make_request (pb_config p) i (nat (lr_port r)) (nat (lr_curplayers r)) offline 272 LOBBY_JSON_MAX\<rparr>)"

definition offline_timeout :: "u64 \<Rightarrow> publisher \<Rightarrow> int" where
  "offline_timeout now p =
     (let left = pb_shutdown_deadline_ms p - now; limit = lc_timeout_ms (pb_config p);
          t = (if left < of_int limit then uint left else limit) in
      if t < 1 then 1 else t)"

text \<open>The first critical section of an iteration.\<close>

definition next_request :: "u64 \<Rightarrow> publisher \<Rightarrow> worker \<times> publisher" where
  "next_request now p =
     (if pb_stopping p then
        if now \<ge> pb_shutdown_deadline_ms p then (Ended, p)
        else (case first_index (\<lambda>r. \<not> lr_offline_sent r) (pb_rooms p) of
            None \<Rightarrow> (Ended, p)
          | Some i \<Rightarrow> let q = upd_lobby_room i (\<lambda>r. r\<lparr>lr_offline_sent := True\<rparr>) p in
              (Posting (request_for q i True (offline_timeout now p)), q))
      else (case pick_online_request now p of
          None \<Rightarrow> (Waiting, p)
        | Some (i, q) \<Rightarrow> (Posting (request_for q i False (lc_timeout_ms (pb_config q))), q)))"

text \<open>The second one, with the answer of \<open>post_json\<close>, which is not asked without a text.\<close>

definition note_result :: "u64 \<Rightarrow> bool \<Rightarrow> int \<Rightarrow> lobby_room \<Rightarrow> lobby_room" where
  "note_result now ok refresh_ms r =
     (if ok then r\<lparr>lr_retry_ms := LOBBY_RETRY_MIN_MS, lr_next_attempt_ms := now + of_int refresh_ms\<rparr>
      else let retry = (if lr_retry_ms r \<noteq> 0 then lr_retry_ms r else LOBBY_RETRY_MIN_MS) in
        r\<lparr>lr_next_attempt_ms := now + ucast retry,
          lr_retry_ms := (if retry < LOBBY_RETRY_MAX_MS div 2 then retry * 2 else LOBBY_RETRY_MAX_MS)\<rparr>)"

definition finish_request :: "u64 \<Rightarrow> bool \<Rightarrow> request \<Rightarrow> publisher \<Rightarrow> publisher" where
  "finish_request now posted q p =
     (if \<not> rq_offline q
      then upd_lobby_room (rq_room q)
             (note_result now (rq_text q \<noteq> None \<and> posted) (lc_refresh_ms (pb_config p))) p
      else p)"

text \<open>
  The two threads: the game loop submits and stops while the worker runs its critical sections.
  \<open>ls_log\<close> records the requests handed to \<^verbatim>\<open>post_json\<close>, and \<open>ls_done\<close> those it has answered,
  with the time and whether the lobby took them; latest last.
\<close>

record lobby_state =
  ls_publisher :: publisher
  ls_worker :: worker
  ls_log :: "request list"
  ls_done :: "(request \<times> u64 \<times> bool) list"

inductive worker_step :: "lobby_state \<Rightarrow> lobby_state \<Rightarrow> bool" where
  pick: "ls_worker s = Waiting \<Longrightarrow> next_request now (ls_publisher s) = (w, p) \<Longrightarrow>
    worker_step s (s\<lparr>ls_publisher := p, ls_worker := w,
      ls_log := ls_log s @ (case w of Posting q \<Rightarrow> [q] | _ \<Rightarrow> [])\<rparr>)"
| finish: "ls_worker s = Posting q \<Longrightarrow>
    worker_step s (s\<lparr>ls_publisher := finish_request now posted q (ls_publisher s), ls_worker := Waiting,
      ls_done := ls_done s @ [(q, now, rq_text q \<noteq> None \<and> posted)]\<rparr>)"

inductive lobby_step :: "lobby_state \<Rightarrow> lobby_state \<Rightarrow> bool" where
  submit: "lobby_step s (s\<lparr>ls_publisher := lobby_publisher_submit i n (ls_publisher s)\<rparr>)"
| stop: "lobby_step s (s\<lparr>ls_publisher := lobby_publisher_stop now (ls_publisher s)\<rparr>)"
| work: "worker_step s t \<Longrightarrow> lobby_step s t"

inductive lobby_reach :: "lobby_config \<Rightarrow> int list \<Rightarrow> lobby_state \<Rightarrow> bool" for cfg ports where
  lobby_init: "lobby_publisher_start cfg ports True = Some p \<Longrightarrow>
    lobby_reach cfg ports \<lparr>ls_publisher = p, ls_worker = Waiting, ls_log = [], ls_done = []\<rparr>"
| lobby_next: "lobby_reach cfg ports s \<Longrightarrow> lobby_step s t \<Longrightarrow> lobby_reach cfg ports t"

text \<open>The loop of \<^verbatim>\<open>publisher_thread\<close> alone, with the clock and the answer of each iteration.\<close>

fun worker_run :: "(u64 \<times> u64 \<times> bool) list \<Rightarrow> publisher \<Rightarrow> worker \<times> publisher \<times> request list" where
  "worker_run [] p = (Waiting, p, [])"
| "worker_run ((now, later, posted) # ins) p =
     (case next_request now p of
        (Ended, q) \<Rightarrow> (Ended, q, [])
      | (Waiting, q) \<Rightarrow> worker_run ins q
      | (Posting rq, q) \<Rightarrow>
          (case worker_run ins (finish_request later posted rq q) of (w, q2, log) \<Rightarrow> (w, q2, rq # log)))"

section \<open>Requests fit and read back\<close>

definition escaped :: "string \<Rightarrow> string" where
  "escaped t = concat (map json_escape t)"

lemma escaped_simps [simp]: "escaped [] = []" "escaped (c # cs) = json_escape c @ escaped cs"
  by (simp_all add: escaped_def)

lemma json_append_fits:
  "length out + length (escaped t) < out_len \<Longrightarrow> json_append out_len out t = Some (out @ escaped t)"
  by (induction t arbitrary: out) (simp_all add: Let_def)

lemma json_append_None:
  "out_len \<le> length out + length (escaped t) \<Longrightarrow> length out < out_len \<Longrightarrow> json_append out_len out t = None"
  by (induction t arbitrary: out) (auto simp: Let_def)

lemma escape_length: "printable c \<Longrightarrow> length (json_escape c) \<le> 2"
  by (simp add: json_escape_def printable_def)

lemma escaped_length: "list_all printable t \<Longrightarrow> length (escaped t) \<le> 2 * length t"
proof (induction t)
  case (Cons c t)
  then show ?case using escape_length [of c] by simp
qed simp

text \<open>The text of a JSON string up to its closing quote, and what follows.\<close>

fun json_string :: "string \<Rightarrow> (string \<times> string) option" where
  "json_string [] = None"
| "json_string (c # cs) =
     (if c = quote then Some ([], cs)
      else if c \<noteq> backslash then map_option (apfst (Cons c)) (json_string cs)
      else case cs of
          [] \<Rightarrow> None
        | e # ds \<Rightarrow>
            if e = quote \<or> e = backslash then map_option (apfst (Cons e)) (json_string ds)
            else if e = CHR ''b'' then map_option (apfst (Cons (CHR 0x08))) (json_string ds)
            else if e = CHR ''f'' then map_option (apfst (Cons (CHR 0x0C))) (json_string ds)
            else if e = CHR ''n'' then map_option (apfst (Cons (CHR 0x0A))) (json_string ds)
            else if e = CHR ''r'' then map_option (apfst (Cons (CHR 0x0D))) (json_string ds)
            else if e = CHR ''t'' then map_option (apfst (Cons (CHR 0x09))) (json_string ds)
            else if e = CHR ''u'' then
              (case ds of
                 a # b # h # l # es \<Rightarrow>
                   (case (digit_in 16 h, digit_in 16 l) of
                      (Some n, Some m) \<Rightarrow>
                        if a = CHR ''0'' \<and> b = CHR ''0''
                        then map_option (apfst (Cons (char_of (16 * n + m)))) (json_string es) else None
                    | _ \<Rightarrow> None)
               | _ \<Rightarrow> None)
            else None)"

lemma digit_in_hex: "d < 16 \<Longrightarrow> digit_in 16 (hex_char d) = Some d"
  by (auto simp: digit_in_def hex_char_def Let_def of_char_of)

lemma code_inject: "code c = code d \<Longrightarrow> c = d"
  by simp

lemma control_codes:
  "code c = 8 \<Longrightarrow> c = CHR 0x08" "code c = 12 \<Longrightarrow> c = CHR 0x0C" "code c = 10 \<Longrightarrow> c = CHR 0x0A"
  "code c = 13 \<Longrightarrow> c = CHR 0x0D" "code c = 9 \<Longrightarrow> c = CHR 0x09"
  by (rule code_inject, simp)+

lemma json_string_escape: "json_string (json_escape c @ xs) = map_option (apfst (Cons c)) (json_string xs)"
proof -
  consider "c = quote" | "c = backslash" | "c = CHR 0x08" | "c = CHR 0x0C" | "c = CHR 0x0A" | "c = CHR 0x0D" | "c = CHR 0x09"
    | (control) "code c < 0x20" "code c \<notin> {0x08, 0x0C, 0x0A, 0x0D, 0x09}" "c \<noteq> quote" "c \<noteq> backslash"
    | (plain) "\<not> code c < 0x20" "c \<noteq> quote" "c \<noteq> backslash"
    using control_codes [of c] by blast
  then show ?thesis
  proof cases
    case control
    then show ?thesis
      by (simp add: json_escape_def digit_in_hex) (simp add: quote_def backslash_def)
  next
    case plain
    then show ?thesis by (auto simp: json_escape_def)
  qed (simp_all add: json_escape_def quote_def backslash_def)
qed

lemma json_string_escaped: "json_string (escaped t @ quote # rest) = Some (t, rest)"
proof (induction t)
  case Nil
  then show ?case by simp
next
  case (Cons c t)
  then show ?case by (simp add: json_string_escape)
qed

lemma json_field_fits:
  "length out + length pre + length (escaped v) < out_len \<Longrightarrow> json_field out_len out pre v = Some (out @ pre @ escaped v)"
  by (simp add: json_field_def json_append_fits)

lemma json_printf_fits: "length out + length t < out_len \<Longrightarrow> json_printf out_len out t = Some (out @ t)"
  by (simp add: json_printf_def)

lemma quoted_length: "length (quoted t) = length t"
  by (simp add: quoted_def)

lemma quoted_no_backslash: "backslash \<notin> set t \<Longrightarrow> backslash \<notin> set (quoted t)"
  by (auto simp: quoted_def quote_def backslash_def)

lemma decimal_byte: "n < 1000 \<Longrightarrow> length (decimal n) \<le> 3"
  using decimal_length_less [of n 3] by simp

lemma lobby_serverurl_length:
  "lobby_ok n cfg \<Longrightarrow> port \<le> 65535 \<Longrightarrow> length (lobby_serverurl cfg port) \<le> 75"
  using decimal_length_less [of port 5] by (simp add: lobby_serverurl_def lobby_ok_def)

lemma lobby_serverurl_printable: "lobby_ok n cfg \<Longrightarrow> list_all printable (lobby_serverurl cfg port)"
  using decimal_printable [of port] by (simp add: lobby_serverurl_def lobby_ok_def) (simp add: printable_def)

text \<open>The request as one text.\<close>

definition request_text :: "lobby_config \<Rightarrow> nat \<Rightarrow> nat \<Rightarrow> nat \<Rightarrow> bool \<Rightarrow> string" where
  "request_text cfg i port curplayers offline =
     quoted ''{`game`:`'' @ escaped (lc_game cfg) @ quoted ''`,`appkey`:'' @ decimal (lc_app_id cfg) @
     quoted '',`server`:`'' @ escaped (lc_room_names cfg ! i) @ quoted ''`,`region`:`'' @ escaped (lc_region cfg) @
     quoted ''`,`serverurl`:`'' @ escaped (lobby_serverurl cfg port) @ quoted ''`,`status`:`'' @
     escaped (if offline then ''offline'' else ''online'') @ quoted ''`,`maxplayers`:4,`curplayers`:'' @
     decimal (if offline then 0 else curplayers) @ quoted '',`clients`:[{`platform`:`atari`,`url`:`'' @
     escaped (lc_client_url cfg) @ quoted ''`}]}''"

lemma room_name_ok:
  "lobby_ok n cfg \<Longrightarrow> i < n \<Longrightarrow> list_all printable (lc_room_names cfg ! i) \<and> length (lc_room_names cfg ! i) \<le> 32"
  by (simp add: lobby_ok_def list_all_length)

lemma make_request_complete:
  assumes "lobby_ok n cfg" "i < n" "port \<le> 65535" "curplayers \<le> 4"
  shows "make_request cfg i port curplayers offline 272 LOBBY_JSON_MAX =
      Some (lobby_url cfg, request_text cfg i port curplayers offline) \<and>
    length (request_text cfg i port curplayers offline) \<le> 600"
proof -
  have ok: "length (escaped (lc_game cfg)) \<le> 32" "length (escaped (lc_region cfg)) \<le> 4"
    "length (escaped (lc_client_url cfg)) \<le> 128" "length (lobby_url cfg) \<le> 263"
    using assms(1) escaped_length [of "lc_game cfg"] escaped_length [of "lc_region cfg"]
      escaped_length [of "lc_client_url cfg"] by (simp_all add: lobby_ok_def lobby_url_def)
  have name: "length (escaped (lc_room_names cfg ! i)) \<le> 64"
    using room_name_ok [OF assms(1,2)] escaped_length [of "lc_room_names cfg ! i"] by simp
  have url: "length (lobby_serverurl cfg port) \<le> 75" "length (escaped (lobby_serverurl cfg port)) \<le> 150"
    using lobby_serverurl_length [OF assms(1,3)] escaped_length [OF lobby_serverurl_printable [OF assms(1)], of port]
    by simp_all
  have "length (escaped (if offline then ''offline'' else ''online'')) \<le> 14"
    by (cases offline) (simp_all add: json_escape_def quote_def backslash_def)
  moreover have "length (decimal (lc_app_id cfg)) \<le> 3" "length (decimal (if offline then 0 else curplayers)) \<le> 3"
    using assms(1,4) by (auto intro!: decimal_byte simp: lobby_ok_def)
  ultimately show ?thesis using ok name url
    by (simp add: make_request_def Let_def json_field_fits json_append_fits json_printf_fits quoted_length
        request_text_def)
qed

text \<open>
  C35: A lobby request is never cut short. With settings the command line accepts, any port and any
  player count, the request for every room fits its buffers: it is the address of the lobby and the
  complete text, of at most 600 characters; and a value escaped for it, whatever its characters,
  reads back as it was.
\<close>

theorem lobby_request_complete:
  assumes "lobby_ok n cfg" "i < n" "port \<le> 65535" "curplayers \<le> 4"
  shows "make_request cfg i port curplayers offline 272 LOBBY_JSON_MAX =
      Some (lobby_url cfg, request_text cfg i port curplayers offline) \<and>
    length (request_text cfg i port curplayers offline) \<le> 600 \<and>
    json_string (escaped t @ quote # rest) = Some (t, rest)"
  using make_request_complete [OF assms] json_string_escaped by blast

definition demo_lobby :: lobby_config where
  "demo_lobby = \<lparr>lc_creator_id = 1, lc_app_id = 15, lc_refresh_ms = 240000, lc_timeout_ms = 1500,
     lc_shutdown_ms = 2000, lc_base_url = ''https://lobby'', lc_public_host = ''maze.example'',
     lc_game = ''Maze War'', lc_client_url = ''tnfs://x/y'', lc_region = ''us'', lc_room_names = [''Maze 1'', ''Maze 2'']\<rparr>"

lemma demo_lobby_ok: "lobby_ok 2 demo_lobby"
  by (simp add: lobby_ok_def demo_lobby_def printable_def)

theorem lobby_request_complete_witness:
  "make_request demo_lobby 1 9001 3 False 272 LOBBY_JSON_MAX = Some (lobby_url demo_lobby, request_text demo_lobby 1 9001 3 False)"
  using lobby_request_complete [OF demo_lobby_ok, of 1 9001 3 False] by simp

section \<open>The worker\<close>

definition lobby_room_ok :: "lobby_room \<Rightarrow> bool" where
  "lobby_room_ok r \<longleftrightarrow> 0 \<le> lr_curplayers r \<and> lr_curplayers r \<le> 4 \<and> 1 \<le> lr_port r \<and> lr_port r \<le> 65535 \<and>
     LOBBY_RETRY_MIN_MS \<le> lr_retry_ms r \<and> lr_retry_ms r \<le> LOBBY_RETRY_MAX_MS"

text \<open>The count of the last online request for a room.\<close>

fun published :: "request list \<Rightarrow> nat \<Rightarrow> int option" where
  "published [] i = None"
| "published (q # qs) i = (case published qs i of
     None \<Rightarrow> if rq_room q = i \<and> \<not> rq_offline q then Some (rq_curplayers q) else None | Some c \<Rightarrow> Some c)"

lemma published_snoc: "published (qs @ [q]) i =
    (if rq_room q = i \<and> \<not> rq_offline q then Some (rq_curplayers q) else published qs i)"
  by (induction qs) (auto split: option.splits)

lemma first_index_Some:
  "first_index P xs = Some i \<Longrightarrow> i < length xs \<and> P (xs ! i)"
  by (induction xs arbitrary: i) (auto split: if_splits)

lemma double_retry:
  fixes w :: "32 word"
  assumes "1000 \<le> w" "w < 15000"
  shows "1000 \<le> w * 2 \<and> w * 2 \<le> 30000"
proof -
  have "unat (w * 2) = unat w * 2" using assms by (simp add: word_less_nat_alt unat_word_ariths)
  then show ?thesis using assms by (simp add: word_le_nat_alt word_less_nat_alt)
qed

lemma note_result_ok: "lobby_room_ok r \<Longrightarrow> lobby_room_ok (note_result now ok refresh r)"
  using double_retry [of "lr_retry_ms r"] by (auto simp: lobby_room_ok_def note_result_def Let_def)

lemma next_request_cases:
  assumes "next_request now p = (w, p')"
  obtains (none) "w \<noteq> Waiting \<longrightarrow> w = Ended" "p' = p"
  | (offline) i where "pb_stopping p" "i < length (pb_rooms p)" "\<not> lr_offline_sent (pb_rooms p ! i)"
      "first_index (\<lambda>r. \<not> lr_offline_sent r) (pb_rooms p) = Some i"
      "p' = upd_lobby_room i (\<lambda>r. r\<lparr>lr_offline_sent := True\<rparr>) p"
      "w = Posting (request_for p' i True (offline_timeout now p))"
  | (online) i where "\<not> pb_stopping p" "i < length (pb_rooms p)"
      "p' = upd_lobby_room i (\<lambda>r. r\<lparr>lr_dirty := False\<rparr>) p"
      "w = Posting (request_for p' i False (lc_timeout_ms (pb_config p')))"
proof (cases "pb_stopping p")
  case True
  show ?thesis
  proof (cases "now \<ge> pb_shutdown_deadline_ms p \<or> first_index (\<lambda>r. \<not> lr_offline_sent r) (pb_rooms p) = None")
    case True
    with assms \<open>pb_stopping p\<close> have "w = Ended" "p' = p" by (auto simp: next_request_def split: if_splits)
    then show ?thesis by (intro none) simp_all
  next
    case False
    then obtain i where i: "first_index (\<lambda>r. \<not> lr_offline_sent r) (pb_rooms p) = Some i" by blast
    have "p' = upd_lobby_room i (\<lambda>r. r\<lparr>lr_offline_sent := True\<rparr>) p"
      and "w = Posting (request_for p' i True (offline_timeout now p))"
      using assms i False \<open>pb_stopping p\<close> by (auto simp: next_request_def Let_def)
    then show ?thesis using first_index_Some [OF i] i \<open>pb_stopping p\<close> by (intro offline [of i]) simp_all
  qed
next
  case False
  show ?thesis
  proof (cases "first_index (\<lambda>r. lr_dirty r \<or> now \<ge> lr_next_attempt_ms r) (pb_rooms p)")
    case None
    with assms False have "w = Waiting" "p' = p" by (simp_all add: next_request_def pick_online_request_def)
    then show ?thesis by (intro none) simp_all
  next
    case (Some i)
    have "p' = upd_lobby_room i (\<lambda>r. r\<lparr>lr_dirty := False\<rparr>) p"
      and "w = Posting (request_for p' i False (lc_timeout_ms (pb_config p')))"
      using assms Some False by (auto simp: next_request_def pick_online_request_def)
    then show ?thesis using first_index_Some [OF Some] False by (intro online [of i]) simp_all
  qed
qed

lemma upd_lobby_room_simps [simp]:
  "pb_config (upd_lobby_room i f p) = pb_config p" "length (pb_rooms (upd_lobby_room i f p)) = length (pb_rooms p)"
  "pb_started (upd_lobby_room i f p) = pb_started p" "pb_stopping (upd_lobby_room i f p) = pb_stopping p"
  "j < length (pb_rooms p) \<Longrightarrow> pb_rooms (upd_lobby_room i f p) ! j = (if i = j then f (pb_rooms p ! j) else pb_rooms p ! j)"
  by (simp_all add: upd_lobby_room_def nth_modify)

lemma request_for_simps [simp]:
  "rq_room (request_for p i off t) = i" "rq_offline (request_for p i off t) = off"
  "rq_curplayers (request_for p i off t) = lr_curplayers (pb_rooms p ! i)" "rq_timeout_ms (request_for p i off t) = t"
  by (simp_all add: request_for_def Let_def)

subsection \<open>The rooms\<close>

definition publisher_ok :: "lobby_config \<Rightarrow> nat \<Rightarrow> publisher \<Rightarrow> bool" where
  "publisher_ok cfg n p \<longleftrightarrow> pb_started p \<and> pb_config p = cfg \<and> length (pb_rooms p) = n \<and>
     list_all lobby_room_ok (pb_rooms p)"

lemma publisher_ok_upd:
  "publisher_ok cfg n p \<Longrightarrow> (\<And>r. lobby_room_ok r \<Longrightarrow> lobby_room_ok (f r)) \<Longrightarrow> publisher_ok cfg n (upd_lobby_room i f p)"
  by (simp add: publisher_ok_def) (simp add: upd_lobby_room_def list_all_modify)

lemma publisher_ok_submit: "publisher_ok cfg n p \<Longrightarrow> publisher_ok cfg n (lobby_publisher_submit i c p)"
  by (auto simp: lobby_publisher_submit_def Let_def intro!: publisher_ok_upd) (auto simp: lobby_room_ok_def)

lemma publisher_ok_stop: "publisher_ok cfg n p \<Longrightarrow> publisher_ok cfg n (lobby_publisher_stop now p)"
  by (simp add: publisher_ok_def lobby_publisher_stop_def)

lemma publisher_ok_next: "publisher_ok cfg n p \<Longrightarrow> next_request now p = (w, p') \<Longrightarrow> publisher_ok cfg n p'"
  by (elim next_request_cases) (auto intro!: publisher_ok_upd simp: lobby_room_ok_def)

lemma publisher_ok_finish: "publisher_ok cfg n p \<Longrightarrow> publisher_ok cfg n (finish_request now ok q p)"
  by (auto simp: finish_request_def intro!: publisher_ok_upd note_result_ok)

lemma publisher_ok_step:
  "lobby_step s t \<Longrightarrow> publisher_ok cfg n (ls_publisher s) \<Longrightarrow> publisher_ok cfg n (ls_publisher t)"
  by (auto elim!: lobby_step.cases worker_step.cases
      intro: publisher_ok_submit publisher_ok_stop publisher_ok_next publisher_ok_finish)

lemma request_for_text:
  assumes "lobby_ok n cfg" "publisher_ok cfg n p" "i < n"
  shows "rq_text (request_for p i off t) \<noteq> None"
proof -
  have "lobby_room_ok (pb_rooms p ! i)" "pb_config p = cfg" using assms by (simp_all add: publisher_ok_def list_all_length)
  then show ?thesis
    using make_request_complete [OF assms(1,3), of "nat (lr_port (pb_rooms p ! i))" "nat (lr_curplayers (pb_rooms p ! i))"]
    by (simp add: request_for_def Let_def lobby_room_ok_def nat_le_iff)
qed

subsection \<open>The log\<close>

definition log_current :: "publisher \<Rightarrow> request list \<Rightarrow> bool" where
  "log_current p qs \<longleftrightarrow> (\<forall>i < length (pb_rooms p). \<not> lr_dirty (pb_rooms p ! i) \<longrightarrow>
     published qs i = Some (lr_curplayers (pb_rooms p ! i)))"

lemma log_current_pick:
  assumes "next_request now p = (w, p')" "log_current p qs"
  shows "log_current p' (qs @ (case w of Posting q \<Rightarrow> [q] | _ \<Rightarrow> []))"
  using assms(1)
proof (cases rule: next_request_cases)
  case none
  then show ?thesis using assms(2) by (cases w) (simp_all add: log_current_def)
next
  case (offline i)
  then show ?thesis using assms(2) by (auto simp: log_current_def published_snoc)
next
  case (online i)
  then show ?thesis using assms(2) by (auto simp: log_current_def published_snoc)
qed

lemma log_current_worker:
  assumes "worker_step s t" "log_current (ls_publisher s) (ls_log s)"
  shows "log_current (ls_publisher t) (ls_log t)"
  using assms
proof (induction rule: worker_step.induct)
  case (pick s now w p)
  then show ?case by (simp add: log_current_pick)
next
  case (finish s q now posted)
  then show ?case by (auto simp: log_current_def finish_request_def note_result_def Let_def)
qed

lemma log_current_step:
  assumes "lobby_step s t" "log_current (ls_publisher s) (ls_log s)"
  shows "log_current (ls_publisher t) (ls_log t)"
  using assms
proof (induction rule: lobby_step.induct)
  case (submit s i c)
  then show ?case by (auto simp: log_current_def lobby_publisher_submit_def Let_def)
next
  case (stop s now)
  then show ?case by (simp add: log_current_def lobby_publisher_stop_def)
next
  case (work s t)
  then show ?case by (rule log_current_worker)
qed

text \<open>Offline requests come last, at most one for each room, and only after a stop.\<close>

definition log_ordered :: "publisher \<Rightarrow> request list \<Rightarrow> bool" where
  "log_ordered p qs \<longleftrightarrow> (\<not> pb_stopping p \<longrightarrow> list_all (\<lambda>q. \<not> rq_offline q) qs) \<and>
     list_all rq_offline (dropWhile (\<lambda>q. \<not> rq_offline q) qs) \<and>
     (\<forall>q \<in> set qs. rq_offline q \<longrightarrow> lr_offline_sent (pb_rooms p ! rq_room q)) \<and>
     distinct (map rq_room (filter rq_offline qs)) \<and>
     list_all (\<lambda>q. rq_text q \<noteq> None \<and> rq_room q < length (pb_rooms p)) qs"

lemma offline_last_snoc:
  "list_all P (dropWhile (\<lambda>q. \<not> P q) qs) \<Longrightarrow> P q \<or> list_all (\<lambda>q. \<not> P q) qs \<Longrightarrow>
    list_all P (dropWhile (\<lambda>q. \<not> P q) (qs @ [q]))"
  by (induction qs) auto

lemma log_ordered_frame:
  assumes "log_ordered p qs" "pb_stopping p \<longrightarrow> pb_stopping p'" "length (pb_rooms p') = length (pb_rooms p)"
    and "\<And>i. i < length (pb_rooms p) \<Longrightarrow> lr_offline_sent (pb_rooms p ! i) \<Longrightarrow> lr_offline_sent (pb_rooms p' ! i)"
  shows "log_ordered p' qs"
proof -
  note log = assms(1) [unfolded log_ordered_def]
  have "list_all (\<lambda>q. rq_text q \<noteq> None \<and> rq_room q < length (pb_rooms p)) qs" using log by blast
  then have "\<forall>q \<in> set qs. rq_room q < length (pb_rooms p)" by (simp add: list_all_iff)
  then have "\<forall>q \<in> set qs. rq_offline q \<longrightarrow> lr_offline_sent (pb_rooms p' ! rq_room q)"
    using log assms(4) by blast
  then show ?thesis using log assms(2) unfolding log_ordered_def assms(3) by blast
qed

lemma log_ordered_add:
  assumes "log_ordered p qs" "rq_text q \<noteq> None" "rq_room q < length (pb_rooms p)"
    and "rq_offline q \<Longrightarrow> pb_stopping p \<and> lr_offline_sent (pb_rooms p ! rq_room q)"
    and "rq_offline q \<Longrightarrow> rq_room q \<notin> set (map rq_room (filter rq_offline qs))"
    and "\<not> rq_offline q \<Longrightarrow> list_all (\<lambda>q. \<not> rq_offline q) qs"
  shows "log_ordered p (qs @ [q])"
proof -
  have "list_all rq_offline (dropWhile (\<lambda>q. \<not> rq_offline q) (qs @ [q]))"
    using assms(1,6) by (intro offline_last_snoc) (auto simp: log_ordered_def)
  moreover have "distinct (map rq_room (filter rq_offline (qs @ [q])))"
    using assms(1,5) by (auto simp: log_ordered_def)
  moreover have "\<forall>q' \<in> set (qs @ [q]). rq_offline q' \<longrightarrow> lr_offline_sent (pb_rooms p ! rq_room q')"
    using assms(1,4) by (auto simp: log_ordered_def)
  moreover have "list_all (\<lambda>q. rq_text q \<noteq> None \<and> rq_room q < length (pb_rooms p)) (qs @ [q])"
    using assms(1-3) by (simp add: log_ordered_def)
  moreover have "list_all (\<lambda>q. \<not> rq_offline q) (qs @ [q])" if "\<not> pb_stopping p"
    using assms(1,4) that unfolding log_ordered_def by (cases "rq_offline q") simp_all
  ultimately show ?thesis unfolding log_ordered_def by blast
qed

lemma log_ordered_pick:
  assumes "lobby_ok n cfg" "publisher_ok cfg n p" "log_ordered p qs" "next_request now p = (w, p')"
  shows "log_ordered p' (qs @ (case w of Posting q \<Rightarrow> [q] | _ \<Rightarrow> []))"
  using assms(4)
proof (cases rule: next_request_cases)
  case none
  then show ?thesis using assms(3) by (cases w) simp_all
next
  case (offline i)
  have n: "length (pb_rooms p) = n" using assms(2) by (simp add: publisher_ok_def)
  have "log_ordered p' qs" by (rule log_ordered_frame [OF assms(3)]) (simp_all add: offline(5))
  moreover have "rq_text (request_for p' i True (offline_timeout now p)) \<noteq> None"
    using offline(2) n by (intro request_for_text [OF assms(1) publisher_ok_next [OF assms(2,4)]]) simp
  moreover have "i \<notin> set (map rq_room (filter rq_offline qs))" using assms(3) offline(3) by (auto simp: log_ordered_def)
  ultimately have "log_ordered p' (qs @ [request_for p' i True (offline_timeout now p)])"
    using offline(1,2) by (intro log_ordered_add) (simp_all add: offline(5))
  then show ?thesis by (simp add: offline(6))
next
  case (online i)
  have n: "length (pb_rooms p) = n" using assms(2) by (simp add: publisher_ok_def)
  have "log_ordered p' qs" by (rule log_ordered_frame [OF assms(3)]) (simp_all add: online(3))
  moreover have "rq_text (request_for p' i False (lc_timeout_ms (pb_config p'))) \<noteq> None"
    using online(2) n by (intro request_for_text [OF assms(1) publisher_ok_next [OF assms(2,4)]]) simp
  moreover have "list_all (\<lambda>q. \<not> rq_offline q) qs" using assms(3) online(1) by (simp add: log_ordered_def)
  ultimately have "log_ordered p' (qs @ [request_for p' i False (lc_timeout_ms (pb_config p'))])"
    using online(2) by (intro log_ordered_add) (simp_all add: online(3))
  then show ?thesis by (simp add: online(4))
qed

lemma log_ordered_worker:
  assumes "lobby_ok n cfg" "publisher_ok cfg n (ls_publisher s)" "worker_step s t" "log_ordered (ls_publisher s) (ls_log s)"
  shows "log_ordered (ls_publisher t) (ls_log t)"
  using assms(3,2,4)
proof (induction rule: worker_step.induct)
  case (pick s now w p)
  then show ?case using log_ordered_pick [OF assms(1)] by simp
next
  case (finish s q now posted)
  from finish.prems(2) show ?case
    by (auto elim!: log_ordered_frame simp: finish_request_def note_result_def Let_def)
qed

lemma log_ordered_step:
  assumes "lobby_ok n cfg" "publisher_ok cfg n (ls_publisher s)" "lobby_step s t" "log_ordered (ls_publisher s) (ls_log s)"
  shows "log_ordered (ls_publisher t) (ls_log t)"
  using assms(3,2,4)
proof (induction rule: lobby_step.induct)
  case (submit s i c)
  from submit.prems(2) show ?case
    by (auto elim!: log_ordered_frame simp: lobby_publisher_submit_def Let_def)
next
  case (stop s now)
  from stop.prems(2) show ?case by (auto elim!: log_ordered_frame simp: lobby_publisher_stop_def)
next
  case (work s t)
  from log_ordered_worker [OF assms(1) work.prems(1) work.hyps work.prems(2)] show ?case .
qed

lemma lobby_reach_ok:
  assumes "lobby_reach cfg ports s" "lobby_ok (length ports) cfg" "list_all (\<lambda>p. 1 \<le> p \<and> p \<le> 65535) ports"
  shows "publisher_ok cfg (length ports) (ls_publisher s) \<and> log_current (ls_publisher s) (ls_log s) \<and>
    log_ordered (ls_publisher s) (ls_log s)"
  using assms(1)
proof (induction rule: lobby_reach.induct)
  case (lobby_init p)
  then show ?case using assms(3)
    by (auto simp: lobby_publisher_start_def publisher_ok_def log_current_def log_ordered_def lobby_room_ok_def
        list_all_iff split: if_splits)
next
  case (lobby_next s t)
  then show ?case using publisher_ok_step log_current_step log_ordered_step [OF assms(2)] by blast
qed

subsection \<open>The answers\<close>

text \<open>The last request about a room that \<^verbatim>\<open>post_json\<close> has answered, when, and whether the lobby took it.\<close>

definition last_answer :: "(request \<times> u64 \<times> bool) list \<Rightarrow> nat \<Rightarrow> (request \<times> u64 \<times> bool) option" where
  "last_answer ds i = find (\<lambda>(q, t, ok). rq_room q = i) (rev ds)"

lemma last_answer_snoc:
  "last_answer (ds @ [(q, t, ok)]) i = (if rq_room q = i then Some (q, t, ok) else last_answer ds i)"
  by (simp add: last_answer_def)

definition in_flight :: "nat \<Rightarrow> lobby_room \<Rightarrow> worker \<Rightarrow> bool" where
  "in_flight i r w \<longleftrightarrow> (case w of Posting q \<Rightarrow> rq_room q = i \<and> \<not> rq_offline q \<and> rq_curplayers q = lr_curplayers r | _ \<Rightarrow> False)"

text \<open>The count of room \<open>r\<close> has been put to the lobby, and the next announcement is set.\<close>

definition put :: "int \<Rightarrow> lobby_room \<Rightarrow> (request \<times> u64 \<times> bool) option \<Rightarrow> bool" where
  "put refresh_ms r a \<longleftrightarrow> (case a of
     None \<Rightarrow> False
   | Some (q, t, ok) \<Rightarrow> \<not> rq_offline q \<and> rq_curplayers q = lr_curplayers r \<and>
       (\<exists>d. lr_next_attempt_ms r = t + d \<and> (if ok then d = of_int refresh_ms else 1000 \<le> d \<and> d \<le> 30000)))"

definition answered :: "publisher \<Rightarrow> worker \<Rightarrow> (request \<times> u64 \<times> bool) list \<Rightarrow> bool" where
  "answered p w ds \<longleftrightarrow> (\<not> pb_stopping p \<longrightarrow>
     (\<forall>q. w = Posting q \<longrightarrow> \<not> rq_offline q \<and> rq_room q < length (pb_rooms p) \<and>
        (lr_dirty (pb_rooms p ! rq_room q) \<or> rq_curplayers q = lr_curplayers (pb_rooms p ! rq_room q))) \<and>
     (\<forall>i < length (pb_rooms p). lr_dirty (pb_rooms p ! i) \<or> in_flight i (pb_rooms p ! i) w \<or>
        put (lc_refresh_ms (pb_config p)) (pb_rooms p ! i) (last_answer ds i)))"

lemma put_note_result:
  assumes "lobby_room_ok r" "\<not> rq_offline q" "rq_curplayers q = lr_curplayers r"
  shows "put refresh (note_result now ok refresh r) (Some (q, now, ok))"
proof -
  have "1000 \<le> lr_retry_ms r" "lr_retry_ms r \<le> 30000" using assms(1) by (simp_all add: lobby_room_ok_def)
  moreover have "unat (lr_retry_ms r) < 2 ^ 64"
  proof -
    have "unat (lr_retry_ms r) < 2 ^ LENGTH(32)" by (rule unsigned_less)
    then show ?thesis by simp
  qed
  then have "unat (ucast (lr_retry_ms r) :: u64) = unat (lr_retry_ms r)"
    by (simp add: unsigned_ucast_eq take_bit_nat_eq_self)
  ultimately have "1000 \<le> (ucast (lr_retry_ms r) :: u64)" "(ucast (lr_retry_ms r) :: u64) \<le> 30000" "lr_retry_ms r \<noteq> 0"
    by (auto simp: word_le_nat_alt)
  then show ?thesis using assms(2,3) by (simp add: put_def note_result_def Let_def)
qed

lemma answered_pick:
  assumes "next_request now p = (w, p')" "answered p Waiting ds"
  shows "answered p' w ds"
  using assms(1)
proof (cases rule: next_request_cases)
  case none
  then show ?thesis using assms(2) by (cases w) (auto simp: answered_def in_flight_def)
next
  case (offline i)
  then show ?thesis by (simp add: answered_def)
next
  case (online i)
  then show ?thesis using assms(2) by (auto simp: answered_def in_flight_def)
qed

lemma answered_finish:
  assumes "publisher_ok cfg n p" "answered p (Posting q) ds" "ok = (rq_text q \<noteq> None \<and> posted)"
  shows "answered (finish_request now posted q p) Waiting (ds @ [(q, now, ok)])"
  unfolding answered_def
proof (intro impI conjI allI)
  assume run: "\<not> pb_stopping (finish_request now posted q p)"
  then have "\<not> pb_stopping p" by (simp add: finish_request_def split: if_splits)
  then have q: "\<not> rq_offline q" "rq_room q < length (pb_rooms p)"
      "lr_dirty (pb_rooms p ! rq_room q) \<or> rq_curplayers q = lr_curplayers (pb_rooms p ! rq_room q)"
    and rest: "\<And>i. i < length (pb_rooms p) \<Longrightarrow> lr_dirty (pb_rooms p ! i) \<or> in_flight i (pb_rooms p ! i) (Posting q) \<or>
        put (lc_refresh_ms (pb_config p)) (pb_rooms p ! i) (last_answer ds i)"
    using assms(2) by (auto simp: answered_def)
  have fin: "finish_request now posted q p =
      upd_lobby_room (rq_room q) (note_result now ok (lc_refresh_ms (pb_config p))) p"
    using q(1) by (simp add: finish_request_def assms(3))
  have dirty: "lr_dirty (note_result now ok f r) = lr_dirty r" for f r by (simp add: note_result_def Let_def)
  have good: "lobby_room_ok (pb_rooms p ! rq_room q)"
    using assms(1) q(2) by (simp add: publisher_ok_def list_all_length)
  fix i assume "i < length (pb_rooms (finish_request now posted q p))"
  then have i: "i < length (pb_rooms p)" by (simp add: fin)
  show "lr_dirty (pb_rooms (finish_request now posted q p) ! i) \<or>
      in_flight i (pb_rooms (finish_request now posted q p) ! i) Waiting \<or>
      put (lc_refresh_ms (pb_config (finish_request now posted q p))) (pb_rooms (finish_request now posted q p) ! i)
        (last_answer (ds @ [(q, now, ok)]) i)"
  proof (cases "i = rq_room q")
    case True
    then show ?thesis using q(3) put_note_result [OF good q(1)] i by (auto simp: fin dirty last_answer_snoc)
  next
    case False
    then show ?thesis using rest [OF i] i by (auto simp: fin last_answer_snoc in_flight_def)
  qed
qed auto

lemma answered_worker:
  assumes "worker_step s t" "publisher_ok cfg n (ls_publisher s)" "answered (ls_publisher s) (ls_worker s) (ls_done s)"
  shows "answered (ls_publisher t) (ls_worker t) (ls_done t)"
  using assms
  by (induction rule: worker_step.induct) (simp_all add: answered_pick answered_finish)

lemma answered_step:
  assumes "lobby_step s t" "publisher_ok cfg n (ls_publisher s)" "answered (ls_publisher s) (ls_worker s) (ls_done s)"
  shows "answered (ls_publisher t) (ls_worker t) (ls_done t)"
  using assms
proof (induction rule: lobby_step.induct)
  case (submit s i c)
  let ?p = "ls_publisher s" and ?q = "lobby_publisher_submit i c (ls_publisher s)"
  have same: "?q = ?p \<or> (\<exists>k c. ?q = upd_lobby_room k (\<lambda>r. r\<lparr>lr_curplayers := c, lr_dirty := True\<rparr>) ?p)"
    by (auto simp: lobby_publisher_submit_def Let_def)
  then show ?case
  proof
    assume "\<exists>k c. ?q = upd_lobby_room k (\<lambda>r. r\<lparr>lr_curplayers := c, lr_dirty := True\<rparr>) ?p"
    then obtain k c' where q: "?q = upd_lobby_room k (\<lambda>r. r\<lparr>lr_curplayers := c', lr_dirty := True\<rparr>) ?p" by blast
    show ?thesis using submit.prems(2) by (auto simp: q answered_def)
  qed (use submit.prems in simp)
next
  case (stop s now)
  then show ?case by (simp add: answered_def lobby_publisher_stop_def publisher_ok_def)
next
  case (work s t)
  then show ?case using answered_worker by blast
qed

lemma lobby_reach_answered:
  assumes "lobby_reach cfg ports s" "list_all (\<lambda>p. 1 \<le> p \<and> p \<le> 65535) ports"
  shows "publisher_ok cfg (length ports) (ls_publisher s) \<and> answered (ls_publisher s) (ls_worker s) (ls_done s)"
  using assms(1)
proof (induction rule: lobby_reach.induct)
  case (lobby_init p)
  then show ?case using assms(2)
    by (auto simp: lobby_publisher_start_def publisher_ok_def answered_def lobby_room_ok_def list_all_iff split: if_splits)
next
  case (lobby_next s t)
  then show ?case using publisher_ok_step answered_step by blast
qed

text \<open>
  C22: The lobby shows the latest counts. Whatever the interleaving of the game loop and the worker,
  a room with no pending change was last announced with exactly the count submitted last; every
  request was complete; retry periods stay between 1 and 30 seconds and counts between 0 and 4.
\<close>

theorem lobby_publishes_latest:
  assumes "lobby_reach cfg ports s" "lobby_ok (length ports) cfg" "list_all (\<lambda>p. 1 \<le> p \<and> p \<le> 65535) ports"
    and "i < length ports" "r = pb_rooms (ls_publisher s) ! i"
  shows "(lr_dirty r \<or> published (ls_log s) i = Some (lr_curplayers r)) \<and>
    list_all (\<lambda>q. rq_text q \<noteq> None) (ls_log s) \<and>
    LOBBY_RETRY_MIN_MS \<le> lr_retry_ms r \<and> lr_retry_ms r \<le> LOBBY_RETRY_MAX_MS \<and>
    0 \<le> lr_curplayers r \<and> lr_curplayers r \<le> 4"
proof -
  note ok = lobby_reach_ok [OF assms(1,2,3)]
  then have i: "i < length (pb_rooms (ls_publisher s))" using assms(4) by (simp add: publisher_ok_def)
  have "lobby_room_ok r" using ok i by (simp add: assms(5) publisher_ok_def list_all_length)
  moreover have "lr_dirty r \<or> published (ls_log s) i = Some (lr_curplayers r)"
    using ok i unfolding assms(5) log_current_def by blast
  moreover have "list_all (\<lambda>q. rq_text q \<noteq> None) (ls_log s)"
    using ok by (simp add: log_ordered_def list_all_iff)
  ultimately show ?thesis by (simp add: lobby_room_ok_def)
qed

text \<open>
  Rooms go offline once and last. Whatever the interleaving, at most one offline request is made
  for a room, none before the publisher is stopped, and no online request after the first of them.
\<close>

theorem lobby_offline_once:
  assumes "lobby_reach cfg ports s" "lobby_ok (length ports) cfg" "list_all (\<lambda>p. 1 \<le> p \<and> p \<le> 65535) ports"
  shows "distinct (map rq_room (filter rq_offline (ls_log s))) \<and>
    (\<exists>on off. ls_log s = on @ off \<and> list_all (\<lambda>q. \<not> rq_offline q) on \<and> list_all rq_offline off \<and>
       (pb_stopping (ls_publisher s) \<or> off = []))"
proof -
  have log: "log_ordered (ls_publisher s) (ls_log s)" using lobby_reach_ok [OF assms] by blast
  define on where "on = takeWhile (\<lambda>q. \<not> rq_offline q) (ls_log s)"
  define off where "off = dropWhile (\<lambda>q. \<not> rq_offline q) (ls_log s)"
  have "ls_log s = on @ off" by (simp add: on_def off_def)
  moreover have "list_all (\<lambda>q. \<not> rq_offline q) on"
    unfolding on_def list_all_iff by (blast dest: set_takeWhileD)
  moreover have "list_all rq_offline off" using log by (simp add: off_def log_ordered_def)
  moreover have "pb_stopping (ls_publisher s) \<or> off = []"
  proof (rule disjCI)
    assume "off \<noteq> []"
    then have "\<not> list_all (\<lambda>q. \<not> rq_offline q) (ls_log s)"
      unfolding off_def dropWhile_eq_Nil_conv list_all_iff .
    then show "pb_stopping (ls_publisher s)" using log unfolding log_ordered_def by blast
  qed
  moreover have "distinct (map rq_room (filter rq_offline (ls_log s)))" using log by (simp add: log_ordered_def)
  ultimately show ?thesis by blast
qed

definition demo_publisher :: publisher where
  "demo_publisher = the (lobby_publisher_start demo_lobby [9000, 9001] True)"

lemma demo_publisher_start: "lobby_publisher_start demo_lobby [9000, 9001] True = Some demo_publisher"
  by (simp add: demo_publisher_def lobby_publisher_start_def)

text \<open>Three players have joined room 1, and the worker has taken the first request.\<close>

definition demo_lobby_state :: lobby_state where
  "demo_lobby_state = (let p = lobby_publisher_submit 1 3 demo_publisher; (w, q) = next_request 5 p in
     \<lparr>ls_publisher = q, ls_worker = w, ls_log = (case w of Posting r \<Rightarrow> [r] | _ \<Rightarrow> []), ls_done = []\<rparr>)"

lemma demo_lobby_reach: "lobby_reach demo_lobby [9000, 9001] demo_lobby_state"
proof -
  let ?s = "\<lparr>ls_publisher = lobby_publisher_submit 1 3 demo_publisher, ls_worker = Waiting, ls_log = [], ls_done = []\<rparr>"
  obtain w q where req: "next_request 5 (lobby_publisher_submit 1 3 demo_publisher) = (w, q)" by force
  have "lobby_reach demo_lobby [9000, 9001] ?s"
    using lobby_next [OF lobby_init [OF demo_publisher_start] submit [of _ 1 3]] by simp
  moreover have "lobby_step ?s demo_lobby_state"
    using work [OF pick [of ?s 5 w q]] req by (simp add: demo_lobby_state_def)
  ultimately show ?thesis by (rule lobby_next)
qed

lemma demo_lobby_two_ok: "lobby_ok (length [9000, 9001 :: int]) demo_lobby"
  using demo_lobby_ok by (simp add: numeral_2_eq_2)

theorem lobby_publishes_latest_witness:
  "lr_dirty (pb_rooms (ls_publisher demo_lobby_state) ! 1) \<or>
    published (ls_log demo_lobby_state) 1 = Some (lr_curplayers (pb_rooms (ls_publisher demo_lobby_state) ! 1))"
  using lobby_publishes_latest [OF demo_lobby_reach demo_lobby_two_ok, of 1, OF _ _ refl] by simp

theorem lobby_offline_once_witness: "distinct (map rq_room (filter rq_offline (ls_log demo_lobby_state)))"
  using lobby_offline_once [OF demo_lobby_reach demo_lobby_two_ok] by simp

subsection \<open>The end of the worker\<close>

definition unsent :: "publisher \<Rightarrow> nat" where
  "unsent p = length (filter (\<lambda>r. \<not> lr_offline_sent r) (pb_rooms p))"

lemma first_index_filter:
  "first_index P xs = Some i \<Longrightarrow> \<not> P y \<Longrightarrow> length (filter P xs) = Suc (length (filter P (xs[i := y])))"
  by (induction xs arbitrary: i) (auto split: if_splits)

lemma worker_run_ends:
  assumes "pb_stopping p" "unsent p < length ins" "worker_run ins p = (w, p', log)"
  shows "w = Ended \<and> length log \<le> unsent p \<and> list_all rq_offline log \<and> distinct (map rq_room log) \<and>
    (\<forall>q \<in> set log. rq_room q < length (pb_rooms p) \<and> \<not> lr_offline_sent (pb_rooms p ! rq_room q))"
  using assms
proof (induction ins arbitrary: p log)
  case (Cons inp ins)
  obtain now later posted where inp: "inp = (now, later, posted)" by (metis prod_cases3)
  obtain v q where req: "next_request now p = (v, q)" by force
  from req show ?case
  proof (cases rule: next_request_cases)
    case none
    then have "v = Ended" using req Cons.prems(1)
      by (auto simp: next_request_def Let_def split: if_splits option.splits)
    then show ?thesis using Cons.prems(3) req by (simp add: inp)
  next
    case (offline i)
    define rq where "rq = request_for q i True (offline_timeout now p)"
    obtain tail where run: "worker_run ins q = (w, p', tail)" and log: "log = rq # tail"
      using Cons.prems(3) req offline(6) by (auto simp: inp rq_def finish_request_def split: prod.splits)
    have fewer: "unsent p = Suc (unsent q)"
      using first_index_filter [OF offline(4)] by (simp add: unsent_def offline(5) upd_lobby_room_def modify_def)
    have "w = Ended \<and> length tail \<le> unsent q \<and> list_all rq_offline tail \<and> distinct (map rq_room tail) \<and>
        (\<forall>q' \<in> set tail. rq_room q' < length (pb_rooms q) \<and> \<not> lr_offline_sent (pb_rooms q ! rq_room q'))"
      using Cons.prems(1,2) fewer by (intro Cons.IH [OF _ _ run]) (simp_all add: offline(5))
    then show ?thesis using fewer offline(2,3) by (auto simp: log rq_def offline(5) split: if_splits)
  next
    case (online i)
    then show ?thesis using Cons.prems(1) by simp
  qed
qed simp

text \<open>
  C34: Stopping the publisher terminates. Once it is stopped the worker ends within one iteration more
  than there are rooms, whatever the clock and the answers of the lobby, after at most one request
  for each room, all of them offline; so the join of the shutdown returns.
\<close>

theorem lobby_worker_ends:
  assumes "p = lobby_publisher_stop now p0" "pb_started p0" "length (pb_rooms p) < length ins"
    and "worker_run ins p = (w, p', log)"
  shows "w = Ended \<and> length log \<le> length (pb_rooms p) \<and> list_all rq_offline log \<and> distinct (map rq_room log)"
proof -
  have "unsent p \<le> length (pb_rooms p)" by (simp add: unsent_def)
  moreover have "pb_stopping p" using assms(1,2) by (simp add: lobby_publisher_stop_def)
  ultimately show ?thesis using worker_run_ends [OF _ _ assms(4)] assms(3) by fastforce
qed

theorem lobby_worker_ends_witness:
  "fst (worker_run [(5, 6, True), (7, 8, False), (9, 9, True)] (lobby_publisher_stop 4 demo_publisher)) = Ended"
proof -
  have p: "pb_started demo_publisher" "length (pb_rooms demo_publisher) = 2"
    by (simp_all add: demo_publisher_def lobby_publisher_start_def)
  obtain w p' log where run: "worker_run [(5, 6, True), (7, 8, False), (9, 9, True)] (lobby_publisher_stop 4 demo_publisher) = (w, p', log)"
    by (metis prod_cases3)
  from lobby_worker_ends [OF refl p(1) _ run] show ?thesis using p run by (simp add: lobby_publisher_stop_def)
qed

end
