(* ===== verification/Hosting.thy ===== *)
theory Hosting
  imports Server Lobby
begin

text \<open>
  The whole server process of \<^verbatim>\<open>server/main.c\<close>: all rooms started or none, the main loop over the
  rooms, the player counts handed to the lobby publisher while its worker runs, and the shutdown.
  Lemmas: the phases of a pass over all rooms are the passes of the single rooms, every room of the
  process is a reachable room, and the lobby holds the head counts of the rooms.
\<close>

section \<open>Start\<close>

text \<open>
  \<open>file i\<close>, \<open>listener i\<close> and \<open>e i\<close> are what room i finds of the layout file, the answer of
  \<open>create_listener\<close> and its environment. \<open>Inl\<close> is the failed start, with the rooms as destroyed.
\<close>

fun start_rooms :: "(nat \<Rightarrow> string option) \<Rightarrow> (nat \<Rightarrow> int) \<Rightarrow> u64 \<Rightarrow> (nat \<Rightarrow> env) \<Rightarrow> nat \<Rightarrow> room_config list \<Rightarrow>
    room list \<Rightarrow> room list + room list" where
  "start_rooms file listener now e i [] rooms = Inr rooms"
| "start_rooms file listener now e i (cfg # cfgs) rooms =
     (let (ok, r) = init_room cfg (file i) (listener i) now (e i) in
      if ok then start_rooms file listener now e (Suc i) cfgs (rooms @ [r])
      else Inl (map destroy_room rooms))"

text \<open>
  The process: how far it is, the rooms, what the tick loop of the current pass has still to visit
  with its clock, and the publisher with its worker.
\<close>

datatype stage = Running | Stopping | Finished

record process =
  po_stage :: stage
  po_rooms :: "room list"
  po_pending :: "nat list"
  po_later :: u64
  po_lobby :: "lobby_state option"

definition start_server :: "(nat \<Rightarrow> string option) \<Rightarrow> (nat \<Rightarrow> int) \<Rightarrow> u64 \<Rightarrow> (nat \<Rightarrow> env) \<Rightarrow> bool \<Rightarrow>
    room_config list \<Rightarrow> lobby_config option \<Rightarrow> room list + process" where
  "start_server file listener now e thread_ok cfgs lobby =
     (case start_rooms file listener now e 0 cfgs [] of
        Inl rooms \<Rightarrow> Inl rooms
      | Inr rooms \<Rightarrow>
          (case lobby of
             None \<Rightarrow> Inr \<lparr>po_stage = Running, po_rooms = rooms, po_pending = [], po_later = 0, po_lobby = None\<rparr>
           | Some cfg \<Rightarrow>
               (case lobby_publisher_start cfg (map (\<lambda>r. cfg_port (r_config r)) rooms) thread_ok of
                  None \<Rightarrow> Inl (map destroy_room rooms)
                | Some p \<Rightarrow> Inr \<lparr>po_stage = Running, po_rooms = rooms, po_pending = [], po_later = 0,
                    po_lobby = Some \<lparr>ls_publisher = p, ls_worker = Waiting, ls_log = [], ls_done = []\<rparr>\<rparr>)))"

section \<open>The main loop\<close>

text \<open>What \<open>poll\<close> answers when it does not fail: events for each room, or nothing (a timeout or a signal).\<close>

record ready =
  rd_clients :: "(revents \<times> recv_outcome) list"
  rd_departing :: "(revents \<times> recv_outcome) list"
  rd_incoming :: "(int \<times> bool) option"

datatype poll_answer = PollReady "ready list" | PollNothing

record loop_input =
  li_debug :: bool
  li_start :: u64
  li_poll :: poll_answer
  li_now :: u64
  li_later :: u64

definition no_events :: revents where
  "no_events = \<lparr>pollin = False, pollhup = False, pollout = False, pollerr = False, pollnval = False\<rparr>"

definition idle :: ready where
  "idle = \<lparr>rd_clients = replicate MAX_PLAYERS (no_events, RecvRetry),
     rd_departing = replicate MAX_DEPARTING (no_events, RecvRetry), rd_incoming = None\<rparr>"

definition room_input :: "loop_input \<Rightarrow> nat \<Rightarrow> pass_input" where
  "room_input inp i =
     (let rd = (case li_poll inp of PollReady rds \<Rightarrow> rds ! i | PollNothing \<Rightarrow> idle) in
      \<lparr>pi_debug = li_debug inp, pi_start = li_start inp, pi_clients = rd_clients rd,
       pi_departing = rd_departing rd, pi_incoming = rd_incoming rd, pi_now = li_now inp, pi_later = li_later inp\<rparr>)"

text \<open>Applying an event list to each room: the loops over the poll references of one kind.\<close>

definition each_room :: "room_event list list \<Rightarrow> room list \<Rightarrow> room list" where
  "each_room evss rooms = map2 (fold room_step) evss rooms"

definition reap_rooms :: "loop_input \<Rightarrow> room list \<Rightarrow> room list" where
  "reap_rooms inp rooms = map (room_step (Reap (li_start inp))) rooms"

text \<open>The pass up to the tick loop. The descriptors are recorded for all rooms before \<open>poll\<close>.\<close>

definition serve_rooms :: "loop_input \<Rightarrow> room list \<Rightarrow> room list" where
  "serve_rooms inp rooms =
     (let rooms1 = reap_rooms inp rooms;
          inputs = map (room_input inp) [0..<length rooms1];
          refs_clients = map2 client_events inputs rooms1;
          refs_departing = map2 departing_events inputs rooms1;
          rooms2 = each_room refs_clients rooms1;
          rooms3 = each_room refs_departing rooms2;
          rooms4 = each_room (map incoming_events inputs) rooms3 in
      map (room_step (Timers (li_debug inp) (li_later inp))) rooms4)"

definition tick_visit :: "nat \<Rightarrow> process \<Rightarrow> process" where
  "tick_visit i s =
     (let r = po_rooms s ! i in
      if po_later s \<ge> r_next_tick r
      then let r1 = tick_room (po_later s) r in
        s\<lparr>po_rooms := (po_rooms s)[i := r1],
          po_lobby := map_option (\<lambda>l. l\<lparr>ls_publisher :=
            lobby_publisher_submit (int i) (int (room_human_count r1)) (ls_publisher l)\<rparr>) (po_lobby s)\<rparr>
      else s)"

definition begin_pass :: "loop_input \<Rightarrow> process \<Rightarrow> process" where
  "begin_pass inp s = s\<lparr>po_rooms := serve_rooms inp (po_rooms s), po_pending := [0..<length (po_rooms s)],
     po_later := li_later inp\<rparr>"

definition tick_next :: "process \<Rightarrow> process" where
  "tick_next s = (case po_pending s of [] \<Rightarrow> s | i # is \<Rightarrow> tick_visit i (s\<lparr>po_pending := is\<rparr>))"

text \<open>One pass in which \<open>poll\<close> does not fail, from its start to the end of the tick loop.\<close>

definition server_pass :: "loop_input \<Rightarrow> process \<Rightarrow> process" where
  "server_pass inp s = (tick_next ^^ length (po_rooms s)) (begin_pass inp s)"

text \<open>The end of the loop up to the wait for the worker, and what follows it.\<close>

definition begin_stop :: "u64 \<Rightarrow> process \<Rightarrow> process" where
  "begin_stop now s = s\<lparr>po_stage := Stopping,
     po_lobby := map_option (\<lambda>l. l\<lparr>ls_publisher := lobby_publisher_stop now (ls_publisher l)\<rparr>) (po_lobby s)\<rparr>"

definition end_stop :: "process \<Rightarrow> process" where
  "end_stop s = s\<lparr>po_stage := Finished, po_rooms := map destroy_room (po_rooms s),
     po_lobby := map_option (\<lambda>l. l\<lparr>ls_publisher := lobby_publisher_joined (ls_publisher l)\<rparr>) (po_lobby s)\<rparr>"

definition worker_over :: "process \<Rightarrow> bool" where
  "worker_over s \<longleftrightarrow> pred_option (\<lambda>l. ls_worker l = Ended) (po_lobby s)"

text \<open>
  The process with its worker thread, which may run between any two visits of the tick loop. The
  loop ends when a signal has cleared \<open>g_running\<close>, or after the reaping when \<open>poll\<close> fails.
\<close>

inductive process_step :: "process \<Rightarrow> process \<Rightarrow> bool" where
  pass: "po_stage s = Running \<Longrightarrow> po_pending s = [] \<Longrightarrow> process_step s (begin_pass inp s)"
| tick: "po_pending s \<noteq> [] \<Longrightarrow> process_step s (tick_next s)"
| quit: "po_stage s = Running \<Longrightarrow> po_pending s = [] \<Longrightarrow> process_step s (begin_stop now s)"
| poll_error: "po_stage s = Running \<Longrightarrow> po_pending s = [] \<Longrightarrow>
    process_step s (begin_stop now (s\<lparr>po_rooms := reap_rooms inp (po_rooms s)\<rparr>))"
| joined: "po_stage s = Stopping \<Longrightarrow> worker_over s \<Longrightarrow> process_step s (end_stop s)"
| worker: "po_lobby s = Some l \<Longrightarrow> worker_step l l' \<Longrightarrow> process_step s (s\<lparr>po_lobby := Some l'\<rparr>)"

inductive process_reach :: "process \<Rightarrow> process \<Rightarrow> bool" for start where
  process_start: "process_reach start start"
| process_next: "process_reach start s \<Longrightarrow> process_step s t \<Longrightarrow> process_reach start t"

section \<open>A pass over all rooms\<close>

lemma each_room_nth:
  "i < length rooms \<Longrightarrow> length evss = length rooms \<Longrightarrow> each_room evss rooms ! i = fold room_step (evss ! i) (rooms ! i)"
  "length evss = length rooms \<Longrightarrow> length (each_room evss rooms) = length rooms"
  by (simp_all add: each_room_def)

lemma reap_rooms_nth [simp]:
  "i < length rooms \<Longrightarrow> reap_rooms inp rooms ! i = room_step (Reap (li_start inp)) (rooms ! i)"
  "length (reap_rooms inp rooms) = length rooms"
  by (simp_all add: reap_rooms_def)

lemma length_serve_rooms [simp]: "length (serve_rooms inp rooms) = length rooms"
  by (simp add: serve_rooms_def Let_def each_room_nth)

text \<open>Each room sees its own events in the order of its own pass.\<close>

lemma serve_rooms_nth:
  assumes "i < length rooms"
  shows "serve_rooms inp rooms ! i =
    (let r1 = room_step (Reap (li_start inp)) (rooms ! i); pin = room_input inp i in
     room_step (Timers (li_debug inp) (li_later inp))
       (fold room_step (client_events pin r1 @ departing_events pin r1 @ incoming_events pin) r1))"
  using assms by (simp add: serve_rooms_def Let_def each_room_nth del: room_step.simps)

lemma tick_visit_keeps [simp]:
  "po_stage (tick_visit i s) = po_stage s" "po_pending (tick_visit i s) = po_pending s"
  "po_later (tick_visit i s) = po_later s" "length (po_rooms (tick_visit i s)) = length (po_rooms s)"
  by (simp_all add: tick_visit_def Let_def)

lemma tick_visit_rooms:
  "i < length (po_rooms s) \<Longrightarrow>
    po_rooms (tick_visit i s) = (po_rooms s)[i := room_step (Tick (po_later s)) (po_rooms s ! i)]"
  by (simp add: tick_visit_def Let_def)

lemma tick_next_Nil [simp]: "po_pending s = [] \<Longrightarrow> tick_next s = s"
  by (simp add: tick_next_def)

lemma tick_next_Cons [simp]: "po_pending s = i # is \<Longrightarrow> tick_next s = tick_visit i (s\<lparr>po_pending := is\<rparr>)"
  by (simp add: tick_next_def)

lemma tick_loop_rooms:
  assumes "po_pending s = js" "distinct js" "set js \<subseteq> {..<length (po_rooms s)}" "i < length (po_rooms s)"
  shows "po_rooms ((tick_next ^^ length js) s) ! i =
    (if i \<in> set js then room_step (Tick (po_later s)) (po_rooms s ! i) else po_rooms s ! i) \<and>
    length (po_rooms ((tick_next ^^ length js) s)) = length (po_rooms s)"
  using assms
proof (induction js arbitrary: s)
  case (Cons j js)
  let ?t = "tick_next s"
  have j: "j < length (po_rooms s)" using Cons.prems(3) by simp
  have t: "po_rooms ?t = (po_rooms s)[j := room_step (Tick (po_later s)) (po_rooms s ! j)]"
    "po_pending ?t = js" "po_later ?t = po_later s"
    using Cons.prems(1) j by (simp_all add: tick_visit_rooms del: room_step.simps)
  have "po_rooms ((tick_next ^^ length js) ?t) ! i =
      (if i \<in> set js then room_step (Tick (po_later ?t)) (po_rooms ?t ! i) else po_rooms ?t ! i) \<and>
    length (po_rooms ((tick_next ^^ length js) ?t)) = length (po_rooms ?t)"
    using Cons.prems t by (intro Cons.IH) (simp_all del: room_step.simps)
  then show ?case
    using Cons.prems(2,4) j
    by (cases "i = j") (auto simp: funpow_swap1 t(1,3) simp del: room_step.simps)
qed simp

lemma begin_pass_simps [simp]:
  "po_stage (begin_pass inp s) = po_stage s" "po_pending (begin_pass inp s) = [0..<length (po_rooms s)]"
  "po_later (begin_pass inp s) = li_later inp" "po_rooms (begin_pass inp s) = serve_rooms inp (po_rooms s)"
  "po_lobby (begin_pass inp s) = po_lobby s"
  by (simp_all add: begin_pass_def)

text \<open>
  The phases of a pass over all rooms, put together room by room: the pass of the process agrees with
  \<open>room_pass\<close>, the pass of one room. Every room has its own environment, so this says that the two
  models fit together, not that the rooms are isolated.
\<close>

lemma server_pass_rooms:
  "po_rooms (server_pass inp s) = map (\<lambda>i. room_pass (room_input inp i) (po_rooms s ! i)) [0..<length (po_rooms s)]"
proof (rule nth_equalityI)
  let ?n = "length (po_rooms s)"
  have loop: "po_rooms ((tick_next ^^ length [0..<?n]) (begin_pass inp s)) ! i =
      (if i \<in> set [0..<?n] then room_step (Tick (po_later (begin_pass inp s))) (po_rooms (begin_pass inp s) ! i)
       else po_rooms (begin_pass inp s) ! i) \<and>
    length (po_rooms ((tick_next ^^ length [0..<?n]) (begin_pass inp s))) = length (po_rooms (begin_pass inp s))"
    if "i < ?n" for i
    using that by (intro tick_loop_rooms) auto
  show len: "length (po_rooms (server_pass inp s)) = length (map (\<lambda>i. room_pass (room_input inp i) (po_rooms s ! i)) [0..<?n])"
    using loop [of 0] by (cases "?n") (simp_all add: server_pass_def)
  fix i assume "i < length (po_rooms (server_pass inp s))"
  then have i: "i < ?n" using len by simp
  have "po_rooms (server_pass inp s) ! i = room_step (Tick (li_later inp)) (serve_rooms inp (po_rooms s) ! i)"
    using loop [OF i] i by (simp add: server_pass_def del: room_step.simps)
  also have "\<dots> = room_pass (room_input inp i) (po_rooms s ! i)"
    unfolding serve_rooms_nth [OF i] by (simp add: room_pass_def pass_events_def Let_def room_input_def del: room_step.simps)
  finally show "po_rooms (server_pass inp s) ! i = map (\<lambda>i. room_pass (room_input inp i) (po_rooms s ! i)) [0..<?n] ! i"
    using i by simp
qed

section \<open>Rooms of the process\<close>

definition first_room :: "(nat \<Rightarrow> string option) \<Rightarrow> (nat \<Rightarrow> int) \<Rightarrow> u64 \<Rightarrow> (nat \<Rightarrow> env) \<Rightarrow> room_config list \<Rightarrow> nat \<Rightarrow> room" where
  "first_room file listener now e cfgs i = snd (init_room (cfgs ! i) (file i) (listener i) now (e i))"

lemma first_room_fun:
  "first_room file listener now e cfgs = (\<lambda>i. snd (init_room (cfgs ! i) (file i) (listener i) now (e i)))"
  by (rule ext) (rule first_room_def)

lemma init_room_listener:
  "fst (init_room cfg file listener now e) \<longleftrightarrow> 0 \<le> listener"
  "r_listener_fd (snd (init_room cfg file listener now e)) = listener"
  by (simp_all add: init_room_def Let_def)

lemma init_room_config: "r_config (snd (init_room cfg file listener now e)) = cfg"
proof -
  have "house (for_slots (init_slot now) r) = house r" for r
    by (rule for_slots_preserves) (rule house_rkey, simp add: init_slot_def)
  then show ?thesis by (simp add: init_room_def Let_def house_def empty_room_def)
qed

lemma start_rooms_shape:
  "start_rooms file listener now e k cfgs rooms =
    (case first_index (\<lambda>i. listener (k + i) < 0) [0..<length cfgs] of
       None \<Rightarrow> Inr (rooms @ map (\<lambda>i. snd (init_room (cfgs ! i) (file (k + i)) (listener (k + i)) now (e (k + i)))) [0..<length cfgs])
     | Some m \<Rightarrow> Inl (map destroy_room
         (rooms @ map (\<lambda>i. snd (init_room (cfgs ! i) (file (k + i)) (listener (k + i)) now (e (k + i)))) [0..<m])))"
proof (induction cfgs arbitrary: k rooms)
  case (Cons cfg cfgs)
  have shift: "first_index P [0..<Suc n] =
      (if P 0 then Some 0 else map_option Suc (first_index (\<lambda>i. P (Suc i)) [0..<n]))" for P n
  proof -
    have "first_index P (map Suc xs) = first_index (\<lambda>i. P (Suc i)) xs" for xs by (induction xs) simp_all
    then show ?thesis by (simp add: upt_conv_Cons map_Suc_upt [symmetric] del: upt_Suc map_Suc_upt)
  qed
  have step: "start_rooms file listener now e k (cfg # cfgs) rooms =
      (if 0 \<le> listener k then start_rooms file listener now e (Suc k) cfgs (rooms @ [snd (init_room cfg (file k) (listener k) now (e k))])
       else Inl (map destroy_room rooms))"
    by (simp add: Let_def case_prod_beta init_room_listener(1))
  show ?case
    unfolding step Cons.IH length_Cons shift
    by (simp add: map_upt_Suc del: upt_Suc split: option.split)
qed simp

lemma first_index_None: "first_index P xs = None \<longleftrightarrow> (\<forall>x \<in> set xs. \<not> P x)"
  by (induction xs) auto

lemma start_rooms_cases:
  assumes "start_rooms file listener now e 0 cfgs [] = res"
  obtains (all) "res = Inr (map (first_room file listener now e cfgs) [0..<length cfgs])" "\<forall>i < length cfgs. 0 \<le> listener i"
  | (some) m where "m < length cfgs" "\<forall>i < m. 0 \<le> listener i" "listener m < 0"
      "res = Inl (map (\<lambda>i. destroy_room (first_room file listener now e cfgs i)) [0..<m])"
proof (cases "first_index (\<lambda>i. listener i < 0) [0..<length cfgs]")
  case None
  then show ?thesis
    using assms None by (intro all) (simp_all add: start_rooms_shape first_room_fun first_index_None not_less)
next
  case (Some m)
  have before: "first_index P xs = Some m \<Longrightarrow> i < m \<Longrightarrow> \<not> P (xs ! i)" for P i m and xs :: "nat list"
    by (induction xs arbitrary: m i) (auto split: if_splits simp: nth_Cons' )
  have "i < m \<Longrightarrow> 0 \<le> listener i" for i
    using before [OF Some, of i] first_index_Some [OF Some] by simp
  moreover from first_index_Some [OF Some] have "m < length cfgs" by simp
  moreover from first_index_Some [OF Some] this have "listener m < 0" by simp
  ultimately show ?thesis
    using assms Some
    by (intro some [of m]) (simp_all add: start_rooms_shape first_room_fun o_def)
qed

lemma destroy_first_room:
  assumes "config_ok (cfgs ! i)" "e_closed (e i) = []" "0 \<le> listener i"
  shows "closed_fds (destroy_room (first_room file listener now e cfgs i)) = {#listener i#}"
    "open_fds (destroy_room (first_room file listener now e cfgs i)) = {#}"
proof -
  note start = init_room_ok [OF assms(1,2)]
  have "server_ok (first_room file listener now e cfgs i)" "ledger (first_room file listener now e cfgs i) = {#}"
    by (simp_all add: first_room_def start)
  from destroy_room_ledger [OF this(1)] this(2) assms(3)
  show "closed_fds (destroy_room (first_room file listener now e cfgs i)) = {#listener i#}"
    "open_fds (destroy_room (first_room file listener now e cfgs i)) = {#}"
    by (simp_all add: first_room_def init_room_listener fd_cell_def)
qed

text \<open>The rooms before the first one whose listener cannot be opened.\<close>

definition opened :: "(nat \<Rightarrow> int) \<Rightarrow> nat \<Rightarrow> nat" where
  "opened listener n = length (takeWhile (\<lambda>i. 0 \<le> listener i) [0..<n])"

lemma opened_all: "\<forall>i < n. 0 \<le> listener i \<Longrightarrow> opened listener n = n"
  by (simp add: opened_def takeWhile_eq_all_conv [THEN iffD2])

lemma opened_some:
  assumes "m < n" "\<forall>i < m. 0 \<le> listener i" "listener m < 0"
  shows "opened listener n = m"
proof -
  have "[0..<n] = [0..<m] @ m # [Suc m..<n]"
    using assms(1) by (metis less_imp_le upt_add_eq_append upt_conv_Cons le_add_diff_inverse zero_le)
  then show ?thesis using assms(2,3) by (simp add: opened_def takeWhile_append)
qed

text \<open>
  C29: All rooms or none. The start opens the rooms in order up to the first whose listener cannot be
  opened. It succeeds exactly when that is none of them and, with a lobby, there are 1 to 64 rooms and the
  thread is created; the process then has just these rooms, initialised from their configurations, with
  their listeners and nothing closed. When it fails, the rooms left behind are just the rooms that were
  opened, every one of them shut down: it has closed its listener, once, and holds nothing.
\<close>

theorem start_all_or_nothing:
  assumes "list_all config_ok cfgs" "\<forall>i < length cfgs. e_closed (e i) = []"
    and "m = opened listener (length cfgs)"
    and "rooms = map (\<lambda>i. snd (init_room (cfgs ! i) (file i) (listener i) now (e i))) [0..<m]"
  shows "case start_server file listener now e thread_ok cfgs lobby of
      Inl left \<Rightarrow> (m < length cfgs \<or> lobby \<noteq> None \<and> \<not> (1 \<le> length cfgs \<and> length cfgs \<le> 64 \<and> thread_ok)) \<and>
        left = map destroy_room rooms \<and>
        (\<forall>i < m. closed_fds (left ! i) = {#listener i#} \<and> open_fds (left ! i) = {#})
    | Inr s \<Rightarrow> m = length cfgs \<and> (lobby = None \<or> 1 \<le> length cfgs \<and> length cfgs \<le> 64 \<and> thread_ok) \<and>
        po_rooms s = rooms \<and> po_stage s = Running \<and>
        (\<forall>i < m. 0 \<le> listener i \<and> r_listener_fd (po_rooms s ! i) = listener i \<and> closed_fds (po_rooms s ! i) = {#})"
proof -
  have destroyed: "closed_fds (destroy_room (first_room file listener now e cfgs i)) = {#listener i#} \<and>
      open_fds (destroy_room (first_room file listener now e cfgs i)) = {#}"
    if "i < length cfgs" "0 \<le> listener i" for i
    using destroy_first_room [of cfgs i e listener] that assms by (simp add: list_all_length)
  have started: "r_listener_fd (first_room file listener now e cfgs i) = listener i \<and>
      closed_fds (first_room file listener now e cfgs i) = {#}" if "i < length cfgs" for i
    using init_room_ok(2) [of "cfgs ! i" "e i" "file i" "listener i" now] that assms
    by (simp add: first_room_def init_room_listener list_all_length ledger_def closed_fds_def)
  have rooms: "rooms = map (first_room file listener now e cfgs) [0..<m]" by (simp add: assms(4) first_room_fun)
  have "start_rooms file listener now e 0 cfgs [] = start_rooms file listener now e 0 cfgs []" ..
  then show ?thesis
  proof (cases rule: start_rooms_cases)
    case all
    then have m: "m = length cfgs" by (simp add: assms(3) opened_all)
    then show ?thesis using all started destroyed
      by (auto simp: start_server_def rooms o_def lobby_publisher_start_def Suc_le_eq split: option.split)
  next
    case (some k)
    then have m: "m = k" by (simp add: assms(3) opened_some)
    then show ?thesis using some destroyed by (simp add: start_server_def rooms o_def)
  qed
qed

section \<open>Every moment of the process\<close>

definition runs_from :: "room \<Rightarrow> room \<Rightarrow> bool" where
  "runs_from q r \<longleftrightarrow> (\<exists>evs. r = fold room_step evs q)"

lemma runs_from_refl [simp]: "runs_from q q"
  unfolding runs_from_def by (rule exI [of _ "[]"]) simp

lemma runs_from_run: "runs_from q r \<Longrightarrow> runs_from q (fold room_step evs r)"
  unfolding runs_from_def by (metis comp_apply fold_append)

lemma runs_from_step: "runs_from q r \<Longrightarrow> runs_from q (room_step ev r)"
  using runs_from_run [of q r "[ev]"] by simp

lemma runs_from_serve:
  assumes "runs_from q (rooms ! i)" "i < length rooms"
  shows "runs_from q (serve_rooms inp rooms ! i)"
  unfolding serve_rooms_nth [OF assms(2)] Let_def by (intro runs_from_step runs_from_run assms(1))

text \<open>Every room is where some events of its own have brought it from its start.\<close>

definition process_ok :: "(nat \<Rightarrow> room) \<Rightarrow> nat \<Rightarrow> process \<Rightarrow> bool" where
  "process_ok q n s \<longleftrightarrow> length (po_rooms s) = n \<and> set (po_pending s) \<subseteq> {..<n} \<and>
     (po_stage s \<noteq> Running \<longrightarrow> po_pending s = []) \<and>
     (\<forall>i < n. \<exists>r. runs_from (q i) r \<and> po_rooms s ! i = (if po_stage s = Finished then destroy_room r else r))"

lemma process_ok_room:
  "process_ok q n s \<Longrightarrow> i < n \<Longrightarrow> po_stage s \<noteq> Finished \<Longrightarrow> runs_from (q i) (po_rooms s ! i)"
  by (auto simp: process_ok_def)

lemma process_okI:
  assumes "length (po_rooms s) = n" "set (po_pending s) \<subseteq> {..<n}" "po_stage s \<noteq> Running \<Longrightarrow> po_pending s = []"
    and "po_stage s \<noteq> Finished" "\<And>i. i < n \<Longrightarrow> runs_from (q i) (po_rooms s ! i)"
  shows "process_ok q n s"
  using assms by (simp add: process_ok_def)

lemma process_ok_step:
  assumes "process_step s t" "process_ok q n s"
  shows "process_ok q n t"
  using assms
proof (induction rule: process_step.induct)
  case (pass s inp)
  then have "i < n \<Longrightarrow> runs_from (q i) (serve_rooms inp (po_rooms s) ! i)" for i
    using process_ok_room [OF pass.prems, of i] by (intro runs_from_serve) (simp_all add: process_ok_def)
  then show ?case using pass by (intro process_okI) (auto simp: process_ok_def)
next
  case (tick s)
  then obtain i js where js: "po_pending s = i # js" by (cases "po_pending s") auto
  have run: "po_stage s = Running" and i: "i < length (po_rooms s)" and len: "length (po_rooms s) = n"
    using tick js by (auto simp: process_ok_def)
  have "j < n \<Longrightarrow> runs_from (q j) (po_rooms (tick_next s) ! j)" for j
    using process_ok_room [OF tick.prems, of j] run i len js
    by (auto simp: tick_visit_rooms nth_list_update intro: runs_from_step simp del: room_step.simps)
  then show ?case using tick.prems run js by (intro process_okI) (auto simp: process_ok_def)
next
  case (quit s now)
  then show ?case by (simp add: process_ok_def begin_stop_def)
next
  case (poll_error s now inp)
  have "i < n \<Longrightarrow> runs_from (q i) (reap_rooms inp (po_rooms s) ! i)" for i
    using process_ok_room [OF poll_error.prems, of i] poll_error
    by (auto simp: process_ok_def intro: runs_from_step simp del: room_step.simps)
  then show ?case using poll_error by (intro process_okI) (simp_all add: process_ok_def begin_stop_def)
next
  case (joined s)
  then show ?case by (auto simp: process_ok_def end_stop_def)
next
  case (worker s l l')
  then show ?case by (simp add: process_ok_def)
qed

lemma process_ok_reach: "process_reach start s \<Longrightarrow> process_ok q n start \<Longrightarrow> process_ok q n s"
  by (induction rule: process_reach.induct) (simp_all add: process_ok_step)

lemma start_server_shape:
  assumes "start_server file listener now e thread_ok cfgs lobby = Inr s"
  shows "po_rooms s = map (first_room file listener now e cfgs) [0..<length cfgs]" "po_stage s = Running" "po_pending s = []"
    "case lobby of None \<Rightarrow> po_lobby s = None
     | Some cfg \<Rightarrow> \<exists>p. lobby_publisher_start cfg (map cfg_port cfgs) thread_ok = Some p \<and>
         po_lobby s = Some \<lparr>ls_publisher = p, ls_worker = Waiting, ls_log = [], ls_done = []\<rparr>"
proof -
  have "map (\<lambda>r. cfg_port (r_config r)) (map (first_room file listener now e cfgs) [0..<length cfgs]) =
      map (\<lambda>i. cfg_port (cfgs ! i)) [0..<length cfgs]"
    by (simp add: o_def first_room_def init_room_config)
  also have "\<dots> = map cfg_port cfgs" by (rule nth_equalityI) simp_all
  finally have ports: "map ((\<lambda>r. cfg_port (r_config r)) \<circ> first_room file listener now e cfgs) [0..<length cfgs] = map cfg_port cfgs"
    by simp
  have "start_rooms file listener now e 0 cfgs [] = start_rooms file listener now e 0 cfgs []" ..
  then have "start_rooms file listener now e 0 cfgs [] = Inr (map (first_room file listener now e cfgs) [0..<length cfgs])"
    using assms by (cases rule: start_rooms_cases) (auto simp: start_server_def)
  then show "po_rooms s = map (first_room file listener now e cfgs) [0..<length cfgs]" "po_stage s = Running" "po_pending s = []"
    "case lobby of None \<Rightarrow> po_lobby s = None
     | Some cfg \<Rightarrow> \<exists>p. lobby_publisher_start cfg (map cfg_port cfgs) thread_ok = Some p \<and>
         po_lobby s = Some \<lparr>ls_publisher = p, ls_worker = Waiting, ls_log = [], ls_done = []\<rparr>"
    using assms by (auto simp: start_server_def ports split: option.splits)
qed

lemma start_server_ok:
  assumes "start_server file listener now e thread_ok cfgs lobby = Inr s"
  shows "process_ok (first_room file listener now e cfgs) (length cfgs) s"
  by (rule process_okI) (simp_all add: start_server_shape [OF assms])

text \<open>
  C8: Every room of the process is a room of its own. Whatever the rooms, the worker, the
  signals and \<open>poll\<close> do, in whatever order, at every moment room i is what events of its own have
  made of the room it was started as (so what is proved of single rooms holds of it), it is sound,
  and when the process has finished it has been shut down with no descriptor left open.
\<close>

theorem hosted_rooms_sound:
  assumes "start_server file listener now e thread_ok cfgs lobby = Inr start" "process_reach start s"
    and "list_all config_ok cfgs" "i < length cfgs" "e_closed (e i) = []"
  shows "\<exists>evs r. r = fold room_step evs (snd (init_room (cfgs ! i) (file i) (listener i) now (e i))) \<and> server_ok r \<and>
    po_rooms s ! i = (if po_stage s = Finished then destroy_room r else r) \<and>
    (po_stage s = Finished \<longrightarrow> open_fds (po_rooms s ! i) = {#} \<and>
       closed_fds (po_rooms s ! i) = sum_list (map handed evs) + fd_cell (listener i))"
proof -
  have "process_ok (first_room file listener now e cfgs) (length cfgs) s"
    by (rule process_ok_reach [OF assms(2) start_server_ok [OF assms(1)]])
  then obtain evs r where r: "r = fold room_step evs (first_room file listener now e cfgs i)"
    "po_rooms s ! i = (if po_stage s = Finished then destroy_room r else r)"
    using assms(4) unfolding process_ok_def runs_from_def by meson
  have cfg: "config_ok (cfgs ! i)" using assms(3,4) by (simp add: list_all_length)
  note start = init_room_ok [OF cfg assms(5), of "file i" "listener i" now]
  have run: "server_ok r" "ledger r = sum_list (map handed evs)"
    using room_run_keeps [OF start(1), of evs] start(2) by (simp_all add: r(1) first_room_def)
  have "r_listener_fd r = listener i"
    using r(1) room_run_house [OF start(1), of evs] by (simp add: first_room_def init_room_listener house_def)
  then show ?thesis
    using r run destroy_room_ledger [OF run(1)] by (intro exI [of _ evs] exI [of _ r]) (simp add: first_room_def)
qed

section \<open>The lobby of the process\<close>

text \<open>While the process runs, its publisher is where submits, the stop and its worker bring it.\<close>

definition lobby_sound :: "lobby_config \<Rightarrow> int list \<Rightarrow> process \<Rightarrow> bool" where
  "lobby_sound cfg ports s \<longleftrightarrow> (\<exists>l. po_lobby s = Some l \<and>
     (po_stage s \<noteq> Finished \<longrightarrow> lobby_reach cfg ports l \<and> (pb_stopping (ls_publisher l) \<longleftrightarrow> po_stage s \<noteq> Running)))"

lemma lobby_reach_started:
  assumes "lobby_reach cfg ports l"
  shows "pb_started (ls_publisher l) \<and> length (pb_rooms (ls_publisher l)) = length ports"
  using assms
proof (induction rule: lobby_reach.induct)
  case (lobby_init p)
  then show ?case by (auto simp: lobby_publisher_start_def split: if_splits)
next
  case (lobby_next s t)
  from lobby_next.hyps(2) lobby_next.IH show ?case
  proof (induction rule: lobby_step.induct)
    case (work s t)
    then show ?case
      by (auto elim!: worker_step.cases next_request_cases simp: finish_request_def)
  qed (simp_all add: lobby_publisher_submit_def lobby_publisher_stop_def Let_def)
qed

lemma worker_keeps_stopping: "worker_step l l' \<Longrightarrow> pb_stopping (ls_publisher l') = pb_stopping (ls_publisher l)"
  by (auto elim!: worker_step.cases next_request_cases simp: finish_request_def split: if_splits)

lemma worker_keeps_counts:
  assumes "worker_step l l'" "i < length (pb_rooms (ls_publisher l))"
  shows "lr_curplayers (pb_rooms (ls_publisher l') ! i) = lr_curplayers (pb_rooms (ls_publisher l) ! i)"
  using assms by (auto elim!: worker_step.cases next_request_cases simp: finish_request_def note_result_def Let_def)

lemma lobby_sound_begin_stop:
  assumes "lobby_sound cfg ports s" "po_stage s = Running"
  shows "lobby_sound cfg ports (begin_stop now s)"
proof -
  obtain l where l: "po_lobby s = Some l" "lobby_reach cfg ports l"
    using assms by (auto simp: lobby_sound_def)
  have "pb_stopping (lobby_publisher_stop now (ls_publisher l))"
    using lobby_reach_started [OF l(2)] by (simp add: lobby_publisher_stop_def)
  then show ?thesis using l(1) lobby_next [OF l(2) stop] by (simp add: lobby_sound_def begin_stop_def)
qed

lemma lobby_sound_step:
  assumes "process_step s t" "lobby_sound cfg ports s"
  shows "lobby_sound cfg ports t"
  using assms
proof (induction rule: process_step.induct)
  case (pass s inp)
  then show ?case by (simp add: lobby_sound_def)
next
  case (tick s)
  obtain l where l: "po_lobby s = Some l"
    "po_stage s \<noteq> Finished \<longrightarrow> lobby_reach cfg ports l \<and> (pb_stopping (ls_publisher l) \<longleftrightarrow> po_stage s \<noteq> Running)"
    using tick.prems by (auto simp: lobby_sound_def)
  have stop: "pb_stopping (lobby_publisher_submit i c p) = pb_stopping p" for i c p
    by (simp add: lobby_publisher_submit_def Let_def)
  show ?case
    using l tick.hyps lobby_next [OF _ submit, of cfg ports l]
    by (cases "po_pending s") (simp_all add: lobby_sound_def tick_visit_def Let_def stop)
next
  case (quit s now)
  then show ?case by (intro lobby_sound_begin_stop)
next
  case (poll_error s now inp)
  then show ?case by (intro lobby_sound_begin_stop) (simp_all add: lobby_sound_def)
next
  case (joined s)
  then show ?case by (auto simp: lobby_sound_def end_stop_def)
next
  case (worker s l l')
  then show ?case
    using lobby_next [OF _ work, of cfg ports l l'] worker_keeps_stopping [of l l']
    by (auto simp: lobby_sound_def)
qed

lemma lobby_sound_reach:
  assumes "process_reach start s" "start_server file listener now e thread_ok cfgs (Some cfg) = Inr start"
  shows "lobby_sound cfg (map cfg_port cfgs) s"
  using assms(1)
proof (induction rule: process_reach.induct)
  case process_start
  show ?case
    using start_server_shape(2,4) [OF assms(2)] lobby_init [of cfg "map cfg_port cfgs"]
    by (auto simp: lobby_sound_def lobby_publisher_start_def split: if_splits)
next
  case (process_next s t)
  from lobby_sound_step [OF process_next.hyps(2) process_next.IH] show ?case .
qed

text \<open>The next visit of the tick loop finds room i due.\<close>

definition ticks_next :: "nat \<Rightarrow> process \<Rightarrow> bool" where
  "ticks_next i s \<longleftrightarrow> (case po_pending s of [] \<Rightarrow> False | j # js \<Rightarrow> j = i \<and> r_next_tick (po_rooms s ! i) \<le> po_later s)"

definition lobby_count :: "nat \<Rightarrow> process \<Rightarrow> int option" where
  "lobby_count i s = map_option (\<lambda>l. lr_curplayers (pb_rooms (ls_publisher l) ! i)) (po_lobby s)"

lemma lobby_count_submit:
  "i < length (pb_rooms p) \<Longrightarrow> i \<noteq> j \<Longrightarrow>
    lr_curplayers (pb_rooms (lobby_publisher_submit (int j) c p) ! i) = lr_curplayers (pb_rooms p ! i)"
  by (simp add: lobby_publisher_submit_def Let_def)

lemma lobby_count_others:
  assumes "process_step s t" "\<not> (ticks_next i s \<and> t = tick_next s)"
    and "po_lobby s = Some l" "i < length (pb_rooms (ls_publisher l))"
  shows "lobby_count i t = lobby_count i s"
  using assms
proof (induction rule: process_step.induct)
  case (tick s)
  then obtain j js where js: "po_pending s = j # js" by (cases "po_pending s") auto
  then have "j = i \<longrightarrow> \<not> r_next_tick (po_rooms s ! i) \<le> po_later s" using tick.prems(1) by (simp add: ticks_next_def)
  then show ?case
    using tick.prems(2,3) js lobby_count_submit [of i "ls_publisher l" j]
    by (auto simp: lobby_count_def tick_visit_def Let_def)
next
  case (worker s l1 l')
  then show ?case using worker_keeps_counts [of l1 l' i] by (simp add: lobby_count_def)
qed (simp_all add: lobby_count_def begin_stop_def end_stop_def lobby_publisher_stop_def lobby_publisher_joined_def begin_pass_def)

lemma human_count_le: "room_human_count r \<le> 4"
  unfolding room_human_count_def using length_filter_le [of _ "[0..<4]"] by (rule order_trans) simp

lemma lobby_count_ticked:
  assumes "lobby_sound cfg ports s" "ticks_next i s" "po_stage s = Running" "i < length ports" "i < length (po_rooms s)"
  shows "lobby_count i (tick_next s) = Some (int (room_human_count (po_rooms (tick_next s) ! i)))"
proof -
  obtain l where l: "po_lobby s = Some l" "lobby_reach cfg ports l" "\<not> pb_stopping (ls_publisher l)"
    using assms(1,3) by (auto simp: lobby_sound_def)
  note p = lobby_reach_started [OF l(2)]
  have submit: "lr_curplayers (pb_rooms (lobby_publisher_submit (int i) (int (room_human_count r)) (ls_publisher l)) ! i) =
      int (room_human_count r)" for r
    using p l(3) assms(4) human_count_le [of r] by (simp add: lobby_publisher_submit_def Let_def)
  obtain js where "po_pending s = i # js" "r_next_tick (po_rooms s ! i) \<le> po_later s"
    using assms(2) by (auto simp: ticks_next_def split: list.splits)
  then show ?thesis using l(1) assms(5) submit by (simp add: lobby_count_def tick_visit_def Let_def)
qed

text \<open>
  C9: The lobby follows the rooms. A room's tick sets the count held for it in the publisher to the number
  of humans seated after that tick, and no other step of the rooms, the worker or the loop changes it.
  While the process runs, unless a change still waits to be sent or a request with this count is on its
  way, the last request about the room that was answered carried this count; if the lobby took it, the
  next announcement is due one refresh period after the answer, and if not, 1 to 30 seconds after it.
\<close>

theorem lobby_follows_rooms:
  assumes "start_server file listener now e thread_ok cfgs (Some cfg) = Inr start" "process_reach start s"
    and "po_stage s \<noteq> Finished" "list_all (\<lambda>c. 1 \<le> cfg_port c \<and> cfg_port c \<le> 65535) cfgs" "i < length cfgs"
  shows "\<exists>l r. po_lobby s = Some l \<and> r = pb_rooms (ls_publisher l) ! i \<and> lobby_count i s = Some (lr_curplayers r) \<and>
    (po_stage s = Running \<longrightarrow>
       lr_dirty r \<or>
       (\<exists>q. ls_worker l = Posting q \<and> rq_room q = i \<and> \<not> rq_offline q \<and> rq_curplayers q = lr_curplayers r) \<or>
       (\<exists>q t ok d. last_answer (ls_done l) i = Some (q, t, ok) \<and> \<not> rq_offline q \<and> rq_curplayers q = lr_curplayers r \<and>
          lr_next_attempt_ms r = t + d \<and> (if ok then d = of_int (lc_refresh_ms cfg) else 1000 \<le> d \<and> d \<le> 30000))) \<and>
    (\<forall>t. process_step s t \<longrightarrow> lobby_count i t =
       (if ticks_next i s \<and> t = tick_next s then Some (int (room_human_count (po_rooms t ! i))) else lobby_count i s))"
proof -
  have sound: "lobby_sound cfg (map cfg_port cfgs) s" by (rule lobby_sound_reach [OF assms(2,1)])
  then obtain l where l: "po_lobby s = Some l" "lobby_reach cfg (map cfg_port cfgs) l"
    "pb_stopping (ls_publisher l) \<longleftrightarrow> po_stage s \<noteq> Running"
    using assms(3) by (auto simp: lobby_sound_def)
  have ok: "process_ok (first_room file listener now e cfgs) (length cfgs) s"
    by (rule process_ok_reach [OF assms(2) start_server_ok [OF assms(1)]])
  then have i: "i < length (po_rooms s)" "ticks_next i s \<Longrightarrow> po_stage s = Running"
    using assms(5) by (auto simp: process_ok_def ticks_next_def)
  note p = lobby_reach_started [OF l(2)]
  define r where "r = pb_rooms (ls_publisher l) ! i"
  have "list_all (\<lambda>p. 1 \<le> p \<and> p \<le> 65535) (map cfg_port cfgs)" using assms(4) by (simp add: list_all_iff)
  from lobby_reach_answered [OF l(2) this]
  have "pb_config (ls_publisher l) = cfg" "answered (ls_publisher l) (ls_worker l) (ls_done l)"
    by (simp_all add: publisher_ok_def)
  then have "lr_dirty r \<or> in_flight i r (ls_worker l) \<or> put (lc_refresh_ms cfg) r (last_answer (ls_done l) i)"
    if "po_stage s = Running"
    using that l(3) p assms(5) by (simp add: answered_def r_def)
  then have public: "po_stage s = Running \<longrightarrow>
       lr_dirty r \<or>
       (\<exists>q. ls_worker l = Posting q \<and> rq_room q = i \<and> \<not> rq_offline q \<and> rq_curplayers q = lr_curplayers r) \<or>
       (\<exists>q t ok d. last_answer (ls_done l) i = Some (q, t, ok) \<and> \<not> rq_offline q \<and> rq_curplayers q = lr_curplayers r \<and>
          lr_next_attempt_ms r = t + d \<and> (if ok then d = of_int (lc_refresh_ms cfg) else 1000 \<le> d \<and> d \<le> 30000))"
    by (fastforce simp: in_flight_def put_def split: worker.splits option.splits)
  have "lobby_count i t =
      (if ticks_next i s \<and> t = tick_next s then Some (int (room_human_count (po_rooms t ! i))) else lobby_count i s)"
    if "process_step s t" for t
    using lobby_count_others [OF that _ l(1), of i] lobby_count_ticked [OF sound _ i(2), of i] i p assms(5) by auto
  moreover have "lobby_count i s = Some (lr_curplayers r)" by (simp add: lobby_count_def l(1) r_def)
  ultimately show ?thesis using l(1) public by (intro exI [of _ l] exI [of _ r]) (simp add: r_def)
qed

section \<open>A process at work\<close>

text \<open>Two rooms with a lobby; a player connects to the second one.\<close>

definition demo_hosted :: "room_config list" where
  "demo_hosted = [demo_config, demo_config\<lparr>cfg_port := 9001\<rparr>]"

definition demo_process :: process where
  "demo_process = (case start_server (\<lambda>_. None) (\<lambda>i. 3 + int i) 0 (\<lambda>_. demo_env) True demo_hosted (Some demo_lobby) of
     Inr s \<Rightarrow> s | Inl _ \<Rightarrow> undefined)"

lemma demo_process_start:
  "start_server (\<lambda>_. None) (\<lambda>i. 3 + int i) 0 (\<lambda>_. demo_env) True demo_hosted (Some demo_lobby) = Inr demo_process"
proof -
  have rooms: "start_rooms (\<lambda>_. None) (\<lambda>i. 3 + int i) 0 (\<lambda>_. demo_env) 0 demo_hosted [] =
      Inr (map (first_room (\<lambda>_. None) (\<lambda>i. 3 + int i) 0 (\<lambda>_. demo_env) demo_hosted) [0..<length demo_hosted])"
    by (simp add: start_rooms_shape first_room_fun demo_hosted_def upt_conv_Cons)
  then have "\<exists>s. start_server (\<lambda>_. None) (\<lambda>i. 3 + int i) 0 (\<lambda>_. demo_env) True demo_hosted (Some demo_lobby) = Inr s"
    by (simp add: start_server_def lobby_publisher_start_def demo_hosted_def)
  then show ?thesis unfolding demo_process_def by fastforce
qed

lemma demo_hosted_ok: "list_all config_ok demo_hosted" "length demo_hosted = 2"
    "list_all (\<lambda>c. 1 \<le> cfg_port c \<and> cfg_port c \<le> 65535) demo_hosted"
  using demo_config_ok by (simp_all add: demo_hosted_def config_ok_def demo_config_def)

definition quiet_pass :: loop_input where
  "quiet_pass = \<lparr>li_debug = False, li_start = 0, li_poll = PollNothing, li_now = 0, li_later = 5\<rparr>"

lemma demo_process_pass: "process_step demo_process (begin_pass quiet_pass demo_process)"
  by (rule pass) (rule start_server_shape [OF demo_process_start])+

text \<open>The second listener cannot be opened: the first room is shut down and there is no second one.\<close>

theorem start_all_or_nothing_witness:
  "\<exists>left. start_server (\<lambda>_. None) (\<lambda>i. if i = 0 then 3 else -1) 0 (\<lambda>_. demo_env) True demo_hosted None = Inl left \<and>
     length left = 1 \<and> closed_fds (left ! 0) = {#3#} \<and> open_fds (left ! 0) = {#}"
proof -
  let ?l = "\<lambda>i. if i = 0 then 3 else - 1 :: int"
  have m: "1 = opened ?l (length demo_hosted)" by (rule opened_some [symmetric]) (simp_all add: demo_hosted_def)
  have "\<forall>i < length demo_hosted. e_closed demo_env = []" by (simp add: demo_env_def)
  note res = start_all_or_nothing [of demo_hosted "\<lambda>_. demo_env" 1 ?l _ "\<lambda>_. None" 0 None True,
    OF demo_hosted_ok(1) this m refl]
  show ?thesis
  proof (cases "start_server (\<lambda>_. None) ?l 0 (\<lambda>_. demo_env) True demo_hosted None")
    case (Inl left)
    then have "length left = 1 \<and> closed_fds (left ! 0) = {#3#} \<and> open_fds (left ! 0) = {#}" using res by auto
    then show ?thesis using Inl by blast
  next
    case (Inr s)
    then show ?thesis using res demo_hosted_ok(2) by simp
  qed
qed

theorem hosted_rooms_sound_witness:
  "server_ok (po_rooms (begin_pass quiet_pass demo_process) ! 1)"
proof -
  have "process_reach demo_process (begin_pass quiet_pass demo_process)"
    by (rule process_next [OF process_start demo_process_pass])
  moreover have "1 < length demo_hosted" "e_closed demo_env = []" by (simp_all add: demo_hosted_ok demo_env_def)
  ultimately show ?thesis
    using hosted_rooms_sound [OF demo_process_start _ demo_hosted_ok(1), of "begin_pass quiet_pass demo_process" 1]
      start_server_shape(2) [OF demo_process_start] by auto
qed

theorem lobby_follows_rooms_witness:
  "lobby_count 1 (begin_pass quiet_pass demo_process) = lobby_count 1 demo_process"
proof -
  have "po_stage demo_process \<noteq> Finished" "1 < length demo_hosted" "\<not> ticks_next 1 demo_process"
    using start_server_shape(2,3) [OF demo_process_start] by (simp_all add: demo_hosted_ok ticks_next_def)
  then show ?thesis
    using lobby_follows_rooms [OF demo_process_start process_start _ demo_hosted_ok(3), of 1] demo_process_pass by auto
qed

end
