(* ===== verification/Receive.thy ===== *)
theory Receive
  imports Transmit
begin

text \<open>
  The receive side of \<^verbatim>\<open>net/tcp_stream.h\<close> as the clients use it: \<^verbatim>\<open>tcp_rx\<close> and
  \<^verbatim>\<open>tcp_recv_frame\<close>. The answers of \<open>recv\<close> are a script. Lemmas: the receiver is a framed
  byte stream, however the stream is cut into reads.
\<close>

section \<open>Definitions\<close>

text \<open>\<open>input[pos..len)\<close> is \<open>cr_pending\<close>, \<open>frame[0..used)\<close> is \<open>cr_frame\<close>.\<close>

record tcp_rx =
  cr_pending :: bytes
  cr_frame :: bytes
  cr_discarding :: bool

definition tcp_rx_zero :: tcp_rx where
  "tcp_rx_zero = \<lparr>cr_pending = [], cr_frame = [], cr_discarding = False\<rparr>"

text \<open>What \<open>recv\<close> answers; once the script is used up the socket would block.\<close>

datatype recv_reply = Received bytes | GotEINTR | GotEAGAIN | GotError

text \<open>The three kinds of return value: 0, -1 and a payload.\<close>

datatype recv_status = RecvNothing | RecvBroken | RecvFrame bytes

text \<open>The verdict on the frame collected so far, when its delimiter arrives.\<close>

definition client_frame :: "bytes \<Rightarrow> nat \<Rightarrow> bytes option" where
  "client_frame frame cap =
     (case unstuff frame (length frame) 0 0 of
        None \<Rightarrow> None
      | Some (buf, wr) \<Rightarrow> check_frame buf wr cap)"

definition client_byte :: "tcp_rx \<Rightarrow> u8 \<Rightarrow> nat \<Rightarrow> bytes option \<times> tcp_rx" where
  "client_byte rx b cap =
     (if b \<noteq> 0 then
        (None, if \<not> cr_discarding rx then
                 (if length (cr_frame rx) = 64 then rx\<lparr>cr_discarding := True\<rparr>
                  else rx\<lparr>cr_frame := cr_frame rx @ [b]\<rparr>)
               else rx)
      else let rx1 = rx\<lparr>cr_frame := []\<rparr> in
        if cr_discarding rx then (None, rx1\<lparr>cr_discarding := False\<rparr>)
        else if cr_frame rx = [] then (None, rx1)
        else (client_frame (cr_frame rx) cap, rx1))"

text \<open>The loop over the bytes at hand: up to the next good frame, or to the end of the buffer.\<close>

fun client_scan :: "bytes \<Rightarrow> tcp_rx \<Rightarrow> nat \<Rightarrow> bytes option \<times> tcp_rx" where
  "client_scan [] rx cap = (None, rx\<lparr>cr_pending := []\<rparr>)"
| "client_scan (b # bs) rx cap =
     (case client_byte rx b cap of
        (Some payload, rx1) \<Rightarrow> (Some payload, rx1\<lparr>cr_pending := bs\<rparr>)
      | (None, rx1) \<Rightarrow> client_scan bs rx1 cap)"

fun recv_some :: "recv_reply list \<Rightarrow> recv_reply \<times> recv_reply list" where
  "recv_some [] = (GotEAGAIN, [])"
| "recv_some (GotEINTR # script) = recv_some script"
| "recv_some (r # script) = (r, script)"

definition tcp_recv_frame :: "tcp_rx \<Rightarrow> nat \<Rightarrow> recv_reply list \<Rightarrow> recv_status \<times> tcp_rx \<times> recv_reply list" where
  "tcp_recv_frame rx cap script =
     (case client_scan (cr_pending rx) rx cap of
        (Some payload, rx1) \<Rightarrow> (RecvFrame payload, rx1, script)
      | (None, rx1) \<Rightarrow>
        (case recv_some script of
           (Received bytes, rest) \<Rightarrow>
             (let input = take 1024 bytes in
              if input = [] then (RecvBroken, rx1, rest)
              else case client_scan input rx1 cap of
                  (Some payload, rx2) \<Rightarrow> (RecvFrame payload, rx2, rest)
                | (None, rx2) \<Rightarrow> (RecvNothing, rx2, rest))
         | (GotError, rest) \<Rightarrow> (RecvBroken, rx1, rest)
         | (_, rest) \<Rightarrow> (RecvNothing, rx1, rest)))"

text \<open>The clients call it at most \<open>n\<close> times (64) in each pass of their main loop.\<close>

fun receive_frames :: "nat \<Rightarrow> tcp_rx \<Rightarrow> nat \<Rightarrow> recv_reply list \<Rightarrow> bytes list \<times> bool \<times> tcp_rx \<times> recv_reply list" where
  "receive_frames 0 rx cap script = ([], True, rx, script)"
| "receive_frames (Suc n) rx cap script =
     (case tcp_recv_frame rx cap script of
        (RecvBroken, rx1, rest) \<Rightarrow> ([], False, rx1, rest)
      | (RecvNothing, rx1, rest) \<Rightarrow> ([], True, rx1, rest)
      | (RecvFrame payload, rx1, rest) \<Rightarrow>
          (case receive_frames n rx1 cap rest of (ps, ok, rx2, rest2) \<Rightarrow> (payload # ps, ok, rx2, rest2)))"

section \<open>The receiver as a framed byte stream\<close>

text \<open>Feeding bytes collects the payloads, whatever the cuts between reads.\<close>

fun client_feed :: "tcp_rx \<Rightarrow> bytes \<Rightarrow> nat \<Rightarrow> bytes list \<times> tcp_rx" where
  "client_feed rx [] cap = ([], rx)"
| "client_feed rx (b # bs) cap =
     (let (r, rx1) = client_byte rx b cap; (ps, rx2) = client_feed rx1 bs cap in
      (case r of None \<Rightarrow> ps | Some p \<Rightarrow> p # ps, rx2))"

lemma client_feed_append:
  "client_feed rx (xs @ ys) cap =
     (let (r1, rx1) = client_feed rx xs cap; (r2, rx2) = client_feed rx1 ys cap in (r1 @ r2, rx2))"
  by (induction xs arbitrary: rx) (auto simp: Let_def split: prod.splits option.splits)

lemma client_byte_pending: "client_byte (rx\<lparr>cr_pending := bs\<rparr>) b cap =
    (fst (client_byte rx b cap), snd (client_byte rx b cap)\<lparr>cr_pending := bs\<rparr>)"
  by (simp add: client_byte_def Let_def)

lemma client_byte_keeps_pending: "cr_pending (snd (client_byte rx b cap)) = cr_pending rx"
  by (simp add: client_byte_def Let_def)

lemma client_feed_pending: "client_feed (rx\<lparr>cr_pending := bs\<rparr>) xs cap =
    (fst (client_feed rx xs cap), snd (client_feed rx xs cap)\<lparr>cr_pending := bs\<rparr>)"
proof (induction xs arbitrary: rx)
  case (Cons x xs)
  show ?case by (simp add: Let_def split_beta client_byte_pending Cons.IH split: option.split)
qed simp

lemma client_feed_keeps_pending: "cr_pending (snd (client_feed rx xs cap)) = cr_pending rx"
  by (induction xs arbitrary: rx) (simp_all add: Let_def split_beta client_byte_keeps_pending)

text \<open>The receiver answers a delimiter with the list decoder's verdict.\<close>

lemma client_frame_decode:
  "client_frame frame cap =
     (case cobs_decode frame of None \<Rightarrow> None | Some d \<Rightarrow> check_frame d (length d) cap)"
proof (cases "cobs_decode frame")
  case None
  then show ?thesis using unstuff_None [OF None] by (simp add: client_frame_def)
next
  case (Some d)
  then obtain buf where buf: "unstuff frame (length frame) 0 0 = Some (buf, length d)"
    "take (length d) buf = d" by (elim unstuff_Some)
  have "min (length buf) (length d) = length d" using buf(2) by (metis length_take)
  then have "check_frame buf (length d) cap = check_frame d (length d) cap"
    using check_frame_take [of "length d" buf cap] buf(2) by simp
  then show ?thesis using Some buf by (simp add: client_frame_def)
qed

definition client_clean :: "tcp_rx \<Rightarrow> bool" where
  "client_clean rx \<longleftrightarrow> cr_frame rx = [] \<and> \<not> cr_discarding rx"

text \<open>The buffer of 64 bytes holds the stuffed form of payloads up to 61 bytes.\<close>

definition client_framable :: "nat \<Rightarrow> bytes \<Rightarrow> bool" where
  "client_framable cap p \<longleftrightarrow> 1 \<le> length p \<and> length p \<le> cap \<and> length p \<le> 61"

lemma client_feed_nonzero:
  assumes "0 \<notin> set xs" "\<not> cr_discarding rx" "length (cr_frame rx) + length xs \<le> 64"
  shows "client_feed rx xs cap = ([], rx\<lparr>cr_frame := cr_frame rx @ xs\<rparr>)"
  using assms
proof (induction xs arbitrary: rx)
  case (Cons b bs)
  define rx1 where "rx1 = rx\<lparr>cr_frame := cr_frame rx @ [b]\<rparr>"
  have "client_byte rx b cap = (None, rx1)" using Cons.prems by (auto simp: client_byte_def rx1_def)
  moreover have "client_feed rx1 bs cap = ([], rx1\<lparr>cr_frame := cr_frame rx1 @ bs\<rparr>)"
    using Cons.prems by (intro Cons.IH) (auto simp: rx1_def)
  ultimately show ?case by (simp add: rx1_def)
qed simp

lemma client_feed_frame:
  assumes "client_clean rx" "client_framable cap p"
  shows "client_feed rx (encode_frame p) cap = ([p], rx)"
proof -
  define raw where "raw = p @ crc_trailer p"
  have enc: "length (cobs_encode raw) = length p + 3"
    using assms(2) by (simp add: raw_def cobs_encode_length client_framable_def)
  have rx: "cr_frame rx = []" "\<not> cr_discarding rx" using assms(1) by (simp_all add: client_clean_def)
  define rx1 where "rx1 = rx\<lparr>cr_frame := cobs_encode raw\<rparr>"
  have run: "client_feed rx (cobs_encode raw) cap = ([], rx1)"
    using client_feed_nonzero [OF cobs_encode_no_zero, of rx raw cap] rx enc assms(2)
    by (simp add: rx1_def client_framable_def)
  have dec: "cobs_decode (cobs_encode raw) = Some raw"
    using cobs_decode_blocks [of "[]" raw] by (simp add: cobs_encode_blocks)
  have "check_frame raw (length raw) cap = Some p"
    using assms(2) by (subst check_frame_iff) (simp_all add: raw_def client_framable_def)
  moreover have "cobs_encode raw \<noteq> []" using enc by auto
  ultimately have "client_byte rx1 0 cap = (Some p, rx)"
    using rx dec by (simp add: client_byte_def rx1_def client_frame_decode)
  then show ?thesis using run by (simp add: encode_frame_def raw_def [symmetric] client_feed_append)
qed

interpretation client_rx: stream_codec encode_frame "\<lambda>s bs. client_feed s bs cap"
    client_clean "client_framable cap" "\<lambda>p. p"
  for cap
  by unfold_locales (auto simp: client_feed_append Let_def client_feed_frame split: prod.splits)

section \<open>Reading\<close>

text \<open>The bytes a script of answers delivers, and the receiver with no byte at hand.\<close>

fun reply_bytes :: "recv_reply \<Rightarrow> bytes" where
  "reply_bytes (Received bytes) = take 1024 bytes"
| "reply_bytes _ = []"

definition received :: "recv_reply list \<Rightarrow> bytes" where
  "received script = concat (map reply_bytes script)"

definition idle :: "tcp_rx \<Rightarrow> tcp_rx" where
  "idle rx = rx\<lparr>cr_pending := []\<rparr>"

text \<open>Everything still to be decoded, from the bytes at hand and those to come.\<close>

definition outlook :: "nat \<Rightarrow> tcp_rx \<Rightarrow> bytes \<Rightarrow> bytes list \<times> tcp_rx" where
  "outlook cap rx later = client_feed (idle rx) (cr_pending rx @ later) cap"

lemma client_scan_outlook:
  "client_scan bs rx cap = (r, rx1) \<Longrightarrow>
   client_feed (idle rx) (bs @ later) cap =
     ((case r of None \<Rightarrow> [] | Some p \<Rightarrow> [p]) @ fst (outlook cap rx1 later), snd (outlook cap rx1 later)) \<and>
   (r = None \<longrightarrow> cr_pending rx1 = [])"
proof (induction bs arbitrary: rx)
  case Nil
  then show ?case by (auto simp: outlook_def idle_def)
next
  case (Cons b bs)
  obtain g rx2 where b: "client_byte rx b cap = (g, rx2)" by force
  have idle: "client_byte (idle rx) b cap = (g, idle rx2)" by (simp add: idle_def client_byte_pending b)
  show ?case
  proof (cases g)
    case None
    then have "client_scan bs rx2 cap = (r, rx1)" using Cons.prems b by simp
    from Cons.IH [OF this] show ?thesis using idle None by (simp add: Let_def)
  next
    case (Some p)
    then have "r = Some p" "rx1 = rx2\<lparr>cr_pending := bs\<rparr>" using Cons.prems b by auto
    then show ?thesis using idle Some by (simp add: Let_def split_beta outlook_def idle_def)
  qed
qed

lemma recv_some_received:
  "recv_some script = (r, rest) \<Longrightarrow> received script = reply_bytes r @ received rest"
  by (induction script rule: recv_some.induct) (auto simp: received_def)

lemma tcp_recv_frame_outlook:
  assumes "tcp_recv_frame rx cap script = (st, rx1, rest)"
  shows "outlook cap rx (received script) =
     ((case st of RecvFrame p \<Rightarrow> [p] | _ \<Rightarrow> []) @ fst (outlook cap rx1 (received rest)), snd (outlook cap rx1 (received rest))) \<and>
    (st = RecvNothing \<longrightarrow> cr_pending rx1 = [])"
proof -
  obtain g rx2 where first: "client_scan (cr_pending rx) rx cap = (g, rx2)" by force
  note one = client_scan_outlook [OF first, of "received script", folded outlook_def]
  show ?thesis
  proof (cases g)
    case (Some p)
    then show ?thesis using assms first one by (auto simp: tcp_recv_frame_def)
  next
    case None
    have pend: "cr_pending rx2 = []" using one None by simp
    obtain r s where r: "recv_some script = (r, s)" by force
    note got = recv_some_received [OF r]
    have one: "outlook cap rx (received script) = outlook cap rx2 (received script)" using one None by simp
    show ?thesis
    proof (cases "\<exists>bs. r = Received bs \<and> take 1024 bs \<noteq> []")
      case True
      then obtain bs where bs: "r = Received bs" "take 1024 bs \<noteq> []" by blast
      obtain h rx3 where second: "client_scan (take 1024 bs) rx2 cap = (h, rx3)" by force
      have "outlook cap rx2 (received script) = client_feed (idle rx2) (take 1024 bs @ received s) cap"
        using pend got bs(1) by (simp add: outlook_def)
      note two = this [unfolded client_scan_outlook [OF second, THEN conjunct1]]
      have "cr_pending rx3 = []" if "h = None" using client_scan_outlook [OF second] that by simp
      moreover have "(st, rx1, rest) = (case h of Some p \<Rightarrow> (RecvFrame p, rx3, s) | None \<Rightarrow> (RecvNothing, rx3, s))"
        using assms first None r bs second by (simp add: tcp_recv_frame_def Let_def split: option.splits)
      ultimately show ?thesis using one two by (auto split: option.splits)
    next
      case False
      then have "reply_bytes r = []" by (cases r) auto
      moreover have "rx1 = rx2 \<and> rest = s \<and> st \<in> {RecvNothing, RecvBroken}"
        using assms first None r False
        by (auto simp: tcp_recv_frame_def Let_def split: recv_reply.splits if_splits)
      ultimately show ?thesis using one got pend by auto
    qed
  qed
qed

lemma receive_frames_outlook:
  "receive_frames n rx cap script = (ps, ok, rx1, rest) \<Longrightarrow>
   outlook cap rx (received script) =
     (ps @ fst (outlook cap rx1 (received rest)), snd (outlook cap rx1 (received rest))) \<and>
   (ok \<and> length ps < n \<longrightarrow> cr_pending rx1 = [])"
proof (induction n arbitrary: rx script ps ok rx1 rest)
  case 0
  then show ?case by simp
next
  case (Suc n)
  obtain st rx2 s where one: "tcp_recv_frame rx cap script = (st, rx2, s)" by (metis prod_cases3)
  note step = tcp_recv_frame_outlook [OF one]
  show ?case
  proof (cases st)
    case (RecvFrame p)
    obtain qs ok2 rx3 s2 where more: "receive_frames n rx2 cap s = (qs, ok2, rx3, s2)" by (metis prod_cases4)
    have "ps = p # qs" "ok = ok2" "rx1 = rx3" "rest = s2" using Suc.prems one RecvFrame more by simp_all
    then show ?thesis using Suc.IH [OF more] step RecvFrame by auto
  qed (use Suc.prems one step in auto)
qed

section \<open>The two receivers agree\<close>

definition payload_of :: "frame_result \<Rightarrow> bytes list" where
  "payload_of r = (case r of FramePayload p \<Rightarrow> [p] | _ \<Rightarrow> [])"

lemma client_feed_segment:
  assumes "0 \<notin> set seg" "length seg \<le> 64"
  shows "client_feed tcp_rx_zero (seg @ [0]) cap =
    (concat (map payload_of (fst (push_bytes frame_rx_zero (seg @ [0]) cap))), tcp_rx_zero)"
proof -
  define rx where "rx = tcp_rx_zero\<lparr>cr_frame := seg\<rparr>"
  define st where "st = frame_rx_zero\<lparr>fr_encoded := seg\<rparr>"
  have "client_feed tcp_rx_zero seg cap = ([], rx)"
    using client_feed_nonzero [OF assms(1), of tcp_rx_zero cap] assms(2) by (simp add: tcp_rx_zero_def rx_def)
  moreover have "push_bytes frame_rx_zero seg cap = ([], st)"
    using push_nonzero [OF assms(1), of frame_rx_zero cap] assms(2) by (simp add: frame_rx_zero_def st_def)
  moreover have "client_byte rx 0 cap =
      (if seg = [] then None else case cobs_decode seg of None \<Rightarrow> None | Some d \<Rightarrow> check_frame d (length d) cap, tcp_rx_zero)"
    by (simp add: client_byte_def rx_def tcp_rx_zero_def client_frame_decode)
  moreover have "tcp_frame_push_byte st 0 cap = ((if seg = [] then FrameInvalid
       else case cobs_decode seg of None \<Rightarrow> FrameInvalid
         | Some d \<Rightarrow> (case check_frame d (length d) cap of None \<Rightarrow> FrameInvalid | Some p \<Rightarrow> FramePayload p)), frame_rx_zero)"
    by (simp add: push_delimiter st_def frame_rx_zero_def)
  ultimately show ?thesis
    by (auto simp: client_feed_append push_bytes_append payload_of_def split: option.splits)
qed

lemma push_segment_clean: "snd (push_bytes frame_rx_zero (seg @ [0]) cap) = frame_rx_zero"
  using push_bytes_delimited_clean [of frame_rx_zero seg cap] by (simp add: frame_clean_iff)

text \<open>
  The client's receiver is equivalent to the server's. The two decoders are written
  separately, with buffers of 64 and 66 bytes. On any stream of delimited segments of at most 64
  bytes, good frames or garbage, they deliver the same payloads in the same order.
\<close>

theorem receivers_agree:
  assumes "list_all (\<lambda>seg. 0 \<notin> set seg \<and> length seg \<le> 64) segs"
  shows "client_feed tcp_rx_zero (concat (map (\<lambda>seg. seg @ [0]) segs)) cap =
    (concat (map payload_of (fst (push_bytes frame_rx_zero (concat (map (\<lambda>seg. seg @ [0]) segs)) cap))), tcp_rx_zero)"
  using assms
proof (induction segs)
  case (Cons seg segs)
  define tail where "tail = concat (map (\<lambda>seg. seg @ [0 :: u8]) segs)"
  have whole: "concat (map (\<lambda>seg. seg @ [0]) (seg # segs)) = (seg @ [0]) @ tail" by (simp add: tail_def)
  have seg: "client_feed tcp_rx_zero (seg @ [0]) cap =
      (concat (map payload_of (fst (push_bytes frame_rx_zero (seg @ [0]) cap))), tcp_rx_zero)"
    using Cons.prems by (intro client_feed_segment) simp_all
  have "push_bytes frame_rx_zero ((seg @ [0]) @ tail) cap =
      (fst (push_bytes frame_rx_zero (seg @ [0]) cap) @ fst (push_bytes frame_rx_zero tail cap),
       snd (push_bytes frame_rx_zero tail cap))"
    by (subst server_rx.feed_append) (simp only: push_segment_clean)
  moreover have "client_feed tcp_rx_zero ((seg @ [0]) @ tail) cap =
      (concat (map payload_of (fst (push_bytes frame_rx_zero (seg @ [0]) cap))) @ fst (client_feed tcp_rx_zero tail cap),
       snd (client_feed tcp_rx_zero tail cap))"
    by (subst client_rx.feed_append) (simp only: seg fst_conv snd_conv)
  moreover have "client_feed tcp_rx_zero tail cap =
      (concat (map payload_of (fst (push_bytes frame_rx_zero tail cap))), tcp_rx_zero)"
    using Cons by (simp add: tail_def)
  ultimately show ?case unfolding whole by simp
qed simp

theorem receivers_agree_witness:
  "client_feed tcp_rx_zero (concat (map (\<lambda>seg. seg @ [0]) [[1, 2], [], [3, 9, 8]])) 64 =
    (concat (map payload_of (fst (push_bytes frame_rx_zero (concat (map (\<lambda>seg. seg @ [0]) [[1, 2], [], [3, 9, 8]])) 64))), tcp_rx_zero)"
proof -
  have "list_all (\<lambda>seg. 0 \<notin> set seg \<and> length seg \<le> 64) [[1, 2], [], [3, 9, 8 :: u8]]"
    by simp
  then show ?thesis by (rule receivers_agree)
qed

text \<open>A payload of 62 bytes, which \<open>send_frame\<close> accepts, overruns the client's buffer and is dropped.\<close>

lemma client_drops_62:
  assumes "length p = 62"
  shows "client_feed tcp_rx_zero (encode_frame p) cap = ([], tcp_rx_zero)"
proof -
  obtain xs b where enc: "cobs_encode (p @ crc_trailer p) = xs @ [b]" and len: "length xs = 64"
    using cobs_encode_length [of "p @ crc_trailer p"] assms
    by (cases "cobs_encode (p @ crc_trailer p)" rule: rev_cases) (auto simp: crc_trailer_def Let_def)
  have no: "0 \<notin> set (xs @ [b])" unfolding enc [symmetric] by (rule cobs_encode_no_zero)
  have "client_feed tcp_rx_zero xs cap = ([], tcp_rx_zero\<lparr>cr_frame := xs\<rparr>)"
    using client_feed_nonzero [of xs tcp_rx_zero cap] no len by (simp add: tcp_rx_zero_def)
  then show ?thesis
    using no len by (simp add: encode_frame_def enc client_feed_append client_byte_def Let_def tcp_rx_zero_def)
qed

section \<open>From the server to a client\<close>

text \<open>
  C14: Frames reach the client. Whatever \<open>send\<close> does at the server and however \<open>recv\<close> cuts the
  stream at the client (short reads, interrupts, an empty socket), a pass of the client's receive
  loop yields a prefix of the packets the server sent, in order and unmodified; and once it has
  read everything the server sent, exactly all of them.
\<close>

theorem server_frames_reach_client:
  assumes "list_all (client_framable 64) ps" "e_wire e fd = []" "send_frames fd ps tcp_tx_zero e = (tx', e')"
    and "prefix (received script) (e_wire e' fd)" "receive_frames n tcp_rx_zero 64 script = (qs, ok, rx', rest)"
  shows "prefix qs ps \<and>
    (\<not> tx_failed tx' \<and> tx_data tx' = [] \<and> received script = e_wire e' fd \<and>
       ok \<and> length qs < n \<and> received rest = [] \<longrightarrow> qs = ps)"
proof -
  have short: "list_all (\<lambda>p. length p + 2 \<le> 64) ps"
    using assms(1) by (auto simp: list_all_iff client_framable_def)
  have clean: "client_clean tcp_rx_zero" by (simp add: client_clean_def tcp_rx_zero_def)
  have "tx_stream fd tcp_tx_zero e []" "tx_ok tcp_tx_zero"
    using assms(2) by (simp_all add: tx_stream_def tcp_tx_zero_def tx_ok_def)
  from send_frames_stream [OF short this assms(3)]
  have str: "tx_stream fd tx' e' (concat (map encode_frame ps))" by simp
  then have pre: "prefix (received script) (concat (map encode_frame ps))"
    using assms(4) by (auto simp: tx_stream_def intro: prefix_order.trans)
  note run = receive_frames_outlook [OF assms(5)]
  have feed: "client_feed tcp_rx_zero (received script) 64 =
      (qs @ fst (outlook 64 rx' (received rest)), snd (outlook 64 rx' (received rest)))"
    using run by (simp add: outlook_def idle_def tcp_rx_zero_def)
  have "prefix qs ps"
  proof (cases "ps = []")
    case True
    then show ?thesis using pre feed by simp
  next
    case False
    from client_rx.feed_prefix [OF clean assms(1) False pre] feed show ?thesis
      by (auto dest: append_prefixD)
  qed
  moreover have "qs = ps" if "\<not> tx_failed tx'" "tx_data tx' = []" "received script = e_wire e' fd"
    "ok" "length qs < n" "received rest = []"
  proof -
    have "received script = concat (map encode_frame ps)" using str that(1-3) by (simp add: tx_stream_def)
    moreover have "fst (client_feed tcp_rx_zero (concat (map encode_frame ps)) 64) = ps"
      using client_rx.feed_encs [OF clean assms(1)] by (cases "ps = []") simp_all
    moreover have "fst (outlook 64 rx' (received rest)) = []"
      using run that(4-6) by (simp add: outlook_def)
    ultimately show ?thesis using feed by simp
  qed
  ultimately show ?thesis by blast
qed

theorem server_frames_reach_client_witness:
  "prefix (fst (receive_frames 64 tcp_rx_zero 64
      [GotEINTR, Received (e_wire (snd (send_frames 5 [[0x57, 1], [0x44, 0, 3]] tcp_tx_zero demo_env)) 5)]))
    [[0x57, 1], [0x44, 0, 3]]"
proof -
  let ?ps = "[[0x57, 1], [0x44, 0, 3]] :: bytes list"
  obtain tx e' where sent: "send_frames 5 ?ps tcp_tx_zero demo_env = (tx, e')" by force
  let ?script = "[GotEINTR, Received (e_wire e' 5)]"
  obtain qs ok rx rest where got: "receive_frames 64 tcp_rx_zero 64 ?script = (qs, ok, rx, rest)"
    by (metis prod_cases4)
  have ps: "list_all (client_framable 64) ?ps" by (simp add: client_framable_def)
  have fresh: "e_wire demo_env 5 = []" by (simp add: demo_env_def)
  have pre: "prefix (received ?script) (e_wire e' 5)" by (simp add: received_def take_is_prefix)
  from server_frames_reach_client [OF ps fresh sent pre got] have "prefix qs ?ps" by (rule conjunct1)
  then show ?thesis using sent got by simp
qed

end
