(* ===== verification/Client.thy ===== *)
theory Client
  imports Receive Server
begin

text \<open>
  The game state of the graphical client, \<^verbatim>\<open>clients/linux/sdl_main.c\<close>, and its packet handler:
  the view of the maze, players, shots and effects, the round gate and the reliable stream.
  Lemmas: the view stays well formed whatever arrives, and mirrors the server's maze and players.
\<close>

section \<open>State\<close>

abbreviation (input) MAZE_W :: nat where "MAZE_W \<equiv> 20"
abbreviation (input) MAZE_H :: nat where "MAZE_H \<equiv> 19"
abbreviation (input) FX_MAX :: nat where "FX_MAX \<equiv> 96"
abbreviation (input) PHASE_PLAYING :: u8 where "PHASE_PLAYING \<equiv> 0"
abbreviation (input) PHASE_OVER :: u8 where "PHASE_OVER \<equiv> 1"

record player_view =
  v_x :: u8
  v_y :: u8
  v_joy :: u8
  v_score :: u8

text \<open>
  Drawing positions are floats. \<open>to_x\<close> and \<open>to_y\<close> only ever hold cell numbers; a \<open>from\<close>
  coordinate is a cell number or what \<open>interp_player\<close> computed, which is kept here as the
  expression: \<open>Between from to start dur now\<close>. The drawing evaluates it.
\<close>

datatype coord = At u8 | Between coord u8 u64 "32 word" u64

record player_anim =
  a_known :: bool
  a_from_x :: coord
  a_from_y :: coord
  a_to_x :: u8
  a_to_y :: u8
  a_start_ms :: u64
  a_dur_ms :: "32 word"
  a_dir :: u8
  a_step_phase :: u8
  a_dead :: bool
  a_dead_since_ms :: u64

definition anim_zero :: player_anim where
  "anim_zero = \<lparr>a_known = False, a_from_x = At 0, a_from_y = At 0, a_to_x = 0, a_to_y = 0,
     a_start_ms = 0, a_dur_ms = 0, a_dir = 0, a_step_phase = 0, a_dead = False, a_dead_since_ms = 0\<rparr>"

record shot_view =
  w_active :: bool
  w_x :: u8
  w_y :: u8
  w_dir :: u8

definition shot_view_zero :: shot_view where
  "shot_view_zero = \<lparr>w_active = False, w_x = 0, w_y = 0, w_dir = 0\<rparr>"

datatype fx_type = FX_NONE | FX_BRICK | FX_PLAYER_EXPLODE | FX_PLAYER_SPAWN | FX_SHOT_SPARK

record fx_state =
  fx_active :: bool
  fx_type :: fx_type
  fx_gx :: coord
  fx_gy :: coord
  fx_start_ms :: u64
  fx_dur_ms :: "32 word"
  fx_color_idx :: u8

definition fx_zero :: fx_state where
  "fx_zero = \<lparr>fx_active = False, fx_type = FX_NONE, fx_gx = At 0, fx_gy = At 0,
     fx_start_ms = 0, fx_dur_ms = 0, fx_color_idx = 0\<rparr>"

text \<open>The counter of effects is unbounded here; the C int would overflow after 2^31 of them.\<close>

record game_state =
  g_brick_bits :: bytes
  g_bricks :: bytes
  g_players :: "player_view list"
  g_panim :: "player_anim list"
  g_shots :: "shot_view list"
  g_fx :: "fx_state list"
  g_fx_cursor :: nat
  g_zombie_mask :: u8
  g_result_active_mask :: u8
  g_zombie_history_mask :: u8
  g_seat_mask :: u8
  g_names :: "bytes list"
  g_local_pid :: int
  g_have_snapshot :: bool
  g_have_welcome :: bool
  g_round_id :: u8
  g_round_phase :: u8
  g_kill_limit :: u8
  g_winner_pid :: u8
  g_round_authorized :: bool
  g_round_map_ready :: bool
  g_round_snapshot_ready :: bool

text \<open>After \<open>memset\<close>, with the \<open>--pid\<close> option.\<close>

definition game_zero :: "int \<Rightarrow> game_state" where
  "game_zero opt_pid = \<lparr>g_brick_bits = replicate 48 0, g_bricks = replicate (MAZE_W * MAZE_H) 0,
     g_players = replicate MAX_PLAYERS \<lparr>v_x = 0, v_y = 0, v_joy = 0, v_score = 0\<rparr>,
     g_panim = replicate MAX_PLAYERS anim_zero, g_shots = replicate MAX_PLAYERS shot_view_zero,
     g_fx = replicate FX_MAX fx_zero, g_fx_cursor = 0, g_zombie_mask = 0, g_result_active_mask = 0,
     g_zombie_history_mask = 0, g_seat_mask = 0,
     g_names = replicate MAX_PLAYERS (replicate NAME_LEN 0), g_local_pid = opt_pid,
     g_have_snapshot = False, g_have_welcome = False, g_round_id = 0, g_round_phase = 0,
     g_kill_limit = 0, g_winner_pid = 0, g_round_authorized = False, g_round_map_ready = False,
     g_round_snapshot_ready = False\<rparr>"

section \<open>Small functions\<close>

definition round_is_newer :: "u8 \<Rightarrow> u8 \<Rightarrow> bool" where
  "round_is_newer candidate current =
     (let distance = candidate - current in distance \<noteq> 0 \<and> distance < 0x80)"

definition game_ready :: "game_state \<Rightarrow> bool" where
  "game_ready g \<longleftrightarrow> g_have_welcome g \<and> g_round_phase g = PHASE_PLAYING \<and> g_round_authorized g \<and>
     g_round_map_ready g \<and> g_round_snapshot_ready g"

definition stick_to_dir :: "u8 \<Rightarrow> u8 option" where
  "stick_to_dir stick =
     (let s = stick AND 0x0F in
      if s = 0x07 then Some 0
      else if s = 0x0D then Some 1
      else if s = 0x0B then Some 2
      else if s = 0x0E then Some 3
      else None)"

definition slot_in_play :: "game_state \<Rightarrow> nat \<Rightarrow> bool" where
  "slot_in_play g i \<longleftrightarrow> bit (g_zombie_mask g) i \<or> bit (g_seat_mask g) i \<or> int i = g_local_pid g"

definition interp_player :: "player_anim \<Rightarrow> u64 \<Rightarrow> coord \<times> coord" where
  "interp_player p now =
     (if a_dur_ms p = 0 \<or> now \<ge> a_start_ms p + ucast (a_dur_ms p)
      then (At (a_to_x p), At (a_to_y p))
      else (Between (a_from_x p) (a_to_x p) (a_start_ms p) (a_dur_ms p) now,
            Between (a_from_y p) (a_to_y p) (a_start_ms p) (a_dur_ms p) now))"

definition fx_emit :: "fx_type \<Rightarrow> coord \<Rightarrow> coord \<Rightarrow> 32 word \<Rightarrow> u8 \<Rightarrow> u64 \<Rightarrow> game_state \<Rightarrow> game_state" where
  "fx_emit t gx gy dur_ms color_idx now g = g\<lparr>
     g_fx := (g_fx g)[g_fx_cursor g mod FX_MAX :=
       \<lparr>fx_active = True, fx_type = t, fx_gx = gx, fx_gy = gy, fx_start_ms = now,
        fx_dur_ms = dur_ms, fx_color_idx = color_idx\<rparr>],
     g_fx_cursor := Suc (g_fx_cursor g)\<rparr>"

definition brick_bit :: "bytes \<Rightarrow> nat \<Rightarrow> u8" where
  "brick_bit bits i = drop_bit (i mod 8) (bits ! (i div 8)) AND 1"

definition decode_brick_full :: "bytes \<Rightarrow> game_state \<Rightarrow> game_state" where
  "decode_brick_full bits g = g\<lparr>g_brick_bits := take 48 bits,
     g_bricks := map (brick_bit bits) [0..<MAZE_W * MAZE_H]\<rparr>"

definition clear_brick_cell :: "int \<Rightarrow> int \<Rightarrow> game_state \<Rightarrow> game_state" where
  "clear_brick_cell x y g =
     (if x < 0 \<or> x \<ge> 20 \<or> y < 0 \<or> y \<ge> 19 then g
      else let idx = nat (y * 20 + x) in
        g\<lparr>g_bricks := (g_bricks g)[idx := 0],
          g_brick_bits := modify (idx div 8) (\<lambda>b. b AND NOT (push_bit (idx mod 8) 1)) (g_brick_bits g)\<rparr>)"

section \<open>Players\<close>

text \<open>One coordinate pair where the player simply is.\<close>

definition stand_at :: "u8 \<Rightarrow> u8 \<Rightarrow> player_anim \<Rightarrow> player_anim" where
  "stand_at x y p = p\<lparr>a_from_x := At x, a_from_y := At y, a_to_x := x, a_to_y := y\<rparr>"

definition step_dir :: "int \<Rightarrow> int \<Rightarrow> u8 \<Rightarrow> u8" where
  "step_dir dx dy dir =
     (if dx > 0 then 0 else if dx < 0 then 2 else if dy > 0 then 1 else if dy < 0 then 3 else dir)"

definition walk_to :: "u8 \<Rightarrow> u8 \<Rightarrow> u64 \<Rightarrow> player_anim \<Rightarrow> player_anim" where
  "walk_to x y now p =
     (let (cx, cy) = interp_player p now in
      p\<lparr>a_from_x := cx, a_from_y := cy, a_to_x := x, a_to_y := y, a_start_ms := now,
        a_dur_ms := 100, a_step_phase := a_step_phase p XOR 1,
        a_dir := step_dir (uint x - uint (a_to_x p)) (uint y - uint (a_to_y p)) (a_dir p)\<rparr>)"

definition move_anim :: "u8 \<Rightarrow> u8 \<Rightarrow> u64 \<Rightarrow> player_anim \<Rightarrow> player_anim" where
  "move_anim x y now p =
     (if \<not> a_known p
      then stand_at x y p\<lparr>a_known := True, a_start_ms := now, a_dur_ms := 0\<rparr>
      else let manhattan = \<bar>uint x - uint (a_to_x p)\<bar> + \<bar>uint y - uint (a_to_y p)\<bar> in
        if a_dead p then
          (let q = stand_at x y p in if now > a_dead_since_ms p + 2500 then q\<lparr>a_dead := False\<rparr> else q)
        else if manhattan = 1 then walk_to x y now p
        else if manhattan > 0 then stand_at x y p\<lparr>a_start_ms := now, a_dur_ms := 0\<rparr>
        else p)"

definition apply_player_snapshot :: "nat \<Rightarrow> u8 \<Rightarrow> u8 \<Rightarrow> u8 \<Rightarrow> u64 \<Rightarrow> game_state \<Rightarrow> game_state" where
  "apply_player_snapshot pid x y joy now g =
     (if pid \<ge> MAX_PLAYERS \<or> x \<ge> 20 \<or> y \<ge> 19 then g
      else g\<lparr>g_panim := modify pid (\<lambda>p.
          let q = move_anim x y now p in
          case stick_to_dir joy of Some d \<Rightarrow> q\<lparr>a_dir := d\<rparr> | None \<Rightarrow> q) (g_panim g)\<rparr>)"

section \<open>Packets\<close>

text \<open>The blocks of \<open>handle_packet\<close>, each under its conditions there.\<close>

definition on_welcome :: "bytes \<Rightarrow> game_state \<Rightarrow> game_state" where
  "on_welcome buf g = g\<lparr>g_have_welcome := True, g_round_id := buf ! 2, g_round_phase := buf ! 3,
     g_kill_limit := buf ! 4, g_round_authorized := False, g_round_map_ready := False,
     g_round_snapshot_ready := False\<rparr>"

definition forget_round :: "game_state \<Rightarrow> game_state" where
  "forget_round g = g\<lparr>g_shots := replicate MAX_PLAYERS shot_view_zero,
     g_panim := replicate MAX_PLAYERS anim_zero, g_fx := replicate FX_MAX fx_zero,
     g_round_map_ready := False, g_round_snapshot_ready := False, g_have_snapshot := False\<rparr>"

definition on_round_start :: "bytes \<Rightarrow> game_state \<Rightarrow> game_state" where
  "on_round_start buf g =
     (let incoming = buf ! 1 in
      if incoming = g_round_id g \<or> round_is_newer incoming (g_round_id g) then
        (let g1 = (if incoming \<noteq> g_round_id g \<or> \<not> g_round_authorized g then forget_round g else g) in
         g1\<lparr>g_round_id := incoming, g_kill_limit := buf ! 2, g_round_phase := PHASE_PLAYING,
            g_round_authorized := True\<rparr>)
      else g)"

definition on_match_end :: "bytes \<Rightarrow> game_state \<Rightarrow> game_state" where
  "on_match_end buf g =
     (if buf ! 1 = g_round_id g then
        g\<lparr>g_round_phase := PHASE_OVER, g_winner_pid := buf ! 2, g_result_active_mask := buf ! 3,
          g_seat_mask := buf ! 3 AND NOT (buf ! 4), g_zombie_mask := buf ! 4,
          g_kill_limit := buf ! 5, g_zombie_history_mask := buf ! 10,
          g_players := map (\<lambda>i. (g_players g ! i)\<lparr>v_score := buf ! (6 + i)\<rparr>) [0..<MAX_PLAYERS],
          g_names := map (\<lambda>i. take NAME_LEN (drop (11 + i * NAME_LEN) buf)) [0..<MAX_PLAYERS],
          g_shots := replicate MAX_PLAYERS shot_view_zero, g_fx := replicate FX_MAX fx_zero\<rparr>
      else g)"

definition on_brick_full :: "bytes \<Rightarrow> bool \<Rightarrow> game_state \<Rightarrow> game_state" where
  "on_brick_full buf from_reliable g =
     (let g1 = decode_brick_full (drop 3 buf) g in
      if from_reliable then g1\<lparr>g_round_map_ready := True\<rparr> else g1)"

definition on_brick_delta :: "bytes \<Rightarrow> u64 \<Rightarrow> game_state \<Rightarrow> game_state" where
  "on_brick_delta buf now g =
     (let x = buf ! 2; y = buf ! 3 in
      if x < 20 \<and> y < 19 then
        (let g1 = (if g_bricks g ! (unat y * MAZE_W + unat x) \<noteq> 0
                   then fx_emit FX_BRICK (At x) (At y) 220 0 now g else g) in
         clear_brick_cell (uint x) (uint y) g1)
      else g)"

definition on_seats :: "bytes \<Rightarrow> game_state \<Rightarrow> game_state" where
  "on_seats buf g =
     (if g_round_phase g \<noteq> PHASE_OVER then g\<lparr>g_seat_mask := buf ! 2 AND 0x0F\<rparr> else g)"

definition on_name :: "bytes \<Rightarrow> game_state \<Rightarrow> game_state" where
  "on_name buf g =
     (if buf ! 2 < 4 \<and> g_round_phase g \<noteq> PHASE_OVER
      then g\<lparr>g_names := (g_names g)[unat (buf ! 2) := take NAME_LEN (drop 3 buf)]\<rparr> else g)"

definition on_shot :: "bytes \<Rightarrow> u64 \<Rightarrow> game_state \<Rightarrow> game_state" where
  "on_shot buf now g =
     (if buf ! 2 < 4 then
        (let pid = unat (buf ! 2); flags = buf ! 5; s = g_shots g ! pid in
         if flags AND 0x01 \<noteq> 0 \<and> buf ! 3 < 20 \<and> buf ! 4 < 19
         then g\<lparr>g_shots := (g_shots g)[pid := \<lparr>w_active = True, w_x = buf ! 3, w_y = buf ! 4,
                  w_dir = drop_bit 1 flags AND 0x03\<rparr>]\<rparr>
         else let g1 = (if w_active s then fx_emit FX_SHOT_SPARK (At (w_x s)) (At (w_y s)) 120 3 now g else g) in
           g1\<lparr>g_shots := (g_shots g1)[pid := s\<lparr>w_active := False\<rparr>]\<rparr>)
      else g)"

definition on_respawn :: "bytes \<Rightarrow> u64 \<Rightarrow> game_state \<Rightarrow> game_state" where
  "on_respawn buf now g =
     (if buf ! 2 < 4 then
        (let pid = unat (buf ! 2); flags = buf ! 5; x = buf ! 3; y = buf ! 4; p = g_panim g ! pid in
         if flags AND 0x02 \<noteq> 0 then
           (if x < 20 \<and> y < 19
            then fx_emit FX_PLAYER_SPAWN (At x) (At y) 420 2 now
              (g\<lparr>g_panim := (g_panim g)[pid := stand_at x y p\<lparr>a_known := True, a_dead := False,
                   a_start_ms := now, a_dur_ms := 0\<rparr>]\<rparr>)
            else g)
         else if flags AND 0x01 \<noteq> 0 then
           (let g1 = (if \<not> a_dead p then (case interp_player p now of (ex, ey) \<Rightarrow>
                        fx_emit FX_PLAYER_EXPLODE ex ey 420 1 now g) else g) in
            g1\<lparr>g_panim := (g_panim g1)[pid := p\<lparr>a_dead := True, a_dead_since_ms := now\<rparr>]\<rparr>)
         else g)
      else g)"

definition on_snapshot :: "bytes \<Rightarrow> u64 \<Rightarrow> game_state \<Rightarrow> game_state" where
  "on_snapshot buf now g =
     (let g1 = g\<lparr>g_have_snapshot := True, g_round_snapshot_ready := True,
                 g_zombie_mask := drop_bit 3 (buf ! 2) AND 0x0F,
                 g_local_pid := uint (drop_bit 1 (buf ! 2) AND 0x03),
                 g_players := map (\<lambda>i. \<lparr>v_x = buf ! (3 + 2 * i), v_y = buf ! (4 + 2 * i),
                     v_joy = buf ! (11 + i), v_score = buf ! (15 + i)\<rparr>) [0..<MAX_PLAYERS]\<rparr> in
      for_slots (\<lambda>i g. let p = g_players g1 ! i in
        apply_player_snapshot i (v_x p) (v_y p) (v_joy p) now g) g1)"

text \<open>What follows the reliable envelope.\<close>

definition handle_game :: "bytes \<Rightarrow> u64 \<Rightarrow> bool \<Rightarrow> game_state \<Rightarrow> game_state" where
  "handle_game buf now from_reliable g =
     (let n = length buf; playing = (g_round_phase g = PHASE_PLAYING) in
      if n = 3 \<and> buf ! 0 = PKT_ROUND_START then on_round_start buf g
      else if n = 43 \<and> buf ! 0 = PKT_MATCH_END then on_match_end buf g
      else if n = 52 \<and> buf ! 0 = PKT_BRICK_FULL \<and> buf ! 51 = g_round_id g
      then on_brick_full buf from_reliable g
      else if n = 5 \<and> buf ! 0 = PKT_BRICK_DELTA \<and> buf ! 4 = g_round_id g \<and> playing
      then on_brick_delta buf now g
      else if n \<ge> 3 \<and> buf ! 0 = PKT_SEATS then on_seats buf g
      else if n \<ge> 3 + NAME_LEN \<and> buf ! 0 = PKT_NAME then on_name buf g
      else if n = 7 \<and> buf ! 0 = PKT_SHOT \<and> buf ! 6 = g_round_id g \<and> playing then on_shot buf now g
      else if n = 7 \<and> buf ! 0 = PKT_RESPAWN \<and> buf ! 6 = g_round_id g \<and> playing then on_respawn buf now g
      else if n = 21 \<and> buf ! 0 = PKT_SNAPSHOT \<and> buf ! 20 = g_round_id g \<and> playing
      then on_snapshot buf now g
      else g)"

definition reliable_inner_is_valid :: "bytes \<Rightarrow> bool" where
  "reliable_inner_is_valid buf \<longleftrightarrow>
     length buf = 5 \<and> buf ! 0 = PKT_BRICK_DELTA \<or> length buf = 7 \<and> buf ! 0 = PKT_RESPAWN \<or>
     length buf = 3 + NAME_LEN \<and> buf ! 0 = PKT_NAME \<or> length buf = 52 \<and> buf ! 0 = PKT_BRICK_FULL \<or>
     length buf = 43 \<and> buf ! 0 = PKT_MATCH_END \<or> length buf = 3 \<and> buf ! 0 = PKT_ROUND_START"

text \<open>The client around the game: socket, transmit queue, packet counter and reliable revision.\<close>

record client =
  k_game :: game_state
  k_fd :: int
  k_tx :: tcp_tx
  k_seq :: u8
  k_rev :: u16
  k_env :: env

definition client_send :: "bytes \<Rightarrow> client \<Rightarrow> client" where
  "client_send pkt k = (let (ok, tx, e) = tcp_tx_queue_frame (k_fd k) (k_tx k) pkt (k_env k) in
     k\<lparr>k_tx := tx, k_env := e\<rparr>)"

definition send_reliable_ack :: "u16 \<Rightarrow> client \<Rightarrow> client" where
  "send_reliable_ack applied k = client_send [PKT_RELIABLE_ACK, k_seq k, ucast applied, ucast (drop_bit 8 applied)]
     (k\<lparr>k_seq := k_seq k + 1\<rparr>)"

definition event_rev :: "bytes \<Rightarrow> u16" where
  "event_rev buf = ucast (buf ! 2) OR push_bit 8 (ucast (buf ! 3))"

function handle_packet :: "bytes \<Rightarrow> u64 \<Rightarrow> bool \<Rightarrow> client \<Rightarrow> client" where
  "handle_packet buf now from_reliable k =
     (let n = length buf; g = k_game k in
      if n = 5 \<and> buf ! 0 = PKT_WELCOME \<and> buf ! 1 = PROTOCOL_VERSION then k\<lparr>k_game := on_welcome buf g\<rparr>
      else if n \<ge> 2 \<and> buf ! 0 = PKT_REJECT then k
      else if \<not> g_have_welcome g then k
      else if n \<ge> 7 \<and> buf ! 0 = PKT_RELIABLE_EVENT then
        (let incoming = event_rev buf; inner = drop 4 buf in
         if incoming \<noteq> k_rev k + 1 \<or> \<not> reliable_inner_is_valid inner then send_reliable_ack (k_rev k) k
         else handle_packet inner now True (send_reliable_ack incoming (k\<lparr>k_rev := incoming\<rparr>)))
      else k\<lparr>k_game := handle_game buf now from_reliable g\<rparr>)"
  by pat_completeness auto
termination by (relation "measure (\<lambda>(buf, _). length buf)") auto

declare handle_packet.simps [simp del]

section \<open>The maze of the client\<close>

lemma brick_bit_eq: "brick_bit bits i = of_bool (bit (bits ! (i div 8)) (i mod 8))"
  by (simp add: brick_bit_def and_one_eq bit_iff_odd_drop_bit mod_2_eq_odd)

definition maze_ok :: "game_state \<Rightarrow> bool" where
  "maze_ok g \<longleftrightarrow> length (g_brick_bits g) = 48 \<and>
     g_bricks g = map (brick_bit (g_brick_bits g)) [0..<MAZE_W * MAZE_H]"

lemma maze_ok_decode: "48 \<le> length bits \<Longrightarrow> maze_ok (decode_brick_full bits g)"
  by (simp add: maze_ok_def decode_brick_full_def brick_bit_eq less_mult_imp_div_less)

lemma clear_brick_cell_bits: "g_brick_bits (clear_brick_cell x y g) = clear_brick (g_brick_bits g) x y"
  by (simp add: clear_brick_cell_def clear_brick_def Let_def modify_def)

lemma maze_ok_clear:
  assumes "maze_ok g"
  shows "maze_ok (clear_brick_cell x y g)"
proof (cases "on_map x y")
  case False
  then show ?thesis using assms by (auto simp: clear_brick_cell_def on_map_def)
next
  case True
  define idx where "idx = nat (y * 20 + x)"
  let ?bits = "g_brick_bits g" and ?bits1 = "g_brick_bits (clear_brick_cell x y g)"
  have idx: "idx < 380" unfolding idx_def by (rule cell_index_bound [OF True])
  have len: "length ?bits = 48" and br: "g_bricks g = map (brick_bit ?bits) [0..<380]"
    using assms by (simp_all add: maze_ok_def)
  have bits1: "?bits1 = modify (idx div 8) (\<lambda>b. b AND NOT (push_bit (idx mod 8) 1)) ?bits"
    and br1: "g_bricks (clear_brick_cell x y g) = (g_bricks g)[idx := 0]"
    using True by (auto simp: clear_brick_cell_def on_map_def idx_def Let_def)
  have "brick_bit ?bits1 j = (if j = idx then 0 else brick_bit ?bits j)" if "j < 380" for j
  proof -
    have "j div 8 < 48" using that by (simp add: less_mult_imp_div_less)
    then show ?thesis using len div_mod_eq_iff [of j idx]
      unfolding bits1 brick_bit_eq by (auto simp: nth_modify bit_and_iff bit_not_iff bit_exp_iff)
  qed
  then have "(g_bricks g)[idx := 0] = map (brick_bit ?bits1) [0..<380]"
    unfolding br using idx by (intro nth_equalityI) (auto simp: nth_list_update)
  then show ?thesis using len by (simp add: maze_ok_def br1 clear_brick_cell_bits)
qed

lemma maze_ok_lookup:
  assumes "maze_ok g" "on_map x y"
  shows "g_bricks g ! nat (y * 20 + x) \<noteq> 0 \<longleftrightarrow> is_brick (g_brick_bits g) x y"
proof -
  have "nat (y * 20 + x) < 380" by (rule cell_index_bound [OF assms(2)])
  then show ?thesis using assms by (auto simp: maze_ok_def brick_bit_eq is_brick_def on_map_def Let_def)
qed

section \<open>The view is well formed\<close>

text \<open>Every coordinate of a drawing expression is a cell below \<open>lim\<close>.\<close>

fun coord_in :: "u8 \<Rightarrow> coord \<Rightarrow> bool" where
  "coord_in lim (At v) \<longleftrightarrow> v < lim"
| "coord_in lim (Between c v start dur now) \<longleftrightarrow> coord_in lim c \<and> v < lim"

definition anim_ok :: "player_anim \<Rightarrow> bool" where
  "anim_ok p \<longleftrightarrow> coord_in 20 (a_from_x p) \<and> coord_in 19 (a_from_y p) \<and> a_to_x p < 20 \<and> a_to_y p < 19 \<and>
     a_dir p < 4"

definition shot_view_ok :: "shot_view \<Rightarrow> bool" where
  "shot_view_ok s \<longleftrightarrow> w_x s < 20 \<and> w_y s < 19 \<and> w_dir s < 4"

definition fx_ok :: "fx_state \<Rightarrow> bool" where
  "fx_ok f \<longleftrightarrow> coord_in 20 (fx_gx f) \<and> coord_in 19 (fx_gy f)"

definition game_ok :: "game_state \<Rightarrow> bool" where
  "game_ok g \<longleftrightarrow> maze_ok g \<and> length (g_players g) = MAX_PLAYERS \<and>
     length (g_panim g) = MAX_PLAYERS \<and> list_all anim_ok (g_panim g) \<and>
     length (g_shots g) = MAX_PLAYERS \<and> list_all shot_view_ok (g_shots g) \<and>
     length (g_fx g) = FX_MAX \<and> list_all fx_ok (g_fx g) \<and>
     length (g_names g) = MAX_PLAYERS \<and> list_all (\<lambda>n. length n = NAME_LEN) (g_names g) \<and>
     -1 \<le> g_local_pid g \<and> g_local_pid g < int MAX_PLAYERS"

lemma game_ok_maze: "game_ok g \<Longrightarrow> maze_ok g"
  by (simp add: game_ok_def)

lemma anim_zero_ok [simp]: "anim_ok anim_zero" and shot_view_zero_ok [simp]: "shot_view_ok shot_view_zero"
  and fx_zero_ok [simp]: "fx_ok fx_zero"
  by (simp_all add: anim_ok_def anim_zero_def shot_view_ok_def shot_view_zero_def fx_ok_def fx_zero_def)

lemma list_all_replicate: "P x \<Longrightarrow> list_all P (replicate n x)"
  by (simp add: list_all_iff)

lemma game_zero_ok: "-1 \<le> pid \<Longrightarrow> pid < 4 \<Longrightarrow> game_ok (game_zero pid)"
  by (simp add: game_ok_def game_zero_def maze_ok_def list_all_iff brick_bit_eq map_replicate_const
      less_mult_imp_div_less list_eq_iff_nth_eq)

lemma game_ok_fields:
  assumes "game_ok g"
  shows "game_ok (g\<lparr>g_have_welcome := b\<rparr>)" "game_ok (g\<lparr>g_round_map_ready := b\<rparr>)"
    "game_ok (g\<lparr>g_round_id := w\<rparr>)" "game_ok (g\<lparr>g_seat_mask := w\<rparr>)"
  using assms by (simp_all add: game_ok_def maze_ok_def)

lemma coord_interp:
  "anim_ok p \<Longrightarrow> interp_player p now = (cx, cy) \<Longrightarrow> coord_in 20 cx \<and> coord_in 19 cy"
  by (auto simp: interp_player_def anim_ok_def split: if_splits)

lemma game_ok_fx:
  assumes "game_ok g" "coord_in 20 gx" "coord_in 19 gy"
  shows "game_ok (fx_emit t gx gy d c now g)"
  using assms by (simp add: game_ok_def maze_ok_def fx_emit_def list_all_update fx_ok_def)

lemma fx_emit_rest [simp]:
  "g_shots (fx_emit t gx gy d c now g) = g_shots g" "g_panim (fx_emit t gx gy d c now g) = g_panim g"
  "g_brick_bits (fx_emit t gx gy d c now g) = g_brick_bits g"
  by (simp_all add: fx_emit_def)

lemma game_ok_panim:
  "game_ok g \<Longrightarrow> anim_ok p \<Longrightarrow> game_ok (g\<lparr>g_panim := (g_panim g)[i := p]\<rparr>)"
  by (simp add: game_ok_def maze_ok_def list_all_update)

lemma game_ok_shots:
  "game_ok g \<Longrightarrow> shot_view_ok s \<Longrightarrow> game_ok (g\<lparr>g_shots := (g_shots g)[i := s]\<rparr>)"
  by (simp add: game_ok_def maze_ok_def list_all_update)

lemma u8_less_4: "w < 4 \<Longrightarrow> unat (w :: u8) < 4"
  by (simp add: word_less_nat_alt)

lemma game_ok_anim: "game_ok g \<Longrightarrow> i < 4 \<Longrightarrow> anim_ok (g_panim g ! i)"
  by (simp add: game_ok_def list_all_nthD)

lemma game_ok_shot: "game_ok g \<Longrightarrow> i < 4 \<Longrightarrow> shot_view_ok (g_shots g ! i)"
  by (simp add: game_ok_def list_all_nthD)

lemma and_3_less_4: "w AND 3 < (4 :: u8)"
  using word_and_le1 [of w 3] by (simp add: word_le_nat_alt word_less_nat_alt)

lemma stand_at_ok [simp]: "x < 20 \<Longrightarrow> y < 19 \<Longrightarrow> anim_ok p \<Longrightarrow> anim_ok (stand_at x y p)"
  by (simp add: anim_ok_def stand_at_def)

lemma anim_ok_fields [simp]:
  "anim_ok (p\<lparr>a_known := b\<rparr>) = anim_ok p" "anim_ok (p\<lparr>a_start_ms := t\<rparr>) = anim_ok p"
  "anim_ok (p\<lparr>a_dur_ms := d\<rparr>) = anim_ok p" "anim_ok (p\<lparr>a_dead := b\<rparr>) = anim_ok p"
  "anim_ok (p\<lparr>a_dead_since_ms := t\<rparr>) = anim_ok p"
  by (simp_all add: anim_ok_def)

lemma step_dir_less: "d < 4 \<Longrightarrow> step_dir dx dy d < 4"
  by (simp add: step_dir_def)

lemma walk_to_ok: "x < 20 \<Longrightarrow> y < 19 \<Longrightarrow> anim_ok p \<Longrightarrow> anim_ok (walk_to x y now p)"
  by (cases "interp_player p now", frule coord_interp)
    (simp_all add: walk_to_def anim_ok_def step_dir_less)

lemma move_anim_ok: "x < 20 \<Longrightarrow> y < 19 \<Longrightarrow> anim_ok p \<Longrightarrow> anim_ok (move_anim x y now p)"
  by (simp add: move_anim_def Let_def walk_to_ok)

lemma stick_to_dir_less: "stick_to_dir s = Some d \<Longrightarrow> d < 4"
  by (auto simp: stick_to_dir_def Let_def split: if_splits)

lemma game_ok_player_snapshot:
  assumes "game_ok g"
  shows "game_ok (apply_player_snapshot pid x y joy now g)"
proof (cases "pid \<ge> 4 \<or> x \<ge> 20 \<or> y \<ge> 19")
  case False
  have dir: "anim_ok (p\<lparr>a_dir := d\<rparr>)" if "anim_ok p" "d < 4" for p :: player_anim and d
    using that by (simp add: anim_ok_def)
  have "anim_ok (move_anim x y now (g_panim g ! pid))"
    using False by (intro move_anim_ok game_ok_anim [OF assms]) auto
  then show ?thesis using False assms stick_to_dir_less
    by (auto simp: apply_player_snapshot_def modify_def Let_def intro!: game_ok_panim dir split: option.split)
qed (auto simp: apply_player_snapshot_def assms)

lemma game_ok_snapshot:
  assumes "game_ok g"
  shows "game_ok (on_snapshot buf now g)"
proof -
  have "uint (drop_bit 1 (buf ! 2) AND 3) < 4" "-1 \<le> uint (drop_bit 1 (buf ! 2) AND 3)"
    using and_3_less_4 [of "drop_bit 1 (buf ! 2)"] order_trans [of "-1" 0, OF _ uint_ge_0]
    by (simp_all add: word_less_def)
  then show ?thesis
    unfolding on_snapshot_def Let_def
    by (intro for_slots_invariant [of game_ok] game_ok_player_snapshot)
      (use assms in \<open>simp_all add: game_ok_def maze_ok_def\<close>)
qed

lemma game_ok_shot_packet:
  assumes "game_ok g"
  shows "game_ok (on_shot buf now g)"
proof (cases "buf ! 2 < 4")
  case True
  let ?s = "g_shots g ! unat (buf ! 2)"
  have s: "shot_view_ok ?s" by (rule game_ok_shot [OF assms u8_less_4 [OF True]])
  then have off: "shot_view_ok (?s\<lparr>w_active := False\<rparr>)" and at: "w_x ?s < 20" "w_y ?s < 19"
    by (simp_all add: shot_view_ok_def)
  have fx: "game_ok (fx_emit FX_SHOT_SPARK (At (w_x ?s)) (At (w_y ?s)) 120 3 now g)"
    using at by (intro game_ok_fx [OF assms]) simp_all
  show ?thesis
    using True assms fx game_ok_shots [OF fx off, simplified] game_ok_shots [OF assms off]
    by (auto simp: on_shot_def Let_def shot_view_ok_def and_3_less_4 intro!: game_ok_shots)
qed (simp add: on_shot_def assms)

lemma game_ok_respawn_packet:
  assumes "game_ok g"
  shows "game_ok (on_respawn buf now g)"
proof (cases "buf ! 2 < 4")
  case True
  let ?i = "unat (buf ! 2)"
  let ?p = "g_panim g ! ?i"
  have p: "anim_ok ?p" by (rule game_ok_anim [OF assms u8_less_4 [OF True]])
  show ?thesis
  proof (cases "interp_player ?p now")
    case (Pair ex ey)
    then have "coord_in 20 ex" "coord_in 19 ey" using coord_interp [OF p] by auto
    then have fx: "game_ok (fx_emit FX_PLAYER_EXPLODE ex ey 420 1 now g)" by (rule game_ok_fx [OF assms])
    have dead: "anim_ok (?p\<lparr>a_dead := True, a_dead_since_ms := now\<rparr>)" using p by simp
    show ?thesis
      using True assms p Pair game_ok_panim [OF fx dead, of ?i, simplified] game_ok_panim [OF assms dead, of ?i]
      by (auto simp: on_respawn_def Let_def intro!: game_ok_fx game_ok_panim)
  qed
qed (simp add: on_respawn_def assms)

lemma game_ok_brick_packet:
  assumes "game_ok g"
  shows "game_ok (on_brick_delta buf now g)"
proof -
  have clear: "game_ok (clear_brick_cell x y q)" if "game_ok q" for x y q
    using that maze_ok_clear [of q x y] by (simp add: game_ok_def clear_brick_cell_def Let_def)
  show ?thesis using assms by (auto simp: on_brick_delta_def Let_def intro!: clear game_ok_fx)
qed

lemma game_ok_round_start: "game_ok g \<Longrightarrow> game_ok (on_round_start buf g)"
  by (simp add: on_round_start_def forget_round_def Let_def game_ok_def maze_ok_def list_all_iff)

lemma game_ok_match_end:
  assumes "game_ok g" "length buf = 43"
  shows "game_ok (on_match_end buf g)"
  using assms by (simp add: on_match_end_def game_ok_def maze_ok_def list_all_iff)

lemma game_ok_brick_full:
  assumes "game_ok g" "length buf = 52"
  shows "game_ok (on_brick_full buf rel g)"
proof -
  have "maze_ok (decode_brick_full (drop 3 buf) g)" using assms(2) by (intro maze_ok_decode) simp
  then show ?thesis using assms by (simp add: on_brick_full_def Let_def game_ok_def decode_brick_full_def maze_ok_def)
qed

lemma game_ok_name:
  assumes "game_ok g" "3 + 8 \<le> length buf"
  shows "game_ok (on_name buf g)"
  using assms by (simp add: on_name_def game_ok_def maze_ok_def list_all_update)

lemma game_ok_handle:
  assumes "game_ok g"
  shows "game_ok (handle_game buf now rel g)"
  using assms game_ok_fields [OF assms]
  by (simp add: handle_game_def Let_def game_ok_snapshot game_ok_shot_packet game_ok_respawn_packet
      game_ok_brick_packet game_ok_round_start game_ok_match_end game_ok_brick_full game_ok_name on_seats_def)

section \<open>Handling packets\<close>

lemma client_send_game [simp]: "k_game (client_send pkt k) = k_game k" "k_rev (client_send pkt k) = k_rev k"
  by (simp_all add: client_send_def split_beta Let_def)

lemma send_reliable_ack_game [simp]: "k_game (send_reliable_ack v k) = k_game k" "k_rev (send_reliable_ack v k) = k_rev k"
  by (simp_all add: send_reliable_ack_def)

lemma valid_inner_plain:
  "reliable_inner_is_valid buf \<Longrightarrow> length buf \<ge> 3 \<and> buf ! 0 \<noteq> PKT_WELCOME \<and> buf ! 0 \<noteq> PKT_REJECT \<and>
     buf ! 0 \<noteq> PKT_RELIABLE_EVENT"
  by (auto simp: reliable_inner_is_valid_def)

text \<open>The recursion goes one level deep: an inner event is handled as a plain packet.\<close>

lemma handle_packet_plain:
  assumes "g_have_welcome (k_game k)"
    and "buf ! 0 \<noteq> PKT_WELCOME" "buf ! 0 \<noteq> PKT_REJECT" "buf ! 0 \<noteq> PKT_RELIABLE_EVENT"
  shows "handle_packet buf now rel k = k\<lparr>k_game := handle_game buf now rel (k_game k)\<rparr>"
  using assms by (subst handle_packet.simps) (simp add: Let_def)

lemma handle_packet_event:
  assumes "g_have_welcome (k_game k)" "7 \<le> length buf" "buf ! 0 = PKT_RELIABLE_EVENT"
  shows "handle_packet buf now rel k =
    (if event_rev buf = k_rev k + 1 \<and> reliable_inner_is_valid (drop 4 buf)
     then (send_reliable_ack (event_rev buf) (k\<lparr>k_rev := event_rev buf\<rparr>))
       \<lparr>k_game := handle_game (drop 4 buf) now True (k_game k)\<rparr>
     else send_reliable_ack (k_rev k) k)"
proof (cases "event_rev buf = k_rev k + 1 \<and> reliable_inner_is_valid (drop 4 buf)")
  case True
  let ?k = "send_reliable_ack (event_rev buf) (k\<lparr>k_rev := event_rev buf\<rparr>)"
  have "handle_packet (drop 4 buf) now True ?k = ?k\<lparr>k_game := handle_game (drop 4 buf) now True (k_game ?k)\<rparr>"
    using valid_inner_plain [of "drop 4 buf"] True assms(1) by (intro handle_packet_plain) simp_all
  then show ?thesis using True assms
    by (subst handle_packet.simps) (simp add: Let_def del: One_nat_def)
next
  case False
  then show ?thesis using assms by (subst handle_packet.simps) (auto simp: Let_def)
qed

text \<open>What a packet can do to the game of a client.\<close>

lemma handle_packet_game:
  obtains (same) "k_game (handle_packet buf now rel k) = k_game k"
  | (hello) "length buf = 5" "k_game (handle_packet buf now rel k) = on_welcome buf (k_game k)"
  | (game) b rel' where "k_game (handle_packet buf now rel k) = handle_game b now rel' (k_game k)"
proof -
  consider (hello) "length buf = 5 \<and> buf ! 0 = PKT_WELCOME \<and> buf ! 1 = PROTOCOL_VERSION"
    | (none) "\<not> (length buf = 5 \<and> buf ! 0 = PKT_WELCOME \<and> buf ! 1 = PROTOCOL_VERSION)"
        "(length buf \<ge> 2 \<and> buf ! 0 = PKT_REJECT) \<or> \<not> g_have_welcome (k_game k)"
    | (event) "g_have_welcome (k_game k)" "7 \<le> length buf" "buf ! 0 = PKT_RELIABLE_EVENT"
    | (plain) "\<not> (length buf = 5 \<and> buf ! 0 = PKT_WELCOME \<and> buf ! 1 = PROTOCOL_VERSION)"
        "\<not> (length buf \<ge> 2 \<and> buf ! 0 = PKT_REJECT)" "g_have_welcome (k_game k)"
        "\<not> (7 \<le> length buf \<and> buf ! 0 = PKT_RELIABLE_EVENT)" by blast
  then show thesis
  proof cases
    case hello
    then show thesis by (intro that(2)) (simp, subst handle_packet.simps, simp add: Let_def)
  next
    case none
    then show thesis by (intro that(1)) (subst handle_packet.simps, auto simp: Let_def)
  next
    case event
    show thesis
    proof (cases "event_rev buf = k_rev k + 1 \<and> reliable_inner_is_valid (drop 4 buf)")
      case True
      then show thesis using event by (intro that(3) [of "drop 4 buf" True]) (simp add: handle_packet_event)
    next
      case False
      then show thesis using event by (intro that(1)) (auto simp: handle_packet_event)
    qed
  next
    case plain
    then show thesis by (intro that(3) [of buf rel]) (subst handle_packet.simps, auto simp: Let_def)
  qed
qed

lemma game_ok_packet:
  assumes "game_ok (k_game k)"
  shows "game_ok (k_game (handle_packet buf now rel k))"
proof (cases rule: handle_packet_game [of buf now rel k])
  case hello
  then show ?thesis using assms by (simp add: on_welcome_def game_ok_def maze_ok_def)
qed (simp_all add: assms game_ok_handle)

text \<open>Several packets, each with the time it is handled.\<close>

definition handle_packets :: "(bytes \<times> u64) list \<Rightarrow> client \<Rightarrow> client" where
  "handle_packets ps k = fold (\<lambda>(buf, now). handle_packet buf now False) ps k"

lemma game_ok_packets: "game_ok (k_game k) \<Longrightarrow> game_ok (k_game (handle_packets ps k))"
  unfolding handle_packets_def by (induction ps arbitrary: k) (auto simp: game_ok_packet)

definition new_client :: "int \<Rightarrow> int \<Rightarrow> env \<Rightarrow> client" where
  "new_client opt_pid fd e = \<lparr>k_game = game_zero opt_pid, k_fd = fd, k_tx = tcp_tx_zero, k_seq = 0, k_rev = 0, k_env = e\<rparr>"

text \<open>
  C26: The client's view is well typed. Whatever packets arrive, in whatever order: the two copies
  of the maze agree on every cell, the wizards, shots and explosions to draw are inside the maze,
  names have eight bytes, and the client's own number is a slot or unknown.
\<close>

theorem client_view_well_typed:
  assumes "-1 \<le> pid" "pid < 4" "g = k_game (handle_packets ps (new_client pid fd e))" "i < MAX_PLAYERS"
  shows "(\<forall>x y. on_map x y \<longrightarrow> (g_bricks g ! nat (y * 20 + x) \<noteq> 0) = is_brick (g_brick_bits g) x y) \<and>
    a_to_x (g_panim g ! i) < 20 \<and> a_to_y (g_panim g ! i) < 19 \<and>
    coord_in 20 (a_from_x (g_panim g ! i)) \<and> coord_in 19 (a_from_y (g_panim g ! i)) \<and>
    w_x (g_shots g ! i) < 20 \<and> w_y (g_shots g ! i) < 19 \<and> list_all fx_ok (g_fx g) \<and>
    length (g_names g ! i) = NAME_LEN \<and> -1 \<le> g_local_pid g \<and> g_local_pid g < int MAX_PLAYERS"
proof -
  have ok: "game_ok g"
    unfolding assms(3) by (rule game_ok_packets) (simp add: new_client_def game_zero_ok assms(1,2))
  note maze = maze_ok_lookup [OF game_ok_maze [OF ok]]
  have "anim_ok (g_panim g ! i)" "shot_view_ok (g_shots g ! i)"
    using game_ok_anim [OF ok] game_ok_shot [OF ok] assms(4) by simp_all
  moreover have "length (g_names g ! i) = NAME_LEN"
    using ok assms(4) list_all_nthD [of "\<lambda>n. length n = NAME_LEN" "g_names g" i] by (simp add: game_ok_def)
  ultimately show ?thesis using ok maze by (simp add: anim_ok_def shot_view_ok_def game_ok_def)
qed

theorem client_view_well_typed_witness:
  "a_to_x (g_panim (k_game (handle_packets [([PKT_WELCOME, 1, 1, 0, 5], 3), ([PKT_SEATS, 0, 7], 4)]
      (new_client (-1) 5 demo_env))) ! 2) < 20"
  using client_view_well_typed [of "-1", OF _ _ refl, of 2] by simp

section \<open>Snapshots\<close>

lemma move_anim_to: "a_to_x (move_anim x y now p) = x \<and> a_to_y (move_anim x y now p) = y"
proof -
  have "a_to_x p = x \<and> a_to_y p = y" if "\<not> \<bar>uint x - uint (a_to_x p)\<bar> + \<bar>uint y - uint (a_to_y p)\<bar> > 0"
  proof -
    have "uint x = uint (a_to_x p) \<and> uint y = uint (a_to_y p)" using that by auto
    then show ?thesis by (metis word_uint_eqI)
  qed
  then show ?thesis by (simp add: move_anim_def Let_def stand_at_def walk_to_def split_beta)
qed

definition drawn_at :: "game_state \<Rightarrow> nat \<Rightarrow> u8 \<times> u8" where
  "drawn_at g i = (a_to_x (g_panim g ! i), a_to_y (g_panim g ! i))"

lemma apply_player_snapshot_drawn:
  "length (g_panim g) = 4 \<Longrightarrow> j < 4 \<Longrightarrow> drawn_at (apply_player_snapshot i x y joy now g) j =
     (if i = j \<and> x < 20 \<and> y < 19 then (x, y) else drawn_at g j)"
  using move_anim_to [of x y now "g_panim g ! i"]
  by (auto simp: apply_player_snapshot_def drawn_at_def nth_modify Let_def not_less split: option.split)

lemma apply_player_snapshot_rest [simp]:
  "g_players (apply_player_snapshot i x y joy now g) = g_players g"
  "g_local_pid (apply_player_snapshot i x y joy now g) = g_local_pid g"
  "g_zombie_mask (apply_player_snapshot i x y joy now g) = g_zombie_mask g"
  "g_round_snapshot_ready (apply_player_snapshot i x y joy now g) = g_round_snapshot_ready g"
  "length (g_panim (apply_player_snapshot i x y joy now g)) = length (g_panim g)"
  by (simp_all add: apply_player_snapshot_def)

lemma push_drop_low: "drop_bit 3 (push_bit 3 z) AND 15 = z AND (15 :: u8)"
proof -
  have low: "mask 4 = (15 :: u8)" by (simp add: mask_eq_exp_minus_1)
  show ?thesis unfolding low [symmetric]
    by (rule bit_word_eqI) (auto simp: bit_and_iff bit_mask_iff bit_drop_bit_eq bit_push_bit_iff)
qed

lemma snapshot_flags_decode:
  assumes "i < 4"
  shows "uint (drop_bit 1 (snapshot_flags i z c) AND 0x03) = int i"
    and "drop_bit 3 (snapshot_flags i z c) AND 0x0F = z AND 0x0F"
proof -
  show "uint (drop_bit 1 (snapshot_flags i z c) AND 0x03) = int i"
    using slot_cases [OF assms]
    by (auto simp: snapshot_flags_def Let_def bit.conj_disj_distrib2 and.assoc)
  show "drop_bit 3 (snapshot_flags i z c) AND 0x0F = z AND 0x0F"
    using slot_cases [OF assms] push_drop_low [of z]
    by (auto simp: snapshot_flags_def Let_def drop_bit_or bit.conj_disj_distrib2 and.assoc)
qed

lemma snapshot_for_bytes:
  "snapshot_for seq z i r = [PKT_SNAPSHOT, seq, snapshot_flags i z (r_clients r ! i),
      p_x (r_players r ! 0), p_y (r_players r ! 0), p_x (r_players r ! 1), p_y (r_players r ! 1),
      p_x (r_players r ! 2), p_y (r_players r ! 2), p_x (r_players r ! 3), p_y (r_players r ! 3),
      p_joy (r_players r ! 0), p_joy (r_players r ! 1), p_joy (r_players r ! 2), p_joy (r_players r ! 3),
      p_score (r_players r ! 0), p_score (r_players r ! 1), p_score (r_players r ! 2), p_score (r_players r ! 3),
      applied_input_seq (r_clients r ! i), r_round_id r]"
  by (simp add: snapshot_for_def build_snapshot_def Let_def)

definition view_of :: "player_state \<Rightarrow> player_view" where
  "view_of p = \<lparr>v_x = p_x p, v_y = p_y p, v_joy = p_joy p, v_score = p_score p\<rparr>"

text \<open>
  C12: A snapshot arrives intact. What the server encodes for slot \<open>i\<close> each tick is what the client
  decodes: every player's cell, stick and score, the client's own slot and the zombie mask; and
  each wizard is drawn towards exactly the cell where the server has it.
\<close>

theorem snapshot_reaches_client:
  assumes "base_ok r" "i < MAX_PLAYERS" "j < MAX_PLAYERS" "game_ok (k_game k)"
    and "g_have_welcome (k_game k)" "g_round_phase (k_game k) = PHASE_PLAYING" "g_round_id (k_game k) = r_round_id r"
    and "g = k_game (handle_packet (snapshot_for seq z i r) now rel k)"
  shows "g_players g ! j = view_of (r_players r ! j) \<and> g_local_pid g = int i \<and> g_zombie_mask g = z AND 0x0F \<and>
    g_round_snapshot_ready g \<and> drawn_at g j = (p_x (r_players r ! j), p_y (r_players r ! j))"
proof -
  let ?buf = "snapshot_for seq z i r"
  define g0 where "g0 = (k_game k)\<lparr>g_have_snapshot := True, g_round_snapshot_ready := True,
    g_zombie_mask := z AND 0x0F, g_local_pid := int i, g_players := map (\<lambda>i. view_of (r_players r ! i)) [0..<4]\<rparr>"
  define step where "step = (\<lambda>i. apply_player_snapshot i (p_x (r_players r ! i)) (p_y (r_players r ! i))
    (p_joy (r_players r ! i)) now)"
  have four: "[0..<4] = [0, 1, 2, 3 :: nat]" by (simp add: upt_conv_Cons)
  have "handle_packet ?buf now rel k = k\<lparr>k_game := handle_game ?buf now rel (k_game k)\<rparr>"
    using assms(5) by (intro handle_packet_plain) (simp_all add: snapshot_for_bytes)
  then have "g = on_snapshot ?buf now (k_game k)"
    using assms(6,7) by (simp add: assms(8) handle_game_def snapshot_for_bytes)
  also have "\<dots> = for_slots step g0"
    using snapshot_flags_decode [OF assms(2)]
    by (simp add: on_snapshot_def Let_def snapshot_for_bytes g0_def step_def view_of_def four for_slots_unfold)
  finally have g: "g = step 3 (step 2 (step 1 (step 0 g0)))" by (simp add: for_slots_unfold)
  have cell: "p_x (r_players r ! n) < 20 \<and> p_y (r_players r ! n) < 19" if "n < 4" for n
    using base_ok_player [OF assms(1) that] by (simp add: player_ok_def cell_ok_def word_less_def)
  have len: "length (g_panim g0) = 4" using assms(4) by (simp add: g0_def game_ok_def)
  have "drawn_at g j = (p_x (r_players r ! j), p_y (r_players r ! j))"
    using slot_cases [OF assms(3)] len cell [of 0] cell [of 1] cell [of 2] cell [of 3]
    unfolding g by (elim disjE) (simp_all add: step_def apply_player_snapshot_drawn)
  moreover have "g_players g ! j = view_of (r_players r ! j)"
    using slot_cases [OF assms(3)] by (elim disjE) (simp_all add: g step_def g0_def four)
  ultimately show ?thesis by (simp add: g step_def g0_def)
qed

definition demo_client :: client where
  "demo_client = handle_packets [([PKT_WELCOME, 1, 1, 0, 5], 3)] (new_client (-1) 5 demo_env)"

lemma demo_client_game: "k_game demo_client = on_welcome [PKT_WELCOME, 1, 1, 0, 5] (game_zero (-1))"
  by (simp add: demo_client_def handle_packets_def new_client_def handle_packet.simps [of "[PKT_WELCOME, 1, 1, 0, 5]"])

lemma demo_client_ok: "game_ok (k_game demo_client)" "g_have_welcome (k_game demo_client)"
  "g_round_phase (k_game demo_client) = PHASE_PLAYING" "g_round_id (k_game demo_client) = 1"
proof -
  show "game_ok (k_game demo_client)"
    unfolding demo_client_def by (rule game_ok_packets) (simp add: new_client_def game_zero_ok)
qed (simp_all add: demo_client_game on_welcome_def)

theorem snapshot_reaches_client_witness:
  "drawn_at (k_game (handle_packet (snapshot_for 9 2 1 demo_room) 50 False demo_client)) 3 = (18, 17)"
proof -
  have rid: "g_round_id (k_game demo_client) = r_round_id demo_room" by (simp add: demo_client_ok demo_room_def)
  have p: "r_players demo_room ! 3 = demo_player 18 17" by (simp add: demo_room_def)
  show ?thesis
    using snapshot_reaches_client [OF demo_room_base_ok, of 1 3, OF _ _ demo_client_ok(1,2,3) rid refl] p
    by (simp add: demo_player_def)
qed

section \<open>The maze\<close>

definition mirrors :: "game_state \<Rightarrow> bytes \<Rightarrow> bool" where
  "mirrors g bits \<longleftrightarrow> g_brick_bits g = bits \<and>
     (\<forall>x y. on_map x y \<longrightarrow> (g_bricks g ! nat (y * 20 + x) \<noteq> 0) = is_brick bits x y)"

lemma mirrorsI: "maze_ok g \<Longrightarrow> g_brick_bits g = bits \<Longrightarrow> mirrors g bits"
  using maze_ok_lookup [of g] by (auto simp: mirrors_def)

text \<open>
  C13: The client's maze refines the server's. A full map of the current round makes the client's
  maze equal to the server's in every cell; and from then on each brick the server clears and
  announces keeps the two equal, in plain packets and in reliable events alike.
\<close>

theorem client_mirrors_maze:
  assumes "game_ok (k_game k)" "g_have_welcome (k_game k)" "length bits = 48" "rid = g_round_id (k_game k)"
  shows "mirrors (k_game (handle_packet (build_brick_full seq bits rid) now rel k)) bits \<and>
    (g_brick_bits (k_game k) = bits \<and> g_round_phase (k_game k) = PHASE_PLAYING \<and> cell_ok x y \<longrightarrow>
       mirrors (k_game (handle_packet (build_brick_delta seq x y rid) now rel k)) (clear_brick bits (uint x) (uint y)))"
proof
  let ?g = "k_game k"
  have full: "k_game (handle_packet (build_brick_full seq bits rid) now rel k) =
      handle_game (build_brick_full seq bits rid) now rel ?g"
    using assms(2) by (subst handle_packet_plain) (simp_all add: build_brick_full_def)
  have "handle_game (build_brick_full seq bits rid) now rel ?g = on_brick_full (build_brick_full seq bits rid) rel ?g"
    using assms(3,4) by (simp add: handle_game_def build_brick_full_def nth_append)
  moreover have "g_brick_bits (on_brick_full (build_brick_full seq bits rid) rel ?g) = bits"
    using assms(3) by (simp add: on_brick_full_def decode_brick_full_def Let_def build_brick_full_def)
  moreover have "maze_ok (handle_game (build_brick_full seq bits rid) now rel ?g)"
    by (rule game_ok_maze [OF game_ok_handle [OF assms(1)]])
  ultimately show "mirrors (k_game (handle_packet (build_brick_full seq bits rid) now rel k)) bits"
    unfolding full by (intro mirrorsI) simp_all
  show "g_brick_bits ?g = bits \<and> g_round_phase ?g = PHASE_PLAYING \<and> cell_ok x y \<longrightarrow>
    mirrors (k_game (handle_packet (build_brick_delta seq x y rid) now rel k)) (clear_brick bits (uint x) (uint y))"
  proof
    assume h: "g_brick_bits ?g = bits \<and> g_round_phase ?g = PHASE_PLAYING \<and> cell_ok x y"
    let ?d = "build_brick_delta seq x y rid"
    have plain: "k_game (handle_packet ?d now rel k) = handle_game ?d now rel ?g"
      using assms(2) by (subst handle_packet_plain) (simp_all add: build_brick_delta_def)
    have "handle_game ?d now rel ?g = on_brick_delta ?d now ?g"
      using h assms(4) by (simp add: handle_game_def build_brick_delta_def)
    moreover have "g_brick_bits (on_brick_delta ?d now ?g) = clear_brick bits (uint x) (uint y)"
      using h by (simp add: on_brick_delta_def build_brick_delta_def Let_def clear_brick_cell_bits cell_ok_def word_less_def)
    moreover have "maze_ok (handle_game ?d now rel ?g)" by (rule game_ok_maze [OF game_ok_handle [OF assms(1)]])
    ultimately show "mirrors (k_game (handle_packet ?d now rel k)) (clear_brick bits (uint x) (uint y))"
      unfolding plain by (intro mirrorsI) simp_all
  qed
qed

theorem client_mirrors_maze_witness:
  "mirrors (k_game (handle_packet (build_brick_full 7 (replicate 48 0x55) 1) 9 True demo_client)) (replicate 48 0x55)"
  using client_mirrors_maze [OF demo_client_ok(1,2), of "replicate 48 0x55" 1] by (simp add: demo_client_ok)

end
