(* ===== verification/ClientLoop.thy ===== *)
theory ClientLoop
  imports Client
begin

text \<open>
  The main loop of \<^verbatim>\<open>clients/linux/sdl_main.c\<close>: keyboard state, the stick and fire byte, the NAME
  and DELTA packets it sends, the pass over the received frames, the prompt for host and name, and
  \<^verbatim>\<open>clean_leave\<close>. Lemmas: what the client sends is what the server accepts, and leaving ends.
\<close>

section \<open>The stick\<close>

record input_state =
  in_up :: bool
  in_down :: bool
  in_left :: bool
  in_right :: bool
  in_fire :: bool
  in_preferred_axis :: int

definition input_zero :: input_state where
  "input_zero = \<lparr>in_up = False, in_down = False, in_left = False, in_right = False, in_fire = False,
     in_preferred_axis = 0\<rparr>"

definition pack_joy :: "u8 \<Rightarrow> bool \<Rightarrow> u8" where
  "pack_joy stick trig = (let joy = stick AND 0x0F in if trig then joy OR 0x10 else joy)"

definition compute_stick :: "input_state \<Rightarrow> u8" where
  "compute_stick inp =
     (let h0 = (if in_left inp \<and> \<not> in_right inp then -1 else if in_right inp \<and> \<not> in_left inp then 1 else 0) :: int;
          v0 = (if in_up inp \<and> \<not> in_down inp then -1 else if in_down inp \<and> \<not> in_up inp then 1 else 0) :: int;
          both = (h0 \<noteq> 0 \<and> v0 \<noteq> 0);
          v = (if both \<and> in_preferred_axis inp = 0 then 0 else v0);
          h = (if both \<and> in_preferred_axis inp \<noteq> 0 then 0 else h0) in
      if h > 0 then 0x07
      else if h < 0 then 0x0B
      else if v > 0 then 0x0D
      else if v < 0 then 0x0E
      else 0x0F)"

datatype key = KeyUp | KeyDown | KeyLeft | KeyRight | KeySpace | KeyEscape | KeyOther

text \<open>\<open>SDL_QUIT\<close>, or a key going down (\<open>True\<close>) or up.\<close>

datatype client_event = QuitEvent | KeyEvent key bool

definition on_key :: "key \<Rightarrow> bool \<Rightarrow> input_state \<Rightarrow> input_state" where
  "on_key key pressed inp = (case key of
      KeyUp \<Rightarrow> let i = inp\<lparr>in_up := pressed\<rparr> in if pressed then i\<lparr>in_preferred_axis := 1\<rparr> else i
    | KeyDown \<Rightarrow> let i = inp\<lparr>in_down := pressed\<rparr> in if pressed then i\<lparr>in_preferred_axis := 1\<rparr> else i
    | KeyLeft \<Rightarrow> let i = inp\<lparr>in_left := pressed\<rparr> in if pressed then i\<lparr>in_preferred_axis := 0\<rparr> else i
    | KeyRight \<Rightarrow> let i = inp\<lparr>in_right := pressed\<rparr> in if pressed then i\<lparr>in_preferred_axis := 0\<rparr> else i
    | KeySpace \<Rightarrow> inp\<lparr>in_fire := pressed\<rparr>
    | _ \<Rightarrow> inp)"

definition on_event :: "client_event \<Rightarrow> bool \<times> input_state \<Rightarrow> bool \<times> input_state" where
  "on_event ev s = (case ev of
      QuitEvent \<Rightarrow> (False, snd s)
    | KeyEvent key pressed \<Rightarrow>
        if key = KeyEscape \<and> pressed then (False, snd s) else (fst s, on_key key pressed (snd s)))"

section \<open>A pass of the main loop\<close>

abbreviation (input) NAME_RESEND_MS :: u64 where "NAME_RESEND_MS \<equiv> 2000"

record sdl =
  s_client :: client
  s_rx :: tcp_rx
  s_input :: input_state
  s_running :: bool
  s_last_joy :: u8
  s_last_send_ms :: u64
  s_last_name_send_ms :: u64

text \<open>\<open>name\<close> is the text of \<open>--name\<close> or of the prompt, without its terminating zero.\<close>

definition padded_name :: "bytes \<Rightarrow> bytes" where
  "padded_name name = take NAME_LEN (take NAME_LEN name @ replicate NAME_LEN 0x20)"

definition pid_byte :: "int \<Rightarrow> u8" where
  "pid_byte pid = of_int (if pid \<ge> 0 then pid else 0)"

definition send_name :: "bytes \<Rightarrow> u64 \<Rightarrow> sdl \<Rightarrow> sdl" where
  "send_name name now s =
     (let k = s_client s; g = k_game k in
      if g_have_welcome g \<and> name \<noteq> [] \<and> now - s_last_name_send_ms s \<ge> NAME_RESEND_MS then
        (let known = (g_local_pid g \<ge> 0 \<and> name_is_set (g_names g ! nat (g_local_pid g)));
             s1 = (if known then s
                   else s\<lparr>s_client := client_send ([PKT_NAME, k_seq k, pid_byte (g_local_pid g)] @ padded_name name)
                          (k\<lparr>k_seq := k_seq k + 1\<rparr>)\<rparr>) in
         s1\<lparr>s_last_name_send_ms := now\<rparr>)
      else s)"

definition client_joy :: "game_state \<Rightarrow> input_state \<Rightarrow> u8" where
  "client_joy g inp = (if game_ready g then pack_joy (compute_stick inp) (in_fire inp) else 0x0F)"

definition delta_due :: "sdl \<Rightarrow> u8 \<Rightarrow> u64 \<Rightarrow> bool" where
  "delta_due s joy now \<longleftrightarrow> g_have_welcome (k_game (s_client s)) \<and>
     (joy \<noteq> s_last_joy s \<or> (joy \<noteq> 0x0F \<and> now - s_last_send_ms s \<ge> 100) \<or> now - s_last_send_ms s \<ge> 1000)"

definition delta_packet :: "int \<Rightarrow> u8 \<Rightarrow> client \<Rightarrow> bytes" where
  "delta_packet opt_pid joy k =
     (let g = k_game k;
          tx_pid = (if g_local_pid g \<ge> 0 then g_local_pid g else if opt_pid \<ge> 0 then opt_pid else 0) in
      [PKT_DELTA, k_seq k, of_int tx_pid, joy, g_round_id g])"

definition send_delta :: "int \<Rightarrow> u64 \<Rightarrow> sdl \<Rightarrow> sdl" where
  "send_delta opt_pid now s =
     (let k = s_client s; joy = client_joy (k_game k) (s_input s) in
      if delta_due s joy now
      then s\<lparr>s_client := client_send (delta_packet opt_pid joy k) (k\<lparr>k_seq := k_seq k + 1\<rparr>),
             s_last_joy := joy, s_last_send_ms := now\<rparr>
      else s)"

text \<open>
  One pass: the pending events, the flush, at most 64 frames, NAME and DELTA. The frames are
  handled between the reads; handling one does not touch the receiver. The flag says whether
  the loop goes on.
\<close>

definition client_flush :: "client \<Rightarrow> bool \<times> client" where
  "client_flush k = (let (ok, tx, e) = tcp_tx_flush (k_fd k) (k_tx k) (k_env k) in (ok, k\<lparr>k_tx := tx, k_env := e\<rparr>))"

definition sdl_pass ::
  "bytes \<Rightarrow> int \<Rightarrow> client_event list \<Rightarrow> recv_reply list \<Rightarrow> u64 \<Rightarrow> sdl \<Rightarrow> bool \<times> sdl" where
  "sdl_pass name opt_pid events script now s =
     (let (running, inp) = fold on_event events (s_running s, s_input s);
          (flushed, k) = client_flush (s_client s);
          s1 = s\<lparr>s_running := running, s_input := inp, s_client := k\<rparr> in
      if \<not> flushed then (False, s1)
      else let (frames, ok, rx, rest) = receive_frames 64 (s_rx s1) 64 script;
               s2 = s1\<lparr>s_client := handle_packets (map (\<lambda>buf. (buf, now)) frames) (s_client s1),
                       s_rx := rx, s_running := running \<and> ok\<rparr> in
        if \<not> s_running s2 then (False, s2)
        else (True, send_delta opt_pid now (send_name name now s2)))"

section \<open>Leaving\<close>

text \<open>
  The frames of one round of \<^verbatim>\<open>clean_leave\<close>: up to 64, until the acknowledgement or the end. The
  answer says whether the function returns.
\<close>

fun leave_frames :: "nat \<Rightarrow> u8 \<Rightarrow> tcp_rx \<Rightarrow> recv_reply list \<Rightarrow> bool \<times> tcp_rx \<times> recv_reply list" where
  "leave_frames 0 leave_sq rx script = (False, rx, script)"
| "leave_frames (Suc n) leave_sq rx script =
     (case tcp_recv_frame rx 64 script of
        (RecvBroken, rx1, rest) \<Rightarrow> (True, rx1, rest)
      | (RecvNothing, rx1, rest) \<Rightarrow> (False, rx1, rest)
      | (RecvFrame reply, rx1, rest) \<Rightarrow>
          if length reply = 2 \<and> reply ! 0 = PKT_LEAVE_ACK \<and> reply ! 1 = leave_sq then (True, rx1, rest)
          else leave_frames n leave_sq rx1 rest)"

text \<open>
  The loop reads the clock before every round and may never end when the clock stands still, so
  \<open>None\<close> is a run that does not return. \<open>scripts\<close> gives the answers of \<open>recv\<close> round by round.
\<close>

partial_function (option) leave_loop ::
  "u64 \<Rightarrow> u8 \<Rightarrow> (nat \<Rightarrow> recv_reply list) \<Rightarrow> nat \<Rightarrow> client \<Rightarrow> tcp_rx \<Rightarrow> (client \<times> tcp_rx) option" where
  "leave_loop deadline leave_sq scripts n k rx =
     (let (now, e) = now_ms (k_env k); k0 = k\<lparr>k_env := e\<rparr> in
      if now < deadline then
        (let (flushed, k1) = client_flush k0 in
         if \<not> flushed then Some (k1, rx)
         else let (returns, rx1, rest) = leave_frames 64 leave_sq rx (scripts n) in
           if returns then Some (k1, rx1)
           else leave_loop deadline leave_sq scripts (Suc n) k1 rx1)
      else Some (k0, rx))"

definition clean_leave :: "(nat \<Rightarrow> recv_reply list) \<Rightarrow> client \<Rightarrow> tcp_rx \<Rightarrow> (client \<times> tcp_rx) option" where
  "clean_leave scripts k rx =
     (let leave_sq = k_seq k; k1 = k\<lparr>k_seq := k_seq k + 1\<rparr>;
          (ok, tx, e) = tcp_tx_queue_frame (k_fd k1) (k_tx k1) [PKT_LEAVE_ROOM, leave_sq] (k_env k1);
          k2 = k1\<lparr>k_tx := tx, k_env := e\<rparr> in
      if \<not> ok then Some (k2, rx)
      else let (now, e2) = now_ms (k_env k2) in
        leave_loop (now + 750) leave_sq scripts 0 (k2\<lparr>k_env := e2\<rparr>) rx)"

section \<open>The prompt\<close>

abbreviation (input) HOST_MAX :: nat where "HOST_MAX \<equiv> 63"

text \<open>\<open>pr_field\<close> is 0 for the host and 1 for the name.\<close>

record prompt =
  pr_host :: bytes
  pr_name :: bytes
  pr_field :: nat
  pr_accepted :: bool

datatype prompt_event = PromptQuit | PromptEscape | PromptReturn | PromptTab | PromptBackspace | PromptTyped u16

definition host_char :: "u8 \<Rightarrow> bool" where
  "host_char c \<longleftrightarrow> (0x30 \<le> c \<and> c \<le> 0x39) \<or> (0x41 \<le> c \<and> c \<le> 0x5A) \<or> (0x61 \<le> c \<and> c \<le> 0x7A) \<or>
     c = 0x2E \<or> c = 0x2D"

definition edit_field :: "nat \<Rightarrow> (nat \<Rightarrow> bytes \<Rightarrow> bytes) \<Rightarrow> prompt \<Rightarrow> prompt" where
  "edit_field field f p =
     (if field = 0 then p\<lparr>pr_host := f (HOST_MAX + 1) (pr_host p)\<rparr> else p\<lparr>pr_name := f (NAME_LEN + 1) (pr_name p)\<rparr>)"

definition type_char :: "u16 \<Rightarrow> nat \<Rightarrow> bytes \<Rightarrow> bytes" where
  "type_char uni cap buf =
     (if 32 \<le> uni \<and> uni < 127 \<and> host_char (ucast uni) \<and> length buf + 1 < cap then buf @ [ucast uni] else buf)"

text \<open>\<open>None\<close> is the return value 0.\<close>

definition prompt_key :: "prompt_event \<Rightarrow> prompt \<Rightarrow> prompt option" where
  "prompt_key ev p = (case ev of
      PromptQuit \<Rightarrow> None
    | PromptEscape \<Rightarrow> None
    | PromptReturn \<Rightarrow> Some (if pr_field p = 0 then (if pr_host p \<noteq> [] then p\<lparr>pr_field := 1\<rparr> else p)
                            else p\<lparr>pr_accepted := True\<rparr>)
    | PromptTab \<Rightarrow> Some (p\<lparr>pr_field := (if pr_field p \<noteq> 0 then 0 else 1)\<rparr>)
    | PromptBackspace \<Rightarrow> Some (edit_field (pr_field p) (\<lambda>_ buf. butlast buf) p)
    | PromptTyped uni \<Rightarrow> Some (edit_field (pr_field p) (type_char uni) p))"

fun prompt_events :: "prompt_event list \<Rightarrow> prompt \<Rightarrow> prompt option" where
  "prompt_events [] p = Some p"
| "prompt_events (ev # evs) p = (case prompt_key ev p of None \<Rightarrow> None | Some q \<Rightarrow> prompt_events evs q)"

section \<open>What the client sends is what the server accepts\<close>

lemma compute_stick_valid: "is_valid_stick_nibble (compute_stick inp)"
  by (simp add: compute_stick_def is_valid_stick_nibble_def Let_def)

lemma pack_joy_legal: "is_valid_stick_nibble stick \<Longrightarrow> pack_joy stick trig \<in> joy_bytes"
  by (cases trig) (auto simp: is_valid_stick_nibble_def pack_joy_def joy_bytes_def)

lemma client_joy_legal: "client_joy g inp \<in> joy_bytes"
  by (simp add: client_joy_def pack_joy_legal compute_stick_valid) (simp add: joy_bytes_def)

text \<open>
  Every DELTA the graphical client sends is one the server accepts. Whatever keys are held, in
  whatever state the client is: once a snapshot has told it its slot, the packet decodes at that
  slot, in the primary format, to the very sequence number and stick byte that were sent, tagged
  with the client's round; and outside a round the client is ready for, the stick is neutral.
\<close>

theorem client_delta_accepted:
  assumes "g_local_pid (k_game k) = int slot" "slot < MAX_PLAYERS"
  shows "transport_decode_delta_for_slot (delta_packet opt_pid (client_joy (k_game k) inp) k) 4 (of_nat slot) =
      Some \<lparr>d_seq = k_seq k, d_pid = of_nat slot, d_joy = client_joy (k_game k) inp, d_format = TRANSPORT_DELTA_PRIMARY\<rparr> \<and>
    delta_packet opt_pid (client_joy (k_game k) inp) k ! 4 = g_round_id (k_game k) \<and>
    (\<not> game_ready (k_game k) \<longrightarrow> client_joy (k_game k) inp = 0x0F)"
proof -
  have "sanitize_client_joy (client_joy (k_game k) inp) = Some (client_joy (k_game k) inp)"
    using client_joy_legal by (simp add: sanitize_client_joy_eq)
  then show ?thesis using assms
    by (simp add: transport_decode_delta_for_slot_def delta_packet_def Let_def client_joy_def)
qed

theorem client_delta_accepted_witness:
  "transport_decode_delta_for_slot (delta_packet (-1) (client_joy (game_zero 2) input_zero) (new_client 2 5 demo_env)) 4 2 =
      Some \<lparr>d_seq = 0, d_pid = 2, d_joy = client_joy (game_zero 2) input_zero, d_format = TRANSPORT_DELTA_PRIMARY\<rparr>"
proof -
  have g: "k_game (new_client 2 5 demo_env) = game_zero 2" and q: "k_seq (new_client 2 5 demo_env) = 0"
    by (simp_all add: new_client_def)
  have "g_local_pid (k_game (new_client 2 5 demo_env)) = int 2" by (simp add: g game_zero_def)
  from client_delta_accepted [OF this, of "-1" input_zero] show ?thesis by (simp add: g q)
qed

section \<open>Leaving ends\<close>

text \<open>Where the clock stands after its coming readings, as a number.\<close>

definition clock_end :: "env \<Rightarrow> nat" where
  "clock_end e = unat (e_clock e) + sum_list (map unat (e_ticks e))"

lemma clock_end_read:
  assumes "clock_end e < 2 ^ 64" "now_ms e = (now, e')"
  shows "clock_end e' = clock_end e" "e_clock e' = now"
    "e_ticks e' = tl (e_ticks e)" "e_ticks e = [] \<Longrightarrow> unat now = clock_end e"
proof -
  have "unat (e_clock e + d) = unat (e_clock e) + unat d" if "e_ticks e = d # ds" for d ds
    using assms(1) that by (intro unat_add_lem [THEN iffD1]) (simp add: clock_end_def)
  then show "clock_end e' = clock_end e" "e_clock e' = now"
    "e_ticks e' = tl (e_ticks e)" "e_ticks e = [] \<Longrightarrow> unat now = clock_end e"
    using assms by (auto simp: now_ms_def clock_end_def split: list.splits)
qed

lemma client_flush_clock:
  "e_clock (k_env (snd (client_flush k))) = e_clock (k_env k) \<and> e_ticks (k_env (snd (client_flush k))) = e_ticks (k_env k)"
  using tcp_tx_flush_spec(1) [of "k_fd k" "k_tx k" "k_env k"]
  by (simp add: client_flush_def Let_def split_beta same_outside_def prod_eq_iff)

lemma leave_loop_returns:
  "unat deadline \<le> clock_end (k_env k) \<Longrightarrow> clock_end (k_env k) < 2 ^ 64 \<Longrightarrow>
   \<exists>res. leave_loop deadline leave_sq scripts n k rx = Some res"
proof (induction "length (e_ticks (k_env k))" arbitrary: n k rx rule: less_induct)
  case less
  obtain now e where read: "now_ms (k_env k) = (now, e)" by force
  note clock = clock_end_read [OF less(3) read]
  let ?k0 = "k\<lparr>k_env := e\<rparr>"
  obtain flushed k1 where flush: "client_flush ?k0 = (flushed, k1)" by force
  obtain returns rx1 rest where frames: "leave_frames 64 leave_sq rx (scripts n) = (returns, rx1, rest)"
    by (metis prod_cases3)
  show ?case
  proof (cases "now < deadline \<and> flushed \<and> \<not> returns")
    case False
    then show ?thesis by (subst leave_loop.simps) (auto simp: read flush frames Let_def)
  next
    case True
    then have "e_ticks (k_env k) \<noteq> []" using clock(4) less(2) by (auto simp: word_less_nat_alt)
    moreover have same: "e_clock (k_env k1) = e_clock e" "e_ticks (k_env k1) = e_ticks e"
      using client_flush_clock [of ?k0] flush by simp_all
    moreover from same have "clock_end (k_env k1) = clock_end (k_env k)" using clock(1) by (simp add: clock_end_def)
    ultimately have "\<exists>res. leave_loop deadline leave_sq scripts (Suc n) k1 rx1 = Some res"
      using less(2,3) clock(3) by (intro less(1)) (cases "e_ticks (k_env k)"; simp)+
    then show ?thesis using True by (subst leave_loop.simps) (simp add: read flush frames)
  qed
qed

lemma queue_frame_clock:
  assumes "tcp_tx_queue_frame fd tx p e = (ok, tx', e')"
  shows "e_clock e' = e_clock e" "e_ticks e' = e_ticks e"
  using assms tcp_tx_queue_spec(1) [of fd tx "encode_frame p" e ok tx' e']
  by (auto simp: tcp_tx_queue_frame_def same_outside_def split: if_splits)

text \<open>
  C33: Leaving terminates. Whatever the server answers or fails to answer, \<open>clean_leave\<close> returns: the
  loop ends as soon as the clock has moved 750 milliseconds past its first reading.
\<close>

theorem clean_leave_returns:
  assumes "e_ticks (k_env k) = d # ds" "750 \<le> sum_list (map unat ds)" "clock_end (k_env k) < 2 ^ 64"
  shows "\<exists>res. clean_leave scripts k rx = Some res"
proof -
  let ?k1 = "k\<lparr>k_seq := k_seq k + 1\<rparr>"
  obtain ok tx e where q: "tcp_tx_queue_frame (k_fd k) (k_tx k) [PKT_LEAVE_ROOM, k_seq k] (k_env k) = (ok, tx, e)"
    by (metis prod_cases3)
  obtain now e2 where read: "now_ms e = (now, e2)" by force
  note same = queue_frame_clock [OF q]
  have total: "clock_end e < 2 ^ 64" using assms(3) same by (simp add: clock_end_def)
  note clock = clock_end_read [OF total read]
  have "clock_end e2 = unat now + sum_list (map unat ds)"
    using clock(2,3) same assms(1) by (simp add: clock_end_def)
  moreover from this have "unat (now + 750) = unat now + 750"
    using clock(1) total assms(2) unat_add_lem [of now 750] by simp
  ultimately have "\<exists>res. leave_loop (now + 750) (k_seq k) scripts 0 (?k1\<lparr>k_tx := tx, k_env := e, k_env := e2\<rparr>) rx = Some res"
    using assms(2) clock(1) total by (intro leave_loop_returns) simp_all
  then show ?thesis by (simp add: clean_leave_def Let_def q read)
qed

theorem clean_leave_returns_witness:
  "\<exists>res. clean_leave (\<lambda>n. [GotEAGAIN]) (new_client 1 5 (demo_env\<lparr>e_ticks := [10, 400, 400]\<rparr>)) tcp_rx_zero = Some res"
  by (rule clean_leave_returns [of _ 10 "[400, 400]"]) (simp_all add: new_client_def clock_end_def demo_env_def)

section \<open>The prompt stays in its buffers\<close>

definition prompt_ok :: "prompt \<Rightarrow> bool" where
  "prompt_ok p \<longleftrightarrow> length (pr_host p) \<le> HOST_MAX \<and> length (pr_name p) \<le> NAME_LEN \<and>
     list_all host_char (pr_host p) \<and> list_all host_char (pr_name p)"

lemma type_char_ok:
  assumes "length buf \<le> n" "list_all host_char buf"
  shows "length (type_char uni (n + 1) buf) \<le> n \<and> list_all host_char (type_char uni (n + 1) buf)"
  using assms by (simp add: type_char_def)

lemma prompt_key_ok:
  assumes "prompt_ok p" "prompt_key ev p = Some q"
  shows "prompt_ok q"
proof -
  have host: "length (type_char uni 64 (pr_host p)) \<le> 63 \<and> list_all host_char (type_char uni 64 (pr_host p))"
    and name: "length (type_char uni 9 (pr_name p)) \<le> 8 \<and> list_all host_char (type_char uni 9 (pr_name p))" for uni
    using assms(1) type_char_ok [of "pr_host p" 63 uni] type_char_ok [of "pr_name p" 8 uni] by (simp_all add: prompt_ok_def)
  show ?thesis
  proof (cases ev)
    case (PromptTyped uni)
    then show ?thesis using assms host [of uni] name [of uni]
      by (auto simp: prompt_ok_def prompt_key_def edit_field_def)
  qed (use assms in \<open>auto simp: prompt_ok_def prompt_key_def edit_field_def list_all_butlast\<close>)
qed

lemma prompt_events_ok: "prompt_ok p \<Longrightarrow> prompt_events evs p = Some q \<Longrightarrow> prompt_ok q"
  by (induction evs arbitrary: p) (auto split: option.splits dest: prompt_key_ok)

end
