(* ===== verification/Curses.thy ===== *)
theory Curses
  imports ClientLoop Options
begin

text \<open>
  The terminal client, \<^verbatim>\<open>clients/linux/main.c\<close>: its view of the game, the packets it handles inline
  in its main loop, the keyboard and evdev input, the packets it sends and the screen it draws.
  Lemmas: both clients implement one specification of the shared view, which of its sticks the
  server accepts, and what the screen shows.
\<close>

section \<open>State\<close>

record term_shot =
  ts_active :: bool
  ts_x :: u8
  ts_y :: u8

text \<open>The locals of \<open>main\<close> that packets set; \<open>t_last_joy\<close> is reset at the edges of a round.\<close>

record term_view =
  t_bricks :: bytes
  t_players :: "player_view list"
  t_shots :: "term_shot list"
  t_names :: "bytes list"
  t_role_mask :: u8
  t_seat_mask :: u8
  t_local_pid :: int
  t_have_welcome :: bool
  t_round_id :: u8
  t_round_phase :: u8
  t_kill_limit :: u8
  t_winner_pid :: u8
  t_round_authorized :: bool
  t_round_map_ready :: bool
  t_round_snapshot_ready :: bool
  t_last_joy :: u8

definition term_shots_zero :: "term_shot list" where
  "term_shots_zero = replicate MAX_PLAYERS \<lparr>ts_active = False, ts_x = 0, ts_y = 0\<rparr>"

definition term_zero :: "int \<Rightarrow> term_view" where
  "term_zero pid = \<lparr>t_bricks = replicate 48 0,
     t_players = replicate MAX_PLAYERS \<lparr>v_x = 0, v_y = 0, v_joy = 0, v_score = 0\<rparr>,
     t_shots = term_shots_zero, t_names = replicate MAX_PLAYERS (replicate NAME_LEN 0),
     t_role_mask = 0, t_seat_mask = 0, t_local_pid = pid, t_have_welcome = False, t_round_id = 0,
     t_round_phase = PHASE_OVER, t_kill_limit = 0, t_winner_pid = 0, t_round_authorized = False,
     t_round_map_ready = False, t_round_snapshot_ready = False, t_last_joy = 0xFF\<rparr>"

definition gameplay_enabled :: "term_view \<Rightarrow> bool" where
  "gameplay_enabled v \<longleftrightarrow> t_have_welcome v \<and> t_round_authorized v \<and> t_round_map_ready v \<and>
     t_round_snapshot_ready v \<and> t_round_phase v = PHASE_PLAYING"

section \<open>Packets\<close>

definition term_welcome :: "bytes \<Rightarrow> term_view \<Rightarrow> term_view" where
  "term_welcome buf v = v\<lparr>t_have_welcome := True, t_round_id := buf ! 2, t_round_phase := buf ! 3,
     t_kill_limit := buf ! 4, t_round_authorized := False, t_round_map_ready := False,
     t_round_snapshot_ready := False\<rparr>"

definition term_round_start :: "bytes \<Rightarrow> term_view \<Rightarrow> term_view" where
  "term_round_start pkt v =
     (let incoming = pkt ! 1 in
      if incoming = t_round_id v \<or> round_is_newer incoming (t_round_id v) then
        (let v1 = (if incoming \<noteq> t_round_id v \<or> \<not> t_round_authorized v
                   then v\<lparr>t_shots := term_shots_zero, t_round_map_ready := False, t_round_snapshot_ready := False\<rparr>
                   else v) in
         v1\<lparr>t_round_id := incoming, t_kill_limit := pkt ! 2, t_round_phase := PHASE_PLAYING,
            t_round_authorized := True, t_last_joy := 0xFF\<rparr>)
      else v)"

definition term_match_end :: "bytes \<Rightarrow> term_view \<Rightarrow> term_view" where
  "term_match_end pkt v =
     (if pkt ! 1 = t_round_id v then
        v\<lparr>t_round_phase := PHASE_OVER, t_winner_pid := pkt ! 2, t_role_mask := pkt ! 4,
          t_seat_mask := pkt ! 3 AND NOT (pkt ! 4), t_kill_limit := pkt ! 5,
          t_players := map (\<lambda>i. (t_players v ! i)\<lparr>v_score := pkt ! (6 + i)\<rparr>) [0..<MAX_PLAYERS],
          t_names := map (\<lambda>i. take NAME_LEN (drop (11 + i * NAME_LEN) pkt)) [0..<MAX_PLAYERS],
          t_shots := term_shots_zero, t_last_joy := 0xFF\<rparr>
      else v)"

definition term_brick_full :: "bytes \<Rightarrow> bool \<Rightarrow> term_view \<Rightarrow> term_view" where
  "term_brick_full pkt reliable_inner v =
     (let v1 = v\<lparr>t_bricks := take 48 (drop 3 pkt)\<rparr> in
      if reliable_inner then v1\<lparr>t_round_map_ready := True\<rparr> else v1)"

definition term_brick_delta :: "bytes \<Rightarrow> term_view \<Rightarrow> term_view" where
  "term_brick_delta pkt v =
     (let x = pkt ! 2; y = pkt ! 3 in
      if x < 20 \<and> y < 19 then
        (let idx = unat y * 20 + unat x in
         v\<lparr>t_bricks := modify (idx div 8) (\<lambda>b. b AND NOT (push_bit (idx mod 8) 1)) (t_bricks v)\<rparr>)
      else v)"

definition term_respawn :: "bytes \<Rightarrow> term_view \<Rightarrow> term_view" where
  "term_respawn pkt v =
     (if pkt ! 2 < 4 then
        v\<lparr>t_players := modify (unat (pkt ! 2)) (\<lambda>p.
            if pkt ! 5 AND 0x01 \<noteq> 0 then p\<lparr>v_x := 255, v_y := 255\<rparr>
            else p\<lparr>v_x := pkt ! 3, v_y := pkt ! 4\<rparr>) (t_players v)\<rparr>
      else v)"

definition term_seats :: "bytes \<Rightarrow> term_view \<Rightarrow> term_view" where
  "term_seats pkt v = (if t_round_phase v \<noteq> PHASE_OVER then v\<lparr>t_seat_mask := pkt ! 2 AND 0x0F\<rparr> else v)"

definition term_name :: "bytes \<Rightarrow> term_view \<Rightarrow> term_view" where
  "term_name pkt v =
     (if pkt ! 2 < 4 \<and> t_round_phase v \<noteq> PHASE_OVER
      then v\<lparr>t_names := (t_names v)[unat (pkt ! 2) := take NAME_LEN (drop 3 pkt)]\<rparr> else v)"

definition term_shot_packet :: "bytes \<Rightarrow> term_view \<Rightarrow> term_view" where
  "term_shot_packet pkt v =
     (if pkt ! 2 < 4
      then v\<lparr>t_shots := (t_shots v)[unat (pkt ! 2) := \<lparr>ts_active = (pkt ! 5 \<noteq> 0), ts_x = pkt ! 3, ts_y = pkt ! 4\<rparr>]\<rparr>
      else v)"

definition term_snapshot :: "bytes \<Rightarrow> term_view \<Rightarrow> term_view" where
  "term_snapshot pkt v =
     v\<lparr>t_round_snapshot_ready := True, t_role_mask := drop_bit 3 (pkt ! 2) AND 0x0F,
       t_local_pid := uint (drop_bit 1 (pkt ! 2) AND 0x03),
       t_players := map (\<lambda>i. \<lparr>v_x = pkt ! (3 + 2 * i), v_y = pkt ! (4 + 2 * i),
           v_joy = pkt ! (11 + i), v_score = pkt ! (15 + i)\<rparr>) [0..<MAX_PLAYERS]\<rparr>"

text \<open>The chain after the reliable envelope.\<close>

definition term_game :: "bytes \<Rightarrow> bool \<Rightarrow> term_view \<Rightarrow> term_view" where
  "term_game pkt reliable_inner v =
     (let n = length pkt; playing = (t_round_phase v = PHASE_PLAYING) in
      if n = 3 \<and> pkt ! 0 = PKT_ROUND_START then term_round_start pkt v
      else if n = 43 \<and> pkt ! 0 = PKT_MATCH_END then term_match_end pkt v
      else if n = 52 \<and> pkt ! 0 = PKT_BRICK_FULL \<and> pkt ! 51 = t_round_id v
      then term_brick_full pkt reliable_inner v
      else if n = 5 \<and> pkt ! 0 = PKT_BRICK_DELTA \<and> pkt ! 4 = t_round_id v \<and> playing
      then term_brick_delta pkt v
      else if n = 7 \<and> pkt ! 0 = PKT_RESPAWN \<and> pkt ! 6 = t_round_id v \<and> playing then term_respawn pkt v
      else if n \<ge> 3 \<and> pkt ! 0 = PKT_SEATS then term_seats pkt v
      else if n \<ge> 3 + NAME_LEN \<and> pkt ! 0 = PKT_NAME then term_name pkt v
      else if n = 7 \<and> pkt ! 0 = PKT_SHOT \<and> pkt ! 6 = t_round_id v \<and> playing then term_shot_packet pkt v
      else if n = 21 \<and> pkt ! 0 = PKT_SNAPSHOT \<and> pkt ! 20 = t_round_id v \<and> playing then term_snapshot pkt v
      else v)"

text \<open>The client around the view.\<close>

record terminal =
  m_view :: term_view
  m_fd :: int
  m_tx :: tcp_tx
  m_seq :: u8
  m_rev :: u16
  m_env :: env

definition new_term :: "int \<Rightarrow> int \<Rightarrow> env \<Rightarrow> terminal" where
  "new_term pid fd e = \<lparr>m_view = term_zero pid, m_fd = fd, m_tx = tcp_tx_zero, m_seq = 0, m_rev = 0, m_env = e\<rparr>"

definition term_send :: "bytes \<Rightarrow> terminal \<Rightarrow> terminal" where
  "term_send pkt m = (let (ok, tx, e) = tcp_tx_queue_frame (m_fd m) (m_tx m) pkt (m_env m) in
     m\<lparr>m_tx := tx, m_env := e\<rparr>)"

definition term_reliable_ack :: "u16 \<Rightarrow> terminal \<Rightarrow> terminal" where
  "term_reliable_ack applied m =
     term_send [PKT_RELIABLE_ACK, m_seq m, ucast applied, ucast (drop_bit 8 applied)] (m\<lparr>m_seq := m_seq m + 1\<rparr>)"

text \<open>One frame; the answer says whether the client goes on, which a REJECT ends.\<close>

definition term_frame :: "bytes \<Rightarrow> terminal \<Rightarrow> bool \<times> terminal" where
  "term_frame buf m =
     (let n = length buf; v = m_view m in
      if n = 5 \<and> buf ! 0 = PKT_WELCOME \<and> buf ! 1 = PROTOCOL_VERSION
      then (True, m\<lparr>m_view := term_welcome buf v\<rparr>)
      else if n \<ge> 2 \<and> buf ! 0 = PKT_REJECT then (False, m)
      else if \<not> t_have_welcome v then (True, m)
      else if n \<ge> 7 \<and> buf ! 0 = PKT_RELIABLE_EVENT then
        (let incoming = event_rev buf; pkt = drop 4 buf in
         if incoming \<noteq> m_rev m + 1 \<or> \<not> reliable_inner_is_valid pkt
         then (True, term_reliable_ack (m_rev m) m)
         else (let m1 = term_reliable_ack incoming (m\<lparr>m_rev := incoming\<rparr>) in
               (True, m1\<lparr>m_view := term_game pkt True (m_view m1)\<rparr>)))
      else (True, m\<lparr>m_view := term_game buf False v\<rparr>))"

fun term_frames :: "bytes list \<Rightarrow> terminal \<Rightarrow> bool \<times> terminal" where
  "term_frames [] m = (True, m)"
| "term_frames (buf # bufs) m =
     (case term_frame buf m of (going, m1) \<Rightarrow> if going then term_frames bufs m1 else (False, m1))"

text \<open>The receive loop of a pass: the frames behind a REJECT stay unread.\<close>

fun term_receive ::
  "nat \<Rightarrow> tcp_rx \<Rightarrow> recv_reply list \<Rightarrow> terminal \<Rightarrow> bool \<times> tcp_rx \<times> recv_reply list \<times> terminal" where
  "term_receive 0 rx script m = (True, rx, script, m)"
| "term_receive (Suc n) rx script m =
     (case tcp_recv_frame rx 64 script of
        (RecvBroken, rx1, rest) \<Rightarrow> (False, rx1, rest, m)
      | (RecvNothing, rx1, rest) \<Rightarrow> (True, rx1, rest, m)
      | (RecvFrame buf, rx1, rest) \<Rightarrow>
          (case term_frame buf m of (going, m1) \<Rightarrow>
             if going then term_receive n rx1 rest m1 else (False, rx1, rest, m1)))"

section \<open>Input\<close>

definition compute_stick4 :: "bool \<Rightarrow> bool \<Rightarrow> bool \<Rightarrow> bool \<Rightarrow> u8" where
  "compute_stick4 up down left right =
     (let s1 = (if up then 0x0F AND NOT 0x01 else 0x0F) :: u8;
          s2 = (if down then s1 AND NOT 0x02 else s1);
          s3 = (if left then s2 AND NOT 0x04 else s2) in
      if right then s3 AND NOT 0x08 else s3)"

record term_input =
  ti_up :: bool
  ti_down :: bool
  ti_left :: bool
  ti_right :: bool
  ti_fire :: bool

definition term_input_zero :: term_input where
  "term_input_zero = \<lparr>ti_up = False, ti_down = False, ti_left = False, ti_right = False, ti_fire = False\<rparr>"

definition term_send_respawn :: "terminal \<Rightarrow> terminal" where
  "term_send_respawn m = term_send [PKT_RESPAWN, m_seq m, pid_byte (t_local_pid (m_view m)), 0, 0, 0, t_round_id (m_view m)]
     (m\<lparr>m_seq := m_seq m + 1\<rparr>)"

text \<open>Codes of \<open>getch\<close>: the keypad, or a character.\<close>

datatype curses_key = CursesUp | CursesDown | CursesLeft | CursesRight | CursesChar char

text \<open>The running flag, the pressed directions, and the client.\<close>

type_synonym term_keys = "bool \<times> term_input \<times> terminal"

definition handle_curses_key :: "curses_key \<Rightarrow> bool \<Rightarrow> term_keys \<Rightarrow> term_keys" where
  "handle_curses_key ch enabled s = (case s of (running, inp, m) \<Rightarrow>
     if ch \<in> {CursesUp, CursesChar (CHR ''w''), CursesChar (CHR ''W'')} then (running, inp\<lparr>ti_up := True\<rparr>, m)
     else if ch \<in> {CursesDown, CursesChar (CHR ''s''), CursesChar (CHR ''S'')} then (running, inp\<lparr>ti_down := True\<rparr>, m)
     else if ch \<in> {CursesLeft, CursesChar (CHR ''a''), CursesChar (CHR ''A'')} then (running, inp\<lparr>ti_left := True\<rparr>, m)
     else if ch \<in> {CursesRight, CursesChar (CHR ''d''), CursesChar (CHR ''D'')} then (running, inp\<lparr>ti_right := True\<rparr>, m)
     else if ch = CursesChar (CHR '' '') then (running, inp\<lparr>ti_fire := True\<rparr>, m)
     else if ch \<in> {CursesChar (CHR ''r''), CursesChar (CHR ''R'')}
     then (running, inp, if enabled then term_send_respawn m else m)
     else if ch = CursesChar (CHR 0x1B) then (False, inp, m)
     else s)"

text \<open>An evdev event: whether it is a key, which one, and its value (0 up, 1 down, 2 repeat).\<close>

datatype ev_code = EvUp | EvDown | EvLeft | EvRight | EvSpace | EvEsc | EvR | EvOther

definition on_evdev :: "bool \<times> ev_code \<times> int \<Rightarrow> term_keys \<Rightarrow> term_keys" where
  "on_evdev ev s = (case ev of (is_key, k, val) \<Rightarrow> case s of (running, inp, m) \<Rightarrow>
     if \<not> is_key \<or> val = 2 then s
     else let pressed = (val = 1); v = m_view m in
       (case k of
          EvUp \<Rightarrow> (running, inp\<lparr>ti_up := pressed\<rparr>, m)
        | EvDown \<Rightarrow> (running, inp\<lparr>ti_down := pressed\<rparr>, m)
        | EvLeft \<Rightarrow> (running, inp\<lparr>ti_left := pressed\<rparr>, m)
        | EvRight \<Rightarrow> (running, inp\<lparr>ti_right := pressed\<rparr>, m)
        | EvSpace \<Rightarrow> (running, inp\<lparr>ti_fire := pressed\<rparr>, m)
        | EvEsc \<Rightarrow> (if pressed then False else running, inp, m)
        | EvR \<Rightarrow> (running, inp,
            if pressed \<and> t_round_authorized v \<and> t_round_map_ready v \<and> t_round_snapshot_ready v \<and>
               t_round_phase v = PHASE_PLAYING
            then term_send_respawn m else m)
        | EvOther \<Rightarrow> s))"

section \<open>A pass of the main loop\<close>

record term_loop =
  tl_term :: terminal
  tl_rx :: tcp_rx
  tl_input :: term_input
  tl_last_send_ms :: u64
  tl_last_name_send_ms :: u64

text \<open>\<open>name\<close> is \<open>None\<close> when \<open>--name\<close> was not given.\<close>

definition term_send_name :: "bytes option \<Rightarrow> u64 \<Rightarrow> term_loop \<Rightarrow> term_loop" where
  "term_send_name name now s =
     (let m = tl_term s; v = m_view m in
      case name of
        None \<Rightarrow> s
      | Some nm \<Rightarrow>
          if t_have_welcome v \<and> now - tl_last_name_send_ms s \<ge> NAME_RESEND_MS then
            (let known = (t_local_pid v \<ge> 0 \<and> name_is_set (t_names v ! nat (t_local_pid v)));
                 m1 = (if known then m
                       else term_send ([PKT_NAME, m_seq m, pid_byte (t_local_pid v)] @ padded_name nm)
                              (m\<lparr>m_seq := m_seq m + 1\<rparr>)) in
             s\<lparr>tl_term := m1, tl_last_name_send_ms := now\<rparr>)
          else s)"

definition term_joy :: "term_view \<Rightarrow> term_input \<Rightarrow> u8" where
  "term_joy v inp =
     (if gameplay_enabled v
      then pack_joy (compute_stick4 (ti_up inp) (ti_down inp) (ti_left inp) (ti_right inp)) (ti_fire inp)
      else 0x0F)"

definition term_delta :: "u8 \<Rightarrow> terminal \<Rightarrow> bytes" where
  "term_delta joy m = [PKT_DELTA, m_seq m, pid_byte (t_local_pid (m_view m)), joy, t_round_id (m_view m)]"

definition term_send_delta :: "u64 \<Rightarrow> term_loop \<Rightarrow> term_loop" where
  "term_send_delta now s =
     (let m = tl_term s; v = m_view m; joy = term_joy v (tl_input s) in
      if joy \<noteq> t_last_joy v \<or> (joy \<noteq> 0x0F \<and> now - tl_last_send_ms s > 100) \<or> now - tl_last_send_ms s \<ge> 1000
      then (let m1 = term_send (term_delta joy m) (m\<lparr>m_seq := m_seq m + 1\<rparr>) in
            s\<lparr>tl_term := m1\<lparr>m_view := (m_view m1)\<lparr>t_last_joy := joy\<rparr>\<rparr>, tl_last_send_ms := now\<rparr>)
      else s)"

definition term_flush :: "terminal \<Rightarrow> bool \<times> terminal" where
  "term_flush m = (let (ok, tx, e) = tcp_tx_flush (m_fd m) (m_tx m) (m_env m) in (ok, m\<lparr>m_tx := tx, m_env := e\<rparr>))"

text \<open>Input comes from an evdev device or, without one, from the terminal, where nothing stays pressed.\<close>

datatype term_source = Evdev "(bool \<times> ev_code \<times> int) list" | Keyboard "curses_key list"

definition read_input :: "term_source \<Rightarrow> bool \<Rightarrow> term_input \<Rightarrow> terminal \<Rightarrow> term_keys" where
  "read_input src enabled inp m = (case src of
      Evdev evs \<Rightarrow> fold on_evdev evs (True, inp, m)
    | Keyboard keys \<Rightarrow> fold (\<lambda>ch. handle_curses_key ch enabled) keys (True, term_input_zero, m))"

text \<open>One pass, up to the redraw: the answer says whether the loop goes on.\<close>

definition term_pass :: "bytes option \<Rightarrow> term_source \<Rightarrow> recv_reply list \<Rightarrow> u64 \<Rightarrow> term_loop \<Rightarrow> bool \<times> term_loop" where
  "term_pass name src script now s =
     (let (flushed, m) = term_flush (tl_term s); s1 = s\<lparr>tl_term := m\<rparr> in
      if \<not> flushed then (False, s1)
      else let (going, rx, rest, m1) = term_receive 64 (tl_rx s1) script m;
               s2 = s1\<lparr>tl_term := m1, tl_rx := rx\<rparr> in
        if \<not> going then (False, s2)
        else let v = m_view m1;
                 enabled = (t_round_authorized v \<and> t_round_map_ready v \<and> t_round_snapshot_ready v \<and>
                            t_round_phase v = PHASE_PLAYING);
                 (running, inp, m2) = read_input src enabled (tl_input s2) m1;
                 s3 = s2\<lparr>tl_term := m2, tl_input := inp\<rparr> in
          (running, term_send_delta now (term_send_name name now s3)))"

section \<open>The screen\<close>

definition term_in_play :: "term_view \<Rightarrow> nat \<Rightarrow> bool" where
  "term_in_play v p \<longleftrightarrow> bit (t_role_mask v) p \<or> bit (t_seat_mask v) p \<or> int p = t_local_pid v"

definition draw_shot :: "term_view \<Rightarrow> nat \<Rightarrow> nat \<Rightarrow> nat \<Rightarrow> char \<Rightarrow> char" where
  "draw_shot v x y s ch =
     (let shot = t_shots v ! s in
      if ts_active shot \<and> unat (ts_x shot) = x \<and> unat (ts_y shot) = y then CHR ''*'' else ch)"

definition draw_player :: "term_view \<Rightarrow> nat \<Rightarrow> nat \<Rightarrow> nat \<Rightarrow> char \<Rightarrow> char" where
  "draw_player v x y p ch =
     (let ps = t_players v ! p in
      if v_x ps = 255 \<and> v_y ps = 255 then ch
      else if \<not> term_in_play v p then ch
      else if unat (v_x ps) = x \<and> unat (v_y ps) = y then digit_char p
      else ch)"

definition screen_cell :: "term_view \<Rightarrow> nat \<Rightarrow> nat \<Rightarrow> char" where
  "screen_cell v x y =
     (let idx = y * 20 + x;
          ch = (if bit (t_bricks v ! (idx div 8)) (idx mod 8) then CHR ''#'' else CHR ''.'') in
      for_slots (draw_player v x y) (for_slots (draw_shot v x y) ch))"

definition c_text :: "bytes \<Rightarrow> string" where
  "c_text bs = map (\<lambda>b. char_of (unat b)) (takeWhile (\<lambda>b. b \<noteq> 0) bs)"

definition pad_right :: "nat \<Rightarrow> string \<Rightarrow> string" where
  "pad_right n t = t @ replicate (n - length t) (CHR '' '')"

definition pad_left :: "nat \<Rightarrow> string \<Rightarrow> string" where
  "pad_left n t = replicate (n - length t) (CHR '' '') @ t"

definition term_label :: "term_view \<Rightarrow> nat \<Rightarrow> string" where
  "term_label v p =
     (if bit (t_role_mask v) p then ''ZOMBIE''
      else if name_is_set (t_names v ! p)
      then c_text (rev (dropWhile (\<lambda>b. b = 0x20) (rev (take NAME_LEN (t_names v ! p)))))
      else ''WIZARD'')"

definition score_line :: "term_view \<Rightarrow> nat \<Rightarrow> string" where
  "score_line v p =
     (if \<not> term_in_play v p then replicate (NAME_LEN + 10) (CHR '' '')
      else [if int p = t_local_pid v then CHR ''>'' else CHR '' ''] @ decimal p @ '' '' @
        pad_right NAME_LEN (term_label v p) @ '' '' @ pad_left 3 (decimal (unat (v_score (t_players v ! p)))) @ ''   '')"

text \<open>The lines of text beside the maze, each with its row.\<close>

definition status_lines :: "term_view \<Rightarrow> bool \<Rightarrow> (nat \<times> string) list" where
  "status_lines v ready =
     (if t_round_phase v = PHASE_OVER then
        [(0, ''ROUND '' @ decimal (unat (t_round_id v)) @ '' OVER''),
         (1, ''PLAYER '' @ decimal (unat (t_winner_pid v) + 1) @ '' WINS''),
         (2, ''FIRST TO '' @ decimal (unat (t_kill_limit v))),
         (3, ''NEXT ROUND SOON'')]
      else if \<not> ready then [(0, ''SYNCING ROUND '' @ decimal (unat (t_round_id v)))]
      else map (\<lambda>row. (row, replicate 18 (CHR '' ''))) [0..<4])"

text \<open>All the texts of one redraw, by row and column.\<close>

definition draw_screen :: "term_view \<Rightarrow> bool \<Rightarrow> ((nat \<times> nat) \<times> string) list" where
  "draw_screen v ready =
     concat (map (\<lambda>y. map (\<lambda>x. ((y, x), [screen_cell v x y])) [0..<20]) [0..<19]) @
     map (\<lambda>p. ((20 + p, 0), score_line v p)) [0..<MAX_PLAYERS] @
     map (\<lambda>(row, t). ((row, 23), t)) (status_lines v ready)"

section \<open>One specification for both clients\<close>

text \<open>What the two views have in common, and what a packet does to it.\<close>

record shared =
  h_bricks :: bytes
  h_role_mask :: u8
  h_seat_mask :: u8
  h_names :: "bytes list"
  h_scores :: bytes
  h_local_pid :: int
  h_welcome :: bool
  h_round_id :: u8
  h_phase :: u8
  h_kill_limit :: u8
  h_winner :: u8
  h_authorized :: bool
  h_map_ready :: bool
  h_snapshot_ready :: bool

definition shared_of_game :: "game_state \<Rightarrow> shared" where
  "shared_of_game g = \<lparr>h_bricks = g_brick_bits g, h_role_mask = g_zombie_mask g, h_seat_mask = g_seat_mask g,
     h_names = g_names g, h_scores = map v_score (g_players g), h_local_pid = g_local_pid g,
     h_welcome = g_have_welcome g, h_round_id = g_round_id g, h_phase = g_round_phase g,
     h_kill_limit = g_kill_limit g, h_winner = g_winner_pid g, h_authorized = g_round_authorized g,
     h_map_ready = g_round_map_ready g, h_snapshot_ready = g_round_snapshot_ready g\<rparr>"

definition shared_of_term :: "term_view \<Rightarrow> shared" where
  "shared_of_term v = \<lparr>h_bricks = t_bricks v, h_role_mask = t_role_mask v, h_seat_mask = t_seat_mask v,
     h_names = t_names v, h_scores = map v_score (t_players v), h_local_pid = t_local_pid v,
     h_welcome = t_have_welcome v, h_round_id = t_round_id v, h_phase = t_round_phase v,
     h_kill_limit = t_kill_limit v, h_winner = t_winner_pid v, h_authorized = t_round_authorized v,
     h_map_ready = t_round_map_ready v, h_snapshot_ready = t_round_snapshot_ready v\<rparr>"

definition shared_welcome :: "bytes \<Rightarrow> shared \<Rightarrow> shared" where
  "shared_welcome buf h = h\<lparr>h_welcome := True, h_round_id := buf ! 2, h_phase := buf ! 3, h_kill_limit := buf ! 4,
     h_authorized := False, h_map_ready := False, h_snapshot_ready := False\<rparr>"

definition shared_round_start :: "bytes \<Rightarrow> shared \<Rightarrow> shared" where
  "shared_round_start buf h =
     (if buf ! 1 = h_round_id h \<or> round_is_newer (buf ! 1) (h_round_id h) then
        (let fresh = (buf ! 1 \<noteq> h_round_id h \<or> \<not> h_authorized h) in
         h\<lparr>h_map_ready := (\<not> fresh \<and> h_map_ready h), h_snapshot_ready := (\<not> fresh \<and> h_snapshot_ready h),
           h_round_id := buf ! 1, h_kill_limit := buf ! 2, h_phase := PHASE_PLAYING, h_authorized := True\<rparr>)
      else h)"

definition shared_match_end :: "bytes \<Rightarrow> shared \<Rightarrow> shared" where
  "shared_match_end buf h =
     (if buf ! 1 = h_round_id h then
        h\<lparr>h_phase := PHASE_OVER, h_winner := buf ! 2, h_seat_mask := buf ! 3 AND NOT (buf ! 4),
          h_role_mask := buf ! 4, h_kill_limit := buf ! 5, h_scores := map (\<lambda>i. buf ! (6 + i)) [0..<MAX_PLAYERS],
          h_names := map (\<lambda>i. take NAME_LEN (drop (11 + i * NAME_LEN) buf)) [0..<MAX_PLAYERS]\<rparr>
      else h)"

definition shared_snapshot :: "bytes \<Rightarrow> shared \<Rightarrow> shared" where
  "shared_snapshot buf h =
     h\<lparr>h_snapshot_ready := True, h_role_mask := drop_bit 3 (buf ! 2) AND 0x0F,
       h_local_pid := uint (drop_bit 1 (buf ! 2) AND 0x03), h_scores := map (\<lambda>i. buf ! (15 + i)) [0..<MAX_PLAYERS]\<rparr>"

definition shared_game :: "bytes \<Rightarrow> bool \<Rightarrow> shared \<Rightarrow> shared" where
  "shared_game buf reliable h =
     (let n = length buf; playing = (h_phase h = PHASE_PLAYING) in
      if n = 3 \<and> buf ! 0 = PKT_ROUND_START then shared_round_start buf h
      else if n = 43 \<and> buf ! 0 = PKT_MATCH_END then shared_match_end buf h
      else if n = 52 \<and> buf ! 0 = PKT_BRICK_FULL \<and> buf ! 51 = h_round_id h
      then h\<lparr>h_bricks := take 48 (drop 3 buf), h_map_ready := (reliable \<or> h_map_ready h)\<rparr>
      else if n = 5 \<and> buf ! 0 = PKT_BRICK_DELTA \<and> buf ! 4 = h_round_id h \<and> playing
      then h\<lparr>h_bricks := (if buf ! 2 < 20 \<and> buf ! 3 < 19 then clear_brick (h_bricks h) (uint (buf ! 2)) (uint (buf ! 3))
                         else h_bricks h)\<rparr>
      else if n \<ge> 3 \<and> buf ! 0 = PKT_SEATS
      then (if h_phase h \<noteq> PHASE_OVER then h\<lparr>h_seat_mask := buf ! 2 AND 0x0F\<rparr> else h)
      else if n \<ge> 3 + NAME_LEN \<and> buf ! 0 = PKT_NAME
      then (if buf ! 2 < 4 \<and> h_phase h \<noteq> PHASE_OVER
            then h\<lparr>h_names := (h_names h)[unat (buf ! 2) := take NAME_LEN (drop 3 buf)]\<rparr> else h)
      else if n = 21 \<and> buf ! 0 = PKT_SNAPSHOT \<and> buf ! 20 = h_round_id h \<and> playing then shared_snapshot buf h
      else h)"

lemma shared_fields [simp]:
  "h_round_id (shared_of_game g) = g_round_id g" "h_phase (shared_of_game g) = g_round_phase g"
  "h_bricks (shared_of_game g) = g_brick_bits g" "h_authorized (shared_of_game g) = g_round_authorized g"
  "h_map_ready (shared_of_game g) = g_round_map_ready g" "h_snapshot_ready (shared_of_game g) = g_round_snapshot_ready g"
  "h_names (shared_of_game g) = g_names g" "h_welcome (shared_of_game g) = g_have_welcome g"
  "h_round_id (shared_of_term v) = t_round_id v" "h_phase (shared_of_term v) = t_round_phase v"
  "h_bricks (shared_of_term v) = t_bricks v" "h_authorized (shared_of_term v) = t_round_authorized v"
  "h_map_ready (shared_of_term v) = t_round_map_ready v" "h_snapshot_ready (shared_of_term v) = t_round_snapshot_ready v"
  "h_names (shared_of_term v) = t_names v" "h_welcome (shared_of_term v) = t_have_welcome v"
  by (simp_all add: shared_of_game_def shared_of_term_def)

subsection \<open>The graphical client\<close>

lemma shared_unaffected [simp]:
  "shared_of_game (g\<lparr>g_panim := a\<rparr>) = shared_of_game g" "shared_of_game (g\<lparr>g_shots := w\<rparr>) = shared_of_game g"
  "shared_of_game (g\<lparr>g_fx := f\<rparr>) = shared_of_game g" "shared_of_game (fx_emit t gx gy d col now g) = shared_of_game g"
  "shared_of_game (apply_player_snapshot i x y joy now g) = shared_of_game g"
  by (simp_all add: shared_of_game_def fx_emit_def apply_player_snapshot_def)

lemma shared_on_round_start: "shared_of_game (on_round_start buf g) = shared_round_start buf (shared_of_game g)"
  by (auto simp: on_round_start_def shared_round_start_def forget_round_def Let_def) (simp_all add: shared_of_game_def)

lemma shared_on_match_end: "shared_of_game (on_match_end buf g) = shared_match_end buf (shared_of_game g)"
  by (simp add: on_match_end_def shared_match_end_def) (simp add: shared_of_game_def)

lemma shared_on_brick_full: "shared_of_game (on_brick_full buf rel g) =
    (shared_of_game g)\<lparr>h_bricks := take 48 (drop 3 buf), h_map_ready := (rel \<or> g_round_map_ready g)\<rparr>"
  by (simp add: on_brick_full_def decode_brick_full_def Let_def shared_of_game_def)

lemma shared_clear_brick_cell: "shared_of_game (clear_brick_cell x y g) =
    (shared_of_game g)\<lparr>h_bricks := clear_brick (g_brick_bits g) x y\<rparr>"
  using clear_brick_cell_bits [of x y g] by (simp add: shared_of_game_def) (simp add: clear_brick_cell_def Let_def)

lemma shared_on_brick_delta: "shared_of_game (on_brick_delta buf now g) = (shared_of_game g)\<lparr>h_bricks :=
    (if buf ! 2 < 20 \<and> buf ! 3 < 19 then clear_brick (g_brick_bits g) (uint (buf ! 2)) (uint (buf ! 3)) else g_brick_bits g)\<rparr>"
proof (cases "buf ! 2 < 20 \<and> buf ! 3 < 19")
  case True
  then show ?thesis by (simp add: on_brick_delta_def Let_def shared_clear_brick_cell)
next
  case False
  then have "on_brick_delta buf now g = g" by (simp only: on_brick_delta_def Let_def if_False)
  then show ?thesis using False by (auto simp: shared_of_game_def)
qed

lemma shared_on_shot: "shared_of_game (on_shot buf now g) = shared_of_game g"
  by (simp add: on_shot_def Let_def)

lemma shared_on_respawn: "shared_of_game (on_respawn buf now g) = shared_of_game g"
  by (simp add: on_respawn_def Let_def split: prod.split)

lemma shared_on_snapshot: "shared_of_game (on_snapshot buf now g) = shared_snapshot buf (shared_of_game g)"
proof -
  have keep: "shared_of_game (for_slots (\<lambda>i g. apply_player_snapshot i (a i) (b i) (c i) now g) g0) = shared_of_game g0"
    for a b c and g0 by (rule for_slots_preserves) simp
  show ?thesis unfolding on_snapshot_def Let_def keep by (simp add: shared_of_game_def shared_snapshot_def o_def)
qed

lemma shared_handle_game: "shared_of_game (handle_game buf now rel g) = shared_game buf rel (shared_of_game g)"
proof -
  have name: "shared_of_game (on_name buf g) = (if buf ! 2 < 4 \<and> g_round_phase g \<noteq> PHASE_OVER
      then (shared_of_game g)\<lparr>h_names := (g_names g)[unat (buf ! 2) := take NAME_LEN (drop 3 buf)]\<rparr> else shared_of_game g)"
    by (simp add: on_name_def) (simp add: shared_of_game_def)
  have seats: "shared_of_game (on_seats buf g) = (if g_round_phase g \<noteq> PHASE_OVER
      then (shared_of_game g)\<lparr>h_seat_mask := buf ! 2 AND 0x0F\<rparr> else shared_of_game g)"
    by (simp add: on_seats_def) (simp add: shared_of_game_def)
  note blocks = shared_on_round_start shared_on_match_end shared_on_brick_full shared_on_brick_delta
    shared_on_shot shared_on_respawn shared_on_snapshot name seats
  consider "buf ! 0 = PKT_ROUND_START" | "buf ! 0 = PKT_MATCH_END" | "buf ! 0 = PKT_BRICK_FULL" | "buf ! 0 = PKT_BRICK_DELTA"
    | "buf ! 0 = PKT_SEATS" | "buf ! 0 = PKT_NAME" | "buf ! 0 = PKT_SHOT" | "buf ! 0 = PKT_RESPAWN" | "buf ! 0 = PKT_SNAPSHOT"
    | "buf ! 0 \<notin> {PKT_ROUND_START, PKT_MATCH_END, PKT_BRICK_FULL, PKT_BRICK_DELTA, PKT_SEATS, PKT_NAME, PKT_SHOT,
        PKT_RESPAWN, PKT_SNAPSHOT}" by blast
  then show ?thesis by cases (simp_all add: handle_game_def shared_game_def Let_def if_distrib [of shared_of_game] blocks
      split del: if_split cong: if_cong)
qed

subsection \<open>The terminal client\<close>

lemma shared_term_unaffected [simp]:
  "shared_of_term (v\<lparr>t_shots := w\<rparr>) = shared_of_term v" "shared_of_term (v\<lparr>t_last_joy := j\<rparr>) = shared_of_term v"
  by (simp_all add: shared_of_term_def)

lemma shared_term_round_start: "shared_of_term (term_round_start buf v) = shared_round_start buf (shared_of_term v)"
  by (auto simp: term_round_start_def shared_round_start_def Let_def) (simp_all add: shared_of_term_def)

lemma shared_term_match_end: "shared_of_term (term_match_end buf v) = shared_match_end buf (shared_of_term v)"
  by (simp add: term_match_end_def shared_match_end_def) (simp add: shared_of_term_def)

lemma shared_term_brick_full: "shared_of_term (term_brick_full buf rel v) =
    (shared_of_term v)\<lparr>h_bricks := take 48 (drop 3 buf), h_map_ready := (rel \<or> t_round_map_ready v)\<rparr>"
  by (simp add: term_brick_full_def Let_def shared_of_term_def)

lemma cell_index: "nat (uint y * 20 + uint x) = unat (y :: u8) * 20 + unat (x :: u8)"
  by (simp add: nat_add_distrib nat_mult_distrib nat_uint_eq)

lemma shared_term_brick_delta: "shared_of_term (term_brick_delta buf v) = (shared_of_term v)\<lparr>h_bricks :=
    (if buf ! 2 < 20 \<and> buf ! 3 < 19 then clear_brick (t_bricks v) (uint (buf ! 2)) (uint (buf ! 3)) else t_bricks v)\<rparr>"
proof (cases "buf ! 2 < 20 \<and> buf ! 3 < 19")
  case True
  then have "\<not> (uint (buf ! 2) < 0 \<or> uint (buf ! 2) \<ge> 20 \<or> uint (buf ! 3) < 0 \<or> uint (buf ! 3) \<ge> 19)"
    by (simp add: word_less_def)
  then show ?thesis using True
    by (simp add: term_brick_delta_def Let_def clear_brick_def cell_index modify_def shared_of_term_def)
next
  case False
  then have "term_brick_delta buf v = v" by (simp only: term_brick_delta_def Let_def if_False)
  then show ?thesis using False by (auto simp: shared_of_term_def)
qed

lemma shared_term_respawn: "shared_of_term (term_respawn buf v) = shared_of_term v"
proof -
  have "map v_score (modify i (\<lambda>p. if b then p\<lparr>v_x := 255, v_y := 255\<rparr> else p\<lparr>v_x := x, v_y := y\<rparr>) ps) = map v_score ps"
    for i b x y and ps :: "player_view list" by (rule map_modify) simp
  then show ?thesis by (simp add: term_respawn_def shared_of_term_def)
qed

lemma shared_term_shot: "shared_of_term (term_shot_packet buf v) = shared_of_term v"
  by (simp add: term_shot_packet_def)

lemma shared_term_snapshot: "shared_of_term (term_snapshot buf v) = shared_snapshot buf (shared_of_term v)"
  by (simp add: term_snapshot_def shared_snapshot_def shared_of_term_def o_def)

lemma shared_term_game: "shared_of_term (term_game buf rel v) = shared_game buf rel (shared_of_term v)"
proof -
  have name: "shared_of_term (term_name buf v) = (if buf ! 2 < 4 \<and> t_round_phase v \<noteq> PHASE_OVER
      then (shared_of_term v)\<lparr>h_names := (t_names v)[unat (buf ! 2) := take NAME_LEN (drop 3 buf)]\<rparr> else shared_of_term v)"
    by (simp add: term_name_def) (simp add: shared_of_term_def)
  have seats: "shared_of_term (term_seats buf v) = (if t_round_phase v \<noteq> PHASE_OVER
      then (shared_of_term v)\<lparr>h_seat_mask := buf ! 2 AND 0x0F\<rparr> else shared_of_term v)"
    by (simp add: term_seats_def) (simp add: shared_of_term_def)
  note blocks = shared_term_round_start shared_term_match_end shared_term_brick_full shared_term_brick_delta
    shared_term_shot shared_term_respawn shared_term_snapshot name seats
  consider "buf ! 0 = PKT_ROUND_START" | "buf ! 0 = PKT_MATCH_END" | "buf ! 0 = PKT_BRICK_FULL" | "buf ! 0 = PKT_BRICK_DELTA"
    | "buf ! 0 = PKT_SEATS" | "buf ! 0 = PKT_NAME" | "buf ! 0 = PKT_SHOT" | "buf ! 0 = PKT_RESPAWN" | "buf ! 0 = PKT_SNAPSHOT"
    | "buf ! 0 \<notin> {PKT_ROUND_START, PKT_MATCH_END, PKT_BRICK_FULL, PKT_BRICK_DELTA, PKT_SEATS, PKT_NAME, PKT_SHOT,
        PKT_RESPAWN, PKT_SNAPSHOT}" by blast
  then show ?thesis by cases (simp_all add: term_game_def shared_game_def Let_def if_distrib [of shared_of_term] blocks
      split del: if_split cong: if_cong)
qed

subsection \<open>Both side by side\<close>

text \<open>The terminal client starts in a finished round; until the WELCOME no packet looks at it.\<close>

definition agree :: "client \<Rightarrow> terminal \<Rightarrow> bool" where
  "agree k m \<longleftrightarrow> k_fd k = m_fd m \<and> k_tx k = m_tx m \<and> k_seq k = m_seq m \<and> k_rev k = m_rev m \<and> k_env k = m_env m \<and>
     (shared_of_term (m_view m))\<lparr>h_phase := 0\<rparr> = (shared_of_game (k_game k))\<lparr>h_phase := 0\<rparr> \<and>
     (g_have_welcome (k_game k) \<longrightarrow> shared_of_term (m_view m) = shared_of_game (k_game k))"

lemma agree_welcome: "agree k m \<Longrightarrow> t_have_welcome (m_view m) = g_have_welcome (k_game k)"
  unfolding agree_def by (metis shared.select_convs(7) shared.surjective shared.update_convs(9) shared_fields(8,16))

lemma agree_ack: "agree k m \<Longrightarrow> agree (send_reliable_ack v k) (term_reliable_ack v m)"
  by (simp add: agree_def send_reliable_ack_def term_reliable_ack_def client_send_def term_send_def Let_def split: prod.split)

lemma agree_game:
  "agree k m \<Longrightarrow> g_have_welcome (k_game k) \<Longrightarrow>
    agree (k\<lparr>k_game := handle_game buf now rel (k_game k)\<rparr>) (m\<lparr>m_view := term_game buf rel (m_view m)\<rparr>)"
  by (simp add: agree_def shared_handle_game shared_term_game)

lemma agree_frame:
  assumes "agree k m" "\<not> (2 \<le> length buf \<and> buf ! 0 = PKT_REJECT)"
  shows "fst (term_frame buf m) \<and> agree (handle_packet buf now False k) (snd (term_frame buf m))"
proof -
  note w = agree_welcome [OF assms(1)]
  consider (hello) "length buf = 5 \<and> buf ! 0 = PKT_WELCOME \<and> buf ! 1 = PROTOCOL_VERSION"
    | (none) "\<not> (length buf = 5 \<and> buf ! 0 = PKT_WELCOME \<and> buf ! 1 = PROTOCOL_VERSION)" "\<not> g_have_welcome (k_game k)"
    | (event) "\<not> (length buf = 5 \<and> buf ! 0 = PKT_WELCOME \<and> buf ! 1 = PROTOCOL_VERSION)"
        "g_have_welcome (k_game k)" "7 \<le> length buf \<and> buf ! 0 = PKT_RELIABLE_EVENT"
    | (plain) "\<not> (length buf = 5 \<and> buf ! 0 = PKT_WELCOME \<and> buf ! 1 = PROTOCOL_VERSION)"
        "g_have_welcome (k_game k)" "\<not> (7 \<le> length buf \<and> buf ! 0 = PKT_RELIABLE_EVENT)" by blast
  then show ?thesis
  proof cases
    case hello
    have "handle_packet buf now False k = k\<lparr>k_game := on_welcome buf (k_game k)\<rparr>"
      using hello by (subst handle_packet.simps) (simp add: Let_def)
    moreover have "term_frame buf m = (True, m\<lparr>m_view := term_welcome buf (m_view m)\<rparr>)"
      using hello by (simp add: term_frame_def Let_def)
    ultimately show ?thesis using assms(1)
      by (simp add: agree_def) (simp add: shared_of_game_def shared_of_term_def on_welcome_def term_welcome_def)
  next
    case none
    have "handle_packet buf now False k = k" using none by (subst handle_packet.simps) (auto simp: Let_def)
    moreover have "term_frame buf m = (True, m)" using none assms(2) w by (auto simp: term_frame_def Let_def)
    ultimately show ?thesis using assms(1) by simp
  next
    case event
    have rev_eq: "k_rev k = m_rev m" using assms(1) by (simp add: agree_def)
    have with_rev: "agree (k\<lparr>k_rev := a\<rparr>) (m\<lparr>m_rev := a\<rparr>)" for a using assms(1) by (simp add: agree_def)
    have keep: "m_view (term_reliable_ack a n) = m_view n" for a n
      by (simp add: term_reliable_ack_def term_send_def Let_def split: prod.split)
    let ?k = "send_reliable_ack (event_rev buf) (k\<lparr>k_rev := event_rev buf\<rparr>)"
    have "agree (?k\<lparr>k_game := handle_game (drop 4 buf) now True (k_game ?k)\<rparr>)
        ((term_reliable_ack (event_rev buf) (m\<lparr>m_rev := event_rev buf\<rparr>))
          \<lparr>m_view := term_game (drop 4 buf) True (m_view (term_reliable_ack (event_rev buf) (m\<lparr>m_rev := event_rev buf\<rparr>)))\<rparr>)"
      using event(2) by (intro agree_game agree_ack with_rev) simp
    then show ?thesis using event assms(2) w agree_ack [OF assms(1)]
      by (auto simp: handle_packet_event term_frame_def Let_def keep rev_eq)
  next
    case plain
    have "handle_packet buf now False k = k\<lparr>k_game := handle_game buf now False (k_game k)\<rparr>"
      using plain assms(2) by (subst handle_packet.simps) (auto simp: Let_def)
    moreover have "term_frame buf m = (True, m\<lparr>m_view := term_game buf False (m_view m)\<rparr>)"
      using plain assms(2) w by (auto simp: term_frame_def Let_def)
    ultimately show ?thesis using agree_game [OF assms(1) plain(2)] by simp
  qed
qed

lemma agree_frames:
  assumes "agree k m" "list_all (\<lambda>(p, now). \<not> (2 \<le> length p \<and> p ! 0 = PKT_REJECT)) ps"
  shows "fst (term_frames (map fst ps) m) \<and> agree (handle_packets ps k) (snd (term_frames (map fst ps) m))"
  using assms
proof (induction ps arbitrary: k m)
  case (Cons pt ps)
  obtain p now where pt: "pt = (p, now)" by force
  obtain b m' where run: "term_frame p m = (b, m')" by force
  have "b" "agree (handle_packet p now False k) m'"
    using agree_frame [OF Cons.prems(1), of p now] Cons.prems(2) by (simp_all add: pt run)
  then show ?case using Cons.IH [of "handle_packet p now False k" m'] Cons.prems(2)
    by (simp add: pt run handle_packets_def)
qed (simp add: handle_packets_def)

lemma agree_new: "agree (new_client pid fd e) (new_term pid fd e)"
  by (simp add: agree_def new_client_def new_term_def)
    (simp add: shared_of_game_def shared_of_term_def game_zero_def term_zero_def)

lemma agree_ready: "agree k m \<Longrightarrow> gameplay_enabled (m_view m) = game_ready (k_game k)"
proof -
  assume a: "agree k m"
  note w = agree_welcome [OF a]
  show ?thesis
  proof (cases "g_have_welcome (k_game k)")
    case True
    then have "shared_of_term (m_view m) = shared_of_game (k_game k)" using a by (simp add: agree_def)
    then show ?thesis using True w by (auto simp: gameplay_enabled_def game_ready_def shared_of_term_def shared_of_game_def)
  qed (simp add: w gameplay_enabled_def game_ready_def)
qed

text \<open>
  C11: The two clients agree. Fed the same packets, the graphical and the terminal client, written
  separately, hold the same walls, names, scores, masks, own slot and round state, are ready to play
  at the same moments, have applied the same reliable events and queued the same bytes for the
  server.
\<close>

theorem clients_agree:
  assumes "list_all (\<lambda>(p, now). \<not> (2 \<le> length p \<and> p ! 0 = PKT_REJECT)) ps"
    and "k = handle_packets ps (new_client pid fd e)" "m = snd (term_frames (map fst ps) (new_term pid fd e))"
  shows "t_have_welcome (m_view m) = g_have_welcome (k_game k) \<and>
    (g_have_welcome (k_game k) \<longrightarrow> shared_of_term (m_view m) = shared_of_game (k_game k)) \<and>
    gameplay_enabled (m_view m) = game_ready (k_game k) \<and>
    m_rev m = k_rev k \<and> m_tx m = k_tx k \<and> m_env m = k_env k"
proof -
  have "agree k m" using agree_frames [OF agree_new assms(1)] assms(2,3) by simp
  then show ?thesis using agree_welcome agree_ready by (simp add: agree_def)
qed

theorem clients_agree_witness:
  "t_have_welcome (m_view (snd (term_frames (map fst [([PKT_WELCOME, 1, 1, 0, 5], 3), ([PKT_SEATS, 0, 7], 4 :: u64)]) (new_term 2 5 demo_env)))) =
    g_have_welcome (k_game (handle_packets [([PKT_WELCOME, 1, 1, 0, 5], 3), ([PKT_SEATS, 0, 7], 4)] (new_client 2 5 demo_env)))"
  using clients_agree [of "[([PKT_WELCOME, 1, 1, 0, 5], 3), ([PKT_SEATS, 0, 7], 4)]", OF _ refl refl, of 2 5 demo_env] by simp

section \<open>What the server makes of the stick\<close>

definition directions :: "term_input \<Rightarrow> nat" where
  "directions inp = length (filter id [ti_up inp, ti_down inp, ti_left inp, ti_right inp])"

lemma sanitize_term_joy:
  "sanitize_client_joy (pack_joy (compute_stick4 u d l r) f) =
    (if length (filter id [u, d, l, r]) \<le> 1 then Some (pack_joy (compute_stick4 u d l r) f) else None)"
  by (cases u; cases d; cases l; cases r; cases f)
    (simp_all add: compute_stick4_def pack_joy_def sanitize_client_joy_def is_valid_stick_nibble_def)

text \<open>
  C39: What becomes of the terminal client's stick. Once a snapshot has told it its slot, its DELTA is
  decoded at that slot to the number and stick that were sent as long as at most one direction is
  held; two directions held together, which the keyboard state lets through, make a stick the server
  refuses, and the input is lost.
\<close>

theorem terminal_delta_fate:
  assumes "t_local_pid (m_view m) = int slot" "slot < MAX_PLAYERS" "gameplay_enabled (m_view m)"
  shows "transport_decode_delta_for_slot (term_delta (term_joy (m_view m) inp) m) 4 (of_nat slot) =
    (if directions inp \<le> 1
     then Some \<lparr>d_seq = m_seq m, d_pid = of_nat slot, d_joy = term_joy (m_view m) inp, d_format = TRANSPORT_DELTA_PRIMARY\<rparr>
     else None)"
proof -
  define joy where "joy = term_joy (m_view m) inp"
  have san: "sanitize_client_joy joy = (if directions inp \<le> 1 then Some joy else None)"
    using assms(3) sanitize_term_joy [of "ti_up inp" "ti_down inp" "ti_left inp" "ti_right inp" "ti_fire inp"]
    by (simp only: joy_def term_joy_def directions_def if_True)
  have pkt: "term_delta joy m = [PKT_DELTA, m_seq m, of_nat slot, joy, t_round_id (m_view m)]"
    using assms(1) by (simp add: term_delta_def pid_byte_def)
  show ?thesis
  proof (cases "directions inp \<le> 1")
    case True
    then show ?thesis by (simp add: joy_def [symmetric] pkt san transport_decode_delta_for_slot_def)
  next
    case False
    then show ?thesis by (simp add: joy_def [symmetric] pkt san transport_decode_delta_for_slot_def)
  qed
qed

definition demo_terminal :: terminal where
  "demo_terminal = (new_term 2 5 demo_env)\<lparr>m_view := (term_zero 2)\<lparr>t_have_welcome := True, t_round_phase := PHASE_PLAYING,
     t_round_authorized := True, t_round_map_ready := True, t_round_snapshot_ready := True\<rparr>\<rparr>"

theorem terminal_delta_fate_witness:
  "transport_decode_delta_for_slot
    (term_delta (term_joy (m_view demo_terminal) (term_input_zero\<lparr>ti_up := True, ti_left := True\<rparr>)) demo_terminal) 4 2 = None"
proof -
  have "t_local_pid (m_view demo_terminal) = int 2" "gameplay_enabled (m_view demo_terminal)"
    by (simp_all add: demo_terminal_def term_zero_def gameplay_enabled_def)
  from terminal_delta_fate [OF this(1) _ this(2), of "term_input_zero\<lparr>ti_up := True, ti_left := True\<rparr>"]
  show ?thesis by (simp add: directions_def term_input_zero_def)
qed

text \<open>A final RESPAWN, whose flags are 3, hides the player at the terminal and shows it elsewhere.\<close>

lemma final_respawn_hides:
  assumes "pid < 4" "length (t_players v) = 4"
  shows "v_x (t_players (term_respawn (build_respawn seq (of_nat pid) x y 0x03 rid) v) ! pid) = 255"
proof -
  have "unat (of_nat pid :: u8) = pid" "(of_nat pid :: u8) < 4"
    using slot_cases [OF assms(1)] by auto
  then show ?thesis using assms by (simp add: term_respawn_def build_respawn_def nth_modify)
qed

section \<open>What the screen shows\<close>

definition shown_at :: "term_view \<Rightarrow> nat \<Rightarrow> nat \<Rightarrow> nat \<Rightarrow> bool" where
  "shown_at v p x y \<longleftrightarrow> term_in_play v p \<and> unat (v_x (t_players v ! p)) = x \<and> unat (v_y (t_players v ! p)) = y"

lemma draw_player_eq: "x < 20 \<Longrightarrow> draw_player v x y p ch = (if shown_at v p x y then digit_char p else ch)"
  by (auto simp: draw_player_def shown_at_def Let_def)

lemma screen_cell_eq:
  assumes "x < 20"
  shows "screen_cell v x y =
    (if shown_at v 3 x y then digit_char 3 else if shown_at v 2 x y then digit_char 2
     else if shown_at v 1 x y then digit_char 1 else if shown_at v 0 x y then digit_char 0
     else if list_ex (\<lambda>s. ts_active (t_shots v ! s) \<and> unat (ts_x (t_shots v ! s)) = x \<and> unat (ts_y (t_shots v ! s)) = y) [0..<4]
     then CHR ''*''
     else if bit (t_bricks v ! ((y * 20 + x) div 8)) ((y * 20 + x) mod 8) then CHR ''#'' else CHR ''.'')"
  using assms
  by (simp add: screen_cell_def for_slots_unfold draw_player_eq draw_shot_def Let_def upt_conv_Cons numeral_2_eq_2 numeral_3_eq_3)

lemma term_snapshot_players:
  assumes "i < MAX_PLAYERS" "t_have_welcome (m_view m)" "t_round_phase (m_view m) = PHASE_PLAYING"
    and "t_round_id (m_view m) = r_round_id r" "v = m_view (snd (term_frame (snapshot_for seq z i r) m))"
  shows "t_players v = map (\<lambda>j. view_of (r_players r ! j)) [0..<MAX_PLAYERS]" "t_local_pid v = int i"
    "t_role_mask v = z AND 0x0F" "t_bricks v = t_bricks (m_view m)" "t_shots v = t_shots (m_view m)"
proof -
  have four: "[0..<4] = [0, 1, 2, 3 :: nat]" by (simp add: upt_conv_Cons)
  have "v = term_snapshot (snapshot_for seq z i r) (m_view m)"
    using assms by (simp add: term_frame_def term_game_def Let_def snapshot_for_bytes)
  then show "t_players v = map (\<lambda>j. view_of (r_players r ! j)) [0..<MAX_PLAYERS]" "t_local_pid v = int i"
    "t_role_mask v = z AND 0x0F" "t_bricks v = t_bricks (m_view m)" "t_shots v = t_shots (m_view m)"
    using snapshot_flags_decode [OF assms(1)]
    by (simp_all add: term_snapshot_def snapshot_for_bytes view_of_def four)
qed

text \<open>
  The screen shows the server's board. After a snapshot, a player in play that shares its cell
  with no other appears as its number exactly where the server has it, and a cell without players
  or shots shows a wall exactly where the server has a brick, if the walls were in step.
\<close>

theorem screen_shows_board:
  assumes "i < MAX_PLAYERS" "t_have_welcome (m_view m)" "t_round_phase (m_view m) = PHASE_PLAYING"
    and "t_round_id (m_view m) = r_round_id r" "t_bricks (m_view m) = r_brick_bits r"
    and "v = m_view (snd (term_frame (snapshot_for seq z i r) m))"
    and "x < 20" "y < 19"
    and cell: "\<And>j. j < 4 \<Longrightarrow> at j = (unat (p_x (r_players r ! j)) = x \<and> unat (p_y (r_players r ! j)) = y)"
  shows "(p < 4 \<and> at p \<and> term_in_play v p \<and> list_all (\<lambda>j. j = p \<or> \<not> at j) [0..<4] \<longrightarrow> screen_cell v x y = digit_char p) \<and>
    (list_all (\<lambda>j. \<not> at j \<and> \<not> ts_active (t_shots v ! j)) [0..<4] \<longrightarrow>
      screen_cell v x y = (if is_brick (r_brick_bits r) (int x) (int y) then CHR ''#'' else CHR ''.''))"
proof -
  note snap = term_snapshot_players [OF assms(1,2,3,4,6)]
  have four: "[0..<4] = [0, 1, 2, 3 :: nat]" by (simp add: upt_conv_Cons)
  have shown: "shown_at v j x y = (term_in_play v j \<and> at j)" if "j < 4" for j
    using that cell [OF that] by (auto simp: shown_at_def snap(1) view_of_def)
  have "nat (int y * 20 + int x) = y * 20 + x" by simp
  then have brick: "is_brick (r_brick_bits r) (int x) (int y) = bit (t_bricks v ! ((y * 20 + x) div 8)) ((y * 20 + x) mod 8)"
    using assms(5,7,8) by (simp add: is_brick_def snap(4) Let_def)
  have "screen_cell v x y = digit_char p" if "p < 4" "at p" "term_in_play v p" "list_all (\<lambda>j. j = p \<or> \<not> at j) [0..<4]"
    using slot_cases [OF that(1)] that(2-4)
    by (elim disjE) (auto simp: screen_cell_eq [OF assms(7)] shown four)
  moreover have "screen_cell v x y = (if is_brick (r_brick_bits r) (int x) (int y) then CHR ''#'' else CHR ''.'')"
    if "list_all (\<lambda>j. \<not> at j \<and> \<not> ts_active (t_shots v ! j)) [0..<4]"
    using that unfolding brick by (simp add: screen_cell_eq [OF assms(7)] shown four)
  ultimately show ?thesis by blast
qed

definition demo_watcher :: terminal where
  "demo_watcher = demo_terminal\<lparr>m_view := (m_view demo_terminal)
     \<lparr>t_round_id := r_round_id demo_room, t_bricks := r_brick_bits demo_room\<rparr>\<rparr>"

theorem screen_shows_board_witness:
  "screen_cell (m_view (snd (term_frame (snapshot_for 9 8 1 demo_room) demo_watcher))) 18 17 = digit_char 3"
proof -
  let ?v = "m_view (snd (term_frame (snapshot_for 9 8 1 demo_room) demo_watcher))"
  have view: "t_have_welcome (m_view demo_watcher)" "t_round_phase (m_view demo_watcher) = PHASE_PLAYING"
    "t_round_id (m_view demo_watcher) = r_round_id demo_room" "t_bricks (m_view demo_watcher) = r_brick_bits demo_room"
    by (simp_all add: demo_watcher_def demo_terminal_def)
  have "t_role_mask ?v = 8 AND 0x0F" by (rule term_snapshot_players(3) [OF _ view(1-3) refl]) simp
  then have "term_in_play ?v 3" by (simp add: term_in_play_def)
  then show ?thesis
    using screen_shows_board [of 1 demo_watcher demo_room ?v 9 8 18 17
        "\<lambda>j. unat (p_x (r_players demo_room ! j)) = 18 \<and> unat (p_y (r_players demo_room ! j)) = 17" 3] view
    by (simp add: demo_room_def demo_player_def upt_conv_Cons)
qed

end
