(* ===== verification/Single.thy ===== *)
theory Single
  imports Complex_Main "HOL-Library.Log_Nat"
begin

text \<open>
  Single-precision arithmetic as the graphical client uses it: rounding to 24 significant bits, ties
  to even. A float is its rational value; every operation is the exact one followed by \<open>fl\<close>.
  Overflow and subnormal numbers do not occur in the client (its values are cell numbers below 256,
  pixels below 2^15, fractions of at least 2^-32 and their products), so \<open>fl\<close> has no bounds on the
  exponent. Lemmas: \<open>fl\<close> is monotone, odd, and exact on integers up to 2^24.
\<close>

section \<open>Rounding\<close>

definition round_even :: "rat \<Rightarrow> int" where
  "round_even r =
     (let f = \<lfloor>r\<rfloor>; d = r - of_int f in
      if d < 1 / 2 then f else if d > 1 / 2 then f + 1 else if even f then f else f + 1)"

text \<open>The exponent of a positive number: the e with 2^e at most x and x below 2^(e+1).\<close>

definition binade :: "rat \<Rightarrow> int" where
  "binade x =
     (let (p, q) = quotient_of x; e = int (floorlog 2 (nat p)) - int (floorlog 2 (nat q)) in
      if x < 2 powi e then e - 1 else e)"

definition fl :: "rat \<Rightarrow> rat" where
  "fl x = (if x = 0 then 0 else let u = 2 powi (binade \<bar>x\<bar> - 23) in of_int (round_even (x / u)) * u)"

definition float_add :: "rat \<Rightarrow> rat \<Rightarrow> rat" where "float_add x y = fl (x + y)"
definition float_sub :: "rat \<Rightarrow> rat \<Rightarrow> rat" where "float_sub x y = fl (x - y)"
definition float_mul :: "rat \<Rightarrow> rat \<Rightarrow> rat" where "float_mul x y = fl (x * y)"
definition float_div :: "rat \<Rightarrow> rat \<Rightarrow> rat" where "float_div x y = fl (x / y)"

text \<open>The point \<open>t\<close> of the way, as \<open>interp_player\<close> computes it.\<close>

definition float_between :: "rat \<Rightarrow> rat \<Rightarrow> rat \<Rightarrow> rat" where
  "float_between from' to t = float_add from' (float_mul (float_sub to from') t)"

text \<open>The conversion of a float to int cuts off the fraction.\<close>

definition to_int :: "rat \<Rightarrow> int" where
  "to_int x = (if x < 0 then - \<lfloor>- x\<rfloor> else \<lfloor>x\<rfloor>)"

section \<open>Rounding to an integer\<close>

lemma round_even_of_int [simp]: "round_even (of_int n) = n"
  by (simp add: round_even_def)

lemma round_even_mono:
  assumes "r \<le> s"
  shows "round_even r \<le> round_even s"
proof (cases "\<lfloor>r\<rfloor> = \<lfloor>s\<rfloor>")
  case True
  then show ?thesis using assms by (auto simp: round_even_def Let_def)
next
  case False
  then have "\<lfloor>r\<rfloor> + 1 \<le> \<lfloor>s\<rfloor>" using floor_mono [OF assms] by linarith
  moreover have "round_even r \<le> \<lfloor>r\<rfloor> + 1" "\<lfloor>s\<rfloor> \<le> round_even s"
    by (simp_all add: round_even_def Let_def)
  ultimately show ?thesis by linarith
qed

lemma round_even_minus: "round_even (- r) = - round_even r"
proof (cases "r = of_int \<lfloor>r\<rfloor>")
  case True
  then have "round_even r = \<lfloor>r\<rfloor>" "round_even (- r) = - \<lfloor>r\<rfloor>"
    using round_even_of_int [of "\<lfloor>r\<rfloor>"] round_even_of_int [of "- \<lfloor>r\<rfloor>"] by simp_all
  then show ?thesis by simp
next
  case False
  then have "of_int \<lfloor>r\<rfloor> < r" "r < of_int (\<lfloor>r\<rfloor> + 1)" using floor_correct [of r] by linarith+
  then have f: "\<lfloor>- r\<rfloor> = - \<lfloor>r\<rfloor> - 1" by (intro floor_unique) simp_all
  show ?thesis unfolding round_even_def Let_def f by auto
qed

section \<open>Binades\<close>

lemma floorlog_powers:
  assumes "0 < n"
  shows "(2 :: rat) powi (int (floorlog 2 n) - 1) \<le> of_nat n" "of_nat n < (2 :: rat) powi int (floorlog 2 n)"
proof -
  have b: "2 ^ (floorlog 2 n - 1) \<le> n" "n < 2 ^ floorlog 2 n" using floorlog_bounds [of n 2] assms by simp_all
  have pos: "0 < floorlog 2 n" using b assms by (cases "floorlog 2 n") simp_all
  have "(of_nat (2 ^ (floorlog 2 n - 1)) :: rat) \<le> of_nat n" "(of_nat n :: rat) < of_nat (2 ^ floorlog 2 n)"
    using b by (simp_all only: of_nat_le_iff of_nat_less_iff)
  moreover have "(2 :: rat) powi (int (floorlog 2 n) - 1) = 2 ^ (floorlog 2 n - 1)"
    using pos by (simp add: power_int_def nat_diff_distrib)
  ultimately show "(2 :: rat) powi (int (floorlog 2 n) - 1) \<le> of_nat n" "of_nat n < (2 :: rat) powi int (floorlog 2 n)"
    by simp_all
qed

lemma binade_bounds:
  assumes "0 < x"
  shows "2 powi binade x \<le> x" "x < 2 powi (binade x + 1)"
proof -
  obtain p q where pq: "quotient_of x = (p, q)" by force
  have q: "0 < q" by (rule quotient_of_denom_pos [OF pq])
  have x: "x = of_int p / of_int q" by (rule quotient_of_div [OF pq])
  then have p: "0 < p" using assms q by (simp add: zero_less_divide_iff)
  let ?a = "int (floorlog 2 (nat p))" and ?b = "int (floorlog 2 (nat q))"
  have pa: "2 powi (?a - 1) \<le> (of_int p :: rat)" "(of_int p :: rat) < 2 powi ?a"
    using floorlog_powers [of "nat p"] p by simp_all
  have qb: "2 powi (?b - 1) \<le> (of_int q :: rat)" "(of_int q :: rat) < 2 powi ?b"
    using floorlog_powers [of "nat q"] q by simp_all
  have pos: "0 < (2 :: rat) powi k" for k by simp
  have up: "x < 2 powi (?a - ?b + 1)"
  proof -
    have "x < 2 powi ?a / of_int q" unfolding x using pa(2) q by (simp add: divide_strict_right_mono)
    also have "\<dots> \<le> 2 powi ?a / 2 powi (?b - 1)" using qb(1) q pos by (intro divide_left_mono) simp_all
    also have "\<dots> = 2 powi (?a - (?b - 1))" by (simp only: power_int_diff zero_neq_numeral [symmetric] not_False_eq_True simp_thms)
    finally show ?thesis by (simp add: algebra_simps)
  qed
  have low: "2 powi (?a - ?b - 1) \<le> x"
  proof -
    have "(2 :: rat) powi (?a - ?b - 1) = 2 powi ((?a - 1) - ?b)" by (simp add: algebra_simps)
    also have "\<dots> = 2 powi (?a - 1) / 2 powi ?b" by (intro power_int_diff) simp
    also have "\<dots> \<le> of_int p / 2 powi ?b" using pa(1) by (simp add: divide_right_mono)
    also have "\<dots> \<le> of_int p / of_int q" using qb(2) q p pos by (intro divide_left_mono) simp_all
    finally show ?thesis unfolding x .
  qed
  show "2 powi binade x \<le> x" "x < 2 powi (binade x + 1)"
    using up low by (auto simp: binade_def pq Let_def)
qed

section \<open>Rounding to a float\<close>

definition unit_of :: "rat \<Rightarrow> rat" where
  "unit_of x = 2 powi (binade x - 23)"

lemma unit_pos [simp]: "0 < unit_of x" and unit_nonzero [simp]: "unit_of x \<noteq> 0"
  by (simp_all add: unit_of_def)

lemma unit_bounds:
  assumes "0 < x"
  shows "2 ^ 23 \<le> x / unit_of x" "x / unit_of x < 2 ^ 24" "2 ^ 23 * unit_of x = 2 powi binade x"
    "2 ^ 24 * unit_of x = 2 powi (binade x + 1)"
proof -
  have p: "(2 :: rat) ^ n = 2 powi int n" for n by simp
  have "2 ^ 23 * unit_of x = 2 powi (23 + (binade x - 23))" "2 ^ 24 * unit_of x = 2 powi (24 + (binade x - 23))"
    unfolding unit_of_def by (subst power_int_add; simp)+
  then show e: "2 ^ 23 * unit_of x = 2 powi binade x" "2 ^ 24 * unit_of x = 2 powi (binade x + 1)"
    by (simp_all add: algebra_simps)
  show "2 ^ 23 \<le> x / unit_of x" "x / unit_of x < 2 ^ 24"
    using binade_bounds [OF assms] by (simp_all only: pos_le_divide_eq [OF unit_pos] pos_divide_less_eq [OF unit_pos] e)
qed

lemma fl_0 [simp]: "fl 0 = 0"
  by (simp add: fl_def)

lemma fl_pos: "0 < x \<Longrightarrow> fl x = of_int (round_even (x / unit_of x)) * unit_of x"
  by (simp add: fl_def unit_of_def Let_def)

lemma fl_minus: "fl (- x) = - fl x"
  by (simp add: fl_def Let_def round_even_minus)

lemma fl_bounds:
  assumes "0 < x"
  shows "2 powi binade x \<le> fl x" "fl x \<le> 2 powi (binade x + 1)"
proof -
  note u = unit_bounds [OF assms]
  have "round_even (of_int (2 ^ 23)) \<le> round_even (x / unit_of x)" "round_even (x / unit_of x) \<le> round_even (of_int (2 ^ 24))"
    using u(1,2) by (intro round_even_mono; simp)+
  then have "(of_int (2 ^ 23) :: rat) \<le> of_int (round_even (x / unit_of x))"
    "(of_int (round_even (x / unit_of x)) :: rat) \<le> of_int (2 ^ 24)"
    unfolding round_even_of_int of_int_le_iff .
  then have "(2 :: rat) ^ 23 \<le> of_int (round_even (x / unit_of x))" "of_int (round_even (x / unit_of x)) \<le> (2 :: rat) ^ 24"
    by simp_all
  then have "2 ^ 23 * unit_of x \<le> of_int (round_even (x / unit_of x)) * unit_of x"
    "of_int (round_even (x / unit_of x)) * unit_of x \<le> 2 ^ 24 * unit_of x"
    by (simp_all only: mult_le_cancel_right_pos [OF unit_pos])
  then show "2 powi binade x \<le> fl x" "fl x \<le> 2 powi (binade x + 1)" unfolding fl_pos [OF assms] u(3,4) .
qed

lemma fl_mono_pos:
  assumes "0 < x" "x \<le> y"
  shows "fl x \<le> fl y"
proof -
  have y: "0 < y" using assms by linarith
  have "binade x \<le> binade y"
  proof (rule ccontr)
    assume "\<not> binade x \<le> binade y"
    then have "(2 :: rat) powi (binade y + 1) \<le> 2 powi binade x" by (intro power_int_increasing) simp_all
    then show False using binade_bounds(1) [OF assms(1)] binade_bounds(2) [OF y] assms(2) by linarith
  qed
  then consider "binade x = binade y" | "binade x + 1 \<le> binade y" by linarith
  then show ?thesis
  proof cases
    case 1
    then have u: "unit_of x = unit_of y" by (simp add: unit_of_def)
    have "round_even (x / unit_of y) \<le> round_even (y / unit_of y)"
      using assms(2) by (intro round_even_mono divide_right_mono) (simp_all add: less_imp_le)
    then show ?thesis unfolding fl_pos [OF assms(1)] fl_pos [OF y] u by simp
  next
    case 2
    then have "(2 :: rat) powi (binade x + 1) \<le> 2 powi binade y" by (intro power_int_increasing) simp_all
    then show ?thesis using fl_bounds(2) [OF assms(1)] fl_bounds(1) [OF y] by linarith
  qed
qed

lemma fl_sign: "0 < x \<Longrightarrow> 0 < fl x"
  using fl_bounds(1) [of x] by (rule less_le_trans [rotated]) simp_all

lemma fl_mono:
  assumes "x \<le> y"
  shows "fl x \<le> fl y"
proof -
  have neg: "0 < - z \<Longrightarrow> fl z < 0" for z using fl_sign [of "- z"] by (simp add: fl_minus)
  consider "0 < x" | "x = 0" | "x < 0" "y < 0" | "x < 0" "y = 0" | "x < 0" "0 < y" by linarith
  then show ?thesis
  proof cases
    case 1
    then show ?thesis using assms by (intro fl_mono_pos)
  next
    case 3
    then have "fl (- y) \<le> fl (- x)" using assms by (intro fl_mono_pos) simp_all
    then show ?thesis by (simp add: fl_minus)
  next
    case 2
    then show ?thesis using assms fl_sign [of y] by (cases "y = 0") simp_all
  next
    case 4
    then show ?thesis using neg [of x] by simp
  next
    case 5
    then show ?thesis using neg [of x] fl_sign [of y] by simp
  qed
qed

lemma fl_nonneg: "0 \<le> x \<Longrightarrow> 0 \<le> fl x"
  using fl_mono [of 0 x] by simp

text \<open>Integers up to 2^24 are floats.\<close>

lemma fl_of_int_pos:
  assumes "0 < n" "n \<le> 2 ^ 24"
  shows "fl (of_int n) = of_int n"
proof -
  let ?e = "binade (of_int n)"
  have pos: "(0 :: rat) < of_int n" using assms by simp
  have "(of_int n :: rat) \<le> of_int (2 ^ 24)" using assms(2) by (simp only: of_int_le_iff)
  then have n: "(of_int n :: rat) \<le> 2 powi 24" by simp
  have le: "(2 :: rat) powi ?e \<le> 2 powi 24" using binade_bounds(1) [OF pos] n by (rule order_trans)
  have e: "?e \<le> 24" using power_int_le_imp_le_exp [OF _ le] by simp
  obtain k where k: "of_int n / unit_of (of_int n) = of_int k"
  proof (cases "?e \<le> 23")
    case True
    then have "1 / unit_of (of_int n) = of_int (2 ^ nat (23 - ?e))"
      by (simp add: unit_of_def power_int_def nat_diff_distrib divide_simps)
    then have "of_int n / unit_of (of_int n) = of_int (n * 2 ^ nat (23 - ?e))" by (simp add: divide_simps)
    then show ?thesis by (rule that)
  next
    case False
    then have "?e = 24" using e by simp
    moreover from this have "n = 2 ^ 24" using binade_bounds(1) [OF pos] assms(2)
      by (simp add: numeral_power_le_of_int_cancel_iff)
    ultimately have "of_int n / unit_of (of_int n) = of_int (2 ^ 23)" by (simp add: unit_of_def)
    then show ?thesis by (rule that)
  qed
  have "fl (of_int n) = of_int n / unit_of (of_int n) * unit_of (of_int n)"
    unfolding fl_pos [OF pos] k round_even_of_int ..
  then show ?thesis by simp
qed

lemma fl_of_int: "\<bar>n\<bar> \<le> 2 ^ 24 \<Longrightarrow> fl (of_int n) = of_int n"
  using fl_of_int_pos [of n] fl_of_int_pos [of "- n"] fl_minus [of "of_int (- n)"]
  by (cases "0 < n"; cases "n = 0") simp_all

text \<open>The floats are the numbers \<open>fl\<close> leaves alone; scaling by a power of two changes nothing.\<close>

lemma binade_unique:
  assumes "2 powi e \<le> x" "x < 2 powi (e + 1)"
  shows "binade x = e"
proof -
  have "0 < x" using assms(1) by (rule less_le_trans [rotated]) simp
  note b = binade_bounds [OF this]
  have "(2 :: rat) powi e < 2 powi (binade x + 1)" "(2 :: rat) powi binade x < 2 powi (e + 1)"
    using assms b by linarith+
  then have "e < binade x + 1" "binade x < e + 1"
    using power_int_increasing [of "binade x + 1" e "2 :: rat"] power_int_increasing [of "e + 1" "binade x" "2 :: rat"]
    by (fastforce simp: not_less)+
  then show ?thesis by linarith
qed

lemma binade_scale: "0 < x \<Longrightarrow> binade (x * 2 powi e) = binade x + e"
proof -
  assume x: "0 < x"
  have "(2 :: rat) powi (binade x + e) = 2 powi binade x * 2 powi e"
    "(2 :: rat) powi (binade x + e + 1) = 2 powi (binade x + 1) * 2 powi e"
    by (simp_all add: power_int_add)
  then show ?thesis using binade_bounds [OF x] by (intro binade_unique) simp_all
qed

lemma fl_scale: "fl (x * 2 powi e) = fl x * 2 powi e"
proof -
  have pos: "fl (y * 2 powi e) = fl y * 2 powi e" if "0 < y" for y
  proof -
    have "unit_of (y * 2 powi e) = unit_of y * 2 powi e"
      by (simp add: unit_of_def binade_scale [OF that] power_int_add [symmetric] algebra_simps)
    then show ?thesis using that by (simp add: fl_pos)
  qed
  consider "0 < x" | "x = 0" | "0 < - x" by linarith
  then show ?thesis
  proof cases
    case 3
    from pos [OF this] show ?thesis by (simp add: fl_minus)
  qed (simp_all add: pos)
qed

lemma fl_grid: "\<bar>j\<bar> \<le> 2 ^ 24 \<Longrightarrow> fl (of_int j * 2 powi e) = of_int j * 2 powi e"
  by (simp add: fl_scale fl_of_int)

lemma fl_grid_pos:
  assumes "0 < x"
  shows "\<exists>j. fl x = of_int j * unit_of x \<and> 0 \<le> j \<and> j \<le> 2 ^ 24"
proof (intro exI conjI)
  have "0 \<le> x / unit_of x" using assms by (simp add: less_imp_le)
  then have "round_even (of_int 0) \<le> round_even (x / unit_of x)" by (intro round_even_mono) simp
  then show "0 \<le> round_even (x / unit_of x)" unfolding round_even_of_int .
  have "round_even (x / unit_of x) \<le> round_even (of_int (2 ^ 24))"
    using unit_bounds(2) [OF assms] by (intro round_even_mono) simp
  then show "round_even (x / unit_of x) \<le> 2 ^ 24" unfolding round_even_of_int .
qed (rule fl_pos [OF assms])

lemma fl_idem [simp]: "fl (fl x) = fl x"
proof -
  have pos: "fl (fl y) = fl y" if "0 < y" for y
  proof -
    obtain j where "fl y = of_int j * unit_of y" "0 \<le> j" "j \<le> 2 ^ 24" using fl_grid_pos [of y] \<open>0 < y\<close> by blast
    then show ?thesis using fl_grid [of j "binade y - 23"] by (simp add: unit_of_def)
  qed
  consider "0 < x" | "x = 0" | "0 < - x" by linarith
  then show ?thesis
  proof cases
    case 3
    from pos [OF this] show ?thesis by (simp add: fl_minus)
  qed (simp_all add: pos)
qed

section \<open>Between two numbers\<close>

text \<open>The difference of a float and a smaller whole number is exact.\<close>

lemma fl_sub_exact:
  assumes "fl f = f" "0 \<le> v" "of_int v \<le> f" "f \<le> 2 ^ 23"
  shows "fl (f - of_int v) = f - of_int v"
proof (cases "f = 0")
  case True
  then show ?thesis using assms(2,3) by simp
next
  case False
  then have pos: "0 < f" using assms(2,3) order_trans [of 0 "of_int v" f] by simp
  obtain k where k: "f = of_int k * unit_of f" "0 \<le> k" "k \<le> 2 ^ 24" using fl_grid_pos [OF pos] assms(1) by metis
  have "(2 :: rat) powi binade f \<le> 2 powi 23" using binade_bounds(1) [OF pos] assms(4) by simp
  then have b: "binade f \<le> 23" using power_int_le_imp_le_exp [of "2 :: rat"] by fastforce
  have "(1 :: rat) = 2 powi (23 - binade f) * 2 powi (binade f - 23)" by (simp add: power_int_add [symmetric])
  also have "(2 :: rat) powi (23 - binade f) = of_int (2 ^ nat (23 - binade f))" using b by (simp add: power_int_def)
  finally have one: "(1 :: rat) = of_int (2 ^ nat (23 - binade f)) * unit_of f" by (simp only: unit_of_def)
  define j where "j = k - v * 2 ^ nat (23 - binade f)"
  have j: "f - of_int v = of_int j * unit_of f"
  proof -
    have "of_int v = of_int v * (of_int (2 ^ nat (23 - binade f)) * unit_of f)" using one by simp
    then show ?thesis using k(1) by (simp add: j_def algebra_simps)
  qed
  have "0 \<le> of_int j * unit_of f" using assms(3) j by simp
  then have "0 \<le> j" using unit_pos [of f] by (auto simp: zero_le_mult_iff simp del: unit_pos)
  moreover have "0 \<le> v * 2 ^ nat (23 - binade f)" using assms(2) by simp
  then have "j \<le> 2 ^ 24" using k(3) unfolding j_def by linarith
  ultimately show ?thesis using fl_grid [of j "binade f - 23"] j by (simp add: unit_of_def)
qed

lemma round_even_error: "of_int (round_even r) \<le> r + 1 / 2"
proof -
  have "of_int \<lfloor>r\<rfloor> \<le> r" by simp
  then show ?thesis unfolding round_even_def Let_def by (auto simp del: of_int_floor_le)
qed

lemma fl_error: "0 < x \<Longrightarrow> fl x \<le> x + unit_of x / 2"
proof -
  assume x: "0 < x"
  have "of_int (round_even (x / unit_of x)) * unit_of x \<le> (x / unit_of x + 1 / 2) * unit_of x"
    by (intro mult_right_mono round_even_error) (simp add: less_imp_le)
  then show ?thesis by (simp add: fl_pos [OF x] distrib_right)
qed

lemma round_even_tie: "even k \<Longrightarrow> round_even (of_int k + 1 / 2) = k"
proof -
  assume k: "even k"
  have f: "\<lfloor>of_int k + 1 / 2 :: rat\<rfloor> = k" by (rule floor_unique) simp_all
  show ?thesis unfolding round_even_def Let_def f using k by simp
qed

text \<open>A whole number absorbs an excess of half a unit.\<close>

lemma fl_absorb:
  assumes "0 < v" "v \<le> 2 ^ 22"
  shows "fl (of_int v + unit_of (of_int v) / 2) = of_int v"
proof -
  let ?x = "of_int v :: rat" and ?u = "unit_of (of_int v)" and ?b = "binade (of_int v)"
  have pos: "0 < ?x" using assms by simp
  have "(of_int v :: rat) \<le> of_int (2 ^ 22)" using assms(2) by (simp only: of_int_le_iff)
  then have "(2 :: rat) powi ?b \<le> 2 powi 22" using binade_bounds(1) [OF pos] by simp
  then have b: "?b \<le> 22" using power_int_le_imp_le_exp [of "2 :: rat"] by fastforce
  obtain n where n: "nat (23 - ?b) = Suc n" using b by (cases "nat (23 - ?b)") simp_all
  have q: "?x / ?u = of_int (2 * (v * 2 ^ n))"
  proof -
    have "1 / ?u = of_int (2 ^ Suc n)" using b n [symmetric] by (simp add: unit_of_def power_int_def nat_diff_distrib divide_simps)
    then have "?x * (1 / ?u) = ?x * of_int (2 ^ Suc n)" by simp
    then show ?thesis by simp
  qed
  let ?k = "2 * (v * 2 ^ n)"
  have "of_int ?k < (2 :: rat) ^ 24" using unit_bounds(2) [OF pos] q by simp
  then have "(of_int ?k :: rat) < of_int (2 ^ 24)" by simp
  then have "?k < 2 ^ 24" by (simp only: of_int_less_iff)
  then have "?k + 1 \<le> 2 ^ 24" by simp
  then have "(of_int (?k + 1) :: rat) \<le> of_int (2 ^ 24)" by (simp only: of_int_le_iff)
  then have "(of_int ?k + 1 :: rat) \<le> 2 ^ 24" by simp
  then have "?x / ?u + 1 / 2 < 2 ^ 24" unfolding q by linarith
  then have "(?x / ?u + 1 / 2) * ?u < 2 ^ 24 * ?u" by (rule mult_strict_right_mono) (rule unit_pos)
  moreover have sum: "(?x / ?u + 1 / 2) * ?u = ?x + ?u / 2" by (simp add: distrib_right)
  ultimately have up: "?x + ?u / 2 < 2 powi (?b + 1)" unfolding unit_bounds(4) [OF pos] by (simp only:)
  have "binade (?x + ?u / 2) = ?b"
  proof (rule binade_unique [OF _ up])
    show "2 powi ?b \<le> ?x + ?u / 2" using binade_bounds(1) [OF pos] by (rule order_trans) (simp add: less_imp_le)
  qed
  then have same: "unit_of (?x + ?u / 2) = ?u" by (simp add: unit_of_def)
  have half: "(?x + ?u / 2) / ?u = of_int ?k + 1 / 2"
    unfolding sum [symmetric] q by (rule nonzero_mult_div_cancel_right) (rule unit_nonzero)
  have "round_even (of_int ?k + 1 / 2) = ?k" by (rule round_even_tie) simp
  moreover have "0 < ?x + ?u / 2" using pos by (simp add: add_pos_pos)
  ultimately have "fl (?x + ?u / 2) = of_int ?k * ?u" using fl_pos [of "?x + ?u / 2"] unfolding same half by (simp only:)
  also have "\<dots> = ?x" unfolding q [symmetric] by simp
  finally show ?thesis .
qed

lemma unit_mono: "0 < x \<Longrightarrow> x \<le> y \<Longrightarrow> unit_of x \<le> unit_of y"
proof -
  assume x: "0 < x" "x \<le> y"
  have "\<not> binade y + 1 \<le> binade x"
  proof
    assume "binade y + 1 \<le> binade x"
    then have "(2 :: rat) powi (binade y + 1) \<le> 2 powi binade x" by (intro power_int_increasing) simp_all
    then show False using binade_bounds(1) [OF x(1)] binade_bounds(2) [of y] x by simp
  qed
  then show ?thesis unfolding unit_of_def by (intro power_int_increasing) simp_all
qed

text \<open>
  Interpolating from a float to a whole number with a share between 0 and 1 stays between the two,
  in spite of the three roundings.
\<close>

lemma float_between_down:
  assumes "fl f = f" "0 \<le> v" "of_int v \<le> f" "f \<le> 2 ^ 22" "0 \<le> t" "t \<le> 1"
  shows "of_int v \<le> float_between f (of_int v) t" "float_between f (of_int v) t \<le> f"
proof -
  define d where "d = f - of_int v"
  have d: "0 \<le> d" "fl d = d" using fl_sub_exact [OF assms(1-3)] assms(3,4) by (simp_all add: d_def)
  have "fl (of_int v - f) = - d" using fl_minus [of d] d(2) by (simp add: d_def)
  then have e: "float_between f (of_int v) t = fl (f - fl (d * t))"
    by (simp add: float_between_def float_add_def float_mul_def float_sub_def fl_minus)
  have "0 \<le> fl (d * t)" using d(1) assms(5) by (intro fl_nonneg) simp
  moreover have "fl (d * t) \<le> d" using fl_mono [of "d * t" d] d assms(6) by (simp add: mult_left_le)
  ultimately have "fl (of_int v) \<le> fl (f - fl (d * t))" "fl (f - fl (d * t)) \<le> fl f"
    by (intro fl_mono; simp add: d_def)+
  moreover have "(of_int v :: rat) \<le> of_int (2 ^ 22)" using assms(3,4) by simp
  then have "v \<le> 2 ^ 22" by (simp only: of_int_le_iff)
  then have "fl (of_int v) = of_int v" using assms(2) by (intro fl_of_int) simp
  ultimately show "of_int v \<le> float_between f (of_int v) t" "float_between f (of_int v) t \<le> f"
    using assms(1) e by simp_all
qed

lemma float_between_up:
  assumes "fl f = f" "0 \<le> f" "f < of_int v" "v \<le> 2 ^ 22" "0 \<le> t" "t \<le> 1"
  shows "f \<le> float_between f (of_int v) t" "float_between f (of_int v) t \<le> of_int v"
proof -
  define d where "d = fl (of_int v - f)"
  have v: "(0 :: rat) < of_int v" using assms(2,3) by linarith
  have gap: "0 < of_int v - f" using assms(3) by simp
  have e: "float_between f (of_int v) t = fl (f + fl (d * t))"
    by (simp add: float_between_def float_add_def float_mul_def float_sub_def d_def)
  have d0: "0 \<le> d" unfolding d_def using gap by (intro fl_nonneg) simp
  then have low: "0 \<le> fl (d * t)" using assms(5) by (intro fl_nonneg) simp
  have high: "fl (d * t) \<le> d" using fl_mono [of "d * t" d] d0 assms(6) by (simp add: d_def mult_left_le)
  have "d \<le> of_int v - f + unit_of (of_int v - f) / 2" unfolding d_def by (rule fl_error [OF gap])
  also have "\<dots> \<le> of_int v - f + unit_of (of_int v) / 2"
    using unit_mono [OF gap, of "of_int v"] assms(2) by simp
  finally have "f + fl (d * t) \<le> of_int v + unit_of (of_int v) / 2" using high by linarith
  then have "fl (f + fl (d * t)) \<le> fl (of_int v + unit_of (of_int v) / 2)" by (rule fl_mono)
  also have "\<dots> = of_int v" using v assms(4) by (intro fl_absorb) simp_all
  finally show "float_between f (of_int v) t \<le> of_int v" unfolding e .
  have "fl f \<le> fl (f + fl (d * t))" using low by (intro fl_mono) simp
  then show "f \<le> float_between f (of_int v) t" using assms(1) unfolding e by simp
qed

lemma float_between_float: "fl (float_between f v t) = float_between f v t"
  by (simp add: float_between_def float_add_def)

section \<open>Back to integers\<close>

lemma to_int_of_int [simp]: "to_int (of_int n) = n" and to_int_0 [simp]: "to_int 0 = 0"
  by (simp_all add: to_int_def)

lemma to_int_mono:
  assumes "x \<le> y"
  shows "to_int x \<le> to_int y"
proof -
  have "- \<lfloor>- x\<rfloor> \<le> - \<lfloor>- y\<rfloor>" if "y < 0" using assms by (simp add: floor_mono)
  moreover have "- \<lfloor>- x\<rfloor> \<le> \<lfloor>y\<rfloor>" if "x < 0" "0 \<le> y"
  proof -
    have "0 \<le> \<lfloor>- x\<rfloor>" "0 \<le> \<lfloor>y\<rfloor>" using that by simp_all
    then show ?thesis by linarith
  qed
  ultimately show ?thesis using assms floor_mono [OF assms] by (auto simp: to_int_def)
qed

lemma to_int_half: "0 \<le> n \<Longrightarrow> to_int (of_int n + 1 / 2) = n"
  by (simp add: to_int_def floor_unique)

end
