(* ===== verification/Canvas.thy ===== *)
theory Canvas
  imports Curses Single "HOL-Library.Signed_Division"
begin

text \<open>
  What \<^verbatim>\<open>clients/linux/sdl_main.c\<close> draws: the layout, the theme, tiles, glyphs, sprites, effects and
  the two screens, each as the list of rectangles handed to \<open>SDL_FillRect\<close>, in order. \<open>SDL_MapRGB\<close>
  is a parameter. Lemmas: positions between two cells stay between them, every brick fills exactly
  its cell, the game is drawn inside the window, and a frame is drawn without undefined behaviour.
\<close>

section \<open>Rectangles\<close>

text \<open>\<open>SDL_Rect\<close> has 16-bit fields: signed coordinates, unsigned sizes.\<close>

record blit =
  b_x :: int
  b_y :: int
  b_w :: int
  b_h :: int
  b_color :: "32 word"

definition fill_rect :: "int \<Rightarrow> int \<Rightarrow> int \<Rightarrow> int \<Rightarrow> 32 word \<Rightarrow> blit list" where
  "fill_rect x y w h color =
     (if w \<le> 0 \<or> h \<le> 0 then []
      else [\<lparr>b_x = sint (word_of_int x :: 16 word), b_y = sint (word_of_int y :: 16 word),
             b_w = uint (word_of_int w :: 16 word), b_h = uint (word_of_int h :: 16 word), b_color = color\<rparr>])"

text \<open>The values \<open>i, i + step, ...\<close> below \<open>limit\<close> of a \<open>for\<close> loop; its step is positive where it is used.\<close>

function strides :: "int \<Rightarrow> int \<Rightarrow> int \<Rightarrow> int list" where
  "strides i limit step = (if i < limit \<and> 0 < step then i # strides (i + step) limit step else [])"
  by pat_completeness auto
termination by (relation "measure (\<lambda>(i, limit, step). nat (limit - i))") auto

declare strides.simps [simp del]

section \<open>Layout and theme\<close>

record layout =
  l_scale :: int
  l_text_scale :: int
  l_cell_w :: int
  l_cell_h :: int
  l_board_x :: int
  l_board_y :: int
  l_board_w :: int
  l_board_h :: int
  l_hud_y :: int
  l_line_h :: int
  l_win_w :: int
  l_win_h :: int

definition layout_init :: "int \<Rightarrow> layout" where
  "layout_init scale0 =
     (let scale1 = (if scale0 < 2 then 2 else scale0);
          scale = (if scale1 > 6 then 6 else scale1);
          text_scale = (if scale > 2 then scale - 1 else 2);
          cell_w = 12 * scale; cell_h = 8 * scale;
          board_x = 6 * scale; board_y = 6 * scale;
          board_w = int MAZE_W * cell_w; board_h = int MAZE_H * cell_h;
          hud_y = board_y + board_h + 6 * scale;
          line_h = 8 * text_scale in
      \<lparr>l_scale = scale, l_text_scale = text_scale, l_cell_w = cell_w, l_cell_h = cell_h,
       l_board_x = board_x, l_board_y = board_y, l_board_w = board_w, l_board_h = board_h,
       l_hud_y = hud_y, l_line_h = line_h, l_win_w = board_w + board_x * 2,
       l_win_h = hud_y + line_h * 4 + 8 * scale\<rparr>)"

record theme =
  th_black :: "32 word"
  th_white :: "32 word"
  th_border_blue :: "32 word"
  th_border_gold :: "32 word"
  th_brick_dark :: "32 word"
  th_brick_light :: "32 word"
  th_brick_flash :: "32 word"
  th_text_green :: "32 word"
  th_text_blue :: "32 word"
  th_text_gold :: "32 word"
  th_text_brown :: "32 word"
  th_bullet_blue :: "32 word"
  th_bullet_gold :: "32 word"
  th_fx_orange :: "32 word"
  th_fx_red :: "32 word"
  th_fx_cyan :: "32 word"
  th_player_colors :: "32 word list"

definition theme_init :: "(u8 \<Rightarrow> u8 \<Rightarrow> u8 \<Rightarrow> 32 word) \<Rightarrow> theme" where
  "theme_init map_rgb =
     (let green = map_rgb 62 190 106; blue = map_rgb 80 86 230; gold = map_rgb 160 148 43; brown = map_rgb 122 74 8 in
      \<lparr>th_black = map_rgb 0 0 0, th_white = map_rgb 230 230 230, th_border_blue = map_rgb 62 94 215,
       th_border_gold = map_rgb 171 115 14, th_brick_dark = map_rgb 118 72 8, th_brick_light = map_rgb 162 148 43,
       th_brick_flash = map_rgb 204 184 126, th_text_green = green, th_text_blue = blue, th_text_gold = gold,
       th_text_brown = brown, th_bullet_blue = map_rgb 72 104 245, th_bullet_gold = map_rgb 184 124 14,
       th_fx_orange = map_rgb 220 128 20, th_fx_red = map_rgb 208 64 36, th_fx_cyan = map_rgb 80 222 210,
       th_player_colors = [green, blue, gold, brown]\<rparr>)"

section \<open>Text\<close>

definition to_upper :: "char \<Rightarrow> char" where
  "to_upper c = (let n = of_char c :: nat in if 97 \<le> n \<and> n \<le> 122 then char_of (n - 32) else c)"

definition glyph_table :: "(char \<times> u8 list) list" where
  "glyph_table = [
     (CHR ''A'', [14, 17, 17, 31, 17, 17, 17]),
     (CHR ''B'', [30, 17, 17, 30, 17, 17, 30]),
     (CHR ''C'', [14, 17, 16, 16, 16, 17, 14]),
     (CHR ''D'', [30, 17, 17, 17, 17, 17, 30]),
     (CHR ''E'', [31, 16, 16, 30, 16, 16, 31]),
     (CHR ''F'', [31, 16, 16, 30, 16, 16, 16]),
     (CHR ''G'', [14, 17, 16, 23, 17, 17, 14]),
     (CHR ''H'', [17, 17, 17, 31, 17, 17, 17]),
     (CHR ''I'', [14, 4, 4, 4, 4, 4, 14]),
     (CHR ''J'', [1, 1, 1, 1, 17, 17, 14]),
     (CHR ''K'', [17, 18, 20, 24, 20, 18, 17]),
     (CHR ''L'', [16, 16, 16, 16, 16, 16, 31]),
     (CHR ''M'', [17, 27, 21, 21, 17, 17, 17]),
     (CHR ''N'', [17, 25, 21, 19, 17, 17, 17]),
     (CHR ''O'', [14, 17, 17, 17, 17, 17, 14]),
     (CHR ''P'', [30, 17, 17, 30, 16, 16, 16]),
     (CHR ''Q'', [14, 17, 17, 17, 21, 18, 13]),
     (CHR ''R'', [30, 17, 17, 30, 20, 18, 17]),
     (CHR ''S'', [14, 17, 16, 14, 1, 17, 14]),
     (CHR ''T'', [31, 4, 4, 4, 4, 4, 4]),
     (CHR ''U'', [17, 17, 17, 17, 17, 17, 14]),
     (CHR ''V'', [17, 17, 17, 17, 17, 10, 4]),
     (CHR ''W'', [17, 17, 17, 21, 21, 21, 10]),
     (CHR ''X'', [17, 17, 10, 4, 10, 17, 17]),
     (CHR ''Y'', [17, 17, 10, 4, 4, 4, 4]),
     (CHR ''Z'', [31, 1, 2, 4, 8, 16, 31]),
     (CHR ''0'', [14, 17, 19, 21, 25, 17, 14]),
     (CHR ''1'', [4, 12, 4, 4, 4, 4, 14]),
     (CHR ''2'', [14, 17, 1, 2, 4, 8, 31]),
     (CHR ''3'', [30, 1, 1, 14, 1, 1, 30]),
     (CHR ''4'', [2, 6, 10, 18, 31, 2, 2]),
     (CHR ''5'', [31, 16, 16, 30, 1, 1, 30]),
     (CHR ''6'', [14, 16, 16, 30, 17, 17, 14]),
     (CHR ''7'', [31, 1, 2, 4, 8, 8, 8]),
     (CHR ''8'', [14, 17, 17, 14, 17, 17, 14]),
     (CHR ''9'', [14, 17, 17, 15, 1, 1, 14]),
     (CHR '':'', [0, 4, 4, 0, 4, 4, 0]),
     (CHR ''-'', [0, 0, 0, 14, 0, 0, 0]),
     (CHR ''.'', [0, 0, 0, 0, 0, 12, 12]),
     (CHR 0x27, [12, 12, 8, 0, 0, 0, 0]),
     (CHR ''/'', [1, 2, 4, 8, 16, 0, 0]),
     (CHR '' '', [0, 0, 0, 0, 0, 0, 0])]"

text \<open>\<open>None\<close> is the return value 0.\<close>

definition glyph_for_char :: "char \<Rightarrow> u8 list option" where
  "glyph_for_char ch = map_of glyph_table (to_upper ch)"

definition draw_char :: "int \<Rightarrow> int \<Rightarrow> char \<Rightarrow> int \<Rightarrow> 32 word \<Rightarrow> blit list" where
  "draw_char x y c scale0 color =
     (let scale = (if scale0 \<le> 0 then 1 else scale0) in
      case glyph_for_char c of
        None \<Rightarrow> []
      | Some rows \<Rightarrow> concat (map (\<lambda>ry. concat (map (\<lambda>rx.
          if bit (rows ! ry) (4 - rx)
          then fill_rect (x + int rx * scale) (y + int ry * scale) scale scale color else []) [0..<5])) [0..<7]))"

text \<open>The loop of \<open>draw_text\<close>: the text up to its terminating zero.\<close>

fun draw_chars :: "int \<Rightarrow> int \<Rightarrow> int \<Rightarrow> string \<Rightarrow> int \<Rightarrow> 32 word \<Rightarrow> blit list" where
  "draw_chars x cx cy [] scale color = []"
| "draw_chars x cx cy (c # cs) scale color =
     (if c = CHR 0x0A then draw_chars x x (cy + 8 * scale) cs scale color
      else draw_char cx cy c scale color @ draw_chars x (cx + 6 * scale) cy cs scale color)"

definition draw_text :: "int \<Rightarrow> int \<Rightarrow> string \<Rightarrow> int \<Rightarrow> 32 word \<Rightarrow> blit list" where
  "draw_text x y text scale color = draw_chars x x y text scale color"

section \<open>Tiles\<close>

definition draw_checker_tile :: "int \<Rightarrow> int \<Rightarrow> int \<Rightarrow> int \<Rightarrow> 32 word \<Rightarrow> 32 word \<Rightarrow> int \<Rightarrow> blit list" where
  "draw_checker_tile x y w h c0 c1 cell_px0 =
     (let cell_px = (if cell_px0 < 1 then 1 else cell_px0) in
      concat (map (\<lambda>yy. concat (map (\<lambda>xx.
        fill_rect (x + xx) (y + yy) cell_px cell_px
          (if odd (xx sdiv cell_px + yy sdiv cell_px) then c1 else c0)) (strides 0 w cell_px))) (strides 0 h cell_px)))"

definition draw_brick_tile :: "int \<Rightarrow> int \<Rightarrow> int \<Rightarrow> int \<Rightarrow> theme \<Rightarrow> int \<Rightarrow> bool \<Rightarrow> blit list" where
  "draw_brick_tile x y w h th scale flash =
     (let row_h = (if h sdiv 4 < 3 then 3 else h sdiv 4);
          mortar = (if scale sdiv 2 < 1 then 1 else scale sdiv 2) in
      fill_rect x y w h (if flash then th_brick_flash th else th_brick_light th) @
      concat (map (\<lambda>by'.
        let offset = (if odd (by' sdiv row_h) then w sdiv 4 else 0) in
        fill_rect x (y + by') w mortar (th_brick_dark th) @
        concat (map (\<lambda>bx. fill_rect (x + bx) (y + by') mortar row_h (th_brick_dark th))
          (strides offset w (w sdiv 2)))) (strides 0 h row_h)))"

section \<open>Positions\<close>

definition clampf :: "rat \<Rightarrow> rat \<Rightarrow> rat \<Rightarrow> rat" where
  "clampf v lo hi = (if v < lo then lo else if v > hi then hi else v)"

text \<open>The time since \<open>start\<close> as a share of the duration, between 0 and 1.\<close>

definition time_share :: "u64 \<Rightarrow> 32 word \<Rightarrow> u64 \<Rightarrow> rat" where
  "time_share start dur now =
     clampf (float_div (fl (of_nat (unat (now - start)))) (fl (of_nat (unat dur)))) 0 1"

fun coord_val :: "coord \<Rightarrow> rat" where
  "coord_val (At v) = of_nat (unat v)"
| "coord_val (Between c v start dur now) =
     float_between (coord_val c) (of_nat (unat v)) (time_share start dur now)"

section \<open>Sprites\<close>

definition mirror_bits8 :: "u8 \<Rightarrow> u8" where
  "mirror_bits8 v0 =
     (let v1 = drop_bit 4 (v0 AND 0xF0) OR push_bit 4 (v0 AND 0x0F);
          v2 = drop_bit 2 (v1 AND 0xCC) OR push_bit 2 (v1 AND 0x33) in
      drop_bit 1 (v2 AND 0xAA) OR push_bit 1 (v2 AND 0x55))"

definition draw_bitmap8 :: "int \<Rightarrow> int \<Rightarrow> int \<Rightarrow> u8 list \<Rightarrow> 32 word \<Rightarrow> 32 word \<Rightarrow> blit list" where
  "draw_bitmap8 x y pix0 rows fg alt =
     (let pix = (if pix0 < 1 then 1 else pix0) in
      concat (map (\<lambda>r. concat (map (\<lambda>c.
        if bit (rows ! r) (7 - c)
        then fill_rect (x + int c * pix) (y + int r * pix) pix pix (if r \<le> 1 then alt else fg) else [])
        [0..<8])) [0..<8]))"

definition right_rows :: "u8 list list" where
  "right_rows = [[0x10, 0x38, 0x10, 0x7C, 0x18, 0x18, 0x14, 0x00], [0x10, 0x38, 0x10, 0x7E, 0x18, 0x14, 0x08, 0x10]]"

definition down_rows :: "u8 list list" where
  "down_rows = [[0x10, 0x38, 0x10, 0x3C, 0x18, 0x3C, 0x24, 0x00], [0x10, 0x38, 0x10, 0x3C, 0x18, 0x24, 0x18, 0x24]]"

definition up_rows :: "u8 list list" where
  "up_rows = [[0x10, 0x10, 0x38, 0x3C, 0x18, 0x18, 0x24, 0x00], [0x10, 0x10, 0x38, 0x3C, 0x18, 0x24, 0x18, 0x24]]"

definition select_player_rows :: "u8 \<Rightarrow> u8 \<Rightarrow> u8 list" where
  "select_player_rows dir step =
     (let phase = (if odd step then 1 else 0); d = dir AND 0x03;
          src = (if d = 1 then down_rows ! phase else if d = 3 then up_rows ! phase else right_rows ! phase) in
      if d = 2 then map mirror_bits8 src else src)"

definition draw_player_sprite ::
  "int \<Rightarrow> int \<Rightarrow> int \<Rightarrow> int \<Rightarrow> u8 \<Rightarrow> u8 \<Rightarrow> 32 word \<Rightarrow> bool \<Rightarrow> theme \<Rightarrow> blit list" where
  "draw_player_sprite px py cw ch dir step body blink th =
     (let pix = (if ch sdiv 10 < 1 then 1 else ch sdiv 10);
          muzzle0 = (if blink then th_bullet_blue th else th_bullet_gold th);
          muzzle1 = (if blink then th_bullet_gold th else th_bullet_blue th);
          sw = 8 * pix; sh = 8 * pix;
          ox = px + (cw - sw) sdiv 2; oy = py + (ch - sh) sdiv 2; d = dir AND 0x03 in
      draw_bitmap8 ox oy pix (select_player_rows dir step) body (th_text_brown th) @
      (if d = 0 then fill_rect (ox + sw) (oy + 3 * pix) (2 * pix) pix muzzle0 @
                     fill_rect (ox + sw + 2 * pix) (oy + 3 * pix) pix pix muzzle1
       else if d = 2 then fill_rect (ox - 2 * pix) (oy + 3 * pix) (2 * pix) pix muzzle0 @
                          fill_rect (ox - 3 * pix) (oy + 3 * pix) pix pix muzzle1
       else if d = 1 then fill_rect (ox + 3 * pix) (oy + sh) pix (2 * pix) muzzle0 @
                          fill_rect (ox + 3 * pix) (oy + sh + 2 * pix) pix pix muzzle1
       else fill_rect (ox + 3 * pix) (oy - 2 * pix) pix (2 * pix) muzzle0 @
            fill_rect (ox + 3 * pix) (oy - 3 * pix) pix pix muzzle1))"

definition draw_shot_sprite :: "int \<Rightarrow> int \<Rightarrow> int \<Rightarrow> int \<Rightarrow> u8 \<Rightarrow> bool \<Rightarrow> theme \<Rightarrow> blit list" where
  "draw_shot_sprite px py cw ch dir blink th =
     (let c0 = (if blink then th_bullet_blue th else th_bullet_gold th);
          c1 = (if blink then th_bullet_gold th else th_bullet_blue th);
          u = (if ch sdiv 8 < 1 then 1 else ch sdiv 8);
          cx = px + cw sdiv 2; cy = py + ch sdiv 2 in
      if dir = 0 then fill_rect (cx - u) (cy - u) (3 * u) u c0 @ fill_rect (cx + 2 * u) (cy - u) u u c1
      else if dir = 2 then fill_rect (cx - 2 * u) (cy - u) (3 * u) u c0 @ fill_rect (cx - 2 * u) (cy - u) u u c1
      else if dir = 1 then fill_rect (cx - u) (cy - u) u (3 * u) c0 @ fill_rect (cx - u) (cy + 2 * u) u u c1
      else fill_rect (cx - u) (cy - 2 * u) u (3 * u) c0 @ fill_rect (cx - u) (cy - 2 * u) u u c1)"

section \<open>Effects\<close>

definition fx_color :: "theme \<Rightarrow> u8 \<Rightarrow> 32 word" where
  "fx_color th color_idx =
     (if color_idx = 0 then th_fx_orange th
      else if color_idx = 1 then th_fx_red th
      else if color_idx = 2 then th_fx_cyan th
      else if color_idx = 3 then th_bullet_blue th
      else th_fx_orange th)"

text \<open>The cross that grows or shrinks around the middle of a cell.\<close>

definition fx_cross :: "int \<Rightarrow> int \<Rightarrow> int \<Rightarrow> int \<Rightarrow> 32 word \<Rightarrow> blit list" where
  "fx_cross cx cy radius u c =
     fill_rect (cx - radius) (cy - u) (radius * 2 + u) u c @ fill_rect (cx - u) (cy - radius) u (radius * 2 + u) c"

definition fx_radius :: "int \<Rightarrow> rat \<Rightarrow> int" where
  "fx_radius cell t = to_int (float_mul (fl (of_int (cell sdiv 2))) t)"

definition fx_pixel :: "int \<Rightarrow> coord \<Rightarrow> int" where
  "fx_pixel cell c = to_int (float_mul (coord_val c) (fl (of_int cell)))"

definition draw_effect :: "layout \<Rightarrow> theme \<Rightarrow> fx_state \<Rightarrow> rat \<Rightarrow> blit list" where
  "draw_effect l th f t =
     (let cell_x = l_board_x l + fx_pixel (l_cell_w l) (fx_gx f);
          cell_y = l_board_y l + fx_pixel (l_cell_h l) (fx_gy f);
          cx = cell_x + l_cell_w l sdiv 2; cy = cell_y + l_cell_h l sdiv 2;
          u = (if l_cell_h l sdiv 8 < 1 then 1 else l_cell_h l sdiv 8) in
      case fx_type f of
        FX_BRICK \<Rightarrow>
          fill_rect cell_x cell_y (l_cell_w l) (l_cell_h l) (if t < fl (35 / 100) then th_brick_flash th else th_black th) @
          fx_cross cx cy (fx_radius (l_cell_w l) t) u (fx_color th (fx_color_idx f))
      | FX_PLAYER_EXPLODE \<Rightarrow>
          (let radius = fx_radius (l_cell_w l) t in
           fx_cross cx cy radius u (fx_color th 1) @
           fill_rect (cx - radius) (cy - radius) u u (th_fx_orange th) @
           fill_rect (cx + radius) (cy - radius) u u (th_fx_orange th) @
           fill_rect (cx - radius) (cy + radius) u u (th_fx_orange th) @
           fill_rect (cx + radius) (cy + radius) u u (th_fx_orange th))
      | FX_PLAYER_SPAWN \<Rightarrow>
          fx_cross cx cy (fx_radius (l_cell_w l) (float_sub 1 t)) u (fx_color th 2) @
          fill_rect (cx - u) (cy - u) (2 * u) (2 * u) (th_white th)
      | FX_SHOT_SPARK \<Rightarrow> fx_cross cx cy (fx_radius (l_cell_h l) t) u (fx_color th 3)
      | FX_NONE \<Rightarrow> [])"

text \<open>One iteration of \<open>draw_fx\<close>: what is drawn, and the effect afterwards.\<close>

definition draw_fx_one :: "layout \<Rightarrow> theme \<Rightarrow> u64 \<Rightarrow> fx_state \<Rightarrow> blit list \<times> fx_state" where
  "draw_fx_one l th now f =
     (if \<not> fx_active f \<or> fx_dur_ms f = 0 then ([], f)
      else if now \<ge> fx_start_ms f + ucast (fx_dur_ms f) then ([], f\<lparr>fx_active := False\<rparr>)
      else (draw_effect l th f (time_share (fx_start_ms f) (fx_dur_ms f) now), f))"

definition draw_fx :: "layout \<Rightarrow> theme \<Rightarrow> u64 \<Rightarrow> game_state \<Rightarrow> blit list \<times> game_state" where
  "draw_fx l th now g =
     (concat (map (fst \<circ> draw_fx_one l th now) (g_fx g)), g\<lparr>g_fx := map (snd \<circ> draw_fx_one l th now) (g_fx g)\<rparr>)"

section \<open>The game screen\<close>

definition clear_screen :: "layout \<Rightarrow> theme \<Rightarrow> blit list" where
  "clear_screen l th = fill_rect 0 0 (l_win_w l) (l_win_h l) (th_black th)"

definition draw_cell :: "layout \<Rightarrow> theme \<Rightarrow> game_state \<Rightarrow> nat \<Rightarrow> nat \<Rightarrow> blit list" where
  "draw_cell l th g x y =
     (let px = l_board_x l + int x * l_cell_w l; py = l_board_y l + int y * l_cell_h l;
          outer = (x = 0 \<or> x = MAZE_W - 1 \<or> y = 0 \<or> y = MAZE_H - 1) in
      if g_bricks g ! (y * MAZE_W + x) \<noteq> 0 then
        if outer then draw_checker_tile px py (l_cell_w l) (l_cell_h l) (th_border_blue th) (th_border_gold th)
                        (if l_scale l < 2 then 2 else l_scale l)
        else draw_brick_tile px py (l_cell_w l) (l_cell_h l) th (l_scale l) False
      else [])"

definition draw_maze :: "layout \<Rightarrow> theme \<Rightarrow> game_state \<Rightarrow> blit list" where
  "draw_maze l th g = concat (map (\<lambda>y. concat (map (\<lambda>x. draw_cell l th g x y) [0..<MAZE_W])) [0..<MAZE_H])"

definition blinks :: "u64 \<Rightarrow> u64 \<Rightarrow> bool" where
  "blinks now period \<longleftrightarrow> odd (now div period)"

definition draw_shot_of :: "layout \<Rightarrow> theme \<Rightarrow> bool \<Rightarrow> shot_view \<Rightarrow> blit list" where
  "draw_shot_of l th blink s =
     (if w_active s
      then draw_shot_sprite (l_board_x l + uint (w_x s) * l_cell_w l) (l_board_y l + uint (w_y s) * l_cell_h l)
             (l_cell_w l) (l_cell_h l) (w_dir s) blink th
      else [])"

definition player_pixel :: "int \<Rightarrow> coord \<Rightarrow> int" where
  "player_pixel cell c = to_int (float_add (float_mul (coord_val c) (fl (of_int cell))) (1 / 2))"

definition draw_player_of :: "layout \<Rightarrow> theme \<Rightarrow> bool \<Rightarrow> u64 \<Rightarrow> game_state \<Rightarrow> nat \<Rightarrow> blit list" where
  "draw_player_of l th blink now g i =
     (let p = g_panim g ! i in
      if \<not> a_known p \<or> a_dead p \<or> \<not> slot_in_play g i then []
      else case interp_player p now of (gx, gy) \<Rightarrow>
        draw_player_sprite (l_board_x l + player_pixel (l_cell_w l) gx) (l_board_y l + player_pixel (l_cell_h l) gy)
          (l_cell_w l) (l_cell_h l) (a_dir p) (a_step_phase p) (th_player_colors th ! i) blink th)"

text \<open>Everything inside the board; the effects are the ones of the frame.\<close>

definition draw_board :: "layout \<Rightarrow> theme \<Rightarrow> u64 \<Rightarrow> game_state \<Rightarrow> blit list" where
  "draw_board l th now g =
     draw_maze l th g @
     concat (map (draw_shot_of l th (blinks now 80)) (g_shots g)) @
     concat (map (draw_player_of l th (blinks now 80) now g) [0..<MAX_PLAYERS]) @
     fst (draw_fx l th now g)"

subsection \<open>Texts\<close>

text \<open>A name without its trailing spaces, as a C string.\<close>

definition trimmed_name :: "bytes \<Rightarrow> string" where
  "trimmed_name name = c_text (rev (dropWhile (\<lambda>b. b = 0x20) (rev (take NAME_LEN name))))"

text \<open>\<open>None\<close>: the slot is not one of the four, so the C code reads outside its array.\<close>

definition display_name :: "game_state \<Rightarrow> nat \<Rightarrow> string option" where
  "display_name g slot =
     (if slot \<ge> MAX_PLAYERS then None
      else if name_is_set (g_names g ! slot) then Some (trimmed_name (g_names g ! slot))
      else Some ((if bit (g_zombie_mask g) slot then ''ZOMBIE '' else ''WIZARD '') @ decimal (slot + 1)))"

text \<open>\<open>snprintf\<close> into a buffer of \<open>n\<close> bytes.\<close>

definition printed :: "nat \<Rightarrow> string \<Rightarrow> string" where
  "printed n text = take (n - 1) text"

definition hud_role :: "game_state \<Rightarrow> nat \<Rightarrow> string" where
  "hud_role g i =
     (if bit (g_zombie_mask g) i then ''ZOMBIE''
      else if name_is_set (g_names g ! i) then trimmed_name (g_names g ! i)
      else ''WIZARD'')"

definition hud_row :: "layout \<Rightarrow> theme \<Rightarrow> game_state \<Rightarrow> nat \<Rightarrow> blit list" where
  "hud_row l th g i =
     (let row_y = l_hud_y l + int i * l_line_h l; role_x = l_board_x l + 4 * l_text_scale l;
          score_x = l_board_x l + (l_board_w l - 20 * l_text_scale l); color = th_player_colors th ! i in
      if \<not> slot_in_play g i then []
      else draw_text role_x row_y (hud_role g i) (l_text_scale l) color @
           draw_text score_x row_y (printed 96 (pad_left 3 (decimal (unat (v_score (g_players g ! i))))))
             (l_text_scale l) color)"

definition host_line :: "string \<Rightarrow> int \<Rightarrow> string" where
  "host_line host port = printed 96 (''HOST: '' @ host @ '':'' @ decimal (nat port))"

definition draw_footer :: "layout \<Rightarrow> theme \<Rightarrow> string \<Rightarrow> int \<Rightarrow> game_state \<Rightarrow> blit list" where
  "draw_footer l th host port g =
     (let y = l_win_h l - 7 * l_text_scale l in
      draw_text (l_board_x l) y (host_line host port) (l_text_scale l - 1) (th_text_gold th) @
      (if 0 \<le> g_local_pid g \<and> g_local_pid g < int MAX_PLAYERS
       then draw_text (l_win_w l - 26 * l_text_scale l) y (printed 96 (''YOU: '' @ decimal (nat (g_local_pid g))))
              (l_text_scale l - 1) (th_player_colors th ! nat (g_local_pid g))
       else draw_text (l_win_w l - 35 * l_text_scale l) y ''WAITING FOR SLOT'' (l_text_scale l - 1) (th_text_blue th)))"

text \<open>The rows of the result, with the text row each gets.\<close>

definition result_line :: "game_state \<Rightarrow> nat \<Rightarrow> string option" where
  "result_line g i = map_option (\<lambda>name. printed 96 (decimal (i + 1) @ ''  '' @ pad_right 8 name @ ''  '' @
     (let s = unat (v_score (g_players g ! i)) in if s < 10 then ''0'' @ decimal s else decimal s))) (display_name g i)"

definition result_rows :: "game_state \<Rightarrow> (nat \<times> string) list" where
  "result_rows g =
     map (\<lambda>i. (i, the (result_line g i))) (filter (bit (g_result_active_mask g)) [0..<MAX_PLAYERS])"

definition winner_line :: "game_state \<Rightarrow> string option" where
  "winner_line g = map_option (\<lambda>winner. printed 96 (winner @
     (if bit (g_zombie_mask g) (unat (g_winner_pid g)) then '' WINS''
      else if g_zombie_history_mask g \<noteq> 0 then '' BEATS ZOMBIES'' else '' WINS'')))
     (display_name g (unat (g_winner_pid g)))"

definition draw_result :: "layout \<Rightarrow> theme \<Rightarrow> game_state \<Rightarrow> blit list option" where
  "draw_result l th g =
     (let box_w = (l_board_w l * 3) sdiv 4; box_h = 8 * l_line_h l;
          box_x = l_board_x l + (l_board_w l - box_w) sdiv 2; box_y = l_board_y l + (l_board_h l - box_h) sdiv 2;
          text_x = box_x + 6 * l_scale l in
      map_option (\<lambda>winner.
        fill_rect (box_x - 2 * l_scale l) (box_y - 2 * l_scale l) (box_w + 4 * l_scale l) (box_h + 4 * l_scale l)
          (th_border_blue th) @
        fill_rect box_x box_y box_w box_h (th_black th) @
        draw_text text_x (box_y + 2 * l_scale l) ''ROUND OVER'' (l_text_scale l + 1) (th_text_gold th) @
        draw_text text_x (box_y + 2 * l_line_h l) winner (l_text_scale l) (th_white th) @
        concat (map (\<lambda>(row, i, line). draw_text text_x (box_y + (int row + 3) * l_line_h l) line (l_text_scale l)
            (th_player_colors th ! i)) (enumerate 0 (result_rows g))) @
        draw_text text_x (box_y + 7 * l_line_h l) ''NEXT ROUND'' (l_text_scale l - 1) (th_text_blue th))
      (winner_line g))"

definition draw_overlay :: "layout \<Rightarrow> theme \<Rightarrow> game_state \<Rightarrow> blit list option" where
  "draw_overlay l th g =
     (if g_round_phase g = PHASE_OVER \<and> g_have_welcome g then draw_result l th g
      else if g_have_welcome g \<and> \<not> game_ready g
      then Some (draw_text (l_board_x l + 4 * l_scale l) (l_board_y l + 4 * l_scale l)
             (printed 96 (''SYNCING ROUND '' @ decimal (unat (g_round_id g)))) (l_text_scale l) (th_white th))
      else Some [])"

text \<open>One frame, and the game with its expired effects put out. \<open>None\<close> is undefined behaviour.\<close>

definition render_game ::
  "layout \<Rightarrow> theme \<Rightarrow> string \<Rightarrow> int \<Rightarrow> u64 \<Rightarrow> game_state \<Rightarrow> (blit list \<times> game_state) option" where
  "render_game l th host port now g =
     (let g1 = snd (draw_fx l th now g) in
      map_option (\<lambda>overlay.
        (clear_screen l th @ draw_board l th now g @
         concat (map (hud_row l th g1) [0..<MAX_PLAYERS]) @ draw_footer l th host port g1 @ overlay, g1))
      (draw_overlay l th g1))"

section \<open>The prompt screen\<close>

text \<open>The text of a field with its cursor, in its buffer.\<close>

definition field_line :: "nat \<Rightarrow> string \<Rightarrow> string \<Rightarrow> bool \<Rightarrow> string" where
  "field_line n label content cursor = printed n (label @ content @ (if cursor then ''_'' else '' ''))"

definition render_prompt :: "layout \<Rightarrow> theme \<Rightarrow> prompt \<Rightarrow> string \<Rightarrow> u64 \<Rightarrow> blit list" where
  "render_prompt l th p msg now =
     (let box_w = l_board_w l - 8 * l_scale l; box_h = l_board_h l sdiv 3;
          box_x = l_board_x l + 4 * l_scale l; box_y = l_board_y l + l_board_h l sdiv 3;
          blink = blinks now 450; x = box_x + 6 * l_scale l; ts = l_text_scale l; on_host = (pr_field p = 0) in
      clear_screen l th @
      draw_checker_tile (l_board_x l) (l_board_y l) (l_board_w l) (l_board_h l) (th_black th) (th_black th) (l_cell_h l) @
      fill_rect (box_x - 2 * l_scale l) (box_y - 2 * l_scale l) (box_w + 4 * l_scale l) (box_h + 4 * l_scale l)
        (th_border_blue th) @
      fill_rect box_x box_y box_w box_h (th_black th) @
      draw_text x (box_y + 4 * l_scale l) [CHR 0x27, CHR ''M'', CHR ''A'', CHR ''Z'', CHR ''E'', CHR '' '', CHR ''W'',
        CHR ''A'', CHR ''R'', CHR 0x27] (ts + 1) (th_text_gold th) @
      draw_text x (box_y + 14 * l_scale l) ''ENTER HOSTNAME'' ts (th_text_green th) @
      draw_text x (box_y + 24 * l_scale l) (field_line (HOST_MAX + 8) ''HOST: '' (c_text (pr_host p)) (on_host \<and> blink)) ts
        (if on_host then th_white th else th_text_blue th) @
      draw_text x (box_y + 31 * l_scale l) (field_line (NAME_LEN + 10) ''NAME: '' (c_text (pr_name p)) (\<not> on_host \<and> blink)) ts
        (if on_host then th_text_blue th else th_white th) @
      draw_text x (box_y + 39 * l_scale l) (if on_host then ''ENTER FOR NAME'' else ''ENTER TO CONNECT'') (ts - 1)
        (th_text_blue th) @
      draw_text x (box_y + 45 * l_scale l) ''ESC TO QUIT'' (ts - 1) (th_text_blue th) @
      (if msg \<noteq> [] then draw_text x (box_y + box_h - 8 * l_scale l) msg (ts - 1) (th_fx_red th) else []))"

section \<open>Positions between two cells\<close>

lemma byte_small: "int (unat (v :: u8)) \<le> 2 ^ 22" "fl (of_nat (unat v)) = of_nat (unat v)"
proof -
  have v: "int (unat v) < 256" using u8_less_256 [of v] by linarith
  also have "(256 :: int) \<le> 2 ^ 22" by simp
  finally show "int (unat v) \<le> 2 ^ 22" by (rule less_imp_le)
  have "int (unat v) \<le> 2 ^ 24" using v by (rule less_imp_le [THEN order_trans]) simp
  then have "fl (of_int (int (unat v))) = of_int (int (unat v))" by (intro fl_of_int) (simp only: abs_of_nat)
  then show "fl (of_nat (unat v)) = of_nat (unat v)" by (simp only: of_int_of_nat_eq)
qed

lemma clampf_range: "lo \<le> hi \<Longrightarrow> lo \<le> clampf v lo hi \<and> clampf v lo hi \<le> hi"
  by (simp add: clampf_def)

lemma time_share_range: "0 \<le> time_share start dur now" "time_share start dur now \<le> 1"
  using clampf_range [of 0 1] by (simp_all add: time_share_def)

lemma time_share_start: "time_share start dur start = 0"
  by (simp add: time_share_def float_div_def clampf_def)

lemma coord_val_Between:
  assumes "fl (coord_val c) = coord_val c" "0 \<le> coord_val c" "coord_val c \<le> 2 ^ 22"
  shows "min (coord_val c) (of_nat (unat v)) \<le> coord_val (Between c v start dur now)"
    "coord_val (Between c v start dur now) \<le> max (coord_val c) (of_nat (unat v))"
    "fl (coord_val (Between c v start dur now)) = coord_val (Between c v start dur now)"
proof -
  let ?t = "time_share start dur now" and ?v = "int (unat v)"
  have v: "(of_nat (unat v) :: rat) = of_int ?v" "?v \<le> 2 ^ 22" by (simp only: of_int_of_nat_eq) (rule byte_small)
  have "min (coord_val c) (of_int ?v) \<le> float_between (coord_val c) (of_int ?v) ?t \<and>
      float_between (coord_val c) (of_int ?v) ?t \<le> max (coord_val c) (of_int ?v)"
  proof (cases "of_int ?v \<le> coord_val c")
    case True
    then show ?thesis
      using float_between_down [OF assms(1) _ True assms(3) time_share_range, of start dur now] by simp
  next
    case False
    then have lt: "coord_val c < of_int ?v" by simp
    show ?thesis
      using float_between_up [OF assms(1,2) lt v(2) time_share_range, of start dur now] lt by simp
  qed
  then show "min (coord_val c) (of_nat (unat v)) \<le> coord_val (Between c v start dur now)"
    "coord_val (Between c v start dur now) \<le> max (coord_val c) (of_nat (unat v))"
    by (simp_all only: coord_val.simps v(1))
  show "fl (coord_val (Between c v start dur now)) = coord_val (Between c v start dur now)"
    by (simp add: float_between_float)
qed

lemma coord_val_range:
  assumes "coord_in b c"
  shows "0 \<le> coord_val c \<and> coord_val c \<le> of_nat (unat b - 1) \<and> fl (coord_val c) = coord_val c"
  using assms
proof (induction c)
  case (At v)
  then have "unat v \<le> unat b - 1" by (simp add: word_less_nat_alt)
  then have "(of_nat (unat v) :: rat) \<le> of_nat (unat b - 1)" by (simp only: of_nat_le_iff)
  then show ?case by (simp only: coord_val.simps byte_small(2) of_nat_0_le_iff simp_thms)
next
  case (Between c v start dur now)
  have "unat v < unat b" using Between.prems by (simp add: word_less_nat_alt)
  then have v: "unat v \<le> unat b - 1" by linarith
  have c: "0 \<le> coord_val c" "coord_val c \<le> of_nat (unat b - 1)" "fl (coord_val c) = coord_val c"
    using Between by simp_all
  have "unat b - 1 \<le> 256" using u8_less_256 [of b] by linarith
  also have "(256 :: nat) \<le> 2 ^ 22" by simp
  finally have "unat b - 1 \<le> 2 ^ 22" .
  then have "(of_nat (unat b - 1) :: rat) \<le> of_nat (2 ^ 22)" by (simp only: of_nat_le_iff)
  then have "coord_val c \<le> 2 ^ 22" using c(2) by simp
  note between = coord_val_Between [OF c(3,1) this, of v start dur now]
  have "(of_nat (unat v) :: rat) \<le> of_nat (unat b - 1)" using v by (simp only: of_nat_le_iff)
  then have "max (coord_val c) (of_nat (unat v)) \<le> of_nat (unat b - 1)" using c(2) by (rule max.boundedI [rotated])
  moreover have "0 \<le> min (coord_val c) (of_nat (unat v))" using c(1) by (intro min.boundedI of_nat_0_le_iff)
  ultimately show ?case using between by (meson order_trans)
qed

text \<open>Where a player is drawn.\<close>

lemma interp_player_in:
  assumes "anim_ok p" "interp_player p now = (cx, cy)"
  shows "coord_in 20 cx" "coord_in 19 cy"
  using assms by (auto simp: interp_player_def anim_ok_def split: if_splits)

text \<open>
  C18: Walking is smooth. When a step to a neighbouring cell begins, the player is drawn exactly where
  it was, and at every later moment between that point and the cell it walks to, in each
  coordinate, whatever the clock says and in spite of the rounding of single-precision floats.
\<close>

theorem walk_is_smooth:
  assumes "anim_ok p" "interp_player p now = (cx, cy)" "interp_player (walk_to x y now p) later = (dx, dy)"
    and "unat now + 100 < 2 ^ 64"
  shows "(later = now \<longrightarrow> coord_val dx = coord_val cx \<and> coord_val dy = coord_val cy) \<and>
    min (coord_val cx) (of_nat (unat x)) \<le> coord_val dx \<and> coord_val dx \<le> max (coord_val cx) (of_nat (unat x)) \<and>
    min (coord_val cy) (of_nat (unat y)) \<le> coord_val dy \<and> coord_val dy \<le> max (coord_val cy) (of_nat (unat y))"
proof -
  have "coord_in 20 cx" "coord_in 19 cy" by (rule interp_player_in [OF assms(1,2)])+
  from this [THEN coord_val_range]
  have c: "0 \<le> coord_val cx" "coord_val cx \<le> 19" "fl (coord_val cx) = coord_val cx"
    "0 \<le> coord_val cy" "coord_val cy \<le> 18" "fl (coord_val cy) = coord_val cy" by simp_all
  have bx: "coord_val cx \<le> 2 ^ 22" and b_y: "coord_val cy \<le> 2 ^ 22" using c by simp_all
  note bet = coord_val_Between [OF c(3,1) bx] coord_val_Between [OF c(6,4) b_y]
  have later: "now \<noteq> later \<or> \<not> later \<ge> now + 100"
    using assms(4) by (auto simp: word_le_nat_alt unat_word_ariths)
  have zero: "coord_val (Between k v now 100 now) = coord_val k" if "fl (coord_val k) = coord_val k" for k v
    using that by (simp add: time_share_start float_between_def float_mul_def float_add_def)
  have d: "(dx, dy) = (if later \<ge> now + 100 then (At x, At y) else (Between cx x now 100 later, Between cy y now 100 later))"
  proof -
    have "interp_player (walk_to x y now p) later = (if later \<ge> a_start_ms (walk_to x y now p) + ucast (a_dur_ms (walk_to x y now p))
        then (At x, At y) else (Between cx x now 100 later, Between cy y now 100 later))"
      unfolding interp_player_def [of "walk_to x y now p"] by (simp add: walk_to_def assms(2))
    then show ?thesis using assms(3) by (simp add: walk_to_def assms(2))
  qed
  show ?thesis
  proof (cases "later \<ge> now + 100")
    case True
    then show ?thesis using d later by auto
  next
    case False
    then have "dx = Between cx x now 100 later" "dy = Between cy y now 100 later" using d by simp_all
    then show ?thesis using bet(1,2,4,5) zero [OF c(3)] zero [OF c(6)] by simp
  qed
qed

section \<open>Where rectangles lie\<close>

text \<open>All rectangles of a drawing lie in a box given by two corners.\<close>

definition boxed :: "int \<Rightarrow> int \<Rightarrow> int \<Rightarrow> int \<Rightarrow> blit list \<Rightarrow> bool" where
  "boxed x0 y0 x1 y1 bs \<longleftrightarrow> list_all (\<lambda>b. x0 \<le> b_x b \<and> y0 \<le> b_y b \<and> b_x b + b_w b \<le> x1 \<and> b_y b + b_h b \<le> y1) bs"

definition covers :: "blit \<Rightarrow> int \<Rightarrow> int \<Rightarrow> bool" where
  "covers b px py \<longleftrightarrow> b_x b \<le> px \<and> px < b_x b + b_w b \<and> b_y b \<le> py \<and> py < b_y b + b_h b"

definition painted :: "blit list \<Rightarrow> int \<Rightarrow> int \<Rightarrow> bool" where
  "painted bs px py \<longleftrightarrow> list_ex (\<lambda>b. covers b px py) bs"

lemma boxed_simps [simp]:
  "boxed x0 y0 x1 y1 []" "boxed x0 y0 x1 y1 (xs @ ys) \<longleftrightarrow> boxed x0 y0 x1 y1 xs \<and> boxed x0 y0 x1 y1 ys"
  "boxed x0 y0 x1 y1 (concat xss) \<longleftrightarrow> (\<forall>xs \<in> set xss. boxed x0 y0 x1 y1 xs)"
  by (auto simp: boxed_def list_all_iff)

lemma painted_simps [simp]:
  "\<not> painted [] px py" "painted (xs @ ys) px py \<longleftrightarrow> painted xs px py \<or> painted ys px py"
  "painted (concat xss) px py \<longleftrightarrow> (\<exists>xs \<in> set xss. painted xs px py)"
  by (auto simp: painted_def list_ex_iff)

lemma boxed_mono: "boxed x0 y0 x1 y1 bs \<Longrightarrow> x2 \<le> x0 \<Longrightarrow> y2 \<le> y0 \<Longrightarrow> x1 \<le> x3 \<Longrightarrow> y1 \<le> y3 \<Longrightarrow> boxed x2 y2 x3 y3 bs"
  by (auto simp: boxed_def list_all_iff)

lemma boxed_painted:
  "boxed x0 y0 x1 y1 bs \<Longrightarrow> painted bs px py \<Longrightarrow> x0 \<le> px \<and> px < x1 \<and> y0 \<le> py \<and> py < y1"
  by (force simp: boxed_def painted_def covers_def list_all_iff list_ex_iff)

text \<open>Inside the range of the 16-bit fields a rectangle is handed over as it is meant.\<close>

lemma fill_rect_exact:
  assumes "- 32768 \<le> x" "x < 32768" "- 32768 \<le> y" "y < 32768" "0 < w" "w < 65536" "0 < h" "h < 65536"
  shows "fill_rect x y w h c = [\<lparr>b_x = x, b_y = y, b_w = w, b_h = h, b_color = c\<rparr>]"
proof -
  have s: "sint (word_of_int z :: 16 word) = z" if "- 32768 \<le> z" "z < 32768" for z
    using that by (simp add: sint_sbintrunc' signed_take_bit_int_eq_self)
  have u: "uint (word_of_int z :: 16 word) = z" if "0 < z" "z < 65536" for z
    using that by (simp add: uint_word_of_int_eq take_bit_int_eq_self)
  show ?thesis using assms by (simp add: fill_rect_def s u)
qed

lemma fill_rect_boxed:
  assumes "0 \<le> x0" "0 \<le> y0" "x1 < 32768" "y1 < 32768" "x0 \<le> x" "y0 \<le> y" "x + w \<le> x1" "y + h \<le> y1"
  shows "boxed x0 y0 x1 y1 (fill_rect x y w h c)"
proof (cases "0 < w \<and> 0 < h")
  case True
  then have "fill_rect x y w h c = [\<lparr>b_x = x, b_y = y, b_w = w, b_h = h, b_color = c\<rparr>]"
    using assms by (intro fill_rect_exact) linarith+
  then show ?thesis using assms by (simp add: boxed_def)
qed (auto simp: fill_rect_def)

lemma fill_rect_painted:
  assumes "0 \<le> x" "0 \<le> y" "0 < w" "0 < h" "x + w < 32768" "y + h < 32768"
  shows "painted (fill_rect x y w h c) px py \<longleftrightarrow> x \<le> px \<and> px < x + w \<and> y \<le> py \<and> py < y + h"
  using assms by (simp add: fill_rect_exact painted_def covers_def)

lemma set_strides:
  assumes "0 < step"
  shows "set (strides i limit step) = {z. i \<le> z \<and> z < limit \<and> step dvd z - i}"
  using assms
proof (induction i limit step rule: strides.induct)
  case (1 i limit step)
  show ?case
  proof (cases "i < limit")
    case True
    have "set (strides i limit step) = insert i {z. i + step \<le> z \<and> z < limit \<and> step dvd z - (i + step)}"
      using 1 True by (subst strides.simps) simp
    also have "\<dots> = {z. i \<le> z \<and> z < limit \<and> step dvd z - i}"
    proof (rule set_eqI)
      fix z
      have dvd: "step dvd z - (i + step) \<longleftrightarrow> step dvd z - i"
        using dvd_diff_left_iff [of step step "z - i"] by (simp add: diff_diff_eq [symmetric])
      have "i + step \<le> z" if "i < z" "step dvd z - i"
        using zdvd_imp_le [OF that(2)] that(1) by simp
      then show "z \<in> insert i {z. i + step \<le> z \<and> z < limit \<and> step dvd z - (i + step)} \<longleftrightarrow>
          z \<in> {z. i \<le> z \<and> z < limit \<and> step dvd z - i}"
        using True 1(2) dvd by auto
    qed
    finally show ?thesis .
  next
    case False
    then show ?thesis by (subst strides.simps) auto
  qed
qed

lemma sdiv_nonneg: "0 \<le> a \<Longrightarrow> 0 < b \<Longrightarrow> a sdiv b = a div b" for a b :: int
  by (simp add: signed_divide_int_def sgn_if)

section \<open>Tiles fill their cell\<close>

lemma multiple_fits: "0 < (c :: int) \<Longrightarrow> c dvd z \<Longrightarrow> c dvd w \<Longrightarrow> z < w \<Longrightarrow> z + c \<le> w"
  using zdvd_imp_le [of c "w - z"] by simp

lemma checker_tile:
  assumes "0 < c" "c dvd w" "c dvd h" "0 \<le> x" "0 \<le> y" "x + w < 32768" "y + h < 32768"
  shows "boxed x y (x + w) (y + h) (draw_checker_tile x y w h c0 c1 c)"
    "painted (draw_checker_tile x y w h c0 c1 c) px py \<longleftrightarrow> x \<le> px \<and> px < x + w \<and> y \<le> py \<and> py < y + h"
proof -
  define block where "block xx yy = fill_rect (x + xx) (y + yy) c c (if odd (xx sdiv c + yy sdiv c) then c1 else c0)" for xx yy
  have tile: "draw_checker_tile x y w h c0 c1 c =
      concat (map (\<lambda>yy. concat (map (\<lambda>xx. block xx yy) (strides 0 w c))) (strides 0 h c))"
    using assms(1) by (simp add: draw_checker_tile_def Let_def block_def)
  show w: "boxed x y (x + w) (y + h) (draw_checker_tile x y w h c0 c1 c)"
  proof -
    have "boxed x y (x + w) (y + h) (block xx yy)"
      if "xx \<in> set (strides 0 w c)" "yy \<in> set (strides 0 h c)" for xx yy
    proof -
      have z: "0 \<le> xx" "0 \<le> yy" "xx + c \<le> w" "yy + c \<le> h"
        using that multiple_fits [OF assms(1) _ assms(2), of xx] multiple_fits [OF assms(1) _ assms(3), of yy]
        by (simp_all add: set_strides [OF assms(1)])
      then show ?thesis unfolding block_def using assms by (intro fill_rect_boxed) simp_all
    qed
    then show ?thesis unfolding tile by simp
  qed
  have "painted (draw_checker_tile x y w h c0 c1 c) px py"
    if p: "x \<le> px" "px < x + w" "y \<le> py" "py < y + h"
  proof -
    define xx where "xx = (px - x) div c * c"
    define yy where "yy = (py - y) div c * c"
    have floor: "0 \<le> z div c * c \<and> z div c * c \<le> z \<and> z < z div c * c + c" if "0 \<le> z" for z
      using that assms(1) pos_mod_bound [of c z] div_mult_mod_eq [of z c] pos_imp_zdiv_nonneg_iff [of c z]
        pos_mod_sign [of c z] by (smt (verit) mult_nonneg_nonneg)
    have xx: "0 \<le> xx" "xx \<le> px - x" "px - x < xx + c" "c dvd xx"
      and yy: "0 \<le> yy" "yy \<le> py - y" "py - y < yy + c" "c dvd yy"
      using floor [of "px - x"] floor [of "py - y"] p by (simp_all add: xx_def yy_def)
    have fits: "xx + c \<le> w" "yy + c \<le> h"
      using multiple_fits [OF assms(1) xx(4) assms(2)] multiple_fits [OF assms(1) yy(4) assms(3)] xx(2) yy(2) p by linarith+
    have "painted (block xx yy) px py"
      unfolding block_def using xx yy assms fits by (subst fill_rect_painted) simp_all
    moreover have "xx \<in> set (strides 0 w c)" "yy \<in> set (strides 0 h c)"
      using xx yy p assms(1) by (simp_all add: set_strides)
    ultimately show ?thesis unfolding tile by auto
  qed
  then show "painted (draw_checker_tile x y w h c0 c1 c) px py \<longleftrightarrow> x \<le> px \<and> px < x + w \<and> y \<le> py \<and> py < y + h"
    using boxed_painted [OF w] by blast
qed

lemma brick_tile:
  assumes "2 \<le> s" "0 \<le> x" "0 \<le> y" "x + 12 * s < 32768" "y + 8 * s < 32768"
  shows "boxed x y (x + 12 * s) (y + 8 * s) (draw_brick_tile x y (12 * s) (8 * s) th s flash)"
    "painted (draw_brick_tile x y (12 * s) (8 * s) th s flash) px py \<longleftrightarrow>
       x \<le> px \<and> px < x + 12 * s \<and> y \<le> py \<and> py < y + 8 * s"
proof -
  define m where "m = s div 2"
  have m: "1 \<le> m" "m \<le> s" using assms(1) by (auto simp: m_def)
  have d: "(8 * s) sdiv 4 = 2 * s" "(12 * s) sdiv 4 = 3 * s" "(12 * s) sdiv 2 = 6 * s" "s sdiv 2 = s div 2"
    using assms(1) by (simp_all add: sdiv_nonneg)
  define column where "column b bx = fill_rect (x + bx) (y + b) m (2 * s) (th_brick_dark th)" for b bx
  have tile: "draw_brick_tile x y (12 * s) (8 * s) th s flash =
      fill_rect x y (12 * s) (8 * s) (if flash then th_brick_flash th else th_brick_light th) @
      concat (map (\<lambda>b. fill_rect x (y + b) (12 * s) m (th_brick_dark th) @
        concat (map (\<lambda>bx. column b bx) (strides (if odd (b sdiv (2 * s)) then 3 * s else 0) (12 * s) (6 * s)))) (strides 0 (8 * s) (2 * s)))"
    using assms(1) m by (simp add: draw_brick_tile_def Let_def d column_def m_def [symmetric] cong: if_cong)
  have row: "b + 2 * s \<le> 8 * s" if "2 * s dvd b" "b < 8 * s" for b
    using multiple_fits [of "2 * s" b "8 * s"] that assms(1) by simp
  have col: "bx + m \<le> 12 * s" if "0 \<le> o'" "o' \<le> 3 * s" "6 * s dvd bx - o'" "bx < 12 * s" for bx o'
  proof -
    have "bx - o' < 12 * s" using that by linarith
    then have "bx - o' + 6 * s \<le> 12 * s" using multiple_fits [of "6 * s" "bx - o'" "12 * s"] that assms(1) by simp
    then show ?thesis using that m by linarith
  qed
  have "boxed x y (x + 12 * s) (y + 8 * s) (column b bx)"
    if "b \<in> set (strides 0 (8 * s) (2 * s))" "bx \<in> set (strides o' (12 * s) (6 * s))" "o' = 3 * s \<or> o' = 0" for b bx o'
    unfolding column_def using that assms row [of b] col [of o' bx]
    by (intro fill_rect_boxed) (auto simp: set_strides)
  moreover have "boxed x y (x + 12 * s) (y + 8 * s) (fill_rect x (y + b) (12 * s) m (th_brick_dark th))"
    if "b \<in> set (strides 0 (8 * s) (2 * s))" for b
    using that assms row [of b] m by (intro fill_rect_boxed) (auto simp: set_strides)
  moreover have "boxed x y (x + 12 * s) (y + 8 * s) (fill_rect x y (12 * s) (8 * s) c)" for c
    using assms by (intro fill_rect_boxed) simp_all
  ultimately show w: "boxed x y (x + 12 * s) (y + 8 * s) (draw_brick_tile x y (12 * s) (8 * s) th s flash)"
    unfolding tile by auto
  have "painted (draw_brick_tile x y (12 * s) (8 * s) th s flash) px py"
    if "x \<le> px \<and> px < x + 12 * s \<and> y \<le> py \<and> py < y + 8 * s"
    using that assms unfolding tile by (simp add: fill_rect_painted)
  then show "painted (draw_brick_tile x y (12 * s) (8 * s) th s flash) px py \<longleftrightarrow>
       x \<le> px \<and> px < x + 12 * s \<and> y \<le> py \<and> py < y + 8 * s"
    using boxed_painted [OF w] by blast
qed

section \<open>The maze on the screen\<close>

lemma layout_fields [simp]:
  "l_cell_w (layout_init k) = 12 * l_scale (layout_init k)" "l_cell_h (layout_init k) = 8 * l_scale (layout_init k)"
  "l_board_x (layout_init k) = 6 * l_scale (layout_init k)" "l_board_y (layout_init k) = 6 * l_scale (layout_init k)"
  "l_board_w (layout_init k) = 240 * l_scale (layout_init k)" "l_board_h (layout_init k) = 152 * l_scale (layout_init k)"
  "l_hud_y (layout_init k) = 164 * l_scale (layout_init k)" "l_win_w (layout_init k) = 252 * l_scale (layout_init k)"
  by (simp_all add: layout_init_def Let_def)

lemma layout_scale: "2 \<le> l_scale (layout_init k)" "l_scale (layout_init k) \<le> 6"
  by (simp_all add: layout_init_def Let_def)

lemma draw_cell_drawn:
  assumes "x < MAZE_W" "y < MAZE_H" "l = layout_init k" "s = l_scale l"
  shows "boxed (6 * s + int x * (12 * s)) (6 * s + int y * (8 * s)) (6 * s + int x * (12 * s) + 12 * s)
      (6 * s + int y * (8 * s) + 8 * s) (draw_cell l th g x y)"
    "painted (draw_cell l th g x y) px py \<longleftrightarrow> g_bricks g ! (y * MAZE_W + x) \<noteq> 0 \<and>
      6 * s + int x * (12 * s) \<le> px \<and> px < 6 * s + int x * (12 * s) + 12 * s \<and>
      6 * s + int y * (8 * s) \<le> py \<and> py < 6 * s + int y * (8 * s) + 8 * s"
proof -
  have s: "2 \<le> s" "s \<le> 6" using layout_scale [of k] by (simp_all add: assms(3,4))
  let ?X = "6 * s + int x * (12 * s)" and ?Y = "6 * s + int y * (8 * s)"
  have "int x * (12 * s) \<le> 19 * 72" "int y * (8 * s) \<le> 18 * 48" using assms(1,2) s by (intro mult_mono; simp)+
  moreover have "0 \<le> int x * (12 * s)" "0 \<le> int y * (8 * s)" using s by simp_all
  ultimately have X: "0 \<le> ?X" "?X + 12 * s < 32768" and Y: "0 \<le> ?Y" "?Y + 8 * s < 32768" using s by linarith+
  have c: "0 < s" "s dvd 12 * s" "s dvd 8 * s" using s by simp_all
  note checker = checker_tile [OF c X(1) Y(1) X(2) Y(2)]
  note brick = brick_tile [OF s(1) X(1) Y(1) X(2) Y(2)]
  have cell: "draw_cell l th g x y = (if g_bricks g ! (y * MAZE_W + x) \<noteq> 0 then
      if x = 0 \<or> x = 19 \<or> y = 0 \<or> y = 18
      then draw_checker_tile ?X ?Y (12 * s) (8 * s) (th_border_blue th) (th_border_gold th) s
      else draw_brick_tile ?X ?Y (12 * s) (8 * s) th s False else [])"
    using s unfolding assms(3,4) by (simp add: draw_cell_def Let_def)
  show "boxed ?X ?Y (?X + 12 * s) (?Y + 8 * s) (draw_cell l th g x y)"
    unfolding cell using checker(1) brick(1) by simp
  show "painted (draw_cell l th g x y) px py \<longleftrightarrow> g_bricks g ! (y * MAZE_W + x) \<noteq> 0 \<and>
      ?X \<le> px \<and> px < ?X + 12 * s \<and> ?Y \<le> py \<and> py < ?Y + 8 * s"
    unfolding cell using checker(2) brick(2) by simp
qed

lemma cell_of_pixel:
  assumes "0 < (c :: int)"
  shows "b + int x * c \<le> p \<and> p < b + int x * c + c \<longleftrightarrow> (p - b) div c = int x"
proof
  assume "b + int x * c \<le> p \<and> p < b + int x * c + c"
  then show "(p - b) div c = int x" by (intro int_div_pos_eq [of _ _ _ "p - b - int x * c"]) (simp_all add: algebra_simps)
next
  assume "(p - b) div c = int x"
  then have "p - b = int x * c + (p - b) mod c" using div_mult_mod_eq [of "p - b" c] by simp
  then show "b + int x * c \<le> p \<and> p < b + int x * c + c"
    using pos_mod_sign [OF assms, of "p - b"] pos_mod_bound [OF assms, of "p - b"] by linarith
qed

lemma zdiv_less_iff:
  assumes "0 < (c :: int)"
  shows "z div c < n \<longleftrightarrow> z < n * c"
proof
  assume "z < n * c"
  then have "z \<le> n * c - 1" by simp
  then have "z div c \<le> (n * c - 1) div c" using assms by (rule zdiv_mono1)
  also have "(n * c - 1) div c = n - 1"
    using assms by (intro int_div_pos_eq [of _ _ _ "c - 1"]) (simp_all add: algebra_simps)
  finally show "z div c < n" by simp
next
  assume "z div c < n"
  then show "z < n * c" using assms zdiv_mono1 [of "n * c" z c] by (cases "z < n * c") simp_all
qed

lemma draw_maze_painted:
  assumes "l = layout_init k"
  shows "painted (draw_maze l th g) px py \<longleftrightarrow> (\<exists>x < MAZE_W. \<exists>y < MAZE_H. g_bricks g ! (y * MAZE_W + x) \<noteq> 0 \<and>
    (px - l_board_x l) div l_cell_w l = int x \<and> (py - l_board_y l) div l_cell_h l = int y)"
proof -
  let ?s = "l_scale l"
  have s: "0 < 12 * ?s" "0 < 8 * ?s" using layout_scale [of k] by (simp_all add: assms)
  have "painted (draw_cell l th g x y) px py \<longleftrightarrow> g_bricks g ! (y * MAZE_W + x) \<noteq> 0 \<and>
      (px - l_board_x l) div l_cell_w l = int x \<and> (py - l_board_y l) div l_cell_h l = int y"
    if "x < MAZE_W" "y < MAZE_H" for x y
  proof -
    have l: "l_board_x l = 6 * ?s" "l_board_y l = 6 * ?s" "l_cell_w l = 12 * ?s" "l_cell_h l = 8 * ?s"
      by (simp_all add: assms)
    show ?thesis
      unfolding draw_cell_drawn(2) [OF that assms refl] l cell_of_pixel [OF s(1), symmetric] cell_of_pixel [OF s(2), symmetric]
      by blast
  qed
  then show ?thesis by (auto simp: draw_maze_def)
qed

text \<open>
  C16: The picture of the maze is the maze. At every scale, a pixel is painted by the tiles exactly
  when it lies on a cell of the board where the client's bitmap has a brick; nothing is painted
  beside the board, no tile is lost or displaced by the 16-bit fields of \<open>SDL_Rect\<close>.
\<close>

theorem maze_drawn_exactly:
  assumes "maze_ok g" "l = layout_init k"
  shows "painted (draw_maze l th g) px py \<longleftrightarrow>
    l_board_x l \<le> px \<and> px < l_board_x l + l_board_w l \<and> l_board_y l \<le> py \<and> py < l_board_y l + l_board_h l \<and>
    is_brick (g_brick_bits g) ((px - l_board_x l) div l_cell_w l) ((py - l_board_y l) div l_cell_h l)"
proof -
  let ?x = "(px - l_board_x l) div l_cell_w l" and ?y = "(py - l_board_y l) div l_cell_h l"
  have s: "0 < l_scale l" using layout_scale [of k] by (simp add: assms(2))
  have board: "l_board_x l \<le> px \<and> px < l_board_x l + l_board_w l \<longleftrightarrow> 0 \<le> ?x \<and> ?x < 20"
    "l_board_y l \<le> py \<and> py < l_board_y l + l_board_h l \<longleftrightarrow> 0 \<le> ?y \<and> ?y < 19"
    using s by (auto simp: assms(2) pos_imp_zdiv_nonneg_iff zdiv_less_iff)
  have "painted (draw_maze l th g) px py \<longleftrightarrow>
      on_map ?x ?y \<and> g_bricks g ! nat (?y * 20 + ?x) \<noteq> 0"
  proof
    assume "painted (draw_maze l th g) px py"
    then obtain x y where "x < 20" "y < 19" "g_bricks g ! (y * 20 + x) \<noteq> 0" "?x = int x" "?y = int y"
      unfolding draw_maze_painted [OF assms(2)] by auto
    moreover from this have "nat (?y * 20 + ?x) = y * 20 + x" by simp
    ultimately show "on_map ?x ?y \<and> g_bricks g ! nat (?y * 20 + ?x) \<noteq> 0" by (simp add: on_map_def)
  next
    assume on: "on_map ?x ?y \<and> g_bricks g ! nat (?y * 20 + ?x) \<noteq> 0"
    then have n: "nat (?y * 20 + ?x) = nat ?y * 20 + nat ?x" "nat ?x < 20" "nat ?y < 19" "?x = int (nat ?x)" "?y = int (nat ?y)"
      by (simp_all add: on_map_def nat_add_distrib nat_mult_distrib nat_less_iff)
    have "g_bricks g ! (nat ?y * 20 + nat ?x) \<noteq> 0" using on n(1) by simp
    with n(2-5) show "painted (draw_maze l th g) px py" unfolding draw_maze_painted [OF assms(2)] by blast
  qed
  then show ?thesis using board maze_ok_lookup [OF assms(1), of ?x ?y] by (auto simp: on_map_def)
qed

section \<open>Everything stays in the window\<close>

lemma bitmap_boxed:
  assumes "1 \<le> pix" "0 \<le> x" "0 \<le> y" "x + 8 * pix < 32768" "y + 8 * pix < 32768"
  shows "boxed x y (x + 8 * pix) (y + 8 * pix) (draw_bitmap8 x y pix rows fg alt)"
proof -
  have dot: "boxed x y (x + 8 * pix) (y + 8 * pix) (fill_rect (x + int c * pix) (y + int r * pix) pix pix col)"
    if "c < 8" "r < 8" for c r col
  proof -
    have "int c * pix \<le> 7 * pix" "int r * pix \<le> 7 * pix" using that assms(1) by simp_all
    moreover have "0 \<le> int c * pix" "0 \<le> int r * pix" using assms(1) by simp_all
    ultimately show ?thesis using assms by (intro fill_rect_boxed) linarith+
  qed
  then show ?thesis using assms(1) by (auto simp: draw_bitmap8_def Let_def)
qed

text \<open>A sprite with its muzzle, drawn at a cell that starts at \<open>px\<close>, \<open>py\<close>.\<close>

lemma player_sprite_boxed:
  assumes "2 \<le> s" "s \<le> 6" "6 * s \<le> px" "6 * s \<le> py" "px \<le> 240 * s" "py \<le> 152 * s"
  shows "boxed 0 0 (252 * s) (164 * s) (draw_player_sprite px py (12 * s) (8 * s) dir step body blink th)"
proof -
  define pix where "pix = (8 * s) div 10"
  have pix: "1 \<le> pix" "10 * pix \<le> 8 * s" using assms(1) by (auto simp: pix_def)
  have d: "(8 * s) sdiv 10 = pix" "(12 * s - 8 * pix) sdiv 2 = 6 * s - 4 * pix" "(8 * s - 8 * pix) sdiv 2 = 4 * s - 4 * pix"
    using assms(1) pix by (simp_all add: sdiv_nonneg pix_def [symmetric])
  define ox where "ox = px + (6 * s - 4 * pix)"
  define oy where "oy = py + (4 * s - 4 * pix)"
  have o': "3 * pix \<le> ox" "3 * pix \<le> oy" "ox + 11 * pix \<le> 252 * s" "oy + 11 * pix \<le> 164 * s"
    using assms pix by (simp_all add: ox_def oy_def)
  have lim: "252 * s < 32768" "164 * s < 32768" using assms by simp_all
  have "boxed 0 0 (252 * s) (164 * s) (draw_bitmap8 ox oy pix rows fg alt)" for rows fg alt
    using o' lim pix by (intro boxed_mono [OF bitmap_boxed]) simp_all
  moreover have "boxed 0 0 (252 * s) (164 * s) (fill_rect x y w h c)"
    if "ox - 3 * pix \<le> x" "oy - 3 * pix \<le> y" "x + w \<le> ox + 11 * pix" "y + h \<le> oy + 11 * pix" for x y w h c
    using that o' lim by (intro fill_rect_boxed) simp_all
  moreover have "\<not> (8 * s) sdiv 10 < 1" using d(1) pix by simp
  ultimately show ?thesis
    using pix by (simp add: draw_player_sprite_def Let_def d ox_def [symmetric] oy_def [symmetric] cong: if_cong)
qed

lemma shot_sprite_boxed:
  assumes "2 \<le> s" "s \<le> 6" "6 * s \<le> px" "6 * s \<le> py" "px \<le> 240 * s" "py \<le> 152 * s"
  shows "boxed 0 0 (252 * s) (164 * s) (draw_shot_sprite px py (12 * s) (8 * s) dir blink th)"
proof -
  have d: "(8 * s) sdiv 8 = s" "(12 * s) sdiv 2 = 6 * s" "(8 * s) sdiv 2 = 4 * s" using assms(1) by (simp_all add: sdiv_nonneg)
  have lim: "252 * s < 32768" "164 * s < 32768" using assms by simp_all
  have "boxed 0 0 (252 * s) (164 * s) (fill_rect x y w h c)"
    if "px \<le> x" "py \<le> y" "x + w \<le> px + 12 * s" "y + h \<le> py + 8 * s" for x y w h c
    using that assms lim by (intro fill_rect_boxed) simp_all
  then show ?thesis using assms(1) by (simp add: draw_shot_sprite_def Let_def d cong: if_cong)
qed

text \<open>The pixel of a coordinate lies on the board.\<close>

lemma to_int_fl_range:
  assumes "0 \<le> c" "c \<le> of_int m" "0 \<le> cell" "cell \<le> 2 ^ 22" "0 \<le> m" "m * cell \<le> 2 ^ 22"
  shows "0 \<le> to_int (float_mul c (fl (of_int cell)))" "to_int (float_mul c (fl (of_int cell))) \<le> m * cell"
    "0 \<le> to_int (float_add (float_mul c (fl (of_int cell))) (1 / 2))"
    "to_int (float_add (float_mul c (fl (of_int cell))) (1 / 2)) \<le> m * cell"
proof -
  let ?n = "m * cell"
  have n: "0 \<le> ?n" using assms by simp
  have cell: "fl (of_int cell) = of_int cell" using assms by (intro fl_of_int) simp
  define z where "z = float_mul c (fl (of_int cell))"
  have "c * of_int cell \<le> of_int m * of_int cell" using assms by (intro mult_right_mono) simp_all
  then have "fl (c * of_int cell) \<le> fl (of_int ?n)" by (intro fl_mono) simp
  also have "fl (of_int ?n) = of_int ?n" using n assms(6) by (intro fl_of_int) simp
  finally have z: "0 \<le> z" "z \<le> of_int ?n"
    using assms by (simp_all add: z_def cell float_mul_def fl_nonneg)
  have half: "fl (of_int ?n + 1 / 2) = of_int ?n + 1 / 2"
  proof -
    have "\<bar>2 * ?n + 1\<bar> \<le> 2 ^ 24" using n assms(6) by simp
    from fl_grid [OF this, of "-1"] show ?thesis by (simp add: add_divide_distrib)
  qed
  have "0 \<le> float_add z (1 / 2)" "float_add z (1 / 2) \<le> of_int ?n + 1 / 2"
    using fl_nonneg [of "z + 1 / 2"] fl_mono [of "z + 1 / 2" "of_int ?n + 1 / 2"] z half by (simp_all add: float_add_def)
  then show "0 \<le> to_int (float_add (float_mul c (fl (of_int cell))) (1 / 2))"
    "to_int (float_add (float_mul c (fl (of_int cell))) (1 / 2)) \<le> ?n"
    using to_int_mono [of 0] to_int_mono [of _ "of_int ?n + 1 / 2"] to_int_of_int [of 0] to_int_half [OF n]
    unfolding z_def by fastforce+
  show "0 \<le> to_int (float_mul c (fl (of_int cell)))" "to_int (float_mul c (fl (of_int cell))) \<le> ?n"
    using to_int_mono [OF z(1)] to_int_mono [OF z(2)] to_int_of_int [of 0] unfolding z_def to_int_of_int by simp_all
qed

lemma cell_pixels:
  assumes "coord_in b c" "0 < b" "0 \<le> cell" "cell \<le> 100" "b \<le> 20"
  shows "0 \<le> player_pixel cell c \<and> player_pixel cell c \<le> (uint b - 1) * cell"
    "0 \<le> fx_pixel cell c \<and> fx_pixel cell c \<le> (uint b - 1) * cell"
proof -
  have b: "0 < unat b" "unat b \<le> 20" using assms(2,5) by (simp_all add: word_less_nat_alt word_le_nat_alt)
  have c: "0 \<le> coord_val c" "coord_val c \<le> of_int (int (unat b - 1))"
    using coord_val_range [OF assms(1)] by simp_all
  have "int (unat b - 1) \<le> 20" using b by linarith
  then have "int (unat b - 1) * cell \<le> 20 * 100" using assms by (intro mult_mono) simp_all
  then have "int (unat b - 1) * cell \<le> 2 ^ 22" by simp
  moreover have "cell \<le> 2 ^ 22" using assms(4) by simp
  moreover have "int (unat b - 1) = uint b - 1" using b by (simp add: of_nat_diff)
  ultimately show "0 \<le> player_pixel cell c \<and> player_pixel cell c \<le> (uint b - 1) * cell"
    "0 \<le> fx_pixel cell c \<and> fx_pixel cell c \<le> (uint b - 1) * cell"
    using to_int_fl_range [OF c assms(3)] by (simp_all add: player_pixel_def fx_pixel_def)
qed

lemma fx_radius_range:
  assumes "0 \<le> t" "t \<le> 1" "0 \<le> half" "half \<le> 100"
  shows "0 \<le> fx_radius (2 * half) t \<and> fx_radius (2 * half) t \<le> half"
proof -
  have "half \<le> 2 ^ 22" using assms(4) by simp
  then show ?thesis
    using to_int_fl_range(1,2) [of t 1 half] assms by (simp add: fx_radius_def sdiv_nonneg float_mul_def mult.commute)
qed

text \<open>An effect around the middle of a cell, with a radius of at most half the cell's width.\<close>

lemma fx_cross_boxed:
  assumes "2 \<le> s" "s \<le> 6" "12 * s \<le> cx" "10 * s \<le> cy" "cx \<le> 240 * s" "cy \<le> 156 * s" "0 \<le> radius" "radius \<le> 6 * s"
  shows "boxed 0 0 (252 * s) (164 * s) (fx_cross cx cy radius s c)"
  using assms unfolding fx_cross_def by (simp, intro conjI fill_rect_boxed) simp_all

lemma effect_boxed:
  assumes "fx_ok f" "0 \<le> t" "t \<le> 1" "l = layout_init k"
  shows "boxed 0 0 (l_win_w l) (l_hud_y l) (draw_effect l th f t)"
proof -
  define s where "s = l_scale l"
  have s: "2 \<le> s" "s \<le> 6" using layout_scale [of k] by (simp_all add: s_def assms(4))
  have l: "l_board_x l = 6 * s" "l_board_y l = 6 * s" "l_cell_w l = 12 * s" "l_cell_h l = 8 * s"
    "l_win_w l = 252 * s" "l_hud_y l = 164 * s"
    by (simp_all add: s_def assms(4))
  have d: "(12 * s) sdiv 2 = 6 * s" "(8 * s) sdiv 2 = 4 * s" "(8 * s) sdiv 8 = s" using s by (simp_all add: sdiv_nonneg)
  define x where "x = 6 * s + fx_pixel (12 * s) (fx_gx f)"
  define y where "y = 6 * s + fx_pixel (8 * s) (fx_gy f)"
  have xy: "6 * s \<le> x" "x \<le> 234 * s" "6 * s \<le> y" "y \<le> 150 * s"
    using cell_pixels(2) [of 20 "fx_gx f" "12 * s"] cell_pixels(2) [of 19 "fx_gy f" "8 * s"] assms(1) s
    by (simp_all add: x_def y_def fx_ok_def)
  have one: "0 \<le> float_sub 1 t" "float_sub 1 t \<le> 1"
    using assms(2,3) fl_nonneg [of "1 - t"] fl_mono [of "1 - t" 1] fl_of_int [of 1] by (simp_all add: float_sub_def)
  have r: "0 \<le> fx_radius (12 * s) t \<and> fx_radius (12 * s) t \<le> 6 * s"
    "0 \<le> fx_radius (8 * s) t \<and> fx_radius (8 * s) t \<le> 6 * s"
    "0 \<le> fx_radius (12 * s) (float_sub 1 t) \<and> fx_radius (12 * s) (float_sub 1 t) \<le> 6 * s"
    using fx_radius_range [OF assms(2,3), of "6 * s"] fx_radius_range [OF assms(2,3), of "4 * s"]
      fx_radius_range [OF one, of "6 * s"] s by simp_all
  have cross: "boxed 0 0 (252 * s) (164 * s) (fx_cross (x + 6 * s) (y + 4 * s) radius s c)"
    if "0 \<le> radius \<and> radius \<le> 6 * s" for radius c
    using that xy s by (intro fx_cross_boxed) simp_all
  have dot: "boxed 0 0 (252 * s) (164 * s) (fill_rect u v w h c)"
    if "x \<le> u" "y - 2 * s \<le> v" "u + w \<le> x + 13 * s" "v + h \<le> y + 11 * s" for u v w h c
    using that xy s by (intro fill_rect_boxed) simp_all
  show ?thesis
    unfolding draw_effect_def Let_def l d x_def [symmetric] y_def [symmetric]
    using s r by (auto split: fx_type.split intro!: cross dot)
qed

lemma draw_fx_boxed:
  assumes "fx_ok f" "l = layout_init k"
  shows "boxed 0 0 (l_win_w l) (l_hud_y l) (fst (draw_fx_one l th now f))"
  using effect_boxed [OF assms(1) time_share_range assms(2)] by (simp add: draw_fx_one_def)

lemma draw_maze_boxed:
  assumes "l = layout_init k"
  shows "boxed 0 0 (l_win_w l) (l_hud_y l) (draw_maze l th g)"
proof -
  have "boxed 0 0 (l_win_w l) (l_hud_y l) (draw_cell l th g x y)" if "x < 20" "y < 19" for x y
  proof -
    let ?s = "l_scale l"
    have s: "2 \<le> ?s" using layout_scale [of k] by (simp add: assms)
    have "int x * (12 * ?s) \<le> 19 * (12 * ?s)" "int y * (8 * ?s) \<le> 18 * (8 * ?s)" "0 \<le> int x * (12 * ?s)" "0 \<le> int y * (8 * ?s)"
      using that s by simp_all
    then show ?thesis
      using s by (intro boxed_mono [OF draw_cell_drawn(1) [OF that assms refl]]) (simp_all add: assms)
  qed
  then show ?thesis by (simp add: draw_maze_def)
qed

text \<open>
  C17: The game is drawn inside the window. In every state the packet handler can produce, at every
  scale and at every moment, each rectangle of the maze, the shots, the walking players with their
  muzzles and the effects lies inside the window and above the text below the board.
\<close>

theorem game_inside_window:
  assumes "game_ok g" "l = layout_init k"
  shows "boxed 0 0 (l_win_w l) (l_hud_y l) (draw_board l th now g)"
proof -
  define s where "s = l_scale l"
  have s: "2 \<le> s" "s \<le> 6" using layout_scale [of k] by (simp_all add: s_def assms(2))
  have l: "l_board_x l = 6 * s" "l_board_y l = 6 * s" "l_cell_w l = 12 * s" "l_cell_h l = 8 * s"
    "l_win_w l = 252 * s" "l_hud_y l = 164 * s"
    by (simp_all add: s_def assms(2))
  have maze: "boxed 0 0 (l_win_w l) (l_hud_y l) (draw_maze l th g)" by (rule draw_maze_boxed [OF assms(2)])
  have shots: "boxed 0 0 (l_win_w l) (l_hud_y l) (draw_shot_of l th blink sh)" if "sh \<in> set (g_shots g)" for sh blink
  proof -
    have "w_x sh < 20" "w_y sh < 19" using assms(1) that by (simp_all add: game_ok_def list_all_iff shot_view_ok_def)
    then have "uint (w_x sh) \<le> 19" "uint (w_y sh) \<le> 18" by (simp_all add: word_less_def)
    then have "uint (w_x sh) * (12 * s) \<le> 19 * (12 * s)" "uint (w_y sh) * (8 * s) \<le> 18 * (8 * s)" using s by simp_all
    then show ?thesis unfolding draw_shot_of_def l using s by (auto intro!: shot_sprite_boxed)
  qed
  have players: "boxed 0 0 (l_win_w l) (l_hud_y l) (draw_player_of l th blink now g i)" if "i < MAX_PLAYERS" for i blink
  proof -
    obtain gx gy where pos: "interp_player (g_panim g ! i) now = (gx, gy)" by force
    have "anim_ok (g_panim g ! i)" using assms(1) that by (simp add: game_ok_def list_all_length)
    then have "coord_in 20 gx" "coord_in 19 gy" using interp_player_in [OF _ pos] by simp_all
    then have "0 \<le> player_pixel (12 * s) gx \<and> player_pixel (12 * s) gx \<le> 19 * (12 * s)"
      "0 \<le> player_pixel (8 * s) gy \<and> player_pixel (8 * s) gy \<le> 18 * (8 * s)"
      using cell_pixels(1) [of 20 gx "12 * s"] cell_pixels(1) [of 19 gy "8 * s"] s by simp_all
    then show ?thesis unfolding draw_player_of_def l using s pos by (auto simp: Let_def intro!: player_sprite_boxed)
  qed
  have "boxed 0 0 (l_win_w l) (l_hud_y l) (fst (draw_fx_one l th now f))" if "f \<in> set (g_fx g)" for f
    using assms(1) that by (intro draw_fx_boxed [OF _ assms(2)]) (simp add: game_ok_def list_all_iff)
  then show ?thesis using maze shots players by (simp add: draw_board_def draw_fx_def)
qed

section \<open>Frames\<close>

lemma draw_fx_keeps [simp]:
  "g_round_phase (snd (draw_fx l th now g)) = g_round_phase g" "g_have_welcome (snd (draw_fx l th now g)) = g_have_welcome g"
  "g_winner_pid (snd (draw_fx l th now g)) = g_winner_pid g"
  by (simp_all add: draw_fx_def)

lemma draw_fx_one_ok: "fx_ok f \<Longrightarrow> fx_ok (snd (draw_fx_one l th now f))"
  by (simp add: draw_fx_one_def fx_ok_def)

lemma draw_fx_game_ok: "game_ok g \<Longrightarrow> game_ok (snd (draw_fx l th now g))"
  by (auto simp: draw_fx_def game_ok_def maze_ok_def list_all_iff draw_fx_one_ok)

lemma draw_overlay_None:
  "draw_overlay l th g = None \<longleftrightarrow> g_round_phase g = PHASE_OVER \<and> g_have_welcome g \<and> 4 \<le> g_winner_pid g"
  by (auto simp: draw_overlay_def draw_result_def winner_line_def display_name_def Let_def word_le_nat_alt)

text \<open>
  When a frame is undefined. Drawing a frame has undefined behaviour exactly when the round is
  over, the client has been welcomed, and the winner it was told is not one of the four slots: the
  client takes that byte from MATCH_END unchecked as an array index.
\<close>

theorem frame_undefined_exactly:
  "render_game l th host port now g = None \<longleftrightarrow>
    g_round_phase g = PHASE_OVER \<and> g_have_welcome g \<and> 4 \<le> g_winner_pid g"
  by (simp add: render_game_def Let_def draw_overlay_None)

text \<open>
  Drawing keeps the game. A frame leaves the state well formed, changes nothing but effects that
  have run out, and afterwards no effect is active whose time is over.
\<close>

theorem frame_keeps_game:
  assumes "game_ok g" "render_game l th host port now g = Some (bs, g1)"
  shows "game_ok g1 \<and> g1\<lparr>g_fx := g_fx g\<rparr> = g \<and>
    (\<forall>i < FX_MAX. g_fx g1 ! i = g_fx g ! i \<or> g_fx g1 ! i = (g_fx g ! i)\<lparr>fx_active := False\<rparr>) \<and>
    (\<forall>f \<in> set (g_fx g1). fx_active f \<and> fx_dur_ms f \<noteq> 0 \<longrightarrow> now < fx_start_ms f + ucast (fx_dur_ms f))"
proof -
  have g1: "g1 = snd (draw_fx l th now g)" using assms(2) by (auto simp: render_game_def Let_def)
  have len: "length (g_fx g) = FX_MAX" using assms(1) by (simp add: game_ok_def)
  show ?thesis
    using draw_fx_game_ok [OF assms(1)] len
    by (auto simp: g1) (auto simp: draw_fx_def draw_fx_one_def split: if_splits)
qed

text \<open>
  C28: Every result of the server can be drawn. When the round of a room is over, which always satisfies
  \<open>round_ok\<close>, its frozen MATCH_END packet takes a client in that round to a state it can draw at
  any moment, with a winner among the four slots whose score is the kill limit shown.
\<close>

theorem server_result_drawn:
  assumes "round_ok r" "r_round_state r = ROUND_OVER" "g_round_id g = r_round_id r"
    and "g' = handle_game (r_frozen_match r) now from_reliable g"
  shows "render_game l th host port later g' \<noteq> None \<and> g_round_phase g' = PHASE_OVER \<and>
    g_winner_pid g' < 4 \<and> v_score (g_players g' ! unat (g_winner_pid g')) = g_kill_limit g'"
proof -
  obtain w where w: "w < 4" "r_winner_pid r = of_nat w" "r_final_scores r ! w = kill_limit r"
    and frozen: "r_frozen_match r = match_end_packet r" "length (r_frozen_match r) = 43" "length (r_final_scores r) = 4"
    using assms(1,2) by (auto simp: round_ok_def result_ok_def)
  define buf where "buf = r_frozen_match r"
  have score: "buf ! (6 + w) = kill_limit r"
    using w frozen(3) by (simp add: buf_def frozen(1) match_end_packet_def nth_append)
  have bytes: "length buf = 43" "buf ! 0 = PKT_MATCH_END" "buf ! 1 = g_round_id g" "buf ! 2 = of_nat w" "buf ! 5 = kill_limit r"
    using frozen assms(3) w(2) by (simp_all add: buf_def match_end_packet_def kill_limit_def)
  have g': "g' = on_match_end buf g" using bytes(1,2) by (simp add: assms(4) buf_def [symmetric] handle_game_def Let_def)
  have win: "unat (of_nat w :: u8) = w" "(of_nat w :: u8) < 4"
    using w(1) by (simp_all add: word_less_nat_alt unat_of_nat)
  have fields: "g_round_phase g' = PHASE_OVER" "g_winner_pid g' = of_nat w" "g_kill_limit g' = kill_limit r"
    "v_score (g_players g' ! w) = buf ! (6 + w)"
    using bytes w(1) by (simp_all add: g' on_match_end_def)
  then have "\<not> 4 \<le> g_winner_pid g'" using win(2) by simp
  then have "render_game l th host port later g' \<noteq> None" by (simp add: render_game_def Let_def draw_overlay_None)
  then show ?thesis using fields score win by simp
qed

section \<open>Left and right\<close>

text \<open>\<open>mirror_bits8\<close> turns a row of eight pixels around.\<close>

lemma mirror_bits8_exact: "bit (mirror_bits8 v) i \<longleftrightarrow> i < 8 \<and> bit v (7 - i)"
proof (cases "i < 8")
  case True
  then consider "i = 0" | "i = 1" | "i = 2" | "i = 3" | "i = 4" | "i = 5" | "i = 6" | "i = 7" by linarith
  then show ?thesis
    unfolding mirror_bits8_def Let_def bit_or_iff bit_and_iff bit_drop_bit_eq bit_push_bit_iff o_def
    by cases simp_all
next
  case False
  then show ?thesis using bit_imp_le_length [of "mirror_bits8 v" i] by auto
qed

lemma mirror_twice: "mirror_bits8 (mirror_bits8 v) = v"
proof (rule bit_word_eqI)
  fix i assume "i < LENGTH(8)"
  then show "bit (mirror_bits8 (mirror_bits8 v)) i = bit v i" by (auto simp: mirror_bits8_exact)
qed

text \<open>A player looking left is the mirror image of the same player looking right.\<close>

lemma left_is_right_mirrored:
  "select_player_rows 2 step = map mirror_bits8 (select_player_rows 0 step)"
  by (simp add: select_player_rows_def Let_def)

section \<open>The prompt\<close>

text \<open>The lines of the prompt are never cut off.\<close>

lemma prompt_lines_fit:
  assumes "prompt_ok p"
  shows "field_line (HOST_MAX + 8) ''HOST: '' (c_text (pr_host p)) cursor =
      ''HOST: '' @ c_text (pr_host p) @ (if cursor then ''_'' else '' '')"
    "field_line (NAME_LEN + 10) ''NAME: '' (c_text (pr_name p)) cursor =
      ''NAME: '' @ c_text (pr_name p) @ (if cursor then ''_'' else '' '')"
proof -
  have "length (c_text bs) \<le> n" if "length bs \<le> n" for bs n
    using length_takeWhile_le [of "\<lambda>b. b \<noteq> 0" bs] that by (simp add: c_text_def)
  then have "length (c_text (pr_host p)) \<le> 63" "length (c_text (pr_name p)) \<le> 8"
    using assms by (simp_all add: prompt_ok_def)
  then show "field_line (HOST_MAX + 8) ''HOST: '' (c_text (pr_host p)) cursor =
      ''HOST: '' @ c_text (pr_host p) @ (if cursor then ''_'' else '' '')"
    "field_line (NAME_LEN + 10) ''NAME: '' (c_text (pr_name p)) cursor =
      ''NAME: '' @ c_text (pr_name p) @ (if cursor then ''_'' else '' '')"
    by (simp_all add: field_line_def printed_def)
qed

section \<open>A picture\<close>

definition demo_theme :: theme where
  "demo_theme = theme_init (\<lambda>r g b. ucast r OR push_bit 8 (ucast g) OR push_bit 16 (ucast b))"

theorem walk_is_smooth_witness:
  "coord_val (Between (At 0) 1 0 100 50) \<le> max (coord_val (At 0)) (of_nat (unat (1 :: u8)))"
proof -
  let ?p = "anim_zero\<lparr>a_known := True\<rparr>"
  have p: "anim_ok ?p" by (simp add: anim_ok_def anim_zero_def)
  have "interp_player ?p 0 = (At 0, At 0)" by (simp add: interp_player_def anim_zero_def)
  moreover have "interp_player (walk_to 1 0 0 ?p) 50 = (Between (At 0) 1 0 100 50, Between (At 0) 0 0 100 50)"
    by (simp add: interp_player_def walk_to_def anim_zero_def)
  moreover have "unat (0 :: u64) + 100 < 2 ^ 64" by simp
  ultimately show ?thesis using walk_is_smooth [OF p] by blast
qed

theorem maze_drawn_exactly_witness:
  "painted (draw_maze (layout_init 3) demo_theme (decode_brick_full (replicate 48 0xFF) (game_zero (-1)))) 100 100"
proof -
  have "maze_ok (decode_brick_full (replicate 48 0xFF) (game_zero (-1)))" by (rule maze_ok_decode) simp
  from maze_drawn_exactly [OF this refl, of 3 demo_theme 100 100] show ?thesis
    by (simp add: layout_init_def decode_brick_full_def is_brick_def Let_def)
qed

theorem game_inside_window_witness:
  "boxed 0 0 (l_win_w (layout_init 4)) (l_hud_y (layout_init 4)) (draw_board (layout_init 4) demo_theme 5 (game_zero (-1)))"
  using game_inside_window [OF game_zero_ok refl, of "-1" 4 demo_theme 5] by simp

theorem frame_keeps_game_witness:
  "\<exists>bs g1. render_game (layout_init 4) demo_theme ''localhost'' 9000 5 (game_zero (-1)) = Some (bs, g1) \<and> game_ok g1"
proof -
  have "render_game (layout_init 4) demo_theme ''localhost'' 9000 5 (game_zero (-1)) \<noteq> None"
    by (simp add: render_game_def Let_def draw_overlay_None) (simp add: game_zero_def)
  then obtain bs g1 where f: "render_game (layout_init 4) demo_theme ''localhost'' 9000 5 (game_zero (-1)) = Some (bs, g1)" by auto
  have "game_ok (game_zero (-1))" by (rule game_zero_ok) simp_all
  from frame_keeps_game [OF this f] f show ?thesis by blast
qed

theorem server_result_drawn_witness:
  "g_winner_pid (handle_game (r_frozen_match (snd (award_score 2 500 match_point))) 7 True
     ((game_zero (-1))\<lparr>g_round_id := r_round_id (snd (award_score 2 500 match_point))\<rparr>)) < 4"
proof -
  let ?r = "snd (award_score 2 500 match_point)"
  have "round_ok ?r" by (rule round_ok_award) (rule match_point_ok)+
  moreover have "p_score (r_players match_point ! 2) + 1 = kill_limit match_point"
    by (simp add: match_point_def upd_player_def modify_def demo_room_def demo_player_def player_zero_def
        kill_limit_def demo_config_def)
  then have "?r = enter_round_over 2 500 (upd_player 2 (\<lambda>p. p\<lparr>p_score := kill_limit match_point\<rparr>) match_point)"
    using award_score_cases [OF match_point_ok(3,1,2), of 2 500] by simp
  then have "r_round_state ?r = ROUND_OVER"
    using match_point_ok(3) by (simp add: enter_round_over_result(1) [OF _ refl])
  moreover have "g_round_id ((game_zero (-1))\<lparr>g_round_id := r_round_id ?r\<rparr>) = r_round_id ?r" by simp
  ultimately show ?thesis using server_result_drawn [OF _ _ _ refl] by blast
qed

end
