(* ===== verification/Link.thy ===== *)
theory Link
  imports Client
begin

text \<open>
  The reliable stream from the server's event ring to a client's game, end to end: the operations
  of \<^verbatim>\<open>server/main.c\<close> on a client slot, the two directions of the TCP connection as queues of
  packets, and the packet handler of \<^verbatim>\<open>sdl_main.c\<close>. Lemmas: what each side transmits, the
  numbering that ties the two sides together, and exactly-once delivery in order. The queues are
  those of a connection that has not failed.
\<close>

section \<open>The connection\<close>

text \<open>
  \<open>l_down\<close> and \<open>l_up\<close> are the packets on the way to the client and to the server.
  \<open>l_posted\<close> and \<open>l_applied\<close> record the events queued at the server and those handed to the
  client's game.
\<close>

record link =
  l_server :: client_slot
  l_env :: env
  l_client :: client
  l_down :: "bytes list"
  l_up :: "bytes list"
  l_posted :: "bytes list"
  l_applied :: "bytes list"

definition head_packet :: "client_slot \<Rightarrow> bytes" where
  "head_packet c = rq_pkt (reliable_q c ! reliable_head c)"

text \<open>The packets an operation transmits that turns the slot \<open>c\<close> into \<open>d\<close>.\<close>

definition enqueue_out :: "bool \<Rightarrow> client_slot \<Rightarrow> bytes list" where
  "enqueue_out ok d = (if ok \<and> reliable_count d = 1 then [head_packet d] else [])"

definition tick_out :: "u64 \<Rightarrow> client_slot \<Rightarrow> client_slot \<Rightarrow> bytes list" where
  "tick_out now c d = (if 0 < reliable_count c \<and> now - reliable_last_send_ms c \<ge> RELIABLE_RESEND_MS
     then [head_packet d] else [])"

definition ack_out :: "u16 \<Rightarrow> client_slot \<Rightarrow> client_slot \<Rightarrow> bytes list" where
  "ack_out a c d = (if \<not> rev_after a (reliable_sent_rev c) \<and> 0 < reliable_count d then [head_packet d] else [])"

definition takes_event :: "bytes \<Rightarrow> client \<Rightarrow> bool" where
  "takes_event p k \<longleftrightarrow> g_have_welcome (k_game k) \<and> 7 \<le> length p \<and> p ! 0 = PKT_RELIABLE_EVENT"

definition ack_packet :: "u8 \<Rightarrow> u16 \<Rightarrow> bytes" where
  "ack_packet seq applied = [PKT_RELIABLE_ACK, seq, ucast applied, ucast (drop_bit 8 applied)]"

text \<open>What the client transmits and applies when it handles \<open>p\<close> and becomes \<open>k'\<close>.\<close>

definition acks_sent :: "bytes \<Rightarrow> client \<Rightarrow> client \<Rightarrow> bytes list" where
  "acks_sent p k k' = (if takes_event p k then [ack_packet (k_seq k) (k_rev k')] else [])"

definition events_taken :: "bytes \<Rightarrow> client \<Rightarrow> client \<Rightarrow> bytes list" where
  "events_taken p k k' = (if k_rev k' \<noteq> k_rev k then [drop 4 p] else [])"

inductive link_step :: "link \<Rightarrow> link \<Rightarrow> bool" where
  post: "reliable_inner_is_valid event \<Longrightarrow>
    reliable_enqueue_client (l_server s) event seq now (l_env s) = (ok, c, seq', e) \<Longrightarrow>
    link_step s (s\<lparr>l_server := c, l_env := e, l_down := l_down s @ enqueue_out ok c,
      l_posted := l_posted s @ (if ok then [event] else [])\<rparr>)"
| resend: "reliable_tick_step now 0 ([l_server s], l_env s) = ([c], e) \<Longrightarrow>
    link_step s (s\<lparr>l_server := c, l_env := e, l_down := l_down s @ tick_out now (l_server s) c\<rparr>)"
| ack: "l_up s = p # rest \<Longrightarrow> reliable_ack (l_server s) (event_rev p) now (l_env s) = (c, e) \<Longrightarrow>
    link_step s (s\<lparr>l_server := c, l_env := e, l_up := rest,
      l_down := l_down s @ ack_out (event_rev p) (l_server s) c\<rparr>)"
| other: "p \<noteq> [] \<Longrightarrow> p ! 0 \<noteq> PKT_RELIABLE_EVENT \<Longrightarrow> send_checked (l_server s) p (l_env s) = (c, e) \<Longrightarrow>
    link_step s (s\<lparr>l_server := c, l_env := e, l_down := l_down s @ [p]\<rparr>)"
| deliver: "l_down s = p # rest \<Longrightarrow> k = handle_packet p now False (l_client s) \<Longrightarrow>
    link_step s (s\<lparr>l_client := k, l_down := rest, l_up := l_up s @ acks_sent p (l_client s) k,
      l_applied := l_applied s @ events_taken p (l_client s) k\<rparr>)"

text \<open>A connection just seated, with a client that has just connected.\<close>

definition link_start :: "link \<Rightarrow> bool" where
  "link_start s \<longleftrightarrow> link_ok (l_server s) \<and> seated (l_server s) \<and> reliable_count (l_server s) = 0 \<and>
     reliable_acked_rev (l_server s) = 0 \<and> k_rev (l_client s) = 0 \<and>
     l_down s = [] \<and> l_up s = [] \<and> l_posted s = [] \<and> l_applied s = []"

inductive link_reach :: "link \<Rightarrow> bool" where
  link_init: "link_start s \<Longrightarrow> link_reach s"
| link_next: "link_reach s \<Longrightarrow> link_step s t \<Longrightarrow> link_reach t"

section \<open>What each side transmits\<close>

text \<open>\<open>send_checked\<close> appends one frame to the stream of its connection.\<close>

definition slot_stream :: "client_slot \<Rightarrow> env \<Rightarrow> bytes \<Rightarrow> bool" where
  "slot_stream c e s = tx_stream (c_fd c) (c_tx c) e s"

lemma slot_stream_send:
  assumes "slot_stream c e s" "length p \<le> 62"
  shows "slot_stream (fst (send_checked c p e)) (snd (send_checked c p e)) (s @ encode_frame p)"
  using send_frame_spec(5) [of "c_fd c" "c_tx c" p e _ _ _ s] assms
  by (simp add: slot_stream_def send_checked_def split_beta prod_eq_iff)

lemma reliable_packet_length: "packet_of_rev m \<Longrightarrow> length (snd m) \<le> 56"
  by (auto simp: packet_of_rev_def reliable_packet_def)

lemma head_packet_length:
  assumes "list_all packet_of_rev (outbox c)" "ring_shape c" "0 < reliable_count c"
  shows "length (head_packet c) \<le> 62"
proof -
  have "packet_of_rev (hd (outbox c))" using assms(1,3) by (simp add: list_all_hd)
  then show ?thesis
    using reliable_packet_length [of "hd (outbox c)"] outbox_hd [OF assms(2,3)] by (simp add: head_packet_def)
qed

lemma send_from_head: "ring_shape c \<Longrightarrow> head_packet (fst (reliable_send_from c now e)) = head_packet c"
  by (simp add: reliable_send_from_def Let_def split_beta send_checked_fields)
    (simp add: head_packet_def ring_shape_def nth_modify)

text \<open>
  \<open>enqueue_out\<close>, \<open>tick_out\<close> and \<open>ack_out\<close> are what the code transmits: the byte stream of the slot
  grows by exactly their frames.
\<close>

definition frames :: "bytes list \<Rightarrow> bytes" where
  "frames ps = concat (map encode_frame ps)"

lemma send_from_stream:
  assumes "list_all packet_of_rev (outbox c)" "ring_shape c" "0 < reliable_count c" "slot_stream c e s"
    and "d = fst (reliable_send_from c now e)" "e' = snd (reliable_send_from c now e)"
  shows "slot_stream d e' (s @ frames [head_packet d])"
proof -
  have "slot_stream d e' (s @ encode_frame (head_packet c))"
    using slot_stream_send [OF assms(4) head_packet_length [OF assms(1-3)]] assms(3)
    by (simp add: assms(5,6) reliable_send_from_def Let_def split_beta head_packet_def slot_stream_def send_checked_fields)
  then show ?thesis using send_from_head [OF assms(2), of now e] by (simp add: frames_def assms(5))
qed

lemma ack_stream:
  assumes "link_ok c" "in_use c" "slot_stream c e s" "reliable_ack c a now e = (d, e')"
  shows "slot_stream d e' (s @ frames (ack_out a c d))"
proof -
  have num: "numbered c" and ring: "ring_shape c" and tx: "tx_ok (c_tx c)"
    using assms(1,2) by (auto simp: link_ok_def)
  have pkts: "list_all packet_of_rev (outbox c)" using num by (simp add: numbered_def)
  show ?thesis
  proof (cases rule: ack_cases [OF num ring, of a now e, case_names unsent idle current old])
    case unsent
    then show ?thesis using assms(3,4) by (simp add: ack_out_def frames_def)
  next
    case idle
    then show ?thesis using assms(3,4) by (simp add: ack_out_def frames_def)
  next
    case current
    let ?d = "reliable_pop c"
    have p: "list_all packet_of_rev (outbox ?d)" "ring_shape ?d" "tx_ok (c_tx ?d)" "slot_stream ?d e s"
      using pkts outbox_pop [OF ring current(1)] pending_pop(2) [OF ring current(1)] tx assms(3)
      by (simp_all add: list_all_tl reliable_pop_def slot_stream_def)
    have fresh: "\<not> rev_after a (reliable_sent_rev c)" using current(2) by (simp add: rev_after_def)
    show ?thesis
    proof (cases "0 < reliable_count ?d")
      case True
      then have "reliable_send_from ?d now e = (d, e')" using current(3) assms(4) by simp
      then have d: "d = fst (reliable_send_from ?d now e)" "e' = snd (reliable_send_from ?d now e)" by simp_all
      have "0 < reliable_count d" using send_from_spec(5) [OF p(2,3) d(1)] True by simp
      then show ?thesis using send_from_stream [OF p(1,2) True p(4) d] fresh by (simp add: ack_out_def)
    next
      case False
      then have "d = ?d" "e' = e" using current(3) assms(4) by simp_all
      then show ?thesis using False p(4) by (simp add: ack_out_def frames_def)
    qed
  next
    case (old c1)
    have p: "list_all packet_of_rev (outbox c1)" "ring_shape c1" "0 < reliable_count c1" "tx_ok (c_tx c1)" "slot_stream c1 e s"
      using old(1,4) pkts ring tx assms(3) by (auto simp: ring_shape_def outbox_def pending_events_def slot_stream_def)
    have "reliable_send_from c1 now e = (d, e')" using old(5) assms(4) by simp
    then have d: "d = fst (reliable_send_from c1 now e)" "e' = snd (reliable_send_from c1 now e)" by simp_all
    have "0 < reliable_count d" using send_from_spec(5) [OF p(2,4) d(1)] p(3) by simp
    then show ?thesis using send_from_stream [OF p(1-3,5) d] old(3) by (simp add: ack_out_def)
  qed
qed

lemma tick_stream:
  assumes "link_ok c" "in_use c" "slot_stream c e s" "reliable_tick_step now 0 ([c], e) = ([d], e')"
  shows "slot_stream d e' (s @ frames (tick_out now c d))"
proof (cases "0 < reliable_count c \<and> now - reliable_last_send_ms c \<ge> RELIABLE_RESEND_MS")
  case True
  then have "d = fst (reliable_send_from c now e)" "e' = snd (reliable_send_from c now e)"
    using assms(2,4) by (auto simp: reliable_tick_step_def Let_def split_beta)
  then show ?thesis
    using send_from_stream [of c e s d now e'] assms(1-3) True by (auto simp: link_ok_def numbered_def tick_out_def)
next
  case False
  then show ?thesis using assms(3,4)
    by (auto simp: reliable_tick_step_def tick_out_def frames_def Let_def split: if_splits)
qed

lemma enqueue_stream:
  assumes "link_ok c" "seated c" "slot_stream c e s" "reliable_enqueue_client c event seq now e = (ok, d, seq', e')"
  shows "slot_stream d e' (s @ frames (enqueue_out ok d))"
proof -
  have num: "numbered c" and ring: "ring_shape c" and seat: "in_use c" "handshake_ok c"
    using assms(1,2) by (auto simp: link_ok_def seated_def)
  let ?good = "0 < length event \<and> length event \<le> RELIABLE_EVENT_MAX \<and> reliable_count c < RELIABLE_QUEUE_MAX"
  show ?thesis
  proof (cases "?good \<and> reliable_count c = 0")
    case True
    let ?rv = "reliable_next_rev c"
    let ?p = "reliable_packet seq ?rv event"
    let ?c = "reliable_push \<lparr>rq_rev = ?rv, rq_pkt = ?p, rq_retries = 0\<rparr> (c\<lparr>reliable_next_rev := ?rv + 1\<rparr>)"
    have d: "d = (fst (send_checked ?c ?p e))\<lparr>reliable_sent_rev := ?rv, reliable_last_send_ms := now\<rparr>"
      and e': "e' = snd (send_checked ?c ?p e)" and ok
      using assms(4) seat True by (auto simp: reliable_enqueue_client_def Let_def split_beta reliable_push_def)
    have "slot_stream ?c e s" using assms(3) by (simp add: slot_stream_def reliable_push_def)
    moreover have "length ?p \<le> 62" using True by (simp add: reliable_packet_def)
    ultimately have "slot_stream d e' (s @ encode_frame ?p)"
      using slot_stream_send [of ?c e s ?p] by (simp add: d e' slot_stream_def send_checked_fields)
    moreover have "head_packet d = ?p" "reliable_count d = 1"
      using True ring by (simp_all add: d head_packet_def send_checked_fields reliable_push_def ring_shape_def)
    ultimately show ?thesis using \<open>ok\<close> by (simp add: enqueue_out_def frames_def)
  next
    case False
    then have "c_fd d = c_fd c \<and> e' = e \<and> (d = c\<lparr>c_tx := (c_tx c)\<lparr>tx_failed := True\<rparr>\<rparr> \<or> c_tx d = c_tx c) \<and>
        \<not> (ok \<and> reliable_count d = 1)"
      using assms(4) seat by (auto simp: reliable_enqueue_client_def Let_def split_beta reliable_push_def split: if_splits)
    then show ?thesis using assms(3) by (auto simp: slot_stream_def tx_stream_def enqueue_out_def frames_def)
  qed
qed

text \<open>The client's half: one acknowledgement for every event packet it handles, and nothing else.\<close>

definition client_stream :: "client \<Rightarrow> bytes \<Rightarrow> bool" where
  "client_stream k s = tx_stream (k_fd k) (k_tx k) (k_env k) s"

lemma client_stream_fields [simp]:
  "client_stream (k\<lparr>k_game := g\<rparr>) s = client_stream k s" "client_stream (k\<lparr>k_rev := r\<rparr>) s = client_stream k s"
  "client_stream (k\<lparr>k_seq := q\<rparr>) s = client_stream k s"
  by (simp_all add: client_stream_def)

lemma client_stream_send:
  assumes "client_stream k s" "length p \<le> 64"
  shows "client_stream (client_send p k) (s @ encode_frame p)"
  using tcp_tx_queue_spec(5) [of "k_fd k" "k_tx k" "encode_frame p" "k_env k" _ _ _ s] assms
  by (simp add: client_stream_def client_send_def tcp_tx_queue_frame_def Let_def split_beta prod_eq_iff)

lemma client_stream_ack:
  assumes "client_stream k s"
  shows "client_stream (send_reliable_ack v k) (s @ encode_frame (ack_packet (k_seq k) v))"
  using assms unfolding send_reliable_ack_def ack_packet_def by (intro client_stream_send) simp_all

lemma takes_event_rev:
  assumes "takes_event p k"
  shows "k_rev (handle_packet p now rel k) =
    (if event_rev p = k_rev k + 1 \<and> reliable_inner_is_valid (drop 4 p) then event_rev p else k_rev k)"
  using assms by (simp add: takes_event_def handle_packet_event)

lemma not_takes_event:
  assumes "\<not> takes_event p k"
  shows "\<exists>g. handle_packet p now rel k = k\<lparr>k_game := g\<rparr>"
proof (cases "length p = 5 \<and> p ! 0 = PKT_WELCOME \<and> p ! 1 = PROTOCOL_VERSION")
  case True
  then have "handle_packet p now rel k = k\<lparr>k_game := on_welcome p (k_game k)\<rparr>"
    by (subst handle_packet.simps) (simp add: Let_def)
  then show ?thesis by blast
next
  case not_hello: False
  show ?thesis
  proof (cases "length p \<ge> 2 \<and> p ! 0 = PKT_REJECT \<or> \<not> g_have_welcome (k_game k)")
    case True
    then have "handle_packet p now rel k = k"
      using not_hello by (subst handle_packet.simps) (auto simp: Let_def)
    then show ?thesis by (intro exI [of _ "k_game k"]) simp
  next
    case False
    then have "handle_packet p now rel k = k\<lparr>k_game := handle_game p now rel (k_game k)\<rparr>"
      using not_hello assms by (subst handle_packet.simps) (auto simp: Let_def takes_event_def)
    then show ?thesis by blast
  qed
qed

lemma acks_sent_stream:
  assumes "client_stream k s" "k' = handle_packet p now False k"
  shows "client_stream k' (s @ frames (acks_sent p k k'))"
proof (cases "takes_event p k")
  case True
  then show ?thesis
    using client_stream_ack [OF assms(1), of "k_rev k"]
      client_stream_ack [of "k\<lparr>k_rev := k_rev k + 1\<rparr>" s "k_rev k + 1"] assms(1)
    by (simp add: acks_sent_def assms(2) takes_event_rev takes_event_def handle_packet_event frames_def)
next
  case False
  then show ?thesis using not_takes_event [OF False, of now False] assms by (auto simp: acks_sent_def frames_def)
qed

text \<open>The events of the server are all of a shape the client accepts.\<close>

lemma server_events_valid:
  "length name = NAME_LEN \<Longrightarrow> reliable_inner_is_valid (build_name seq pid name)"
  "length bits = 48 \<Longrightarrow> reliable_inner_is_valid (build_brick_full seq bits rid)"
  "reliable_inner_is_valid (build_brick_delta seq x y rid)"
  "reliable_inner_is_valid (build_respawn seq pid x y flags rid)"
  "reliable_inner_is_valid [PKT_ROUND_START, rid, limit]"
  "length (match_end_packet r) = 43 \<Longrightarrow> reliable_inner_is_valid (match_end_packet r)"
  by (simp_all add: reliable_inner_is_valid_def build_name_def build_brick_full_def build_brick_delta_def
      build_respawn_def) (simp add: match_end_packet_def)

section \<open>The numbering that ties the two sides together\<close>

lemma rev_bytes: "ucast (ucast v :: u8) OR push_bit 8 (ucast (ucast (drop_bit 8 v) :: u8)) = (v :: u16)"
  by (rule bit_word_eqI) (auto simp: bit_simps)

lemma event_rev_packets [simp]: "event_rev (reliable_packet seq v event) = v" "event_rev (ack_packet seq v) = v"
  by (simp_all add: event_rev_def reliable_packet_def ack_packet_def rev_bytes)

text \<open>Packet \<open>p\<close> carries the \<open>n\<close>-th event posted; \<open>p\<close> acknowledges the first \<open>n\<close>.\<close>

definition carries :: "bytes list \<Rightarrow> bytes \<Rightarrow> nat \<Rightarrow> bool" where
  "carries posted p n \<longleftrightarrow> 0 < n \<and> n \<le> length posted \<and> (\<exists>seq. p = reliable_packet seq (of_nat n) (posted ! (n - 1)))"

definition acknowledges :: "bytes \<Rightarrow> nat \<Rightarrow> bool" where
  "acknowledges p n \<longleftrightarrow> (\<exists>seq. p = ack_packet seq (of_nat n))"

definition is_event :: "bytes \<Rightarrow> bool" where
  "is_event p \<longleftrightarrow> p ! 0 = PKT_RELIABLE_EVENT"

text \<open>The server's ring holds the events after the first \<open>a\<close>.\<close>

definition holds_from :: "client_slot \<Rightarrow> bytes list \<Rightarrow> nat \<Rightarrow> bool" where
  "holds_from c posted a \<longleftrightarrow> link_ok c \<and> seated c \<and> list_all reliable_inner_is_valid posted \<and>
     length posted = a + reliable_count c \<and> reliable_acked_rev c = of_nat a \<and>
     (\<forall>j < reliable_count c. carries posted (snd (outbox c ! j)) (a + j + 1))"

text \<open>
  \<open>a\<close> events are acknowledged at the server and \<open>k\<close> applied by the client; \<open>ns\<close> and \<open>ms\<close>
  number the event packets and acknowledgements under way, oldest first.
\<close>

definition in_step :: "link \<Rightarrow> nat \<Rightarrow> nat \<Rightarrow> nat list \<Rightarrow> nat list \<Rightarrow> bool" where
  "in_step s a k ns ms \<longleftrightarrow> holds_from (l_server s) (l_posted s) a \<and>
     k_rev (l_client s) = of_nat k \<and> l_applied s = take k (l_posted s) \<and>
     a \<le> k \<and> k \<le> a + 1 \<and> (a < k \<longrightarrow> k \<in> set ms) \<and> k \<le> length (l_posted s) \<and> list_all (\<lambda>p. p \<noteq> []) (l_down s) \<and>
     sorted ns \<and> list_all2 (carries (l_posted s)) (filter is_event (l_down s)) ns \<and> set ns \<subseteq> {k..a + 1} \<and>
     sorted ms \<and> list_all2 acknowledges (l_up s) ms \<and> set ms \<subseteq> {a..k}"

lemma carries_more: "carries posted p n \<Longrightarrow> carries (posted @ extra) p n"
  by (auto simp: carries_def nth_append)

lemma carries_is_event: "carries posted p n \<Longrightarrow> is_event p \<and> p \<noteq> []"
  by (auto simp: carries_def is_event_def reliable_packet_def)

lemma outbox_head: "ring_shape c \<Longrightarrow> 0 < reliable_count c \<Longrightarrow> snd (outbox c ! 0) = head_packet c"
  using outbox_hd [of c] by (metis hd_conv_nth length_0_conv length_outbox not_gr_zero head_packet_def snd_conv)

lemma holds_from_head:
  assumes "holds_from c posted a" "0 < reliable_count c"
  shows "carries posted (head_packet c) (a + 1)"
proof -
  have "ring_shape c" using assms(1) by (simp add: holds_from_def link_ok_def)
  then show ?thesis using assms outbox_head [of c] unfolding holds_from_def by fastforce
qed

definition may_send :: "client_slot \<Rightarrow> bytes list \<Rightarrow> bool" where
  "may_send c out \<longleftrightarrow> out = [] \<or> 0 < reliable_count c \<and> out = [head_packet c]"

lemma may_send_outs: "may_send d (enqueue_out ok d)" "may_send d (ack_out a c d)"
  "reliable_count d = reliable_count c \<Longrightarrow> may_send d (tick_out now c d)"
  by (simp_all add: may_send_def enqueue_out_def ack_out_def tick_out_def)

text \<open>An operation of the server that acknowledges up to \<open>b\<close> and may transmit its head.\<close>

lemma in_step_server:
  assumes "in_step s a k ns ms" "holds_from c posted b" "may_send c out" "posted = l_posted s @ extra"
    and "a \<le> b" "b \<le> k" "list_all2 acknowledges up ms2" "sorted ms2" "set ms2 \<subseteq> {b..k}" "b < k \<Longrightarrow> k \<in> set ms2"
  shows "\<exists>ns2. (out \<noteq> [] \<longrightarrow> b + 1 \<in> set ns2) \<and>
    in_step (s\<lparr>l_server := c, l_env := e, l_down := l_down s @ out, l_posted := posted, l_up := up\<rparr>) b k ns2 ms2"
proof -
  note inv = assms(1) [unfolded in_step_def]
  have down: "list_all2 (carries posted) (filter is_event (l_down s)) ns"
    using inv carries_more unfolding assms(4) by (auto elim: list_all2_mono)
  have ns: "set ns \<subseteq> {k..b + 1}" "sorted ns" using inv assms(5) by auto
  have rest: "l_applied s = take k posted" "k \<le> length posted" "k_rev (l_client s) = of_nat k" "k \<le> b + 1"
    "list_all (\<lambda>p. p \<noteq> []) (l_down s)"
    using inv assms(4,5) by auto
  show ?thesis
  proof (cases "out = []")
    case True
    then show ?thesis using down ns rest assms(2,6-10)
      by (intro exI [of _ ns]) (simp add: in_step_def)
  next
    case False
    then have out: "out = [head_packet c]" and "0 < reliable_count c" using assms(3) by (auto simp: may_send_def)
    note head = holds_from_head [OF assms(2) this(2)]
    have "sorted (ns @ [b + 1])" using ns by (auto simp: sorted_append)
    moreover have "list_all2 (carries posted) (filter is_event (l_down s @ out)) (ns @ [b + 1])"
      using down head carries_is_event [OF head] by (simp add: out list_all2_appendI)
    moreover have "set (ns @ [b + 1]) \<subseteq> {k..b + 1}" using ns(1) rest(4) by auto
    ultimately show ?thesis using rest assms(2,6-10) carries_is_event [OF head]
      by (intro exI [of _ "ns @ [b + 1]"]) (simp add: in_step_def out)
  qed
qed

lemma enqueue_acked:
  "reliable_enqueue_client c event seq now e = (ok, d, seq', e') \<Longrightarrow> reliable_acked_rev d = reliable_acked_rev c"
  by (auto simp: reliable_enqueue_client_def Let_def split_beta reliable_push_def send_checked_fields split: if_splits)

lemma seated_core: "core d = core c \<Longrightarrow> seated d = seated c"
  using coreD(1,6) [of d c] by (simp add: seated_def)

lemma holds_from_enqueue:
  assumes "holds_from c posted a" "reliable_inner_is_valid event"
    and "reliable_enqueue_client c event seq now e = (ok, d, seq', e')"
  shows "holds_from d (posted @ (if ok then [event] else [])) a"
proof -
  have c: "link_ok c" "seated c" and count: "length posted = a + reliable_count c"
    and acked: "reliable_acked_rev c = of_nat a"
    and box: "\<And>j. j < reliable_count c \<Longrightarrow> carries posted (snd (outbox c ! j)) (a + j + 1)"
    using assms(1) by (auto simp: holds_from_def)
  note spec = enqueue_spec [OF c assms(3)]
  have d: "link_ok d" "seated d" "reliable_acked_rev d = of_nat a"
    using spec seated_core [OF core_enqueue [of c event seq now e]] assms(3) c(2) enqueue_acked [OF assms(3)] acked
    by simp_all
  show ?thesis
  proof (cases ok)
    case False
    then have "outbox d = outbox c" using spec by simp
    moreover from this have "reliable_count d = reliable_count c" by (metis length_outbox)
    ultimately show ?thesis using False assms(1) d by (simp add: holds_from_def)
  next
    case True
    have out: "outbox d = outbox c @ [(reliable_next_rev c, reliable_packet seq (reliable_next_rev c) event)]"
      using spec True by simp
    then have cnt: "reliable_count d = Suc (reliable_count c)" by (metis length_append_singleton length_outbox)
    have "numbered c" using c by (simp add: link_ok_def seated_def)
    then have rv: "reliable_next_rev c = of_nat (a + reliable_count c + 1)"
      using acked by (simp add: numbered_def)
    have "carries (posted @ [event]) (snd (outbox d ! j)) (a + j + 1)" if "j < reliable_count d" for j
    proof (cases "j < reliable_count c")
      case True
      then show ?thesis using carries_more [OF box [OF True], of "[event]"] by (simp add: out nth_append)
    next
      case False
      then have "j = reliable_count c" using that cnt by simp
      then have "snd (outbox d ! j) = reliable_packet seq (of_nat (a + j + 1)) event"
        "(posted @ [event]) ! (a + j) = event" "a + j = length posted"
        using out count rv by (simp_all add: nth_append)
      then show ?thesis by (auto simp: carries_def)
    qed
    then show ?thesis using True d cnt count assms(1,2) by (simp add: holds_from_def)
  qed
qed

lemma holds_from_same:
  assumes "holds_from c posted a" "link_ok d" "core d = core c" "outbox d = outbox c"
    and "reliable_acked_rev d = reliable_acked_rev c"
  shows "holds_from d posted a"
proof -
  have "reliable_count d = reliable_count c" using assms(4) by (metis length_outbox)
  then show ?thesis using assms seated_core [OF assms(3)] by (simp add: holds_from_def)
qed

lemma holds_from_tick:
  assumes "holds_from c posted a" "reliable_tick_step now 0 ([c], e) = ([d], e')"
  shows "holds_from d posted a"
proof -
  have c: "link_ok c" "ring_shape c" "tx_ok (c_tx c)" using assms(1) by (simp_all add: holds_from_def link_ok_def)
  have "d = c \<or> d = fst (reliable_send_from c now e)"
    using assms(2) by (auto simp: reliable_tick_step_def Let_def split_beta split: if_splits)
  then show ?thesis
    using holds_from_same [OF assms(1) link_ok_send_from [OF c(1)]] send_from_spec [OF c(2,3) refl, of now e] assms(1)
    by auto
qed

lemma holds_from_ack:
  assumes "holds_from c posted a" "reliable_ack c (of_nat m) now e = (d, e')" "m = a \<or> m = a + 1 \<and> 0 < reliable_count c"
  shows "holds_from d posted m"
proof -
  have c: "link_ok c" "in_use c" "seated c" and acked: "reliable_acked_rev c = of_nat a"
    using assms(1) by (simp_all add: holds_from_def seated_def)
  note spec = ack_spec [OF c(1,2), of "of_nat m" now e]
  have core: "core d = core c" using core_ack [of c "of_nat m" now e] assms(2) by simp
  show ?thesis
  proof (cases "m = a")
    case True
    then have "\<not> (0 < reliable_count c \<and> (of_nat m :: u16) = reliable_acked_rev c + 1)" using acked by simp
    then have "outbox d = outbox c" "reliable_acked_rev d = reliable_acked_rev c" "link_ok d"
      using spec assms(2) by auto
    then show ?thesis using holds_from_same [OF assms(1)] core True by simp
  next
    case False
    then have m: "m = a + 1" "0 < reliable_count c" using assms(3) by auto
    then have out: "outbox d = tl (outbox c)" and "link_ok d" "reliable_acked_rev d = of_nat m"
      using spec assms(2) acked by (auto simp: ac_simps)
    moreover from out have cnt: "reliable_count d = reliable_count c - 1" by (metis length_outbox length_tl)
    moreover have "carries posted (snd (outbox d ! j)) (m + j + 1)" if "j < reliable_count d" for j
      using assms(1) that cnt m out by (simp add: holds_from_def nth_tl del: One_nat_def) (metis Suc_eq_plus1 add_Suc_right less_diff_conv add_Suc Suc_pred)
    ultimately show ?thesis using assms(1) m seated_core [OF core] by (simp add: holds_from_def)
  qed
qed

lemma in_step_resend:
  assumes "in_step s a k ns ms" "holds_from c (l_posted s) a" "may_send c out"
  shows "\<exists>ns2. (out \<noteq> [] \<longrightarrow> a + 1 \<in> set ns2) \<and>
    in_step (s\<lparr>l_server := c, l_env := e, l_down := l_down s @ out\<rparr>) a k ns2 ms"
  using in_step_server [OF assms(1,2,3), of "[]" "l_up s" ms e] assms(1) by (auto simp: in_step_def)

lemma acknowledges_rev: "acknowledges p m \<Longrightarrow> event_rev p = of_nat m"
  by (auto simp: acknowledges_def)

lemma in_step_ack:
  assumes "in_step s a k ns ms" "l_up s = p # rest" "reliable_ack (l_server s) (event_rev p) now (l_env s) = (c, e)"
    and "may_send c out"
  shows "\<exists>ns2. in_step (s\<lparr>l_server := c, l_env := e, l_up := rest, l_down := l_down s @ out\<rparr>) (hd ms) k ns2 (tl ms)"
proof -
  obtain m ms2 where ms: "ms = m # ms2" and m: "acknowledges p m" and up: "list_all2 acknowledges rest ms2"
    using assms(1,2) by (auto simp: in_step_def list_all2_Cons1)
  have range: "a \<le> m" "m \<le> k" "k \<le> a + 1" "k \<le> length (l_posted s)" and later: "sorted ms2"
    and rest_ms: "set ms2 \<subseteq> {a..k}" "\<forall>x \<in> set ms2. m \<le> x" and due: "a < k \<Longrightarrow> k \<in> set (m # ms2)"
    using assms(1) ms by (auto simp: in_step_def)
  have later2: "set ms2 \<subseteq> {m..k}" using rest_ms by auto
  have due2: "k \<in> set ms2" if "m < k" using due range(1) that by simp
  have holds: "holds_from (l_server s) (l_posted s) a" using assms(1) by (simp add: in_step_def)
  then have len: "length (l_posted s) = a + reliable_count (l_server s)" by (simp add: holds_from_def)
  have one: "m = a \<or> m = a + 1 \<and> 0 < reliable_count (l_server s)" using range len by auto
  have "holds_from c (l_posted s) m"
    by (rule holds_from_ack [OF holds _ one]) (use assms(3) acknowledges_rev [OF m] in simp)
  from in_step_server [OF assms(1) this assms(4) _ range(1,2) up later later2 due2, of "[]" e]
  obtain ns2 where "in_step (s\<lparr>l_server := c, l_env := e, l_down := l_down s @ out, l_posted := l_posted s, l_up := rest\<rparr>) m k ns2 ms2"
    by auto
  then have "in_step (s\<lparr>l_server := c, l_env := e, l_up := rest, l_down := l_down s @ out\<rparr>) m k ns2 ms2"
    by (simp add: in_step_def)
  then show ?thesis using ms by auto
qed

lemma in_step_other:
  assumes "in_step s a k ns ms" "p \<noteq> []" "p ! 0 \<noteq> PKT_RELIABLE_EVENT" "send_checked (l_server s) p (l_env s) = (c, e)"
  shows "in_step (s\<lparr>l_server := c, l_env := e, l_down := l_down s @ [p]\<rparr>) a k ns ms"
proof -
  have c: "c = fst (send_checked (l_server s) p (l_env s))" using assms(4) by simp
  have holds: "holds_from (l_server s) (l_posted s) a" using assms(1) by (simp add: in_step_def)
  then have "link_ok c" unfolding c by (intro link_ok_send_checked) (simp add: holds_from_def)
  then have "holds_from c (l_posted s) a"
    by (rule holds_from_same [OF holds]) (simp_all add: c send_checked_fields)
  then show ?thesis using assms(1-3) by (simp add: in_step_def is_event_def)
qed

lemma of_nat_Suc_u16: "(of_nat n :: u16) \<noteq> of_nat n + 1"
  by simp

text \<open>The client handles the oldest packet under way.\<close>

lemma in_step_deliver:
  assumes "in_step s a k ns ms" "l_down s = p # rest" "k' = handle_packet p now False (l_client s)"
  defines "t \<equiv> s\<lparr>l_client := k', l_down := rest, l_up := l_up s @ acks_sent p (l_client s) k',
      l_applied := l_applied s @ events_taken p (l_client s) k'\<rparr>"
  shows "\<exists>n ns2 ms2. in_step t a n ns2 ms2 \<and>
    (g_have_welcome (k_game (l_client s)) \<and> (a + 1 \<in> set ns \<or> k = a + 1) \<longrightarrow> a + 1 \<in> set ns2 \<or> n = a + 1)"
proof -
  let ?K = "l_client s" and ?P = "l_posted s"
  note inv = assms(1) [unfolded in_step_def]
  have p: "p \<noteq> []" using inv assms(2) by simp
  show ?thesis
  proof (cases "takes_event p ?K")
    case False
    then have same: "k_rev k' = k_rev ?K" "acks_sent p ?K k' = []" "events_taken p ?K k' = []"
      using not_takes_event [OF False, of now False] by (auto simp: assms(3) acks_sent_def events_taken_def)
    let ?ns = "if is_event p then tl ns else ns"
    have "in_step t a k ?ns ms"
      using inv same assms(2) by (auto simp: in_step_def t_def list_all2_Cons1 split: if_splits)
    moreover have "\<not> (is_event p \<and> g_have_welcome (k_game ?K))"
    proof
      assume p: "is_event p \<and> g_have_welcome (k_game ?K)"
      then obtain n where "carries ?P p n" using inv assms(2) by (auto simp: list_all2_Cons1)
      then obtain q where "p = reliable_packet q (of_nat n) (?P ! (n - 1))" "0 < n" "n \<le> length ?P"
        by (auto simp: carries_def)
      moreover from this have "reliable_inner_is_valid (?P ! (n - 1))"
        using inv by (simp add: holds_from_def list_all_nthD)
      then have "3 \<le> length (?P ! (n - 1))" using valid_inner_plain by blast
      ultimately have "7 \<le> length p" by (simp add: reliable_packet_def)
      then show False using False p by (simp add: takes_event_def is_event_def)
    qed
    ultimately show ?thesis by (intro exI [of _ k] exI [of _ ?ns] exI [of _ ms]) auto
  next
    case True
    then have "is_event p" by (simp add: takes_event_def is_event_def)
    then obtain n ns2 where ns: "ns = n # ns2" and n: "carries ?P p n"
      and more: "list_all2 (carries ?P) (filter is_event rest) ns2"
      using inv assms(2) by (auto simp: list_all2_Cons1)
    obtain q where pkt: "p = reliable_packet q (of_nat n) (?P ! (n - 1))" and n0: "0 < n" "n \<le> length ?P"
      using n by (auto simp: carries_def)
    have "k \<le> n" "n \<le> a + 1" "a \<le> k" using inv ns by auto
    then have cases_n: "n = k \<or> n = k + 1" by auto
    have event: "event_rev p = of_nat n" unfolding pkt by (rule event_rev_packets(1))
    have inner: "drop 4 p = ?P ! (n - 1)" by (simp add: pkt reliable_packet_def)
    have valid: "reliable_inner_is_valid (drop 4 p)"
      using inv n0 by (simp add: inner holds_from_def list_all_nthD)
    have rev: "k_rev ?K = of_nat k" using inv by simp
    have new: "k_rev k' = of_nat n"
      using cases_n takes_event_rev [OF True, of now False] valid event rev
      by (auto simp: assms(3) ac_simps)
    have acks: "list_all2 acknowledges (l_up s @ acks_sent p ?K k') (ms @ [n])"
      using inv True new by (intro list_all2_appendI) (auto simp: acks_sent_def acknowledges_def)
    have app: "l_applied s @ events_taken p ?K k' = take n ?P"
    proof (cases "n = k")
      case True
      then show ?thesis using inv new rev by (simp add: events_taken_def)
    next
      case False
      then have nk: "n = k + 1" using cases_n by simp
      then have "k_rev k' \<noteq> k_rev ?K" using new rev of_nat_Suc_u16 [of k] by (simp add: ac_simps)
      then show ?thesis using inv nk n0(2) inner by (simp add: events_taken_def take_Suc_conv_app_nth)
    qed
    have "in_step t a n ns2 (ms @ [n])"
      using inv new acks app more ns n0(2) \<open>k \<le> n\<close> assms(2)
      by (auto simp: in_step_def t_def sorted_append)
    then show ?thesis using ns \<open>k \<le> n\<close> \<open>n \<le> a + 1\<close>
      by (intro exI [of _ n] exI [of _ ns2] exI [of _ "ms @ [n]"]) auto
  qed
qed

lemma in_step_holds: "in_step s a k ns ms \<Longrightarrow> holds_from (l_server s) (l_posted s) a"
  by (simp add: in_step_def)

lemma holds_from_tick_count:
  assumes "holds_from c posted a" "reliable_tick_step now 0 ([c], e) = ([d], e')"
  shows "reliable_count d = reliable_count c"
  using holds_from_tick [OF assms] assms(1) by (simp add: holds_from_def)

lemma in_step_step:
  assumes "link_step s t" "in_step s a k ns ms"
  shows "\<exists>a k ns ms. in_step t a k ns ms"
  using assms(1)
proof cases
  case (post event seq now ok c seq' e)
  note holds = holds_from_enqueue [OF in_step_holds [OF assms(2)] post(2,3)]
  from in_step_server [OF assms(2) holds may_send_outs(1) refl, of "l_up s" ms ok e] assms(2)
  obtain ns2 where "in_step (s\<lparr>l_server := c, l_env := e, l_down := l_down s @ enqueue_out ok c,
      l_posted := l_posted s @ (if ok then [event] else []), l_up := l_up s\<rparr>) a k ns2 ms"
    by (auto simp: in_step_def)
  then have "in_step t a k ns2 ms" unfolding post(1) by (simp add: in_step_def)
  then show ?thesis by blast
next
  case (resend now c e)
  note holds = holds_from_tick [OF in_step_holds [OF assms(2)] resend(2)]
  note out = may_send_outs(3) [OF holds_from_tick_count [OF in_step_holds [OF assms(2)] resend(2)]]
  show ?thesis unfolding resend(1) using in_step_resend [OF assms(2) holds out] by blast
next
  case (ack p rest now c e)
  show ?thesis unfolding ack(1) using in_step_ack [OF assms(2) ack(2,3) may_send_outs(2)] by blast
next
  case (other p c e)
  show ?thesis unfolding other(1) using in_step_other [OF assms(2) other(2-4)] by blast
next
  case (deliver p rest k' now)
  show ?thesis unfolding deliver(1) using in_step_deliver [OF assms(2) deliver(2,3)] by blast
qed

lemma link_start_in_step: "link_start s \<Longrightarrow> in_step s 0 0 [] []"
  by (simp add: link_start_def in_step_def holds_from_def)

lemma link_reach_in_step: "link_reach s \<Longrightarrow> \<exists>a k ns ms. in_step s a k ns ms"
  by (induction rule: link_reach.induct) (use link_start_in_step in_step_step in blast)+

section \<open>Properties\<close>

text \<open>
  C2: Reliable events are applied exactly once and in order. Whatever is posted, retransmitted,
  acknowledged, delayed or interleaved with other packets, the events the client has handed to its
  game are at every moment a prefix of those posted at the server: none lost, repeated or
  reordered. The server never forgets an event the client has not applied, and at most one event
  is applied but not yet acknowledged.
\<close>

theorem reliable_stream_exact:
  assumes "link_reach s"
  shows "prefix (l_applied s) (l_posted s) \<and>
    length (l_posted s) - reliable_count (l_server s) \<le> length (l_applied s) \<and>
    length (l_applied s) \<le> length (l_posted s) - reliable_count (l_server s) + 1 \<and>
    reliable_count (l_server s) \<le> length (l_posted s)"
proof -
  from link_reach_in_step [OF assms] obtain a k ns ms where inv: "in_step s a k ns ms" by blast
  have "l_applied s = take k (l_posted s)" "k \<le> length (l_posted s)" "a \<le> k" "k \<le> a + 1"
    "length (l_posted s) = a + reliable_count (l_server s)"
    using inv by (simp_all add: in_step_def holds_from_def)
  then show ?thesis by (simp add: take_is_prefix)
qed

definition demo_link_start :: link where
  "demo_link_start = \<lparr>l_server = (init_client_slot 5 0 client_free)\<lparr>handshake_ok := True\<rparr>, l_env = demo_env,
     l_client = (new_client (-1) 6 demo_env)\<lparr>k_game := (game_zero (-1))\<lparr>g_have_welcome := True\<rparr>\<rparr>,
     l_down = [], l_up = [], l_posted = [], l_applied = []\<rparr>"

lemma demo_link_reach: "link_reach demo_link_start"
proof -
  have "link_ok ((init_client_slot 5 0 client_free)\<lparr>handshake_ok := True\<rparr>)"
    by (simp add: link_ok_def init_client_slot_def client_free_def tx_ok_def tcp_tx_zero_def ring_shape_def
        numbered_def outbox_def pending_events_def ring_items_def)
  then have "link_start demo_link_start"
    by (simp add: link_start_def demo_link_start_def seated_def new_client_def) (simp add: init_client_slot_def)
  then show ?thesis by (rule link_init)
qed

definition demo_posted :: link where
  "demo_posted = (case reliable_enqueue_client (l_server demo_link_start) [PKT_ROUND_START, 1, 5] 9 3 demo_env of
     (ok, c, seq, e) \<Rightarrow> demo_link_start\<lparr>l_server := c, l_env := e, l_down := l_down demo_link_start @ enqueue_out ok c,
       l_posted := l_posted demo_link_start @ (if ok then [[PKT_ROUND_START, 1, 5]] else [])\<rparr>)"

lemma demo_posted_reach: "link_reach demo_posted" "g_have_welcome (k_game (l_client demo_posted))"
proof -
  obtain ok c seq e where run: "reliable_enqueue_client (l_server demo_link_start) [PKT_ROUND_START, 1, 5] 9 3 demo_env = (ok, c, seq, e)"
    by (metis prod_cases4)
  have valid: "reliable_inner_is_valid [PKT_ROUND_START, 1, 5]" by (simp add: reliable_inner_is_valid_def)
  have e: "l_env demo_link_start = demo_env" by (simp add: demo_link_start_def)
  have "link_step demo_link_start demo_posted"
    unfolding demo_posted_def run prod.case
    by (rule post [OF valid, of demo_link_start 9 3 ok c seq e]) (simp add: run e)
  then show "link_reach demo_posted" by (rule link_next [OF demo_link_reach])
  show "g_have_welcome (k_game (l_client demo_posted))"
    by (simp add: demo_posted_def run) (simp add: demo_link_start_def)
qed

theorem reliable_stream_exact_witness: "prefix (l_applied demo_posted) (l_posted demo_posted)"
  using reliable_stream_exact [OF demo_posted_reach(1)] by simp

section \<open>Progress\<close>

abbreviation (input) link_run :: "link \<Rightarrow> link \<Rightarrow> bool" where
  "link_run \<equiv> rtranclp link_step"

abbreviation (input) welcomed :: "link \<Rightarrow> bool" where
  "welcomed s \<equiv> g_have_welcome (k_game (l_client s))"

lemma handle_game_welcome: "g_have_welcome (handle_game buf now rel g) = g_have_welcome g"
proof -
  have fx: "g_have_welcome (fx_emit t x y d c now q) = g_have_welcome q" for t x y d c q
    by (simp add: fx_emit_def)
  have clear: "g_have_welcome (clear_brick_cell x y q) = g_have_welcome q" for x y q
    by (simp add: clear_brick_cell_def Let_def)
  have anim: "g_have_welcome (apply_player_snapshot i x y joy now q) = g_have_welcome q" for i x y joy q
    by (simp add: apply_player_snapshot_def)
  show ?thesis
    by (simp add: handle_game_def Let_def on_round_start_def forget_round_def on_match_end_def on_brick_full_def
        decode_brick_full_def on_brick_delta_def on_seats_def on_name_def on_shot_def on_respawn_def
        on_snapshot_def for_slots_unfold fx clear anim split_beta)
qed

lemma handle_packet_welcome:
  assumes "g_have_welcome (k_game k)"
  shows "g_have_welcome (k_game (handle_packet buf now rel k))"
proof (cases rule: handle_packet_game [of buf now rel k])
  case hello
  then show ?thesis by (simp add: on_welcome_def)
qed (simp_all add: assms handle_game_welcome)

text \<open>Delivering everything under way: afterwards the event after the \<open>a\<close>-th is applied, if it was under way.\<close>

lemma deliver_all:
  "in_step s a k ns ms \<Longrightarrow> welcomed s \<Longrightarrow> a + 1 \<in> set ns \<or> k = a + 1 \<Longrightarrow>
   \<exists>t ms2. link_run s t \<and> l_posted t = l_posted s \<and> welcomed t \<and> in_step t a (a + 1) [] ms2"
proof (induction "l_down s" arbitrary: s k ns ms)
  case Nil
  then have "ns = []" by (simp add: in_step_def)
  then show ?case using Nil by (intro exI [of _ s] exI [of _ ms]) simp
next
  case (Cons p rest)
  define k' where "k' = handle_packet p 0 False (l_client s)"
  define t where "t = s\<lparr>l_client := k', l_down := rest, l_up := l_up s @ acks_sent p (l_client s) k',
      l_applied := l_applied s @ events_taken p (l_client s) k'\<rparr>"
  have step: "link_step s t" unfolding t_def by (rule deliver [OF Cons(2) [symmetric] k'_def])
  from in_step_deliver [OF Cons(3) Cons(2) [symmetric] k'_def, folded t_def] Cons(4,5)
  obtain n ns2 ms2 where inv: "in_step t a n ns2 ms2" and due: "a + 1 \<in> set ns2 \<or> n = a + 1" by blast
  have "welcomed t" using handle_packet_welcome [OF Cons(4), of p 0 False] by (simp add: t_def k'_def)
  from Cons(1) [OF _ inv this due] obtain u ms3 where "link_run t u" "l_posted u = l_posted t" "welcomed u"
    "in_step u a (a + 1) [] ms3" by (auto simp: t_def)
  then show ?case using step by (intro exI [of _ u] exI [of _ ms3]) (auto simp: t_def intro: converse_rtranclp_into_rtranclp)
qed

text \<open>Handling acknowledgements until the pending one has been seen.\<close>

lemma ack_all:
  "in_step s a (a + 1) ns ms \<Longrightarrow> welcomed s \<Longrightarrow>
   \<exists>t ns2 ms2. link_run s t \<and> l_posted t = l_posted s \<and> welcomed t \<and> in_step t (a + 1) (a + 1) ns2 ms2"
proof (induction "l_up s" arbitrary: s ns ms)
  case Nil
  then have "ms = []" "a + 1 \<in> set ms" by (auto simp: in_step_def)
  then show ?case by simp
next
  case (Cons p rest)
  obtain c e where run: "reliable_ack (l_server s) (event_rev p) 0 (l_env s) = (c, e)" by force
  define t where "t = s\<lparr>l_server := c, l_env := e, l_up := rest,
      l_down := l_down s @ ack_out (event_rev p) (l_server s) c\<rparr>"
  have step: "link_step s t" unfolding t_def by (rule ack [OF Cons(2) [symmetric] run])
  obtain m ms2 where ms: "ms = m # ms2" using Cons(2,3) by (cases ms) (auto simp: in_step_def)
  then obtain ns2 where inv: "in_step t m (a + 1) ns2 ms2"
    using in_step_ack [OF Cons(3) Cons(2) [symmetric] run
        may_send_outs(2) [where a = "event_rev p" and c = "l_server s" and d = c], folded t_def] by auto
  have "m = a \<or> m = a + 1" using Cons(3) ms by (auto simp: in_step_def)
  then show ?case
  proof
    assume "m = a + 1"
    then show ?case using inv step Cons(4) by (intro exI [of _ t] exI [of _ ns2] exI [of _ ms2]) (auto simp: t_def)
  next
    assume "m = a"
    then have "in_step t a (a + 1) ns2 ms2" "welcomed t" "rest = l_up t" using inv Cons(4) by (simp_all add: t_def)
    from Cons(1) [OF this(3,1,2)] obtain u ns3 ms3 where "link_run t u" "l_posted u = l_posted t" "welcomed u"
      "in_step u (a + 1) (a + 1) ns3 ms3" by auto
    then show ?case using step
      by (intro exI [of _ u] exI [of _ ns3] exI [of _ ms3]) (auto simp: t_def intro: converse_rtranclp_into_rtranclp)
  qed
qed

text \<open>A retransmission, the deliveries and the acknowledgements retire one event.\<close>

lemma retire_one:
  assumes "in_step s a k ns ms" "welcomed s" "0 < reliable_count (l_server s)"
  shows "\<exists>t ns2 ms2. link_run s t \<and> l_posted t = l_posted s \<and> welcomed t \<and> in_step t (a + 1) (a + 1) ns2 ms2"
proof -
  define now where "now = reliable_last_send_ms (l_server s) + RELIABLE_RESEND_MS"
  have "length (fst (reliable_tick_step now 0 ([l_server s], l_env s))) = 1"
    by (simp only: length_tick_step) simp
  then obtain c e where tick: "reliable_tick_step now 0 ([l_server s], l_env s) = ([c], e)"
    by (cases "reliable_tick_step now 0 ([l_server s], l_env s)") (auto simp: length_Suc_conv)
  define t where "t = s\<lparr>l_server := c, l_env := e, l_down := l_down s @ tick_out now (l_server s) c\<rparr>"
  have step: "link_step s t" unfolding t_def by (rule resend [OF tick])
  note holds = in_step_holds [OF assms(1)]
  have "tick_out now (l_server s) c \<noteq> []" using assms(3) by (simp add: tick_out_def now_def)
  then obtain ns2 where inv: "in_step t a k ns2 ms" "a + 1 \<in> set ns2"
    using in_step_resend [OF assms(1) holds_from_tick [OF holds tick]
        may_send_outs(3) [OF holds_from_tick_count [OF holds tick], where now = now], where e = e]
    by (auto simp: t_def)
  have "welcomed t" using assms(2) by (simp add: t_def)
  from deliver_all [OF inv(1) this] inv(2) obtain u ms2 where u: "link_run t u" "l_posted u = l_posted t" "welcomed u"
    "in_step u a (a + 1) [] ms2" by blast
  from ack_all [OF u(4,3)] obtain v ns3 ms3 where "link_run u v" "l_posted v = l_posted u" "welcomed v"
    "in_step v (a + 1) (a + 1) ns3 ms3" by blast
  then show ?thesis using step u(1,2)
    by (intro exI [of _ v] exI [of _ ns3] exI [of _ ms3])
      (auto simp: t_def intro: converse_rtranclp_into_rtranclp rtranclp_trans)
qed

lemma retire_all:
  "in_step s a k ns ms \<Longrightarrow> welcomed s \<Longrightarrow>
   \<exists>t. link_run s t \<and> l_posted t = l_posted s \<and> l_applied t = l_posted s \<and> reliable_count (l_server t) = 0"
proof (induction "reliable_count (l_server s)" arbitrary: s a k ns ms)
  case 0
  then have "length (l_posted s) = a" using in_step_holds [OF 0(2)] by (simp add: holds_from_def)
  then have "l_applied s = l_posted s" using 0(2) by (simp add: in_step_def)
  then show ?case using 0(1) by auto
next
  case (Suc n)
  from retire_one [OF Suc(3,4)] Suc(2) obtain t ns2 ms2 where t: "link_run s t" "l_posted t = l_posted s" "welcomed t"
    "in_step t (a + 1) (a + 1) ns2 ms2" by auto
  have "n = reliable_count (l_server t)"
    using in_step_holds [OF Suc(3)] in_step_holds [OF t(4)] t(2) Suc(2) by (simp add: holds_from_def)
  from Suc(1) [OF this t(4,3)] t(1,2) show ?case by (metis rtranclp_trans)
qed

text \<open>
  C25: The reliable stream never gets stuck. From every reachable moment of a connection whose
  client has been welcomed, retransmissions, deliveries and acknowledgements alone lead to a moment
  where every event posted so far has been applied and the server's ring is empty.
\<close>

theorem reliable_stream_progress:
  assumes "link_reach s" "g_have_welcome (k_game (l_client s))"
  shows "\<exists>t. rtranclp link_step s t \<and> l_posted t = l_posted s \<and> l_applied t = l_posted s \<and> reliable_count (l_server t) = 0"
proof -
  from link_reach_in_step [OF assms(1)] obtain a k ns ms where "in_step s a k ns ms" by blast
  then show ?thesis using assms(2) by (rule retire_all)
qed

theorem reliable_stream_progress_witness:
  "\<exists>t. rtranclp link_step demo_posted t \<and> l_applied t = l_posted demo_posted"
  using reliable_stream_progress [OF demo_posted_reach] by blast

end
