(* ===== verification/Join.thy ===== *)
theory Join
  imports Link Curses
begin

text \<open>
  Joining a round, across server and clients: the packets \<open>send_round_state\<close> and the next tick
  produce for a seated client, handled in order by either client.
\<close>

text \<open>What \<open>send_round_state\<close> appends to the queue of a slot, with the revisions it gives out.\<close>

definition round_events :: "nat \<Rightarrow> u64 \<Rightarrow> room \<Rightarrow> (u16 \<times> bytes) list" where
  "round_events i now r =
     drop (reliable_count (r_clients r ! i)) (outbox (r_clients (send_round_state i now r) ! i))"

lemma enqueue_next_rev:
  "reliable_enqueue_client c event seq now e = (True, d, seq', e') \<Longrightarrow> seated c \<Longrightarrow>
    reliable_next_rev d = reliable_next_rev c + 1"
  by (auto simp: reliable_enqueue_client_def seated_def Let_def reliable_push_def split_beta
      send_checked_fields split: if_splits)

lemma round_events_packets:
  assumes "base_ok r" "i < MAX_PLAYERS" "seated (r_clients r ! i)" "r_round_state r \<noteq> ROUND_OVER"
    and "reliable_count (r_clients r ! i) + 2 \<le> RELIABLE_QUEUE_MAX" "v = reliable_next_rev (r_clients r ! i)"
  shows "round_events i now r =
    [(v, reliable_packet (r_seq r + 1) v [PKT_ROUND_START, r_round_id r, kill_limit r]),
     (v + 1, reliable_packet (r_seq r + 2) (v + 1) (build_brick_full (r_seq r) (r_brick_bits r) (r_round_id r)))]"
proof -
  let ?c = "r_clients r ! i" and ?full = "build_brick_full (r_seq r) (r_brick_bits r) (r_round_id r)"
  obtain ok d sq e where one: "reliable_enqueue_client ?c [PKT_ROUND_START, r_round_id r, kill_limit r]
        (r_seq r + 1) now (r_env r) = (ok, d, sq, e)" by (metis prod_cases4)
  obtain ok2 d2 sq2 e2 where two: "reliable_enqueue_client d ?full sq now e = (ok2, d2, sq2, e2)"
    by (metis prod_cases4)
  have len: "length (r_clients r) = 4" by (rule base_ok_lengths(1) [OF assms(1)])
  note s1 = enqueue_spec [OF base_ok_link [OF assms(1,2)] assms(3) one]
  then have ok and d: "link_ok d" "sq = r_seq r + 1 + 1" "outbox d = outbox ?c @ [(v, reliable_packet (r_seq r + 1) v
      [PKT_ROUND_START, r_round_id r, kill_limit r])]" using assms(5,6) by simp_all
  have "reliable_count d = reliable_count ?c + 1" using d(3) length_outbox [of d] by simp
  moreover have "reliable_next_rev d = v + 1" using enqueue_next_rev [OF _ assms(3)] one \<open>ok\<close> assms(6) by simp
  moreover have "seated d" using coreD(19) [OF core_enqueue [of ?c _ "r_seq r + 1" now "r_env r"],
      of "[PKT_ROUND_START, r_round_id r, kill_limit r]"] one assms(3) by simp
  moreover have "length ?full = 52" using base_ok_lengths(4) [OF assms(1)] by (simp add: build_brick_full_def)
  ultimately have "outbox d2 = outbox d @ [(v + 1, reliable_packet sq (v + 1) ?full)]"
    using enqueue_spec [OF d(1) _ two] assms(5) by simp
  then show ?thesis
    using send_round_state_seated [OF assms(3) _ assms(4) one] assms(2) len two \<open>ok\<close> d(2,3)
    by (simp add: round_events_def add.assoc)
qed

lemma event_game:
  assumes "g_have_welcome (k_game k)" "reliable_inner_is_valid event" "v = k_rev k + 1"
  shows "k_game (handle_packet (reliable_packet s v event) now False k) = handle_game event now True (k_game k)"
    "k_rev (handle_packet (reliable_packet s v event) now False k) = v"
proof -
  have "7 \<le> length (reliable_packet s v event)" "reliable_packet s v event ! 0 = PKT_RELIABLE_EVENT"
    using valid_inner_plain [OF assms(2)] by (simp_all add: reliable_packet_def)
  moreover have "drop 4 (reliable_packet s v event) = event" by (simp add: reliable_packet_def)
  ultimately show "k_game (handle_packet (reliable_packet s v event) now False k) = handle_game event now True (k_game k)"
    "k_rev (handle_packet (reliable_packet s v event) now False k) = v"
    using assms by (simp_all add: handle_packet_event)
qed

text \<open>The shared view after each of the three packets.\<close>

definition round_entered :: "room \<Rightarrow> bool \<Rightarrow> bool \<Rightarrow> bytes \<Rightarrow> shared \<Rightarrow> bool" where
  "round_entered r have_map have_snap bits h \<longleftrightarrow> h_welcome h \<and> h_round_id h = r_round_id r \<and> h_phase h = PHASE_PLAYING \<and>
     h_authorized h \<and> h_map_ready h = have_map \<and> h_snapshot_ready h = have_snap \<and> h_bricks h = bits"

lemma enter_start:
  assumes "h_welcome h" "h_round_id h = r_round_id r \<or> round_is_newer (r_round_id r) (h_round_id h)"
  shows "\<exists>have_map. round_entered r have_map (h_round_id h = r_round_id r \<and> h_authorized h \<and> h_snapshot_ready h)
      (h_bricks h) (shared_game [PKT_ROUND_START, r_round_id r, l] rel h)"
  using assms by (auto simp: shared_game_def shared_round_start_def round_entered_def Let_def)

lemma enter_map:
  "round_entered r have_map have_snap bits h \<Longrightarrow> length (r_brick_bits r) = 48 \<Longrightarrow>
    round_entered r True have_snap (r_brick_bits r) (shared_game (build_brick_full s (r_brick_bits r) (r_round_id r)) True h)"
  by (simp add: round_entered_def shared_game_def build_brick_full_def nth_append Let_def)

lemma enter_snapshot:
  "round_entered r True have_snap bits h \<Longrightarrow> i < MAX_PLAYERS \<Longrightarrow> r_round_id q = r_round_id r \<Longrightarrow>
    round_entered r True True bits (shared_game (snapshot_for s z i q) rel h) \<and>
    h_local_pid (shared_game (snapshot_for s z i q) rel h) = int i"
  using snapshot_flags_decode [of i]
  by (simp add: round_entered_def shared_game_def shared_snapshot_def snapshot_for_bytes Let_def)

lemma entered_ready: "round_entered r a b bits (shared_of_game g) \<Longrightarrow> game_ready g = (a \<and> b)"
  by (auto simp: round_entered_def game_ready_def)

text \<open>
  C10: Joining makes a client ready, and nothing less does. \<open>send_round_state\<close> for a seated slot with
  room in its queue appends two packets; a welcomed client that expects the first of them, and whose
  round is not newer, handles both and then a snapshot of any later moment \<open>q\<close> of the round. It is
  then ready in that round, with the server's walls and its own slot, and a terminal client that has
  seen the same so far is ready with the same walls, round and slot. Before the snapshot it is not
  ready, unless it already was in this round with a snapshot of it: neither a client just welcomed
  nor one from an older round plays on the start, or on start and map, alone.
\<close>

theorem joining_client_ready:
  assumes "base_ok r" "i < MAX_PLAYERS" "seated (r_clients r ! i)" "r_round_state r \<noteq> ROUND_OVER"
    and "reliable_count (r_clients r ! i) + 2 \<le> RELIABLE_QUEUE_MAX"
    and "g_have_welcome (k_game k)" "reliable_next_rev (r_clients r ! i) = k_rev k + 1"
    and "g_round_id (k_game k) = r_round_id r \<or> round_is_newer (r_round_id r) (g_round_id (k_game k))"
    and "r_round_id q = r_round_id r"
    and "ps = map (\<lambda>p. (p, now)) (map snd (round_events i sent r) @ [snapshot_for s z i q])"
    and "k' = handle_packets ps k"
  shows "game_ready (k_game k') \<and> g_round_id (k_game k') = r_round_id r \<and> g_brick_bits (k_game k') = r_brick_bits r \<and>
    g_local_pid (k_game k') = int i \<and> k_rev k' = k_rev k + 2 \<and>
    (agree k m \<longrightarrow> (let v = m_view (snd (term_frames (map fst ps) m)) in
      gameplay_enabled v \<and> t_round_id v = r_round_id r \<and> t_bricks v = r_brick_bits r \<and> t_local_pid v = int i)) \<and>
    (\<not> (g_round_id (k_game k) = r_round_id r \<and> g_round_authorized (k_game k) \<and> g_round_snapshot_ready (k_game k)) \<and>
      0 < n \<and> n < 3 \<longrightarrow> \<not> game_ready (k_game (handle_packets (take n ps) k)))"
proof -
  have bits: "length (r_brick_bits r) = 48" using base_ok_lengths(4) [OF assms(1)] .
  let ?start = "[PKT_ROUND_START, r_round_id r, kill_limit r]"
    and ?map = "build_brick_full (r_seq r) (r_brick_bits r) (r_round_id r)"
  note sent = round_events_packets [OF assms(1-5) refl, unfolded assms(7), of sent]
  define k1 where "k1 = handle_packet (reliable_packet (r_seq r + 1) (k_rev k + 1) ?start) now False k"
  define k2 where "k2 = handle_packet (reliable_packet (r_seq r + 2) (k_rev k + 1 + 1) ?map) now False k1"
  note valid = server_events_valid(5) [of "r_round_id r" "kill_limit r"] server_events_valid(2) [OF bits, of "r_seq r" "r_round_id r"]
  note e1 = event_game [OF assms(6) valid(1) refl, of "r_seq r + 1" now, folded k1_def]
  define b where "b = (g_round_id (k_game k) = r_round_id r \<and> g_round_authorized (k_game k) \<and> g_round_snapshot_ready (k_game k))"
  obtain a where h1: "round_entered r a b (g_brick_bits (k_game k)) (shared_of_game (k_game k1))"
    using enter_start [of "shared_of_game (k_game k)" r "kill_limit r" True] assms(6,8)
    by (auto simp: e1(1) shared_handle_game b_def)
  have w1: "g_have_welcome (k_game k1)" using h1 by (simp add: round_entered_def)
  have "k_rev k + 1 + 1 = k_rev k1 + 1" by (simp add: e1(2))
  note e2 = event_game [OF w1 valid(2) this, of "r_seq r + 2" now, folded k2_def]
  have h2: "round_entered r True b (r_brick_bits r) (shared_of_game (k_game k2))"
    unfolding e2(1) shared_handle_game by (rule enter_map [OF h1 bits])
  have w2: "g_have_welcome (k_game k2)" using h2 by (simp add: round_entered_def)
  have k': "k' = handle_packet (snapshot_for s z i q) now False k2"
    by (simp add: assms(10,11) sent handle_packets_def k1_def k2_def)
  have e3: "k' = k2\<lparr>k_game := handle_game (snapshot_for s z i q) now False (k_game k2)\<rparr>"
    unfolding k' using w2 by (intro handle_packet_plain) (simp_all add: snapshot_for_bytes)
  have h3: "round_entered r True True (r_brick_bits r) (shared_of_game (k_game k'))" "h_local_pid (shared_of_game (k_game k')) = int i"
    using enter_snapshot [OF h2 assms(2,9), of s z False] by (simp_all add: e3 shared_handle_game)
  have "let v = m_view (snd (term_frames (map fst ps) m)) in
      gameplay_enabled v \<and> t_round_id v = r_round_id r \<and> t_bricks v = r_brick_bits r \<and> t_local_pid v = int i"
    if "agree k m"
  proof -
    have "list_all (\<lambda>(p, now). \<not> (2 \<le> length p \<and> p ! 0 = PKT_REJECT)) ps"
      by (simp add: assms(10) sent reliable_packet_def snapshot_for_bytes)
    from conjunct2 [OF agree_frames [OF that this], folded assms(11)]
    have ag: "agree k' (snd (term_frames (map fst ps) m))" .
    moreover have "g_have_welcome (k_game k')" using h3(1) by (simp add: round_entered_def)
    ultimately have "shared_of_term (m_view (snd (term_frames (map fst ps) m))) = shared_of_game (k_game k')"
      by (simp add: agree_def)
    with h3 have "round_entered r True True (r_brick_bits r) (shared_of_term (m_view (snd (term_frames (map fst ps) m))))"
      "h_local_pid (shared_of_term (m_view (snd (term_frames (map fst ps) m)))) = int i" by simp_all
    then show ?thesis using agree_ready [OF ag] entered_ready [OF h3(1)]
      by (simp add: round_entered_def Let_def shared_of_term_def)
  qed
  moreover have "\<not> game_ready (k_game (handle_packets (take n ps) k))" if "\<not> b" "0 < n" "n < 3"
  proof -
    have "n = 1 \<or> n = 2" using that by auto
    then show ?thesis using entered_ready [OF h1] entered_ready [OF h2] that(1)
      by (auto simp: assms(10) sent handle_packets_def k1_def k2_def)
  qed
  moreover have "k_rev k' = k_rev k + 2" by (simp add: e3 e2(2))
  moreover have "g_local_pid (k_game k') = int i" using h3(2) by (simp add: shared_of_game_def)
  ultimately show ?thesis using entered_ready [OF h3(1)] h3(1) by (auto simp: round_entered_def b_def)
qed

text \<open>A client just welcomed into the round of the room, on a link whose next revision is nine.\<close>

theorem joining_client_ready_witness:
  "let k = demo_client\<lparr>k_rev := 8\<rparr>;
     ps = map (\<lambda>p. (p, 50)) (map snd (round_events 1 90 demo_joined) @ [snapshot_for 6 2 1 demo_room]) in
   game_ready (k_game (handle_packets ps k)) \<and> \<not> game_ready (k_game (handle_packets (take 2 ps) k))"
proof -
  let ?k = "demo_client\<lparr>k_rev := 8\<rparr>"
  have f: "r_clients demo_joined ! 1 = demo_link" "r_round_state demo_joined \<noteq> ROUND_OVER"
    "r_round_id demo_joined = 1" "reliable_count demo_link = 2" "reliable_next_rev demo_link = 9"
    "r_round_id demo_room = 1"
    by (simp_all add: demo_joined_def upd_client_def modify_def demo_room_def demo_link_def)
  have slot: "(1::nat) < MAX_PLAYERS" by simp
  have k: "g_have_welcome (k_game ?k)" "g_round_id (k_game ?k) = 1" "\<not> g_round_authorized (k_game ?k)"
    by (simp_all add: demo_client_ok) (simp add: demo_client_game on_welcome_def)
  have room: "reliable_count (r_clients demo_joined ! 1) + 2 \<le> RELIABLE_QUEUE_MAX"
    "reliable_next_rev (r_clients demo_joined ! 1) = k_rev ?k + 1"
    "g_round_id (k_game ?k) = r_round_id demo_joined" "r_round_id demo_room = r_round_id demo_joined"
    unfolding f(1) using k(2) by (simp_all add: f)
  from joining_client_ready [OF demo_joined_ok(1) slot demo_joined_ok(2) f(2) room(1) k(1) room(2) disjI1 [OF room(3)]
      room(4) refl refl, of 50 90 6 2 undefined 2] k(3)
  show ?thesis by (simp add: Let_def)
qed

end
