(* ===== verification/Launch.thy ===== *)
theory Launch
  imports Canvas Join Options
begin

text \<open>
  How the two clients start: their command lines, the prompt for host and name of the graphical
  client, the connection, and the HELLO they queue. Answers of SDL, name resolution, \<open>inet_pton\<close> and
  the socket calls are inputs. Lemmas: what a started client looks like, and that its first bytes
  seat it at the server.
\<close>

section \<open>Arguments\<close>

text \<open>
  What \<open>main\<close> comes to: undefined behaviour, an exit with its status, or a result. \<open>Waiting\<close> stands
  for an input that has not come yet.
\<close>

datatype 'a launch = Undefined | Exits nat | Waiting | Goes 'a

primrec and_then :: "'a launch \<Rightarrow> ('a \<Rightarrow> 'b launch) \<Rightarrow> 'b launch" where
  "and_then Undefined f = Undefined"
| "and_then (Exits n) f = Exits n"
| "and_then Waiting f = Waiting"
| "and_then (Goes x) f = f x"

text \<open>\<open>None\<close>: the value does not fit an int, for which C defines no behaviour.\<close>

definition atoi :: "string \<Rightarrow> int option" where
  "atoi text =
     (let v = (case strtol 10 text of None \<Rightarrow> 0 | Some (v, _) \<Rightarrow> v) in
      if - (2 ^ 31) \<le> v \<and> v < 2 ^ 31 then Some v else None)"

definition number :: "string \<Rightarrow> (int \<Rightarrow> 'a) \<Rightarrow> 'a launch" where
  "number text f = (case atoi text of None \<Rightarrow> Undefined | Some n \<Rightarrow> Goes (f n))"

definition arg_bytes :: "string \<Rightarrow> bytes" where
  "arg_bytes text = map of_char text"

text \<open>
  The option loop both clients have: \<open>value a v\<close> is the effect of an option with the argument after
  it, \<open>None\<close> when \<open>a\<close> takes none; \<open>flag\<close> covers the rest.
\<close>

fun option_loop ::
  "(string \<Rightarrow> string \<Rightarrow> 's \<Rightarrow> 's launch option) \<Rightarrow> (string \<Rightarrow> 's \<Rightarrow> 's launch) \<Rightarrow> string list \<Rightarrow> 's \<Rightarrow> 's launch" where
  "option_loop value' flag [] s = Goes s"
| "option_loop value' flag [a] s = flag a s"
| "option_loop value' flag (a # v # rest) s =
     (case value' a v s of
        Some res \<Rightarrow> and_then res (option_loop value' flag rest)
      | None \<Rightarrow> and_then (flag a s) (option_loop value' flag (v # rest)))"

section \<open>The graphical client\<close>

record sdl_options =
  so_port :: int
  so_host :: bytes
  so_name :: bytes
  so_pid :: int
  so_scale :: int
  so_debug :: bool

definition sdl_defaults :: sdl_options where
  "sdl_defaults = \<lparr>so_port = 9000, so_host = arg_bytes ''127.0.0.1'', so_name = [], so_pid = -1, so_scale = 4,
     so_debug = False\<rparr>"

definition sdl_value :: "string \<Rightarrow> string \<Rightarrow> sdl_options \<Rightarrow> sdl_options launch option" where
  "sdl_value a v s =
     (if a = ''--port'' then Some (number v (\<lambda>n. s\<lparr>so_port := n\<rparr>))
      else if a = ''--host'' then Some (Goes (s\<lparr>so_host := take HOST_MAX (arg_bytes v)\<rparr>))
      else if a = ''--name'' then Some (Goes (s\<lparr>so_name := take NAME_LEN (arg_bytes v)\<rparr>))
      else if a = ''--pid'' then Some (number v (\<lambda>n. s\<lparr>so_pid := n\<rparr>))
      else if a = ''--scale'' then Some (number v (\<lambda>n. s\<lparr>so_scale := n\<rparr>))
      else None)"

definition sdl_flag :: "string \<Rightarrow> sdl_options \<Rightarrow> sdl_options launch" where
  "sdl_flag a s =
     (if a = ''--debug'' then Goes (s\<lparr>so_debug := True\<rparr>)
      else if a = ''--help'' then Exits 0
      else Exits 1)"

definition sdl_checked :: "sdl_options \<Rightarrow> sdl_options launch" where
  "sdl_checked s =
     (if so_port s \<le> 0 \<or> so_port s > 65535 then Exits 1
      else if so_pid s < -1 \<or> so_pid s \<ge> int MAX_PLAYERS then Exits 1
      else Goes s)"

definition sdl_arguments :: "string list \<Rightarrow> sdl_options launch" where
  "sdl_arguments args = and_then (option_loop sdl_value sdl_flag args sdl_defaults) sdl_checked"

text \<open>\<open>passes\<close> holds the events of each turn of the loop; the rest of a turn is drawing.\<close>

fun host_prompt_loop :: "prompt_event list list \<Rightarrow> prompt \<Rightarrow> prompt launch" where
  "host_prompt_loop [] p = Waiting"
| "host_prompt_loop (evs # passes) p =
     (case prompt_events evs p of
        None \<Rightarrow> Exits 0
      | Some q \<Rightarrow> if pr_accepted q then Goes q else host_prompt_loop passes q)"

text \<open>Each talk is one prompt with the answer of \<open>resolve_host\<close> to what it yields.\<close>

fun ask_host :: "(prompt_event list list \<times> bool) list \<Rightarrow> bytes \<Rightarrow> bytes \<Rightarrow> (bytes \<times> bytes) launch" where
  "ask_host [] host name = Waiting"
| "ask_host ((passes, resolved) # talks) host name =
     and_then (host_prompt_loop passes \<lparr>pr_host = host, pr_name = name, pr_field = 0, pr_accepted = False\<rparr>)
       (\<lambda>q. if resolved then Goes (pr_host q, pr_name q) else ask_host talks (pr_host q) (pr_name q))"

record sdl_start =
  ss_options :: sdl_options
  ss_layout :: layout
  ss_name :: bytes
  ss_loop :: sdl

definition sdl_hello :: "int \<Rightarrow> int \<Rightarrow> env \<Rightarrow> sdl" where
  "sdl_hello opt_pid sock e =
     \<lparr>s_client = client_send [PKT_HELLO, PROTOCOL_VERSION] (new_client opt_pid sock e), s_rx = tcp_rx_zero,
      s_input = input_zero, s_running = True, s_last_joy = 0xFF, s_last_send_ms = 0, s_last_name_send_ms = 0\<rparr>"

text \<open>\<open>main\<close> up to its loop. \<open>video\<close> and \<open>sock\<close> are the answers of SDL and of \<open>open_tcp_socket\<close>.\<close>

definition sdl_launch ::
  "string list \<Rightarrow> bool \<Rightarrow> (prompt_event list list \<times> bool) list \<Rightarrow> int \<Rightarrow> env \<Rightarrow> sdl_start launch" where
  "sdl_launch args video talks sock e =
     and_then (sdl_arguments args) (\<lambda>s.
       if \<not> video then Exits 1
       else and_then (ask_host talks (so_host s) (so_name s)) (\<lambda>(host, name).
         if sock < 0 then Exits 1
         else Goes \<lparr>ss_options = s\<lparr>so_host := host, so_name := name\<rparr>, ss_layout = layout_init (so_scale s),
                    ss_name = padded_name name, ss_loop = sdl_hello (so_pid s) sock e\<rparr>))"

section \<open>The terminal client\<close>

record term_options =
  to_host :: string
  to_port :: int
  to_pid :: int
  to_input :: "string option"
  to_name :: "string option"
  to_debug :: bool

definition term_defaults :: term_options where
  "term_defaults = \<lparr>to_host = ''127.0.0.1'', to_port = 9000, to_pid = -1, to_input = None, to_name = None,
     to_debug = False\<rparr>"

definition term_value :: "string \<Rightarrow> string \<Rightarrow> term_options \<Rightarrow> term_options launch option" where
  "term_value a v s =
     (if a = ''--host'' then Some (Goes (s\<lparr>to_host := v\<rparr>))
      else if a = ''--port'' then Some (number v (\<lambda>n. s\<lparr>to_port := n\<rparr>))
      else if a = ''--pid'' then Some (number v (\<lambda>n. s\<lparr>to_pid := n\<rparr>))
      else if a = ''--input'' then Some (Goes (s\<lparr>to_input := Some v\<rparr>))
      else if a = ''--name'' then Some (Goes (s\<lparr>to_name := Some v\<rparr>))
      else None)"

definition term_flag :: "string \<Rightarrow> term_options \<Rightarrow> term_options launch" where
  "term_flag a s =
     (if a = ''--debug'' then Goes (s\<lparr>to_debug := True\<rparr>)
      else if a = ''--help'' then Exits 0
      else Exits 1)"

definition term_checked :: "term_options \<Rightarrow> term_options launch" where
  "term_checked s = (if to_pid s < -1 \<or> to_pid s \<ge> int MAX_PLAYERS then Exits 1 else Goes s)"

definition term_arguments :: "string list \<Rightarrow> term_options launch" where
  "term_arguments args = and_then (option_loop term_value term_flag args term_defaults) term_checked"

record term_start =
  ts_port :: u16
  ts_name :: "bytes option"
  ts_loop :: term_loop

definition term_hello :: "int \<Rightarrow> int \<Rightarrow> env \<Rightarrow> term_loop" where
  "term_hello pid sock e =
     \<lparr>tl_term = term_send [PKT_HELLO, PROTOCOL_VERSION] (new_term pid sock e), tl_rx = tcp_rx_zero,
      tl_input = term_input_zero, tl_last_send_ms = 0, tl_last_name_send_ms = 0\<rparr>"

text \<open>
  The answers are those of \<open>socket\<close>, of \<open>inet_pton\<close> for a host, of \<open>connect\<close> with
  \<open>tcp_configure\<close>, and of \<open>open\<close> for an input device.
\<close>

definition term_launch ::
  "string list \<Rightarrow> int \<Rightarrow> (string \<Rightarrow> bool) \<Rightarrow> bool \<Rightarrow> (string \<Rightarrow> int) \<Rightarrow> env \<Rightarrow> term_start launch" where
  "term_launch args sock address linked device e =
     and_then (term_arguments args) (\<lambda>s.
       if sock < 0 \<or> \<not> address (to_host s) \<or> \<not> linked then Exits 1
       else if pred_option (\<lambda>path. device path < 0) (to_input s) \<and> to_input s \<noteq> None then Exits 1
       else Goes \<lparr>ts_port = word_of_int (to_port s), ts_name = map_option arg_bytes (to_name s),
                  ts_loop = term_hello (to_pid s) sock e\<rparr>)"

section \<open>What a started client looks like\<close>

lemma and_then_Goes: "and_then x f = Goes y \<longleftrightarrow> (\<exists>a. x = Goes a \<and> f a = Goes y)"
  by (cases x) auto

text \<open>What an option can set keeps to its buffer; what every option keeps, the loop keeps.\<close>

lemma option_loop_keeps:
  assumes "option_loop value' flag args s = Goes t" "P s"
    and "\<And>a v s t. value' a v s = Some (Goes t) \<Longrightarrow> P s \<Longrightarrow> P t" "\<And>a s t. flag a s = Goes t \<Longrightarrow> P s \<Longrightarrow> P t"
  shows "P t"
  using assms(1,2)
proof (induction value' \<equiv> value' flag \<equiv> flag args s rule: option_loop.induct)
  case (3 a v rest s)
  then show ?case using assms(3,4) [of a] by (auto simp: and_then_Goes split: option.splits)
qed (use assms(4) in auto)

definition sdl_buffers :: "sdl_options \<Rightarrow> bool" where
  "sdl_buffers s \<longleftrightarrow> length (so_host s) \<le> HOST_MAX \<and> length (so_name s) \<le> NAME_LEN"

lemma sdl_arguments_ok:
  assumes "sdl_arguments args = Goes s"
  shows "sdl_buffers s" "1 \<le> so_port s" "so_port s \<le> 65535" "-1 \<le> so_pid s" "so_pid s < 4"
proof -
  have "sdl_buffers t" if "option_loop sdl_value sdl_flag args sdl_defaults = Goes t" for t
    using that
  proof (rule option_loop_keeps)
    show "sdl_buffers sdl_defaults" by (simp add: sdl_buffers_def sdl_defaults_def arg_bytes_def)
    show "sdl_buffers b" if "sdl_value x v a = Some (Goes b)" "sdl_buffers a" for x v a b
      using that by (auto simp: sdl_buffers_def sdl_value_def number_def split: if_splits option.splits)
    show "sdl_buffers b" if "sdl_flag x a = Goes b" "sdl_buffers a" for x a b
      using that by (auto simp: sdl_buffers_def sdl_flag_def split: if_splits)
  qed
  then show "sdl_buffers s" "1 \<le> so_port s" "so_port s \<le> 65535" "-1 \<le> so_pid s" "so_pid s < 4"
    using assms by (auto simp: sdl_arguments_def and_then_Goes sdl_checked_def split: if_splits)
qed

definition prompt_fits :: "prompt \<Rightarrow> bool" where
  "prompt_fits p \<longleftrightarrow> length (pr_host p) \<le> HOST_MAX \<and> length (pr_name p) \<le> NAME_LEN"

lemma prompt_key_fits: "prompt_key ev p = Some q \<Longrightarrow> prompt_fits p \<Longrightarrow> prompt_fits q"
  by (auto simp: prompt_key_def prompt_fits_def edit_field_def type_char_def split: prompt_event.splits if_splits)

lemma prompt_events_fit: "prompt_events evs p = Some q \<Longrightarrow> prompt_fits p \<Longrightarrow> prompt_fits q"
  by (induction evs arbitrary: p) (auto split: option.splits dest: prompt_key_fits)

lemma host_prompt_fits: "host_prompt_loop passes p = Goes q \<Longrightarrow> prompt_fits p \<Longrightarrow> prompt_fits q"
  by (induction passes arbitrary: p) (auto split: option.splits if_splits dest: prompt_events_fit)

lemma ask_host_fits:
  assumes "ask_host talks host name = Goes (h, n)" "length host \<le> HOST_MAX" "length name \<le> NAME_LEN"
  shows "length h \<le> HOST_MAX \<and> length n \<le> NAME_LEN"
  using assms
proof (induction talks arbitrary: host name)
  case (Cons t talks)
  obtain passes resolved where t: "t = (passes, resolved)" by force
  then obtain q where q: "host_prompt_loop passes \<lparr>pr_host = host, pr_name = name, pr_field = 0, pr_accepted = False\<rparr> = Goes q"
    and rest: "(if resolved then Goes (pr_host q, pr_name q) else ask_host talks (pr_host q) (pr_name q)) = Goes (h, n)"
    using Cons.prems(1) by (auto simp: and_then_Goes)
  have "prompt_fits q" by (rule host_prompt_fits [OF q]) (use Cons.prems in \<open>simp add: prompt_fits_def\<close>)
  then show ?case using rest Cons.IH by (auto simp: prompt_fits_def split: if_splits)
qed simp

lemma sdl_launch_ok:
  assumes "sdl_launch args video talks sock e = Goes st"
  shows "sdl_buffers (ss_options st)" "1 \<le> so_port (ss_options st)" "so_port (ss_options st) \<le> 65535"
    "-1 \<le> so_pid (ss_options st)" "so_pid (ss_options st) < 4" "0 \<le> sock"
    "ss_layout st = layout_init (so_scale (ss_options st))" "ss_name st = padded_name (so_name (ss_options st))"
    "ss_loop st = sdl_hello (so_pid (ss_options st)) sock e"
proof -
  obtain s where s: "sdl_arguments args = Goes s" and rest: "video"
    "and_then (ask_host talks (so_host s) (so_name s)) (\<lambda>(host, name).
       if sock < 0 then Exits 1
       else Goes \<lparr>ss_options = s\<lparr>so_host := host, so_name := name\<rparr>, ss_layout = layout_init (so_scale s),
                  ss_name = padded_name name, ss_loop = sdl_hello (so_pid s) sock e\<rparr>) = Goes st"
    using assms by (auto simp: sdl_launch_def and_then_Goes split: if_splits)
  then obtain h n where hn: "ask_host talks (so_host s) (so_name s) = Goes (h, n)" and "0 \<le> sock"
    and st: "st = \<lparr>ss_options = s\<lparr>so_host := h, so_name := n\<rparr>, ss_layout = layout_init (so_scale s),
                  ss_name = padded_name n, ss_loop = sdl_hello (so_pid s) sock e\<rparr>"
    by (auto simp: and_then_Goes split: if_splits)
  note a = sdl_arguments_ok [OF s]
  have "length h \<le> HOST_MAX \<and> length n \<le> NAME_LEN"
    by (rule ask_host_fits [OF hn]) (use a(1) in \<open>simp_all add: sdl_buffers_def\<close>)
  then show "sdl_buffers (ss_options st)" "1 \<le> so_port (ss_options st)" "so_port (ss_options st) \<le> 65535"
    "-1 \<le> so_pid (ss_options st)" "so_pid (ss_options st) < 4" "0 \<le> sock"
    "ss_layout st = layout_init (so_scale (ss_options st))" "ss_name st = padded_name (so_name (ss_options st))"
    "ss_loop st = sdl_hello (so_pid (ss_options st)) sock e"
    using a \<open>0 \<le> sock\<close> by (simp_all add: st sdl_buffers_def)
qed

section \<open>HELLO reaches the server\<close>

text \<open>The bytes a connection carries: those already sent and those still queued.\<close>

lemma hello_stream:
  assumes "tcp_tx_queue_frame fd tcp_tx_zero [PKT_HELLO, PROTOCOL_VERSION] e = (ok, tx, e')" "e_wire e fd = []" "ok"
  shows "e_wire e' fd @ tx_data tx = encode_frame [PKT_HELLO, PROTOCOL_VERSION]"
proof -
  have q: "tcp_tx_queue fd tcp_tx_zero (encode_frame [PKT_HELLO, PROTOCOL_VERSION]) e = (ok, tx, e')"
    using assms(1) by (simp add: tcp_tx_queue_frame_def)
  have "tx_stream fd tcp_tx_zero e []" using assms(2) by (simp add: tx_stream_def tcp_tx_zero_def)
  from tcp_tx_queue_spec(5) [OF q this] show ?thesis
    using tcp_tx_queue_spec(3) [OF q] assms(3) by (simp add: tx_stream_def)
qed

lemma sdl_hello_stream:
  assumes "e_wire e sock = []" "k = s_client (sdl_hello pid sock e)" "\<not> tx_failed (k_tx k)"
  shows "e_wire (k_env k) sock @ tx_data (k_tx k) = encode_frame [PKT_HELLO, PROTOCOL_VERSION]"
proof -
  obtain ok tx e' where q: "tcp_tx_queue_frame sock tcp_tx_zero [PKT_HELLO, PROTOCOL_VERSION] e = (ok, tx, e')"
    by (metis prod_cases3)
  have k: "k_tx k = tx" "k_env k = e'"
    using q by (simp_all add: assms(2) sdl_hello_def client_send_def new_client_def)
  have "ok" using q assms(3) tcp_tx_queue_spec(3) [of sock tcp_tx_zero _ e ok tx e'] k
    by (simp add: tcp_tx_queue_frame_def)
  from hello_stream [OF q assms(1) this] show ?thesis using k by simp
qed

lemma term_hello_stream:
  assumes "e_wire e sock = []" "m = tl_term (term_hello pid sock e)" "\<not> tx_failed (m_tx m)"
  shows "e_wire (m_env m) sock @ tx_data (m_tx m) = encode_frame [PKT_HELLO, PROTOCOL_VERSION]"
proof -
  obtain ok tx e' where q: "tcp_tx_queue_frame sock tcp_tx_zero [PKT_HELLO, PROTOCOL_VERSION] e = (ok, tx, e')"
    by (metis prod_cases3)
  have m: "m_tx m = tx" "m_env m = e'"
    using q by (simp_all add: assms(2) term_hello_def term_send_def new_term_def)
  have "ok" using q assms(3) tcp_tx_queue_spec(3) [of sock tcp_tx_zero _ e ok tx e'] m
    by (simp add: tcp_tx_queue_frame_def)
  from hello_stream [OF q assms(1) this] show ?thesis using m by simp
qed

text \<open>A whole frame fed to the room is the packet handled.\<close>

lemma push_incomplete: "0 \<notin> set xs \<Longrightarrow> fst (push_bytes st xs cap) = []"
  by (induction xs arbitrary: st) (auto simp: tcp_frame_push_byte_def split_beta Let_def)

lemma process_nonzero:
  assumes "slot < length (r_clients r)" "0 \<notin> set xs"
  shows "process_client_bytes slot xs now r =
    upd_client slot (\<lambda>c. c\<lparr>c_frame_rx := snd (push_bytes (c_frame_rx c) xs 16)\<rparr>) r"
  using assms
proof (induction xs arbitrary: r)
  case Nil
  then show ?case by (simp add: process_client_bytes_def upd_client_def modify_def)
next
  case (Cons b xs)
  let ?rx = "c_frame_rx (r_clients r ! slot)"
  obtain rx where push: "tcp_frame_push_byte ?rx b 16 = (FrameIncomplete, rx)"
    using Cons.prems by (simp add: tcp_frame_push_byte_def)
  let ?r1 = "upd_client slot (\<lambda>c. c\<lparr>c_frame_rx := rx\<rparr>) r"
  have "process_client_bytes slot (b # xs) now r = process_client_bytes slot xs now ?r1"
    by (simp add: process_client_bytes_def process_byte_def push)
  also have "\<dots> = upd_client slot (\<lambda>c. c\<lparr>c_frame_rx := snd (push_bytes (c_frame_rx c) xs 16)\<rparr>) ?r1"
    using Cons.prems by (intro Cons.IH) (simp_all add: upd_client_def)
  also have "\<dots> = upd_client slot (\<lambda>c. c\<lparr>c_frame_rx := snd (push_bytes (c_frame_rx c) (b # xs) 16)\<rparr>) r"
    using Cons.prems(1) by (simp add: upd_client_def modify_def push split_beta)
  finally show ?case .
qed

lemma process_frame:
  assumes "slot < length (r_clients r)" "frame_clean (c_frame_rx (r_clients r ! slot))" "1 \<le> length p" "length p \<le> 16"
  shows "process_client_bytes slot (encode_frame p) now r =
    handle_client_packet slot p now (upd_client slot (\<lambda>c. c\<lparr>received_packet := True\<rparr>) r)"
proof -
  let ?rx = "c_frame_rx (r_clients r ! slot)" and ?xs = "cobs_encode (p @ crc_trailer p)"
  obtain rs st where xs: "push_bytes ?rx ?xs 16 = (rs, st)" by force
  obtain res st' where last: "tcp_frame_push_byte st 0 16 = (res, st')" by force
  have "push_bytes ?rx (?xs @ [0]) 16 = ([FramePayload p], ?rx)"
    using push_encode_frame [OF assms(2,3,4)] assms(4) by (simp add: encode_frame_def)
  moreover have nz: "0 \<notin> set ?xs" by (rule cobs_encode_no_zero)
  moreover have "rs = []" using push_incomplete [OF nz] xs by (metis fst_conv)
  ultimately have last': "tcp_frame_push_byte st 0 16 = (FramePayload p, ?rx)"
    using xs last by (auto simp: push_bytes_append split: if_splits)
  let ?r1 = "upd_client slot (\<lambda>c. c\<lparr>c_frame_rx := st\<rparr>) r"
  have r1: "process_client_bytes slot ?xs now r = ?r1"
    using process_nonzero [OF assms(1) nz, of now] xs by (simp add: upd_client_def modify_def)
  have "process_client_bytes slot (encode_frame p) now r = process_byte slot now 0 (process_client_bytes slot ?xs now r)"
    by (simp add: encode_frame_def process_client_bytes_def)
  also have "\<dots> = handle_client_packet slot p now
      (upd_client slot (\<lambda>c. c\<lparr>received_packet := True\<rparr>) (upd_client slot (\<lambda>c. c\<lparr>c_frame_rx := ?rx\<rparr>) ?r1))"
    using assms(1) by (simp add: r1 process_byte_def) (simp add: upd_client_def modify_def last')
  also have "upd_client slot (\<lambda>c. c\<lparr>received_packet := True\<rparr>) (upd_client slot (\<lambda>c. c\<lparr>c_frame_rx := ?rx\<rparr>) ?r1) =
      upd_client slot (\<lambda>c. c\<lparr>received_packet := True\<rparr>) r"
    using assms(1) by (simp add: upd_client_def modify_def)
  finally show ?thesis .
qed

lemma hello_bytes_seat:
  assumes "sound r" "slot < MAX_PLAYERS" "in_use (r_clients r ! slot)" "\<not> handshake_ok (r_clients r ! slot)"
    and "frame_clean (c_frame_rx (r_clients r ! slot))"
    and "q = process_client_bytes slot (encode_frame [PKT_HELLO, PROTOCOL_VERSION]) now r"
  shows "sound q \<and> seated (r_clients q ! slot) \<and> r_round_state q \<noteq> ROUND_DORMANT \<and>
    (r_round_state q = ROUND_PLAYING \<longrightarrow> slot_on_board q slot)"
proof -
  let ?r = "upd_client slot (\<lambda>c. c\<lparr>received_packet := True\<rparr>) r"
  have len: "slot < length (r_clients r)" using assms(1,2) by (simp add: base_ok_lengths)
  have q: "q = handle_client_packet slot [PKT_HELLO, PROTOCOL_VERSION] now ?r"
    using process_frame [OF len assms(5), of "[PKT_HELLO, PROTOCOL_VERSION]" now] by (simp add: assms(6))
  have r: "sound ?r" using gameplay_rx(2) sound_gameplay assms(1) by blast
  have "in_use (r_clients ?r ! slot)" "\<not> handshake_ok (r_clients ?r ! slot)"
    using assms(3,4) len by (simp_all add: upd_client_def modify_def)
  from hello_seats_client [OF r assms(2) this, of now] bytes_sound [OF assms(1) _ assms(3)] assms(2)
  show ?thesis by (simp add: q [symmetric]) (simp add: assms(6))
qed

text \<open>
  C15: From the command line to a seat. Whatever the arguments and whatever is typed at the prompt, a
  graphical client that starts has a port and a player number in range, a host and a name that fit
  their buffers, a window of one of the five scales and a well-formed game; and unless its connection
  has failed, the bytes it has sent or queued, fed to any sound room on a fresh connection, seat it
  there: the room is awake, and while a round is open the player is on the board.
\<close>

theorem launched_client_joins:
  assumes "sdl_launch args video talks sock e = Goes st" "e_wire e sock = []" "k = s_client (ss_loop st)"
    and "\<not> tx_failed (k_tx k)" "sound r" "slot < MAX_PLAYERS" "in_use (r_clients r ! slot)"
    and "\<not> handshake_ok (r_clients r ! slot)" "frame_clean (c_frame_rx (r_clients r ! slot))"
    and "q = process_client_bytes slot (e_wire (k_env k) sock @ tx_data (k_tx k)) now r"
  shows "1 \<le> so_port (ss_options st) \<and> so_port (ss_options st) \<le> 65535 \<and>
    length (so_host (ss_options st)) \<le> 63 \<and> length (so_name (ss_options st)) \<le> 8 \<and> length (ss_name st) = 8 \<and>
    2 \<le> l_scale (ss_layout st) \<and> l_scale (ss_layout st) \<le> 6 \<and>
    game_ok (k_game k) \<and> -1 \<le> g_local_pid (k_game k) \<and> g_local_pid (k_game k) < 4 \<and>
    sound q \<and> seated (r_clients q ! slot) \<and> r_round_state q \<noteq> ROUND_DORMANT \<and>
    (r_round_state q = ROUND_PLAYING \<longrightarrow> slot_on_board q slot)"
proof -
  note st = sdl_launch_ok [OF assms(1)]
  have k: "k = s_client (sdl_hello (so_pid (ss_options st)) sock e)" by (simp add: assms(3) st(9))
  have q: "q = process_client_bytes slot (encode_frame [PKT_HELLO, PROTOCOL_VERSION]) now r"
    using sdl_hello_stream [OF assms(2) k assms(4)] by (simp add: assms(10))
  have game: "k_game k = game_zero (so_pid (ss_options st))" by (simp add: k sdl_hello_def new_client_def)
  show ?thesis
    using st(1-5) hello_bytes_seat [OF assms(5-9) q] layout_scale [of "so_scale (ss_options st)"]
      game_zero_ok [OF st(4,5)]
    by (simp add: game st(7,8) sdl_buffers_def padded_name_def game_zero_def)
qed

text \<open>
  The same of the terminal client. It checks the player number only: a port outside 16 bits is cut
  to its low bits.
\<close>

lemma term_launch_ok:
  assumes "term_launch args sock address linked device e = Goes ts"
  shows "\<exists>s. term_arguments args = Goes s \<and> -1 \<le> to_pid s \<and> to_pid s < 4 \<and> ts_port ts = word_of_int (to_port s) \<and>
    ts_loop ts = term_hello (to_pid s) sock e"
proof -
  obtain s where s: "term_arguments args = Goes s"
    and ts: "ts_port ts = word_of_int (to_port s)" "ts_loop ts = term_hello (to_pid s) sock e"
    using assms by (auto simp: term_launch_def and_then_Goes split: if_splits)
  have "-1 \<le> to_pid s \<and> to_pid s < 4"
    using s by (auto simp: term_arguments_def and_then_Goes term_checked_def split: if_splits)
  then show ?thesis using s ts by blast
qed

theorem launched_terminal_joins:
  assumes "term_launch args sock address linked device e = Goes ts" "e_wire e sock = []" "m = tl_term (ts_loop ts)"
    and "\<not> tx_failed (m_tx m)" "sound r" "slot < MAX_PLAYERS" "in_use (r_clients r ! slot)"
    and "\<not> handshake_ok (r_clients r ! slot)" "frame_clean (c_frame_rx (r_clients r ! slot))"
    and "q = process_client_bytes slot (e_wire (m_env m) sock @ tx_data (m_tx m)) now r"
  shows "sound q \<and> seated (r_clients q ! slot) \<and> r_round_state q \<noteq> ROUND_DORMANT \<and>
    (r_round_state q = ROUND_PLAYING \<longrightarrow> slot_on_board q slot)"
proof -
  obtain s :: term_options where "ts_loop ts = term_hello (to_pid s) sock e" using term_launch_ok [OF assms(1)] by blast
  then have "m = tl_term (term_hello (to_pid s) sock e)" by (simp add: assms(3))
  from term_hello_stream [OF assms(2) this assms(4)] show ?thesis
    using hello_bytes_seat [OF assms(5-9)] by (simp add: assms(10))
qed

lemma terminal_port_wraps:
  "\<exists>ts. term_launch [''--port'', ''74536''] 5 (\<lambda>_. True) True (\<lambda>_. 0) demo_env = Goes ts \<and> ts_port ts = 9000"
proof -
  have "atoi ''74536'' = Some 74536" by code_simp
  then show ?thesis
    by (simp add: term_launch_def term_arguments_def term_value_def term_defaults_def term_checked_def number_def)
qed

text \<open>A player who types a name, with a scale that is cut to 6.\<close>

definition demo_arguments :: "string list" where
  "demo_arguments = [''--port'', ''9001'', ''--scale'', ''9'', ''--name'', ''ANN'', ''--debug'']"

definition demo_talks :: "(prompt_event list list \<times> bool) list" where
  "demo_talks = [([[], [PromptReturn, PromptTyped 0x41], [PromptReturn]], True)]"

definition demo_options :: sdl_options where
  "demo_options = \<lparr>so_port = 9001, so_host = arg_bytes ''127.0.0.1'', so_name = arg_bytes ''ANN'', so_pid = -1,
     so_scale = 9, so_debug = True\<rparr>"

lemma demo_numbers: "atoi ''9001'' = Some 9001" "atoi ''9'' = Some 9"
  by code_simp+

lemma demo_parsed: "sdl_arguments demo_arguments = Goes demo_options"
  by (simp add: sdl_arguments_def demo_arguments_def sdl_value_def sdl_flag_def sdl_defaults_def number_def
      demo_numbers sdl_checked_def demo_options_def arg_bytes_def)

lemma demo_talk:
  "ask_host demo_talks (so_host demo_options) (so_name demo_options) =
     Goes (so_host demo_options, [0x41, 0x4E, 0x4E, 0x41])"
  by (simp add: demo_talks_def demo_options_def arg_bytes_def prompt_key_def edit_field_def type_char_def host_char_def)

lemma demo_launch:
  "\<exists>st. sdl_launch demo_arguments True demo_talks 5 demo_env = Goes st \<and> ss_loop st = sdl_hello (-1) 5 demo_env"
  by (simp add: sdl_launch_def demo_parsed demo_talk) (simp add: demo_options_def)

lemma demo_send: "fst (send_loop [SendTook 3, SendEINTR, SendEAGAIN] (b # bs) []) \<noteq> FlushBroken"
  by (cases "drop 3 (b # bs)") simp_all

lemma demo_hello_sent: "\<not> tx_failed (k_tx (s_client (sdl_hello (-1) 5 demo_env)))"
proof -
  obtain b bs where "encode_frame [PKT_HELLO, PROTOCOL_VERSION] = b # bs"
    by (cases "encode_frame [PKT_HELLO, PROTOCOL_VERSION]") (simp_all add: encode_frame_def)
  moreover have "length (encode_frame [PKT_HELLO, PROTOCOL_VERSION]) \<le> TCP_TX_CAP"
    by (simp add: encode_frame_def cobs_encode_length)
  ultimately show ?thesis using demo_send [of b bs]
    by (auto simp: sdl_hello_def client_send_def new_client_def tcp_tx_queue_frame_def tcp_tx_queue_def tcp_tx_zero_def
        tcp_tx_flush_def demo_env_def Let_def split: prod.splits flush_status.splits)
qed

lemma demo_guest_clean: "frame_clean (c_frame_rx (r_clients demo_guest ! 2))"
  by (simp add: demo_guest_def upd_client_def modify_def demo_room_def demo_link_def client_free_def)

theorem launched_client_joins_witness:
  "seated (r_clients (process_client_bytes 2 (e_wire (k_env (s_client (sdl_hello (-1) 5 demo_env))) 5 @
     tx_data (k_tx (s_client (sdl_hello (-1) 5 demo_env)))) 9 demo_guest) ! 2)"
proof -
  let ?k = "s_client (sdl_hello (-1) 5 demo_env)"
  obtain st where st: "sdl_launch demo_arguments True demo_talks 5 demo_env = Goes st" "ss_loop st = sdl_hello (-1) 5 demo_env"
    using demo_launch by blast
  have "e_wire demo_env 5 = []" by (simp add: demo_env_def)
  moreover have "?k = s_client (ss_loop st)" by (simp add: st(2))
  moreover have "\<not> tx_failed (k_tx ?k)" by (rule demo_hello_sent)
  moreover have "frame_clean (c_frame_rx (r_clients demo_guest ! 2))" by (rule demo_guest_clean)
  ultimately show ?thesis
    using launched_client_joins [OF st(1) _ _ _ demo_guest_ok(1) _ demo_guest_ok(2,3) _ refl] by simp
qed

end
