(* ===== verification/Spec2Isabelle.thy ===== *)
theory Spec2Isabelle
  imports Hosting Launch
begin

text \<open>
  A verification development of the networked Maze War: the game server
  (\<^verbatim>\<open>src/server\<close>), its wire protocol (\<^verbatim>\<open>src/net\<close>) and the two Linux clients
  (\<^verbatim>\<open>src/clients/linux\<close>).

  The program. A server process runs up to 64 rooms, each with a TCP listener, four slots and a maze of
  20 by 19 cells. A client sends framed packets (CRC-16, byte stuffing, a zero delimiter): HELLO for a
  seat, DELTA with a joystick byte, NAME, acknowledgements, LEAVE. A room ticks at a fixed rate:
  it applies queued inputs, moves players and zombies, flies shots, keeps the score, and sends snapshots;
  what a client may not miss (round start, match end, whole maps) goes through a numbered, repeated
  event stream. A publisher thread announces the rooms and their player counts to a lobby. The graphical
  and the terminal client keep a view of the game from the packets, draw it, and send what the keys say.

  How the code is represented. A C structure is a record, an integer of w bits is a word of w bits, int
  arithmetic that cannot overflow is int or nat, an array is a list of the array's length. A function that
  changes its arguments returns them. What the outside answers is part of the state or an argument:
  \<open>env\<close> (theory Transmit) scripts what \<^verbatim>\<open>send\<close> takes, the bytes put on each wire, the descriptors
  closed, the random numbers and the clock; \<open>recv_reply\<close> scripts \<^verbatim>\<open>recv\<close>; the events of one
  \<^verbatim>\<open>poll\<close>, keys, \<^verbatim>\<open>accept\<close> and name resolution are arguments. Return codes are options, sums or
  enumerations of their own. Undefined behaviour of C that can be reached is \<open>None\<close> or
  \<open>Undefined\<close>.

  The theories, in the order of the code:

  \<^item> Prelude, Interfaces: word and list lemmas, the bounded loops of the server, and the contracts
    between components as locales (serial number windows, bounded queues, framed streams, machines with an
    invariant), each interpreted where the code provides it: Inputs, Reliable, Wire, Receive, Server.
  \<^item> Wire, Transmit (\<^verbatim>\<open>net/tcp_stream.h\<close>, \<^verbatim>\<open>cobs_encode\<close> and \<^verbatim>\<open>send_frame\<close> of
    \<^verbatim>\<open>server/main.c\<close>): CRC, COBS, the frame receiver, the transmit buffer. Encoding and decoding
    are inverse, receivers resynchronise at a delimiter, damage is rejected, nothing queued is lost.
  \<^item> Transport (\<^verbatim>\<open>transport_normalize.c\<close>, \<^verbatim>\<open>transport_normalize.h\<close>, \<^verbatim>\<open>transport_stats.c\<close>):
    DELTA decoding, raw-stream recovery and the counters.
  \<^item> Maze, Room, Reliable, Inputs, Announce, Spawn, Rounds, Combat, Zombie, Players, Packets, Session,
    Server (\<^verbatim>\<open>server/main.c\<close>): the map and its file, the room and its packets, the event
    ring, the input queue, echoes, placement, the round life cycle, movement and shots, the zombies, the
    tick over the actors, the client packets, the connections, and the room's start, timers, tick, socket
    events and end. Wellformed and Phases hold the two invariants all of these keep; \<open>server_ok\<close>
    (theory Server) is their sum, an invariant of \<open>room_step\<close> over every sequence of events.
  \<^item> Options (\<^verbatim>\<open>main\<close> of \<^verbatim>\<open>server/main.c\<close> and its parsers): the command line up to the
    configuration of every room and of the publisher.
  \<^item> Lobby (\<^verbatim>\<open>lobby_publisher.c\<close>, \<^verbatim>\<open>lobby_publisher.h\<close>): the JSON request, the choice of the
    next room, retries, and the worker as a step relation beside the game loop.
  \<^item> Hosting (the rest of \<^verbatim>\<open>main\<close>): all rooms started or none, the loop over all rooms, the counts
    handed to the publisher while its worker runs, the shutdown. Every room of the process is a room in
    the sense of theory Server, so the properties of single rooms hold of it.
  \<^item> Receive, Client, ClientLoop (\<^verbatim>\<open>net/tcp_stream.h\<close>, \<^verbatim>\<open>sdl_main.c\<close>): the clients'
    receiver, the game state with its packet handler, and one pass of the main loop with the prompt and
    \<^verbatim>\<open>clean_leave\<close>.
  \<^item> Single, Canvas (\<^verbatim>\<open>sdl_main.c\<close>): single-precision arithmetic, and everything the graphical
    client draws, as the list of rectangles handed to \<^verbatim>\<open>SDL_FillRect\<close>.
  \<^item> Curses (\<^verbatim>\<open>clients/linux/main.c\<close>): the terminal client, its keys, packets and screen text, and
    its agreement with the graphical client. Launch: the command lines and the start of both clients.
  \<^item> Link, Join: server and client together. Link is the event stream end to end, a step relation over
    the server's operations, two queues of packets and the client's handler; the queues stand for a TCP
    connection that has not failed. Join brings a client into a round.

  What the lemmas show. Each component has its frame lemmas (what an operation leaves alone), its
  invariant, and the functional facts of each branch. Across components: in every reachable room the maze
  is closed, the actors and shots are on it, seats and phases agree, and descriptors are neither lost nor
  shared; no tick brings two actors together and a shot scores exactly when it meets one; sockets without a
  seat change nothing and seated ones only their own; events reach the client exactly once, in order and
  eventually; the two packets of a round and a snapshot make either client ready, and both show the
  server's maze and players; the process starts all its rooms or shuts down those it opened, and what the
  lobby last answered for a room is its count unless a newer one is on its way.

  Bounds and termination. Recursion is structural or comes with a measure: the unread bytes in the
  framing loops, the events left in the ring, the text left in the maze file, the distance to the limit
  in the drawing loops. Loops the code bounds keep its bound: 64 frames for each receive pass of a client,
  four skipped deadlines in a tick. \<^verbatim>\<open>clean_leave\<close> may spin while
  the clock stands still: \<open>leave_loop\<close> is a partial function, with the theorem that it returns
  once the clock has moved 750 ms. The publisher's worker runs over a list of its inputs, with the theorem
  that after a stop one more than the number of rooms is enough. The prompt of the graphical client waits
  for the user: it consumes a list of turns and \<open>Waiting\<close> is the answer when that list ends.
  In \<open>fl\<close> floats have no exponent bounds: overflow and subnormal numbers do not occur in
  the values drawn, and multiplication and addition are rounded one by one, not contracted.

  Assumptions about what is not this program's code: memory allocation succeeds, a random number and a
  clock reading may be anything (hypotheses name what a theorem needs of the clock), each room has its own
  part of the stream of \<^verbatim>\<open>rand\<close> (so that rooms do not disturb each other is built in, not shown), and \<^verbatim>\<open>poll\<close> reports the descriptors it was given.

  Not modelled:

  \<^item> system calls that keep no state of the program: opening and configuring sockets, signals,
    \<^verbatim>\<open>resolve_host\<close> and \<^verbatim>\<open>open_tcp_socket\<close>; only their answers appear;
  \<^item> \<^verbatim>\<open>post_json\<close>, which runs curl in a child process: its answer is an input of the publisher;
  \<^item> logging and usage texts, on which no decision depends;
  \<^item> the SDL and curses libraries: the pixels SDL makes of a rectangle, and \<^verbatim>\<open>SDL_MapRGB\<close>, a
    parameter; the terminal beyond the text written to it;
  \<^item> \<^verbatim>\<open>clean_leave\<close>, \<^verbatim>\<open>round_is_newer\<close>, \<^verbatim>\<open>pack_joy\<close> and \<^verbatim>\<open>reliable_inner_is_valid\<close> of
    the terminal client, which repeat the graphical client's functions and share their model;
  \<^item> the Atari client, written in 6502 assembly.
\<close>

end
